(* ===== verification/Prelude.thy ===== *)
theory Prelude
  imports Main "HOL-Library.Word" "HOL-Library.AList" "HOL-Library.Multiset"
begin

text \<open>
  What the component theories share: the machine types of the code, the ways a run can
  fail, error-propagating sequencing and folds, byte buffers (overlay, segment, removal of a
  segment), little-endian encodings of the integers the code copies with \<open>memcpy\<close>,
  \<open>std::to_string\<close>, and association lists as \<open>std::unordered_map\<close>.
\<close>

unbundle bit_operations_syntax

section \<open>Types\<close>

type_synonym byte = "8 word"
type_synonym bytes = "byte list"
type_synonym u16 = "16 word"
type_synonym u32 = "32 word"
type_synonym u64 = "64 word"

text \<open>
  The ways the process ends without finishing the operation: \<open>exit\<close> with an error
  code, a failed \<open>assert\<close>, an exception of the standard library
  (\<open>std::out_of_range\<close>, \<open>std::length_error\<close>), an access outside of an object or
  through a null pointer, a non-void function that ends without a \<open>return\<close>, and an
  integer division by zero.
\<close>

datatype failure =
    ExitFailure | AssertFailure | LibraryException | MemoryFault | MissingReturn | DivideByZero

type_synonym 'a result = "failure + 'a"

section \<open>Small words\<close>

lemma sint_small: "unat x < 2 ^ 31 \<Longrightarrow> sint x = uint x" for x :: u32
proof -
  assume "unat x < 2 ^ 31"
  then have "uint x < 2 ^ 31" by (simp flip: nat_uint_eq)
  moreover have "- (2 ^ 31) \<le> uint x" using uint_ge_0 [of x] by (simp add: order_trans [of _ 0])
  ultimately show ?thesis by (simp add: sint_uint signed_take_bit_int_eq_self)
qed

lemma sint_uint_small: "uint x < 2 ^ 31 \<Longrightarrow> sint x = uint x" for x :: u32
proof -
  assume "uint x < 2 ^ 31"
  then have "nat (uint x) < 2 ^ 31" by (simp add: nat_less_iff del: nat_uint_eq)
  then have "unat x < 2 ^ 31" by (simp only: nat_uint_eq)
  then show "sint x = uint x" by (rule sint_small)
qed

lemma unat_of_length: "n < 2 ^ 31 \<Longrightarrow> unat (of_nat n :: u32) = n"
  by (simp add: unat_of_nat)

section \<open>Sequencing of operations that can fail\<close>

definition and_then :: "'a result \<Rightarrow> ('a \<Rightarrow> 'b result) \<Rightarrow> 'b result" where
  "and_then r f = (case r of Inl e \<Rightarrow> Inl e | Inr x \<Rightarrow> f x)"

lemma and_then_simps [simp]:
  "and_then (Inl e) f = Inl e"
  "and_then (Inr x) f = f x"
  by (simp_all add: and_then_def)

lemma and_then_eq_Inr:
  "and_then r f = Inr y \<longleftrightarrow> (\<exists>x. r = Inr x \<and> f x = Inr y)"
  by (cases r) auto

lemma and_then_InrE [elim]:
  assumes "and_then r f = Inr y"
  obtains x where "r = Inr x" and "f x = Inr y"
  using assms by (auto simp: and_then_eq_Inr)

primrec foldE :: "('s \<Rightarrow> 'a \<Rightarrow> 's result) \<Rightarrow> 's \<Rightarrow> 'a list \<Rightarrow> 's result" where
  "foldE f s [] = Inr s"
| "foldE f s (x # xs) = and_then (f s x) (\<lambda>s'. foldE f s' xs)"

lemma foldE_append: "foldE f s (xs @ ys) = and_then (foldE f s xs) (\<lambda>s'. foldE f s' ys)"
proof (induction xs arbitrary: s)
  case Nil
  then show ?case by simp
next
  case (Cons x xs)
  then show ?case by (cases "f s x") auto
qed

text \<open>A loop over a list keeps an invariant and, under it, does not fail.\<close>

lemma foldE_total:
  assumes "I s"
    and "\<And>s x. I s \<Longrightarrow> x \<in> set xs \<Longrightarrow> \<exists>s'. f s x = Inr s' \<and> I s'"
  shows "\<exists>s'. foldE f s xs = Inr s' \<and> I s'"
  using assms
proof (induction xs arbitrary: s)
  case Nil
  then show ?case by simp
next
  case (Cons x xs)
  from Cons.prems obtain s' where "f s x = Inr s'" and "I s'"
    by (meson list.set_intros(1))
  with Cons.IH [of s'] Cons.prems(2) show ?case by auto
qed

lemma foldE_invariant:
  assumes "foldE f s xs = Inr s'" and "I s"
    and "\<And>s x s'. I s \<Longrightarrow> x \<in> set xs \<Longrightarrow> f s x = Inr s' \<Longrightarrow> I s'"
  shows "I s'"
  using assms
proof (induction xs arbitrary: s)
  case Nil
  then show ?case by simp
next
  case (Cons x xs)
  from Cons.prems(1) obtain t where t: "f s x = Inr t" and rest: "foldE f t xs = Inr s'"
    by auto
  have "I t" by (rule Cons.prems(3) [OF Cons.prems(2) _ t]) simp
  with rest show ?case
    by (rule Cons.IH) (use Cons.prems(3) in auto)
qed

section \<open>Byte buffers\<close>

text \<open>
  \<open>memcpy(buf + off, d, length d)\<close> into a zero-initialised array of which the list holds
  the part that has been written; \<open>pwrite\<close> to a file has the same effect (a gap reads as
  zeros).
\<close>

definition overlay :: "bytes \<Rightarrow> nat \<Rightarrow> bytes \<Rightarrow> bytes" where
  "overlay buf off d =
     take off buf @ replicate (off - length buf) 0 @ d @ drop (off + length d) buf"

definition segment :: "nat \<Rightarrow> nat \<Rightarrow> 'a list \<Rightarrow> 'a list" where
  "segment off len xs = take len (drop off xs)"

definition cut :: "nat \<Rightarrow> nat \<Rightarrow> 'a list \<Rightarrow> 'a list" where
  "cut off len xs = take off xs @ drop (off + len) xs"

named_theorems buf_simps \<open>reading back what was written to a buffer\<close>

lemma overlay_end [buf_simps]: "overlay buf (length buf) d = buf @ d"
  by (simp add: overlay_def)

lemma overlay_Nil_buf [buf_simps]: "overlay [] 0 d = d"
  by (simp add: overlay_def)

lemma overlay_0 [buf_simps]: "overlay buf 0 d = d @ drop (length d) buf"
  by (simp add: overlay_def)

lemma length_overlay: "length (overlay buf off d) = max (length buf) (off + length d)"
  by (simp add: overlay_def)

lemma length_segment: "length (segment off len xs) = min len (length xs - off)"
  by (simp add: segment_def)

lemma segment_add: "segment i (j + k) p = segment i j p @ segment (i + j) k p"
  by (simp add: segment_def take_add add.commute)

lemma segment_append1 [buf_simps]:
  "off + len \<le> length xs \<Longrightarrow> segment off len (xs @ ys) = segment off len xs"
  by (simp add: segment_def)

lemma segment_append2 [buf_simps]:
  "length xs \<le> off \<Longrightarrow> segment off len (xs @ ys) = segment (off - length xs) len ys"
  by (simp add: segment_def)

lemma segment_full [buf_simps]: "segment 0 (length xs) xs = xs"
  by (simp add: segment_def)

lemma segment_overlay [buf_simps]: "segment off (length d) (overlay buf off d) = d"
  by (simp add: segment_def overlay_def)

lemma segment_cut_before:
  assumes "off + len \<le> o1" "o1 \<le> length xs"
  shows "segment off len (cut o1 l1 xs) = segment off len xs"
proof -
  have "drop off (cut o1 l1 xs) = drop off (take o1 xs) @ drop (o1 + l1) xs"
    using assms by (simp add: cut_def)
  moreover have "len \<le> length (drop off (take o1 xs))" using assms by simp
  ultimately show ?thesis using assms by (simp add: segment_def drop_take min_def)
qed

lemma segment_cut_after:
  assumes "o1 + l1 \<le> off" "o1 \<le> length xs"
  shows "segment (off - l1) len (cut o1 l1 xs) = segment off len xs"
  using assms by (simp add: segment_def cut_def min_def)

lemma length_cut: "o1 + l1 \<le> length xs \<Longrightarrow> length (cut o1 l1 xs) = length xs - l1"
  by (simp add: cut_def)

section \<open>Little-endian integers\<close>

primrec le_bytes :: "nat \<Rightarrow> 'a::len word \<Rightarrow> bytes" where
  "le_bytes 0 w = []"
| "le_bytes (Suc n) w = ucast w # le_bytes n (drop_bit 8 w)"

primrec of_le :: "bytes \<Rightarrow> 'a::len word" where
  "of_le [] = 0"
| "of_le (b # bs) = ucast b OR push_bit 8 (of_le bs)"

lemma length_le_bytes [simp]: "length (le_bytes n w) = n"
  by (induction n arbitrary: w) auto

lemma bit_of_le:
  "bit (of_le bs :: 'a::len word) k \<longleftrightarrow>
     k < LENGTH('a) \<and> k < 8 * length bs \<and> bit (bs ! (k div 8)) (k mod 8)"
proof (induction bs arbitrary: k)
  case Nil
  then show ?case by simp
next
  case (Cons b bs)
  show ?case
  proof (cases "k < 8")
    case True
    then show ?thesis
      by (auto simp: bit_or_iff bit_ucast_iff bit_push_bit_iff)
  next
    case False
    then obtain j where j: "k = 8 + j" by (metis le_Suc_ex not_less)
    have "\<not> bit b k" using False by (simp add: bit_word.rep_eq)
    moreover have "(8 + j) div 8 = Suc (j div 8)" by simp
    ultimately show ?thesis
      using Cons.IH [of j] j by (auto simp: bit_or_iff bit_ucast_iff bit_push_bit_iff)
  qed
qed

lemma bit_le_bytes:
  "k < n \<Longrightarrow> j < 8 \<Longrightarrow> bit (le_bytes n w ! k) j \<longleftrightarrow> bit w (8 * k + j)"
proof (induction n arbitrary: w k)
  case 0
  then show ?case by simp
next
  case (Suc n)
  show ?case
  proof (cases k)
    case 0
    then show ?thesis using Suc.prems by (auto simp: bit_ucast_iff dest: bit_imp_le_length)
  next
    case (Suc k')
    then show ?thesis using Suc.prems Suc.IH [of k' "drop_bit 8 w"]
      by (simp add: bit_drop_bit_eq ac_simps)
  qed
qed

lemma of_le_le_bytes:
  assumes "LENGTH('a) \<le> 8 * n"
  shows "of_le (le_bytes n w) = (w :: 'a::len word)"
proof (rule bit_word_eqI)
  fix k assume "k < LENGTH('a)"
  with assms have "k < 8 * n" by simp
  then have "k div 8 < n" by (simp add: less_mult_imp_div_less mult.commute)
  with \<open>k < 8 * n\<close> \<open>k < LENGTH('a)\<close> show "bit (of_le (le_bytes n w) :: 'a word) k = bit w k"
    by (simp add: bit_of_le bit_le_bytes)
qed

lemma le_bytes_of_le:
  assumes "8 * length bs \<le> LENGTH('a)"
  shows "le_bytes (length bs) (of_le bs :: 'a::len word) = bs"
proof (rule nth_equalityI)
  show "length (le_bytes (length bs) (of_le bs :: 'a word)) = length bs" by simp
  fix i assume "i < length (le_bytes (length bs) (of_le bs :: 'a word))"
  then have i: "i < length bs" by simp
  show "le_bytes (length bs) (of_le bs :: 'a word) ! i = bs ! i"
  proof (rule bit_word_eqI)
    fix k assume k: "k < LENGTH(8)"
    then have "8 * i + k < 8 * length bs" using i by simp
    with assms i k show "bit (le_bytes (length bs) (of_le bs :: 'a word) ! i) k = bit (bs ! i) k"
      by (simp add: bit_le_bytes bit_of_le)
  qed
qed

section \<open>\<open>std::to_string\<close>\<close>

definition digit :: "nat \<Rightarrow> char" where
  "digit n = char_of (48 + n)"

fun nat_digits :: "nat \<Rightarrow> string" where
  "nat_digits n = (if n < 10 then [digit n] else nat_digits (n div 10) @ [digit (n mod 10)])"

declare nat_digits.simps [simp del]

definition to_string :: "int \<Rightarrow> string" where
  "to_string i = (if i < 0 then ''-'' @ nat_digits (nat (- i)) else nat_digits (nat i))"

definition digits_value :: "string \<Rightarrow> nat" where
  "digits_value s = foldl (\<lambda>a c. 10 * a + (of_char c - 48)) 0 s"

lemma of_char_digit: "n < 10 \<Longrightarrow> of_char (digit n) = (48 + n :: nat)"
  by (simp add: digit_def)

lemma digits_value_nat_digits: "digits_value (nat_digits n) = n"
proof (induction n rule: nat_digits.induct)
  case (1 n)
  show ?case
  proof (cases "n < 10")
    case True
    then show ?thesis
      by (subst nat_digits.simps) (simp add: digits_value_def of_char_digit)
  next
    case False
    with 1 have "foldl (\<lambda>a c. 10 * a + (of_char c - 48)) 0 (nat_digits (n div 10)) = n div 10"
      by (simp add: digits_value_def)
    with False show ?thesis
      by (subst nat_digits.simps) (simp add: digits_value_def of_char_digit)
  qed
qed

lemma nat_digits_inject [simp]: "nat_digits m = nat_digits n \<longleftrightarrow> m = n"
  by (metis digits_value_nat_digits)

lemma nat_digits_chars: "c \<in> set (nat_digits n) \<Longrightarrow> 48 \<le> (of_char c :: nat) \<and> of_char c < (58 :: nat)"
proof (induction n rule: nat_digits.induct)
  case (1 n)
  show ?case
  proof (cases "n < 10")
    case True
    with "1.prems" show ?thesis
      by (subst (asm) nat_digits.simps) (simp add: of_char_digit)
  next
    case False
    with 1 show ?thesis
      by (subst (asm) nat_digits.simps) (auto simp: of_char_digit)
  qed
qed

lemma nat_digits_not_Nil [simp]: "nat_digits n \<noteq> []"
  by (subst nat_digits.simps) simp

lemma minus_not_digit: "CHR ''-'' \<notin> set (nat_digits n)"
  using nat_digits_chars [of "CHR ''-''" n] by auto

lemma letter_not_digit: "(58 :: nat) \<le> of_char c \<Longrightarrow> c \<notin> set (nat_digits n)"
  using nat_digits_chars [of c n] by auto

lemma to_string_inject [simp]: "to_string i = to_string j \<longleftrightarrow> i = j"
proof -
  have "''-'' @ nat_digits m \<noteq> nat_digits n" for m n
    using minus_not_digit [of n] by (metis append_Cons list.set_intros(1))
  then show ?thesis
    by (auto simp: to_string_def) (metis append_Cons)+
qed

lemma letter_not_to_string: "(58 :: nat) \<le> of_char c \<Longrightarrow> c \<notin> set (to_string i)"
  using letter_not_digit by (auto simp: to_string_def)

section \<open>Association lists as hash tables\<close>

text \<open>
  \<open>emplace\<close> of \<open>std::unordered_map\<close> keeps the entry that is there. The order of
  the list stands for one iteration order of the table.
\<close>

definition emplace :: "'k \<Rightarrow> 'v \<Rightarrow> ('k \<times> 'v) list \<Rightarrow> ('k \<times> 'v) list" where
  "emplace k v t = (if k \<in> fst ` set t then t else t @ [(k, v)])"

named_theorems table_simps \<open>lookups in a table after an update\<close>

lemma map_of_emplace [table_simps]:
  "map_of (emplace k v t) = (if k \<in> dom (map_of t) then map_of t else (map_of t)(k \<mapsto> v))"
proof -
  have "map_of (t @ [(k, v)]) = (map_of t)(k \<mapsto> v)" if "map_of t k = None"
    using that by (auto simp: fun_eq_iff map_of_append map_add_def split: option.splits)
  then show ?thesis
    by (auto simp: emplace_def dom_map_of_conv_image_fst map_of_eq_None_iff)
qed

lemma distinct_emplace: "distinct (map fst t) \<Longrightarrow> distinct (map fst (emplace k v t))"
  by (auto simp: emplace_def)

lemma map_of_update [table_simps]: "map_of (AList.update k v t) = (map_of t)(k \<mapsto> v)"
  by (simp add: update_conv')

lemma map_of_delete [table_simps]: "map_of (AList.delete k t) = (map_of t)(k := None)"
  by (simp add: delete_conv')

lemma map_of_permute:
  assumes "mset xs = mset ys" and "distinct (map fst xs)"
  shows "map_of xs = map_of ys"
proof -
  have "set xs = set ys" using assms(1) by (rule mset_eq_setD)
  moreover have "mset (map fst xs) = mset (map fst ys)" using assms(1) by simp
  then have "distinct (map fst ys)" using assms(2) mset_eq_imp_distinct_iff by blast
  ultimately show ?thesis using assms(2) by (simp add: map_of_inject_set)
qed

end
