(* ===== verification/Codec.thy ===== *)
theory Codec
  imports Prelude
begin

text \<open>
  Fixed-width records copied between memory and files with \<open>memcpy\<close>, \<open>read\<close> and
  \<open>write\<close>: the locale \<open>fixed_codec\<close> is what a table of such records relies on,
  \<open>exact_codec\<close> adds that every byte string of the width is the image of a value.
\<close>

locale fixed_codec =
  fixes enc :: "'a \<Rightarrow> bytes"
    and dec :: "bytes \<Rightarrow> 'a"
    and width :: nat
  assumes width: "length (enc x) = width"
    and dec_enc: "dec (enc x) = x"
    and width_pos: "0 < width"
begin

lemma enc_inject: "enc x = enc y \<longleftrightarrow> x = y"
  by (metis dec_enc)

lemma length_table: "length (concat (map enc xs)) = length xs * width"
  by (induction xs) (simp_all add: width)

lemma segment_table:
  assumes "i < length xs"
  shows "segment (i * width) width (concat (map enc xs) @ ys) = enc (xs ! i)"
proof -
  have "concat (map enc xs) =
      concat (map enc (take i xs)) @ enc (xs ! i) @ concat (map enc (drop (Suc i) xs))"
    using id_take_nth_drop [OF assms] by (metis concat.simps(2) concat_append list.simps(9) map_append)
  moreover have "length (concat (map enc (take i xs))) = i * width"
    using assms by (simp add: length_table)
  ultimately show ?thesis by (simp add: segment_def width)
qed

text \<open>Reading back the records of a table.\<close>

lemma read_table:
  "map (\<lambda>i. dec (segment (i * width) width (concat (map enc xs) @ ys))) [0..<length xs] = xs"
  by (rule nth_equalityI) (simp_all add: segment_table dec_enc)

lemma table_inject: "concat (map enc xs) = concat (map enc ys) \<longleftrightarrow> xs = ys"
proof
  assume eq: "concat (map enc xs) = concat (map enc ys)"
  then have "length xs * width = length ys * width" by (metis length_table)
  then have "length xs = length ys" using width_pos by simp
  with eq read_table [of xs "[]"] read_table [of ys "[]"] show "xs = ys" by simp
qed simp

end

locale exact_codec = fixed_codec +
  assumes enc_dec: "length bs = width \<Longrightarrow> enc (dec bs) = bs"
begin

lemma dec_inject: "length bs = width \<Longrightarrow> length cs = width \<Longrightarrow> dec bs = dec cs \<longleftrightarrow> bs = cs"
  by (metis enc_dec)

end

section \<open>The 32-bit counter at the head of a file\<close>

definition enc_u32 :: "u32 \<Rightarrow> bytes" where "enc_u32 = le_bytes 4"

definition dec_u32 :: "bytes \<Rightarrow> u32" where "dec_u32 = of_le"

interpretation u32_codec: exact_codec enc_u32 dec_u32 4
proof
  show "enc_u32 (dec_u32 bs) = bs" if "length bs = 4" for bs
    using le_bytes_of_le [of bs, where 'a = 32] that by (simp add: enc_u32_def dec_u32_def)
qed (simp_all add: enc_u32_def dec_u32_def of_le_le_bytes)

end
