(* ===== verification/Metadata.thy ===== *)
theory Metadata
  imports Codec
begin

text \<open>
  \<open>include/MetadataManager.h\<close> and \<open>src/MetadataManager.cpp\<close>: fingerprints, index
  entries with their widths, their layout in the index file (36 bytes, little-endian), and
  the two tables of the manager with every operation on them.
\<close>

section \<open>Data\<close>

definition META_DATA_SIZE :: nat where "META_DATA_SIZE = 36"
definition SHA1_LENGTH :: nat where "SHA1_LENGTH = 20"
definition VALUE_LENGTH :: nat where "VALUE_LENGTH = 16"
definition FILE_CACHE :: nat where "FILE_CACHE = 256 * 1024 * 1024"
definition CONTAINER_SIZE :: nat where "CONTAINER_SIZE = 4 * 1024 * 1024"

datatype LookupResult = Unique | Dedup

record SHA1FP =
  fp1 :: u64
  fp2 :: u32
  fp3 :: u32
  fp4 :: u32

record ENTRY_VALUE =
  container_number :: u32
  offset :: u32
  chunk_length :: u16
  container_inner_index :: u16
  ref_cnt :: u32

text \<open>\<open>TupleEqualer\<close>.\<close>

definition tuple_equal :: "SHA1FP \<Rightarrow> SHA1FP \<Rightarrow> bool" where
  "tuple_equal lhs rhs \<longleftrightarrow>
     fp1 lhs = fp1 rhs \<and> fp2 lhs = fp2 rhs \<and> fp3 lhs = fp3 rhs \<and> fp4 lhs = fp4 rhs"

lemma tuple_equal_eq: "tuple_equal lhs rhs \<longleftrightarrow> lhs = rhs"
  by (cases lhs; cases rhs) (simp add: tuple_equal_def)

text \<open>The memory layout of the two structures.\<close>

definition enc_fp :: "SHA1FP \<Rightarrow> bytes" where
  "enc_fp fp = le_bytes 8 (fp1 fp) @ le_bytes 4 (fp2 fp) @ le_bytes 4 (fp3 fp) @ le_bytes 4 (fp4 fp)"

definition dec_fp :: "bytes \<Rightarrow> SHA1FP" where
  "dec_fp bs = \<lparr>fp1 = of_le (segment 0 8 bs), fp2 = of_le (segment 8 4 bs),
                fp3 = of_le (segment 12 4 bs), fp4 = of_le (segment 16 4 bs)\<rparr>"

definition enc_entry :: "ENTRY_VALUE \<Rightarrow> bytes" where
  "enc_entry e = le_bytes 4 (container_number e) @ le_bytes 4 (offset e) @
     le_bytes 2 (chunk_length e) @ le_bytes 2 (container_inner_index e) @ le_bytes 4 (ref_cnt e)"

definition dec_entry :: "bytes \<Rightarrow> ENTRY_VALUE" where
  "dec_entry bs = \<lparr>container_number = of_le (segment 0 4 bs), offset = of_le (segment 4 4 bs),
     chunk_length = of_le (segment 8 2 bs), container_inner_index = of_le (segment 10 2 bs),
     ref_cnt = of_le (segment 12 4 bs)\<rparr>"

interpretation fp_codec: exact_codec enc_fp dec_fp 20
proof
  show "enc_fp (dec_fp bs) = bs" if "length bs = 20" for bs
  proof -
    have parts: "bs = segment 0 8 bs @ segment 8 4 bs @ segment 12 4 bs @ segment 16 4 bs"
      using that segment_add [of 0 8 12 bs] segment_add [of 8 4 8 bs] segment_add [of 12 4 4 bs]
        segment_full [of bs] by simp
    have "length (segment 0 8 bs) = 8" "length (segment 8 4 bs) = 4"
      "length (segment 12 4 bs) = 4" "length (segment 16 4 bs) = 4"
      using that by (simp_all add: length_segment)
    then have "le_bytes 8 (of_le (segment 0 8 bs) :: u64) = segment 0 8 bs"
      "le_bytes 4 (of_le (segment 8 4 bs) :: u32) = segment 8 4 bs"
      "le_bytes 4 (of_le (segment 12 4 bs) :: u32) = segment 12 4 bs"
      "le_bytes 4 (of_le (segment 16 4 bs) :: u32) = segment 16 4 bs"
      using le_bytes_of_le [of "segment 0 8 bs", where 'a = 64]
        le_bytes_of_le [of "segment 8 4 bs", where 'a = 32]
        le_bytes_of_le [of "segment 12 4 bs", where 'a = 32]
        le_bytes_of_le [of "segment 16 4 bs", where 'a = 32] by simp_all
    then show ?thesis using parts by (simp add: enc_fp_def dec_fp_def)
  qed
qed (simp_all add: enc_fp_def dec_fp_def segment_def of_le_le_bytes)

interpretation entry_codec: fixed_codec enc_entry dec_entry 16
  by unfold_locales
    (simp_all add: enc_entry_def dec_entry_def segment_def of_le_le_bytes)

text \<open>One record of the index file.\<close>

definition enc_item :: "SHA1FP \<times> ENTRY_VALUE \<Rightarrow> bytes" where
  "enc_item it = enc_fp (fst it) @ enc_entry (snd it)"

definition dec_item :: "bytes \<Rightarrow> SHA1FP \<times> ENTRY_VALUE" where
  "dec_item bs = (dec_fp (segment 0 SHA1_LENGTH bs), dec_entry (segment SHA1_LENGTH VALUE_LENGTH bs))"

interpretation item_codec: fixed_codec enc_item dec_item META_DATA_SIZE
  by unfold_locales
    (simp_all add: enc_item_def dec_item_def segment_def META_DATA_SIZE_def SHA1_LENGTH_def
      VALUE_LENGTH_def fp_codec.width entry_codec.width fp_codec.dec_enc entry_codec.dec_enc)

section \<open>The manager\<close>

type_synonym fp_table = "(SHA1FP \<times> ENTRY_VALUE) list"

record MetadataManager =
  fp_table_origin :: fp_table
  fp_table_added :: fp_table

definition mm_new :: MetadataManager where
  "mm_new = \<lparr>fp_table_origin = [], fp_table_added = []\<rparr>"

text \<open>
  \<open>load\<close>: one \<open>read\<close> of at most \<open>FILE_CACHE\<close> bytes; a file that cannot be opened
  gives no entry. A fingerprint that is already in the table keeps its entry.
\<close>

definition load :: "bytes option \<Rightarrow> MetadataManager \<Rightarrow> MetadataManager" where
  "load file m =
     (let metadata_cache = (case file of None \<Rightarrow> [] | Some f \<Rightarrow> take FILE_CACHE f);
          entry_count = length metadata_cache div META_DATA_SIZE
      in m\<lparr>fp_table_origin :=
             fold (\<lambda>i t. emplace
                      (dec_fp (segment (i * META_DATA_SIZE) SHA1_LENGTH metadata_cache))
                      (dec_entry (segment (i * META_DATA_SIZE + SHA1_LENGTH) VALUE_LENGTH metadata_cache))
                      t)
               [0..<entry_count] (fp_table_origin m)\<rparr>)"

text \<open>\<open>save\<close>: the file is truncated, then the added entries and the loaded ones follow.\<close>

definition save :: "MetadataManager \<Rightarrow> bytes" where
  "save m = concat (map enc_item (fp_table_added m)) @ concat (map enc_item (fp_table_origin m))"

definition dedupLookup :: "MetadataManager \<Rightarrow> SHA1FP \<Rightarrow> LookupResult" where
  "dedupLookup m sha1 =
     (if map_of (fp_table_origin m) sha1 \<noteq> None then Dedup
      else if map_of (fp_table_added m) sha1 \<noteq> None then Dedup
      else Unique)"

definition addNewEntry :: "MetadataManager \<Rightarrow> SHA1FP \<Rightarrow> ENTRY_VALUE \<Rightarrow> MetadataManager result" where
  "addNewEntry m sha1 v =
     (if map_of (fp_table_added m) sha1 \<noteq> None then Inl AssertFailure
      else Inr (m\<lparr>fp_table_added := emplace sha1 v (fp_table_added m)\<rparr>))"

definition addRefCnt :: "MetadataManager \<Rightarrow> SHA1FP \<Rightarrow> (u32 \<times> MetadataManager) result" where
  "addRefCnt m sha1 =
     (case map_of (fp_table_added m) sha1 of
        Some v \<Rightarrow>
          let v' = v\<lparr>ref_cnt := ref_cnt v + 1\<rparr>
          in Inr (ref_cnt v', m\<lparr>fp_table_added := AList.update sha1 v' (fp_table_added m)\<rparr>)
      | None \<Rightarrow>
          (case map_of (fp_table_origin m) sha1 of
             Some v \<Rightarrow>
               let v' = v\<lparr>ref_cnt := ref_cnt v + 1\<rparr>
               in Inr (ref_cnt v', m\<lparr>fp_table_origin := AList.update sha1 v' (fp_table_origin m)\<rparr>)
           | None \<Rightarrow> Inl MissingReturn))"

definition decRefCnt :: "MetadataManager \<Rightarrow> SHA1FP \<Rightarrow> (u32 \<times> MetadataManager) result" where
  "decRefCnt m sha1 =
     (case map_of (fp_table_origin m) sha1 of
        Some v \<Rightarrow>
          if 1 < ref_cnt v then
            let v' = v\<lparr>ref_cnt := ref_cnt v - 1\<rparr>
            in Inr (ref_cnt v', m\<lparr>fp_table_origin := AList.update sha1 v' (fp_table_origin m)\<rparr>)
          else Inr (0, m\<lparr>fp_table_origin := AList.delete sha1 (fp_table_origin m)\<rparr>)
      | None \<Rightarrow> Inl MissingReturn)"

text \<open>\<open>operator[]\<close> inserts a zero entry for a fingerprint that is not there.\<close>

definition zero_entry :: ENTRY_VALUE where
  "zero_entry = \<lparr>container_number = 0, offset = 0, chunk_length = 0,
                 container_inner_index = 0, ref_cnt = 0\<rparr>"

definition getEntry :: "MetadataManager \<Rightarrow> SHA1FP \<Rightarrow> ENTRY_VALUE \<times> MetadataManager" where
  "getEntry m sha1 =
     (case map_of (fp_table_origin m) sha1 of
        Some v \<Rightarrow> (v, m)
      | None \<Rightarrow> (zero_entry,
          m\<lparr>fp_table_origin := emplace sha1 zero_entry (fp_table_origin m)\<rparr>))"

text \<open>
  The comparison of the \<open>uint32_t\<close> offset with an \<open>int\<close> is unsigned; the subtraction
  wraps. The parameters are the bit patterns of the two \<open>int\<close>s.
\<close>

definition move_back :: "u32 \<Rightarrow> u32 \<Rightarrow> ENTRY_VALUE \<Rightarrow> ENTRY_VALUE" where
  "move_back oft len v = (if oft < offset v then v\<lparr>offset := offset v - len\<rparr> else v)"

definition chunkOffsetDec :: "MetadataManager \<Rightarrow> SHA1FP \<Rightarrow> u32 \<Rightarrow> u32 \<Rightarrow> MetadataManager result" where
  "chunkOffsetDec m sha1 oft len =
     (case map_of (fp_table_origin m) sha1 of
        Some v \<Rightarrow> Inr (m\<lparr>fp_table_origin := AList.update sha1 (move_back oft len v) (fp_table_origin m)\<rparr>)
      | None \<Rightarrow>
          (case map_of (fp_table_added m) sha1 of
             Some v \<Rightarrow> Inr (m\<lparr>fp_table_added := AList.update sha1 (move_back oft len v) (fp_table_added m)\<rparr>)
           | None \<Rightarrow> Inl ExitFailure))"

section \<open>The index as one map\<close>

definition index :: "MetadataManager \<Rightarrow> SHA1FP \<rightharpoonup> ENTRY_VALUE" where
  "index m sha1 = (case map_of (fp_table_origin m) sha1 of
     Some v \<Rightarrow> Some v | None \<Rightarrow> map_of (fp_table_added m) sha1)"

text \<open>The two tables have distinct keys and share none.\<close>

definition mm_ok :: "MetadataManager \<Rightarrow> bool" where
  "mm_ok m \<longleftrightarrow> distinct (map fst (fp_table_origin m)) \<and> distinct (map fst (fp_table_added m)) \<and>
     (\<forall>k v. map_of (fp_table_origin m) k = Some v \<longrightarrow> map_of (fp_table_added m) k = None)"

named_theorems index_simps \<open>the index after an operation of the manager\<close>

lemma dedupLookup_index [index_simps]: "dedupLookup m sha1 = (if index m sha1 = None then Unique else Dedup)"
  by (auto simp: dedupLookup_def index_def split: option.splits)

lemma mm_new_index [index_simps]: "index mm_new = Map.empty"
  by (simp add: fun_eq_iff index_def mm_new_def)

lemma mm_ok_new: "mm_ok mm_new"
  by (simp add: mm_ok_def mm_new_def)

lemma addNewEntry_spec:
  assumes "mm_ok m" and "index m sha1 = None"
  shows "\<exists>m'. addNewEntry m sha1 v = Inr m' \<and> mm_ok m' \<and> index m' = (index m)(sha1 \<mapsto> v) \<and>
    fp_table_origin m' = fp_table_origin m"
  using assms
  by (auto simp: addNewEntry_def mm_ok_def index_def fun_eq_iff map_of_emplace distinct_emplace dom_def
      split: option.splits if_splits simp del: map_of_eq_Some_iff)

lemma addRefCnt_spec:
  assumes "mm_ok m" and "index m sha1 = Some v"
  shows "\<exists>m'. addRefCnt m sha1 = Inr (ref_cnt v + 1, m') \<and> mm_ok m' \<and>
    index m' = (index m)(sha1 \<mapsto> v\<lparr>ref_cnt := ref_cnt v + 1\<rparr>)"
  using assms
  by (auto simp: addRefCnt_def mm_ok_def index_def fun_eq_iff map_of_update distinct_update
      Let_def split: option.splits if_splits simp del: map_of_eq_Some_iff)

lemma decRefCnt_spec:
  assumes "mm_ok m" and "map_of (fp_table_origin m) sha1 = Some v"
  shows "\<exists>m'. decRefCnt m sha1 = Inr (if 1 < ref_cnt v then ref_cnt v - 1 else 0, m') \<and> mm_ok m' \<and>
    fp_table_added m' = fp_table_added m \<and>
    index m' = (if 1 < ref_cnt v then (index m)(sha1 \<mapsto> v\<lparr>ref_cnt := ref_cnt v - 1\<rparr>)
                else (index m)(sha1 := None))"
  using assms
  by (auto simp: decRefCnt_def mm_ok_def index_def fun_eq_iff map_of_update map_of_delete
      distinct_update distinct_delete Let_def split: option.splits if_splits simp del: map_of_eq_Some_iff)

lemma chunkOffsetDec_spec:
  assumes "mm_ok m" and "index m sha1 = Some v"
  shows "\<exists>m'. chunkOffsetDec m sha1 oft len = Inr m' \<and> mm_ok m' \<and>
    (fp_table_added m = [] \<longrightarrow> fp_table_added m' = []) \<and>
    index m' = (index m)(sha1 \<mapsto> move_back oft len v)"
  using assms
  by (auto simp: chunkOffsetDec_def mm_ok_def index_def fun_eq_iff map_of_update distinct_update
      split: option.splits if_splits simp del: map_of_eq_Some_iff)

lemma getEntry_spec:
  "map_of (fp_table_origin m) sha1 = Some v \<Longrightarrow> getEntry m sha1 = (v, m)"
  by (simp add: getEntry_def)

section \<open>Saving and loading\<close>

lemma segment_segment:
  "i + len \<le> len' \<Longrightarrow> segment i len (segment j len' xs) = segment (j + i) len xs"
  by (simp add: segment_def drop_take add.commute min_def)

lemma dec_item_segment:
  "dec_item (segment j META_DATA_SIZE xs) =
     (dec_fp (segment j SHA1_LENGTH xs), dec_entry (segment (j + SHA1_LENGTH) VALUE_LENGTH xs))"
  by (simp add: dec_item_def segment_segment META_DATA_SIZE_def SHA1_LENGTH_def VALUE_LENGTH_def)

lemma fold_emplace:
  assumes "distinct (map fst (t @ xs))"
  shows "fold (\<lambda>it. emplace (fst it) (snd it)) xs t = t @ xs"
  using assms
proof (induction xs arbitrary: t)
  case Nil
  then show ?case by simp
next
  case (Cons x xs)
  then have "emplace (fst x) (snd x) t = t @ [x]" by (auto simp: emplace_def)
  with Cons.prems Cons.IH [of "t @ [x]"] show ?case by simp
qed

text \<open>The records an index file of a given length gives back.\<close>

lemma load_table:
  assumes cache: "take FILE_CACHE f = concat (map enc_item xs) @ rest"
    and rest: "length rest < META_DATA_SIZE" and keys: "distinct (map fst xs)"
  shows "fp_table_origin (load (Some f) mm_new) = xs"
proof -
  let ?cache = "concat (map enc_item xs) @ rest"
  have "length ?cache = length xs * META_DATA_SIZE + length rest"
    by (simp add: item_codec.length_table)
  then have count: "length ?cache div META_DATA_SIZE = length xs"
    using rest by simp
  have "fp_table_origin (load (Some f) mm_new) =
      fold (\<lambda>i t. emplace (dec_fp (segment (i * META_DATA_SIZE) SHA1_LENGTH ?cache))
              (dec_entry (segment (i * META_DATA_SIZE + SHA1_LENGTH) VALUE_LENGTH ?cache)) t)
        [0..<length xs] []"
    by (simp add: load_def cache mm_new_def Let_def count [simplified])
  also have "\<dots> = fold (\<lambda>it. emplace (fst it) (snd it))
      (map (\<lambda>i. dec_item (segment (i * META_DATA_SIZE) META_DATA_SIZE ?cache)) [0..<length xs]) []"
    by (simp add: fold_map comp_def dec_item_segment)
  also have "\<dots> = xs"
    using keys by (simp only: item_codec.read_table fold_emplace append_Nil)
  finally show ?thesis .
qed

lemma take_table:
  "\<exists>rest. take FILE_CACHE (concat (map enc_item xs)) =
     concat (map enc_item (take (FILE_CACHE div META_DATA_SIZE) xs)) @ rest \<and>
     length rest < META_DATA_SIZE"
proof -
  let ?q = "FILE_CACHE div META_DATA_SIZE"
  let ?head = "concat (map enc_item (take ?q xs))" and ?tail = "concat (map enc_item (drop ?q xs))"
  have split: "concat (map enc_item xs) = ?head @ ?tail"
    by (metis append_take_drop_id concat_append map_append)
  have head: "length ?head = min (length xs) ?q * META_DATA_SIZE"
    by (simp add: item_codec.length_table)
  have fits: "?q * META_DATA_SIZE \<le> FILE_CACHE" and "FILE_CACHE - ?q * META_DATA_SIZE < META_DATA_SIZE"
    by (simp_all add: FILE_CACHE_def META_DATA_SIZE_def)
  moreover have "min (length xs) ?q * META_DATA_SIZE \<le> FILE_CACHE"
    using fits by (meson le_trans min.cobounded2 mult_le_mono1)
  ultimately have "take FILE_CACHE (concat (map enc_item xs)) =
      ?head @ take (FILE_CACHE - length ?head) ?tail"
    by (simp add: split head)
  moreover have "length (take (FILE_CACHE - length ?head) ?tail) < META_DATA_SIZE"
  proof (cases "length xs \<le> ?q")
    case True
    then show ?thesis by (simp add: META_DATA_SIZE_def)
  next
    case False
    then show ?thesis
      using \<open>FILE_CACHE - ?q * META_DATA_SIZE < META_DATA_SIZE\<close> by (simp add: head min_def)
  qed
  ultimately show ?thesis by blast
qed

lemma load_items:
  assumes "distinct (map fst xs)"
  shows "fp_table_origin (load (Some (concat (map enc_item xs))) mm_new) =
    take (FILE_CACHE div META_DATA_SIZE) xs"
proof -
  obtain rest where "take FILE_CACHE (concat (map enc_item xs)) =
     concat (map enc_item (take (FILE_CACHE div META_DATA_SIZE) xs)) @ rest"
     "length rest < META_DATA_SIZE"
    using take_table by blast
  moreover have "distinct (map fst (take (FILE_CACHE div META_DATA_SIZE) xs))"
    using assms by (simp add: take_map [symmetric])
  ultimately show ?thesis by (rule load_table)
qed

lemma load_added: "fp_table_added (load file m) = fp_table_added m"
  by (simp add: load_def Let_def)

lemma mm_ok_distinct: "mm_ok m \<Longrightarrow> distinct (map fst (fp_table_added m @ fp_table_origin m))"
proof -
  assume ok: "mm_ok m"
  have "k \<notin> fst ` set (fp_table_added m)" if "k \<in> fst ` set (fp_table_origin m)" for k
  proof -
    from that obtain v where "map_of (fp_table_origin m) k = Some v"
      by (metis domD dom_map_of_conv_image_fst)
    then have "map_of (fp_table_added m) k = None" using ok by (auto simp: mm_ok_def)
    then show ?thesis by (simp add: map_of_eq_None_iff)
  qed
  then show ?thesis using ok by (auto simp: mm_ok_def)
qed

lemma index_append: "mm_ok m \<Longrightarrow> index m = map_of (fp_table_added m @ fp_table_origin m)"
  by (auto simp: fun_eq_iff index_def mm_ok_def map_add_def split: option.split
      simp del: map_of_eq_Some_iff)

lemma mm_ok_load_items:
  "distinct (map fst xs) \<Longrightarrow> mm_ok (load (Some (concat (map enc_item xs))) mm_new)"
  using load_items [of xs] load_added [of "Some (concat (map enc_item xs))" mm_new]
  by (simp add: mm_ok_def mm_new_def flip: take_map)

text \<open>
  The tables are written in the order of their iteration, which the standard does not
  fix: any order of the same entries loads to the same index, while the index fits into
  the buffer \<open>load\<close> reads.
\<close>

lemma load_save_index:
  assumes "mm_ok m" and "mset xs = mset (fp_table_added m @ fp_table_origin m)"
    and "length xs * META_DATA_SIZE \<le> FILE_CACHE"
  shows "index (load (Some (concat (map enc_item xs))) mm_new) = index m"
proof -
  have "mset (map fst xs) = mset (map fst (fp_table_added m @ fp_table_origin m))"
    using assms(2) by (metis mset_map)
  then have dist: "distinct (map fst xs)"
    using mm_ok_distinct [OF assms(1)] mset_eq_imp_distinct_iff by blast
  have "length xs \<le> FILE_CACHE div META_DATA_SIZE"
    using assms(3) by (simp add: META_DATA_SIZE_def less_eq_div_iff_mult_less_eq)
  then have "fp_table_origin (load (Some (concat (map enc_item xs))) mm_new) = xs"
    by (simp add: load_items [OF dist])
  then have "index (load (Some (concat (map enc_item xs))) mm_new) = map_of xs"
    by (simp add: fun_eq_iff index_def load_added mm_new_def split: option.split)
  also have "\<dots> = index m"
    using map_of_permute [OF assms(2) dist] by (simp add: index_append [OF assms(1)])
  finally show ?thesis .
qed

lemma save_items: "save m = concat (map enc_item (fp_table_added m @ fp_table_origin m))"
  by (simp add: save_def)

end
