(* ===== verification/Store.thy ===== *)
theory Store
  imports Metadata
begin

text \<open>
  The files of a repository: the container directory and the recipe directory, each a table
  from file names to contents, and the index file. Naming and writing of containers and
  recipes follow \<open>main.cpp\<close>: files are opened with \<open>O_CREAT\<close> and without
  \<open>O_TRUNC\<close>, so writing overlays what is there. A directory that does not exist is
  \<open>None\<close>. Failures of the kernel (a full disk, permissions) are not modelled.
\<close>

section \<open>Directories\<close>

type_synonym dir = "(string \<times> bytes) list"

record repo =
  containers_dir :: "dir option"
  recipes_dir :: "dir option"
  fingerprints_file :: "bytes option"

text \<open>
  \<open>getFilesNum\<close> counts what \<open>readdir\<close> returns and takes off the two dot entries; it
  ends the process when the directory cannot be opened.
\<close>

definition getFilesNum :: "dir option \<Rightarrow> nat result" where
  "getFilesNum dirPath = (case dirPath of None \<Rightarrow> Inl ExitFailure | Some d \<Rightarrow> Inr (length d))"

definition entries :: "dir option \<Rightarrow> dir" where
  "entries dirPath = (case dirPath of None \<Rightarrow> [] | Some d \<Rightarrow> d)"

text \<open>\<open>open(name, O_RDWR | O_CREAT)\<close> and a \<open>write\<close> from the start.\<close>

definition put_file :: "string \<Rightarrow> bytes \<Rightarrow> dir \<Rightarrow> dir" where
  "put_file fname data d =
     AList.update fname (overlay (case map_of d fname of None \<Rightarrow> [] | Some f \<Rightarrow> f) 0 data) d"

lemma map_of_put_file:
  "map_of (put_file fname data d) =
     (map_of d)(fname \<mapsto> overlay (case map_of d fname of None \<Rightarrow> [] | Some f \<Rightarrow> f) 0 data)"
  by (simp add: put_file_def map_of_update)

lemma put_file_new:
  "map_of d fname = None \<Longrightarrow> map_of (put_file fname data d) = (map_of d)(fname \<mapsto> data)"
  by (simp add: map_of_put_file buf_simps)

section \<open>Containers\<close>

definition container_name :: "int \<Rightarrow> string" where
  "container_name i = ''container'' @ to_string i"

definition rev_name :: "int \<Rightarrow> string" where
  "rev_name i = container_name i @ ''r''"

lemma container_name_inject [simp]: "container_name i = container_name j \<longleftrightarrow> i = j"
  by (simp add: container_name_def)

lemma rev_name_inject [simp]: "rev_name i = rev_name j \<longleftrightarrow> i = j"
  by (simp add: rev_name_def)

lemma container_name_not_rev_name [simp]: "container_name i \<noteq> rev_name j"
proof
  assume "container_name i = rev_name j"
  then have "to_string i = to_string j @ ''r''" by (simp add: container_name_def rev_name_def)
  then have "CHR ''r'' \<in> set (to_string i)" by simp
  moreover have "CHR ''r'' \<notin> set (to_string i)" by (rule letter_not_to_string) simp
  ultimately show False by blast
qed

lemmas rev_name_not_container_name [simp] = container_name_not_rev_name [symmetric]

text \<open>
  The first bytes of a zero-initialised array of which \<open>buf\<close> has been written.
\<close>

definition array_prefix :: "nat \<Rightarrow> bytes \<Rightarrow> bytes" where
  "array_prefix len buf = take len buf @ replicate (len - length buf) 0"

lemma array_prefix_length [simp]: "array_prefix (length buf) buf = buf"
  by (simp add: array_prefix_def)

lemma length_array_prefix [simp]: "length (array_prefix len buf) = len"
  by (simp add: array_prefix_def)

text \<open>
  \<open>saveContainer\<close>: the container, then the list of the fingerprints of its chunks (the
  file whose name ends in \<open>r\<close>): a counter and one fingerprint after the other.
\<close>

definition saveContainer ::
    "int \<Rightarrow> bytes \<Rightarrow> nat \<Rightarrow> u32 \<Rightarrow> bytes \<Rightarrow> dir \<Rightarrow> dir" where
  "saveContainer i buf len rev_cnt rev_buf d =
     put_file (rev_name i) (enc_u32 rev_cnt @ array_prefix (unat rev_cnt * 20) rev_buf)
       (put_file (container_name i) (array_prefix len buf) d)"

section \<open>Recipes\<close>

definition recipe_name :: "int \<Rightarrow> string" where
  "recipe_name n = ''recipe'' @ to_string n"

lemma recipe_name_inject [simp]: "recipe_name i = recipe_name j \<longleftrightarrow> i = j"
  by (simp add: recipe_name_def)

definition saveFileRecipe :: "bytes list \<Rightarrow> dir option \<Rightarrow> dir option result" where
  "saveFileRecipe file_recipe fileRecipesPath =
     and_then (getFilesNum fileRecipesPath) (\<lambda>n_version.
       Inr (Some (put_file (recipe_name (int n_version))
         (concat (map (take SHA1_LENGTH) file_recipe)) (entries fileRecipesPath))))"

text \<open>The version is an \<open>uint8_t\<close> for the functions that read a recipe.\<close>

definition getRecipeNameFromVersion :: "8 word \<Rightarrow> string" where
  "getRecipeNameFromVersion restore_version = recipe_name (uint restore_version)"

definition fileRecipeExist :: "8 word \<Rightarrow> dir \<Rightarrow> bool" where
  "fileRecipeExist restore_version d \<longleftrightarrow>
     map_of d (getRecipeNameFromVersion restore_version) \<noteq> None"

text \<open>
  The reading loop: 20 bytes at a time into a buffer that keeps its old bytes behind a
  short read.
\<close>

function read_recipe :: "bytes \<Rightarrow> bytes \<Rightarrow> bytes list" where
  "read_recipe fp_buf rest =
     (if rest = [] then []
      else let fp_buf' = take SHA1_LENGTH rest @ drop (length (take SHA1_LENGTH rest)) fp_buf
           in fp_buf' # read_recipe fp_buf' (drop SHA1_LENGTH rest))"
  by pat_completeness auto
termination
  by (relation "measure (\<lambda>(fp_buf, rest). length rest)") (auto simp: SHA1_LENGTH_def)

declare read_recipe.simps [simp del]

definition getFileRecipe :: "8 word \<Rightarrow> dir \<Rightarrow> bytes list result" where
  "getFileRecipe restore_version d =
     (case map_of d (getRecipeNameFromVersion restore_version) of
        None \<Rightarrow> Inl ExitFailure
      | Some f \<Rightarrow> Inr (read_recipe (replicate SHA1_LENGTH 0) f))"

lemma read_recipe_concat:
  assumes "length fp_buf = SHA1_LENGTH" and "\<forall>x \<in> set xs. length x = SHA1_LENGTH"
  shows "read_recipe fp_buf (concat xs) = xs"
  using assms
proof (induction xs arbitrary: fp_buf)
  case Nil
  then show ?case by (simp add: read_recipe.simps)
next
  case (Cons x xs)
  then have "x \<noteq> []" by (auto simp: SHA1_LENGTH_def)
  with Cons show ?case by (subst read_recipe.simps) (simp add: Let_def)
qed

text \<open>A recipe that is saved as a new version is the one that is read for it.\<close>

lemma getFileRecipe_saved:
  assumes "\<forall>x \<in> set xs. length x = SHA1_LENGTH" and "length d < 256"
    and "map_of d (recipe_name (int (length d))) = None"
    and "saveFileRecipe xs (Some d) = Inr d'"
  shows "getFileRecipe (of_nat (length d)) (entries d') = Inr xs"
proof -
  have "map (take SHA1_LENGTH) xs = xs" using assms(1) by (simp add: map_idI)
  moreover have "uint (of_nat (length d) :: 8 word) = int (length d)"
    using assms(2) by (simp only: uint_nat unat_of_nat) simp
  ultimately show ?thesis
    using assms(3,4) read_recipe_concat [of "replicate SHA1_LENGTH 0" xs, OF _ assms(1)]
    by (auto simp: saveFileRecipe_def getFilesNum_def entries_def getFileRecipe_def
        getRecipeNameFromVersion_def put_file_new)
qed

section \<open>The chunk an index entry names\<close>

definition chunk_at :: "(string \<rightharpoonup> bytes) \<Rightarrow> ENTRY_VALUE \<Rightarrow> bytes option" where
  "chunk_at d e =
     (case d (container_name (uint (container_number e))) of
        None \<Rightarrow> None
      | Some f \<Rightarrow> if unat (offset e) + unat (chunk_length e) \<le> length f
                  then Some (segment (unat (offset e)) (unat (chunk_length e)) f) else None)"

lemma chunk_at_ref_cnt [simp]: "chunk_at d (e\<lparr>ref_cnt := n\<rparr>) = chunk_at d e"
  by (simp add: chunk_at_def split: option.split)

lemma chunk_at_other [simp]:
  "fname \<noteq> container_name (uint (container_number e)) \<Longrightarrow> chunk_at (d(fname := x)) e = chunk_at d e"
  by (simp add: chunk_at_def)

lemma chunk_at_length: "chunk_at d e = Some c \<Longrightarrow> length c = unat (chunk_length e)"
  by (auto simp: chunk_at_def length_segment split: option.splits if_splits)

text \<open>Appending to a container keeps its chunks.\<close>

lemma chunk_at_append:
  assumes "chunk_at d e = Some c" and "d fname = Some f"
  shows "chunk_at (d(fname \<mapsto> f @ g)) e = Some c"
  using assms
  by (auto simp: chunk_at_def segment_append1 split: option.splits if_splits)

end
