(* ===== verification/FastCDC.thy ===== *)
theory FastCDC
  imports Prelude "HOL-Library.Signed_Division"
begin

text \<open>
  \<open>src/fastcdc.cpp\<close>: the gear table, the tables and sizes set up by \<open>fastCDC_init\<close>,
  the two content-defined chunkers and the four fixed-size ones. The global variables of
  the file are the fields of \<open>cdc\<close>; sizes and positions are 32-bit words, compared as the
  code compares them (unsigned against the \<open>uint32_t\<close> globals, signed between two
  \<open>int\<close>). A read outside of the buffer is \<open>MemoryFault\<close>. The reference definition
  \<open>cdc_cut\<close> states on natural numbers which position is chosen.
\<close>

section \<open>Tables and global state\<close>

definition GEARv2 :: "u64 list" where
  "GEARv2 = [
     0xdc377e207d3c5d43, 0x626790b237a4ab52, 0xfad9bf3a472cfe4d, 0xa2a6bc5395bbce52,
     0xce0a8e4ef2f3ee3f, 0xb4b5b36cf31b4d66, 0x468f4da9d12660f7, 0x9005e918384c13d0,
     0x29ba77f861e74697, 0x8237cf1734b2c668, 0xee06f9f1df6ced7b, 0x142936b9399add6a,
     0xcb3c0a27878d6de5, 0x49b827acbe6d77ac, 0x65903aad1d6c1e9f, 0x7a7c66f221cf20ca,
     0x9a0f5565415a795, 0xbe5a882391e5527e, 0x14d2a06077f8339d, 0xcad2bce34bf19652,
     0x5541cc588464c621, 0xc44d981a4aa21e70, 0xb5f4dbb200e75029, 0xa0fc23f2eef70334,
     0xfe36dbfaed334ef3, 0xdd1b785765b2bb6, 0xcc3461a160502f47, 0x64b1c122c7083b1a,
     0x388e6a418b6fd359, 0x65809585f16ab490, 0x3eb1ec4b9577e4c7, 0xd80e411261617dd8,
     0x7da08fd8df71e169, 0xa20af93edb933a86, 0x59fb1b86e1ff5415, 0x5b596e7a23e7af9a,
     0x50a905ffc0a402c3, 0x3a8cefabefd9dbbe, 0xc9762597ccab4a09, 0xd8de3774872f3efe,
     0xc9f1075d9ebc3c51, 0x3b55ac8bfcf8f51e, 0xe4e88fb0fa555bd1, 0xfa725ab5e019900a,
     0x4be7597f3fcb499d, 0xe108b91410eb4788, 0xb9f7fc4896cbf4c3, 0x8cdaddac2fc852ee,
     0x5c1d3439307f3d03, 0x60e5ae5e93c82d50, 0x340d48d6be8c5b09, 0x9a02c3be5b6c05e8,
     0x56014afc31084d83, 0x85b888f604ea56f2, 0x5cb1a8a10079cb23, 0xc52b57c63ff9a0ca,
     0xf35659fc64e0143, 0xbdf325035c594f38, 0xd1f8101a35320afd, 0xe899458626d703f8,
     0xbf97f530ac049837, 0x895021a6620ae70, 0x948596cd24280401, 0x471f6accca7627f4,
     0x4a129ff1164598bd, 0x71405c568bef229e, 0x4fda2755c3737887, 0x909a3cc70ee44b32,
     0xd1a8a3c3dc9fd44d, 0x5ebb36a043ede1ca, 0xf6a89a10d5e68b53, 0xd9bf7a1aaa5016b2,
     0x71030478353d66cb, 0x6806d8ba045b5ae0, 0xa7672b4808466f67, 0xf93e0da0d5011f0a,
     0xa8aeeeec63465029, 0xe958e539a532a76e, 0xfd8bf78ab9628da1, 0xca1eb1fe8a769e6a,
     0x2a96875d6c8f9257, 0x501c523d559d7d12, 0x9b7e72aa3d7f1a65, 0x25554c1d398077a,
     0xcdd8af6cd9c471e1, 0x39bea30bd9a49e, 0x233b737e0eeee721, 0xd6d57c6896b14ed4,
     0x8dabe80e8c70e265, 0x1b859ed8c291ddbc, 0x6b3385f41e0a598b, 0xcf05250d14390e94,
     0xc58d5e7d9c8b9f73, 0x49a5c7a9ba27febc, 0x4841a129f0804005, 0xe7ffa313ce3144a,
     0x13d8768f158b32cb, 0x5d4a2c0fe9cd7afe, 0xe5d0ae6ab568df33, 0xd5e94a4243d9b506,
     0xc6dc1d3da6a23d23, 0xf3b4295d0dd364f2, 0x57750173991256b5, 0x119097313522fa6a,
     0xbeecd02c90273c43, 0xef69efdc30e9077e, 0xcf28f3bbba364c83, 0xc8b80c742bfdd966,
     0x83f12924c9400e15, 0xa35b3222d11d583e, 0x9c9a9d426cde5fdd, 0xf298ed021e76023a,
     0xb9e8b29602ced7f3, 0x853af80c4f919742, 0x505b7d96bf01b253, 0xa318b2bff19ed50c,
     0x5308029ce76f358f, 0x9a398f26b33f24a, 0x74595977a450ca7b, 0x4e8468ce85680390,
     0x2436fba706b7bf67, 0xfc0923f5563e8424, 0x5fcbfacf4f88506b, 0xbe722684e90680f2,
     0x1119ab5f71bd737d, 0xc739c71894e34ba8, 0xcd822b0cb4e2e159, 0x67b583610a0410e0,
     0xae18b6eb024bdfdb, 0x865951f3e76f5834, 0x18eebfb065ebcb59, 0xd35f0999dd5e5b00,
     0x241ad24ae452fe07, 0x942b4c3c79dd1dbe, 0x99b14f06198c22a7, 0xe2987fcf99376312,
     0x844daa9a945c9067, 0xfa234ecf470184dc, 0x6d97ccd39c1eb593, 0x8bf12e40249118d0,
     0x923f72bcdb934d2f, 0x69bd5c907fc76c8e, 0xe5827868949fc4f3, 0x4f5d13c3d6e20e0a,
     0xb3646a9d0111233, 0xf0af68353b17c0c8, 0xc920f56447f90673, 0x8960c8168641fe16,
     0xfee91d454a19219, 0xb25b446e135cf6b2, 0x761b04f2362314f9, 0xa151afe2fb1ff5be,
     0x2e973d6af5de4037, 0x485c4501258ab54c, 0xf21bd1e05d869951, 0xd79097aaa1050314,
     0x2b5e8c12e04ff4f9, 0x4e43a881e78d9764, 0x16d02eca685abdab, 0x7913757d06ccfaec,
     0x513242305e9af1ef, 0xc847965583801b62, 0x8862452b0de8c5e5, 0xce5ae051740dea5a,
     0x1a028ca4bb2875a3, 0x5680bba4aad7ffa6, 0x324d2adfb43a331b, 0xe456b7b1c0301b68,
     0x7801a00c795d859d, 0x41bdd48db6ae14a, 0x5fa8107e14c841fb, 0xd0e4bdea28bef85c,
     0x77bdb5eb30614b89, 0xdefa9fd302bbd858, 0x8a54bfa54688dad, 0x682ec11a915f0980,
     0xc4af0b1c0ffec719, 0xf76fd41604e89104, 0xeb01bf3d9ced6817, 0xa87180c091474c6e,
     0x351bdb3557277969, 0xee81b4ce09b723aa, 0x3bd353a36b05adb, 0x7bcb44892055af78,
     0xadfb4e960a0ca951, 0x2273bad9b4ac3d74, 0xebb4454444aaa94b, 0xe686846acad641a8,
     0x6a6c096404d1c7a3, 0x3d857f91fc5f6232, 0x5c63557a89fa3a27, 0x3ee7bc50de6d3e04,
     0x2490253782ef8a57, 0xad4d59ff8fa5f4c, 0x1c01a62b4c726533, 0x9ef66ba35cb5ab2e,
     0x4c47d62317d71cdf, 0x2a40c557d5a3f2a0, 0xf758338d53442abd, 0x1eaefcd073bcdd10,
     0xb9833e0eb50e8fd7, 0x8c966374151a67b6, 0x3edf7efe33cdfd7b, 0x5a2c4a1a310be558,
     0x69e43fcb628fbeb7, 0x99bd77ef54c90d36, 0xbab1c4f59f066e65, 0x797fd05581e14764,
     0x75de5603975e3ea9, 0x11ef41165111c73c, 0xb7ddf0821a4031f5, 0x3eec9e62cf45d24c,
     0xcda86289d51cd2c7, 0x127483edee743fae, 0x4c62baba754703cf, 0xcd8d463bb2e9583a,
     0xaa38a80cc6c609f3, 0x5f97356ca50a5986, 0x220a1b6bc88caeb, 0x20420bdd061f48c4,
     0xb0e0c20838c35c57, 0xeddd78004259c3d2, 0xb7b854be9806aa3b, 0xa2256b1fc3bd00fe,
     0x3ea3e4597d23917d, 0xd952cb1a7656852e, 0x89e052b4e095f921, 0x4be913d1c4f79a82,
     0x9d36a507aa427257, 0x69b7818b57dbbf8, 0x21102213d2cae2cd, 0x27ec5888afbdb47e,
     0x4f16a4e8c63e27f9, 0x250a3857af744546, 0x3e97bbeec0fcabdd, 0x4b6c65f8ca7fd632,
     0xa91fce0f23e1be61, 0x5050c5a688052206, 0x9e2e3f1a6b85328f, 0xe09ec18b956f5fea,
     0x4000f41b1b5b25e7, 0x3fbea3faba569084, 0xe471347f40647f65, 0xda7abaa5f3caf2c8,
     0x189201a4940001f9, 0x29e183e37d7da328, 0xd2ae28418f093e67, 0x8e5cb797039be80e,
     0x41604277260a071d, 0x11edac1b01696b0e, 0x6e27fc4394cebee3, 0xeeffd1b2b382a2c0,
     0x2443385d4c4e195, 0x2ee724f1ad94f68e, 0xa4491e380c5cf7b, 0xeb48a728aaf18d2e]"

definition SymbolCount :: nat where "SymbolCount = 256"
definition SeedLength :: nat where "SeedLength = 64"

definition FING_GEAR_08KB_64 :: u64 where "FING_GEAR_08KB_64 = 0x0000d93003530000"

definition Mask14 :: u64 where "Mask14 = 0x0000d9f003520000"
definition Mask12 :: u64 where "Mask12 = 0x0000d90003570000"
definition Mask15 :: u64 where "Mask15 = 0x0000d9f003530000"
definition Mask11 :: u64 where "Mask11 = 0x0000d90003530000"
definition Mask16 :: u64 where "Mask16 = 0x0000d9f003570000"
definition Mask10 :: u64 where "Mask10 = 0x0000d90003520000"

record cdc =
  g_global_matrix :: "u32 list"
  g_global_matrix_left :: "u32 list"
  LEARv2 :: "u64 list"
  MinSize :: u32
  MaxSize :: u32
  fastcdc_avg_size :: u32
  MinSize_divide_by_2 :: u32
  Mask_front :: u64
  Mask_back :: u64

text \<open>Globals of a C++ program start as zero.\<close>

definition cdc_zero :: cdc where
  "cdc_zero =
     \<lparr>g_global_matrix = replicate SymbolCount 0, g_global_matrix_left = replicate SymbolCount 0,
      LEARv2 = replicate SymbolCount 0, MinSize = 0, MaxSize = 0, fastcdc_avg_size = 0,
      MinSize_divide_by_2 = 0, Mask_front = 0, Mask_back = 0\<rparr>"

text \<open>
  \<open>MD5\<close> of OpenSSL is the parameter \<open>md5\<close>; it only reaches tables that no chunker
  reads. \<open>NC_level\<close> 0 and an invalid level leave both masks as they are.
\<close>

definition fastCDC_init :: "(bytes \<Rightarrow> bytes) \<Rightarrow> int \<Rightarrow> int \<Rightarrow> cdc \<Rightarrow> cdc" where
  "fastCDC_init md5 fas NC_level c =
     (let matrix = map (\<lambda>i. of_le (take 4 (md5 (replicate SeedLength (of_nat i))))) [0..<SymbolCount];
          masks = (if NC_level = 1 then (Mask14, Mask12)
                   else if NC_level = 2 then (Mask15, Mask11)
                   else if NC_level = 3 then (Mask16, Mask10)
                   else (Mask_front c, Mask_back c));
          smallest = word_of_int (fas sdiv 4)
      in \<lparr>g_global_matrix = matrix,
          g_global_matrix_left = map (push_bit 1) matrix,
          LEARv2 = map (push_bit 1) GEARv2,
          MinSize = smallest,
          MaxSize = word_of_int (fas * 4),
          fastcdc_avg_size = word_of_int fas,
          MinSize_divide_by_2 = smallest div 2,
          Mask_front = fst masks,
          Mask_back = snd masks\<rparr>)"

section \<open>The chunkers\<close>

text \<open>One step of the rolling hash.\<close>

definition gear_step :: "u64 \<Rightarrow> byte \<Rightarrow> u64" where
  "gear_step fingerprint b = push_bit 1 fingerprint + GEARv2 ! unat b"

text \<open>
  How a scanning loop ends: it returns a cut point, its condition fails, or it reads
  outside of the buffer.
\<close>

datatype scan = Cut u32 | Reached u32 u64 | BadRead

text \<open>\<open>while (i < fastcdc_avg_size)\<close>: an \<open>int\<close> against a \<open>uint32_t\<close>, unsigned.\<close>

lemma unat_inc: "i < b \<Longrightarrow> unat (i + 1) = Suc (unat i)" for i b :: "'a::len word"
proof -
  assume "i < b"
  then have "unat i + 1 < 2 ^ LENGTH('a)"
    using unsigned_less [of b] by (simp add: word_less_nat_alt) (metis Suc_eq_plus1 Suc_lessI le_less_trans not_less_eq order_le_less unsigned_less)
  then show ?thesis by (simp add: unat_word_ariths)
qed

lemma sint_inc: "i <s b \<Longrightarrow> sint (i + 1) = sint i + 1" for i b :: u32
proof -
  assume "i <s b"
  then have "sint i + 1 < 2 ^ (LENGTH(32) - 1)"
    using sint_lt [of b] by (simp add: word_sless_alt)
  moreover have "- (2 ^ (LENGTH(32) - 1)) \<le> sint i" by (rule sint_ge)
  ultimately show ?thesis
    by (simp add: sint_word_ariths signed_take_bit_int_eq_self)
qed

function scan_unsigned :: "u64 \<Rightarrow> bytes \<Rightarrow> u32 \<Rightarrow> u32 \<Rightarrow> u64 \<Rightarrow> scan" where
  "scan_unsigned msk p bound i fingerprint =
     (if i < bound then
        if unat i < length p then
          (let fp = gear_step fingerprint (p ! unat i)
           in if fp AND msk = 0 then Cut i else scan_unsigned msk p bound (i + 1) fp)
        else BadRead
      else Reached i fingerprint)"
  by pat_completeness auto
termination
proof (relation "measure (\<lambda>(msk, p, bound, i, fingerprint). unat bound - unat i)", goal_cases)
  case (2 msk p bound i fingerprint x)
  then show ?case using unat_inc [of i bound] by (simp add: word_less_nat_alt)
qed simp

text \<open>\<open>while (i < n)\<close>: two \<open>int\<close>s, signed.\<close>

function scan_signed :: "u64 \<Rightarrow> bytes \<Rightarrow> u32 \<Rightarrow> u32 \<Rightarrow> u64 \<Rightarrow> scan" where
  "scan_signed msk p n i fingerprint =
     (if i <s n then
        if unat i < length p then
          (let fp = gear_step fingerprint (p ! unat i)
           in if fp AND msk = 0 then Cut i else scan_signed msk p n (i + 1) fp)
        else BadRead
      else Reached i fingerprint)"
  by pat_completeness auto
termination
proof (relation "measure (\<lambda>(msk, p, n, i, fingerprint). nat (sint n - sint i))", goal_cases)
  case (2 msk p n i fingerprint x)
  then show ?case using sint_inc [of i n] by (simp add: word_sless_alt)
qed simp

declare scan_unsigned.simps [simp del] scan_signed.simps [simp del]

text \<open>
  \<open>FastCDC_with_NC\<close> assigns the global \<open>fastcdc_avg_size\<close> when the buffer is not
  longer than it; the new value stays for the calls that follow.
\<close>

definition FastCDC_with_NC :: "cdc \<Rightarrow> bytes \<Rightarrow> u32 \<Rightarrow> (u32 \<times> cdc) result" where
  "FastCDC_with_NC c p n =
     (if n \<le> MinSize c then Inr (n, c)
      else
        let (n', c') = (if MaxSize c < n then (MaxSize c, c)
                        else if n \<le> fastcdc_avg_size c then (n, c\<lparr>fastcdc_avg_size := n\<rparr>)
                        else (n, c))
        in case scan_unsigned (Mask_front c') p (fastcdc_avg_size c') (MinSize c') 0 of
             BadRead \<Rightarrow> Inl MemoryFault
           | Cut i \<Rightarrow> Inr (i, c')
           | Reached i fingerprint \<Rightarrow>
               (case scan_signed (Mask_back c') p n' i fingerprint of
                  BadRead \<Rightarrow> Inl MemoryFault
                | Cut i \<Rightarrow> Inr (i, c')
                | Reached _ _ \<Rightarrow> Inr (n', c')))"

definition FastCDC_without_NC :: "cdc \<Rightarrow> bytes \<Rightarrow> u32 \<Rightarrow> (u32 \<times> cdc) result" where
  "FastCDC_without_NC c p n =
     (if n \<le> MinSize c then Inr (n, c)
      else
        let n' = (if MaxSize c < n then MaxSize c else n)
        in case scan_signed FING_GEAR_08KB_64 p n' (MinSize c) 0 of
             BadRead \<Rightarrow> Inl MemoryFault
           | Cut i \<Rightarrow> Inr (i, c)
           | Reached _ _ \<Rightarrow> Inr (n', c))"

definition FSC_512 :: "bytes \<Rightarrow> u32 \<Rightarrow> u32" where
  "FSC_512 p n = (if 512 \<le>s n then 512 else n)"

definition FSC_4 :: "bytes \<Rightarrow> u32 \<Rightarrow> u32" where
  "FSC_4 p n = (if 4096 \<le>s n then 4 * 1024 else n)"

definition FSC_8 :: "bytes \<Rightarrow> u32 \<Rightarrow> u32" where
  "FSC_8 p n = (if 8192 \<le>s n then 8 * 1024 else n)"

definition FSC_16 :: "bytes \<Rightarrow> u32 \<Rightarrow> u32" where
  "FSC_16 p n = (if 16384 \<le>s n then 16 * 1024 else n)"

section \<open>Reference: the cut point on natural numbers\<close>

primrec gear_hash :: "u64 \<Rightarrow> bytes \<Rightarrow> u64" where
  "gear_hash fp [] = fp"
| "gear_hash fp (b # bs) = gear_hash (gear_step fp b) bs"

definition cdc_cut :: "u64 \<Rightarrow> u64 \<Rightarrow> nat \<Rightarrow> nat \<Rightarrow> nat \<Rightarrow> bytes \<Rightarrow> nat" where
  "cdc_cut front back lo avg hi p =
     (case find (\<lambda>i. gear_hash 0 (segment lo (Suc i - lo) p) AND
                      (if i < avg then front else back) = 0) [lo..<hi] of
        Some i \<Rightarrow> i | None \<Rightarrow> hi)"


section \<open>The scanning loops find the first cut point\<close>

lemma gear_hash_append: "gear_hash fp (xs @ ys) = gear_hash (gear_hash fp xs) ys"
  by (induction xs arbitrary: fp) auto

lemma find_append:
  "find P (xs @ ys) = (case find P xs of Some x \<Rightarrow> Some x | None \<Rightarrow> find P ys)"
  by (induction xs) auto

lemma segment_Suc: "i < length p \<Longrightarrow> segment i (Suc k) p = p ! i # segment (Suc i) k p"
  by (simp add: segment_def Cons_nth_drop_Suc [symmetric])

lemma scan_unsigned_spec:
  assumes "unat bound \<le> length p" and "i \<le> bound"
  shows "scan_unsigned msk p bound i fp =
    (case find (\<lambda>k. gear_hash fp (segment (unat i) (Suc k - unat i) p) AND msk = 0)
            [unat i..<unat bound] of
       Some k \<Rightarrow> Cut (of_nat k)
     | None \<Rightarrow> Reached bound (gear_hash fp (segment (unat i) (unat bound - unat i) p)))"
  using assms
proof (induction msk p bound i fp rule: scan_unsigned.induct)
  case (1 msk p bound i fp)
  show ?case
  proof (cases "i < bound")
    case False
    with "1.prems" have "i = bound" by simp
    then show ?thesis by (simp add: scan_unsigned.simps segment_def)
  next
    case True
    then have less: "unat i < unat bound" by (simp add: word_less_nat_alt)
    with "1.prems" have inb: "unat i < length p" by simp
    have suc: "unat (i + 1) = Suc (unat i)" using True by (rule unat_inc)
    define fp' where "fp' = gear_step fp (p ! unat i)"
    have shift: "gear_hash fp (segment (unat i) (Suc k - unat i) p) =
        gear_hash fp' (segment (Suc (unat i)) (k - unat i) p)" if "unat i \<le> k" for k
      using that inb by (simp add: Suc_diff_le segment_Suc fp'_def)
    have upt: "[unat i..<unat bound] = unat i # [Suc (unat i)..<unat bound]"
      using less by (simp add: upt_conv_Cons)
    have here: "gear_hash fp (segment (unat i) (Suc 0) p) = fp'"
      using segment_Suc [OF inb, of 0] by (simp add: fp'_def segment_def [of _ 0])
    have tail: "find (\<lambda>k. gear_hash fp (segment (unat i) (Suc k - unat i) p) AND msk = 0)
          [Suc (unat i)..<unat bound] =
        find (\<lambda>k. gear_hash fp' (segment (unat (i + 1)) (Suc k - unat (i + 1)) p) AND msk = 0)
          [unat (i + 1)..<unat bound]"
      unfolding suc by (rule find_cong) (auto simp: shift)
    have rest: "gear_hash fp (segment (unat i) (unat bound - unat i) p) =
        gear_hash fp' (segment (unat (i + 1)) (unat bound - unat (i + 1)) p)"
      using less inb by (simp add: suc Suc_diff_Suc [symmetric] segment_Suc fp'_def)
    have "i + 1 \<le> bound" using True by (simp add: inc_le)
    with "1.IH" [OF True inb fp'_def] "1.prems" have
      "\<not> fp' AND msk = 0 \<Longrightarrow> scan_unsigned msk p bound (i + 1) fp' =
         (case find (\<lambda>k. gear_hash fp' (segment (unat (i + 1)) (Suc k - unat (i + 1)) p) AND msk = 0)
            [unat (i + 1)..<unat bound] of
       Some k \<Rightarrow> Cut (of_nat k)
     | None \<Rightarrow> Reached bound (gear_hash fp' (segment (unat (i + 1)) (unat bound - unat (i + 1)) p)))"
      by blast
    then show ?thesis
      using True inb
      by (subst scan_unsigned.simps) (simp add: Let_def upt here tail rest split: option.split flip: fp'_def)
  qed
qed

lemma scan_signed_unsigned:
  assumes "unat n < 2 ^ 31" and "i \<le> n"
  shows "scan_signed msk p n i fp = scan_unsigned msk p n i fp"
  using assms
proof (induction msk p n i fp rule: scan_signed.induct)
  case (1 msk p n i fp)
  have "unat i \<le> unat n" using "1.prems" by (simp add: word_le_nat_alt)
  then have eq: "i <s n \<longleftrightarrow> i < n"
    using "1.prems" by (simp add: word_sless_alt sint_small word_less_def)
  have "i < n \<Longrightarrow> i + 1 \<le> n" by (simp add: inc_le)
  with 1 eq show ?case
    by (subst scan_signed.simps, subst scan_unsigned.simps) (simp add: Let_def)
qed


section \<open>Correctness of the chunkers\<close>

text \<open>
  The sizes \<open>fastCDC_init\<close> sets up for an average between 4 and \<open>2 ^ 29 - 1\<close> satisfy
  \<open>cdc_ok\<close>, and every call keeps it.
\<close>

definition cdc_ok :: "cdc \<Rightarrow> bool" where
  "cdc_ok c \<longleftrightarrow> 0 < MinSize c \<and> MinSize c \<le> fastcdc_avg_size c \<and>
     fastcdc_avg_size c \<le> MaxSize c \<and> unat (MaxSize c) < 2 ^ 31"

text \<open>What a call does to the global average: it never grows.\<close>

definition cdc_after :: "cdc \<Rightarrow> nat \<Rightarrow> cdc" where
  "cdc_after c n =
     (if unat (MinSize c) < n \<and> n \<le> unat (MaxSize c) \<and> n \<le> unat (fastcdc_avg_size c)
      then c\<lparr>fastcdc_avg_size := of_nat n\<rparr> else c)"

lemma cdc_ok_after: "cdc_ok c \<Longrightarrow> n < 2 ^ 31 \<Longrightarrow> cdc_ok (cdc_after c n)"
  by (auto simp: cdc_ok_def cdc_after_def word_le_nat_alt unat_of_length)

lemma scan_signed_spec:
  assumes "n < 2 ^ 31" and "n \<le> length p" and "unat i \<le> n"
  shows "scan_signed msk p (of_nat n) i fp =
    (case find (\<lambda>k. gear_hash fp (segment (unat i) (Suc k - unat i) p) AND msk = 0)
            [unat i..<n] of
       Some k \<Rightarrow> Cut (of_nat k)
     | None \<Rightarrow> Reached (of_nat n) (gear_hash fp (segment (unat i) (n - unat i) p)))"
proof -
  have u: "unat (of_nat n :: u32) = n" using assms(1) by (rule unat_of_length)
  have le: "i \<le> of_nat n" using assms(3) by (simp add: word_le_nat_alt u)
  from scan_unsigned_spec [of "of_nat n" p i msk fp, unfolded u, OF assms(2) le]
    scan_signed_unsigned [of "of_nat n" i msk p fp, unfolded u, OF assms(1) le]
  show ?thesis by simp
qed

lemma gear_hash_split:
  assumes "lo \<le> avg" and "avg \<le> k"
  shows "gear_hash 0 (segment lo (Suc k - lo) p) =
    gear_hash (gear_hash 0 (segment lo (avg - lo) p)) (segment avg (Suc k - avg) p)"
proof -
  have "segment lo (Suc k - lo) p = segment lo (avg - lo) p @ segment avg (Suc k - avg) p"
    using assms segment_add [of lo "avg - lo" "Suc k - avg" p] by simp
  then show ?thesis by (simp add: gear_hash_append)
qed

lemma cdc_cut_split:
  assumes "lo \<le> avg" and "avg \<le> hi"
  shows "cdc_cut front back lo avg hi p =
    (case find (\<lambda>k. gear_hash 0 (segment lo (Suc k - lo) p) AND front = 0) [lo..<avg] of
       Some k \<Rightarrow> k
     | None \<Rightarrow>
       (case find (\<lambda>k. gear_hash (gear_hash 0 (segment lo (avg - lo) p))
                         (segment avg (Suc k - avg) p) AND back = 0) [avg..<hi] of
          Some k \<Rightarrow> k | None \<Rightarrow> hi))"
proof -
  let ?P = "\<lambda>i. gear_hash 0 (segment lo (Suc i - lo) p) AND (if i < avg then front else back) = 0"
  have "[lo..<hi] = [lo..<avg] @ [avg..<hi]"
    using assms by (metis upt_add_eq_append le_add_diff_inverse)
  moreover have "find ?P [lo..<avg] =
      find (\<lambda>k. gear_hash 0 (segment lo (Suc k - lo) p) AND front = 0) [lo..<avg]"
    by (rule find_cong) auto
  moreover have "find ?P [avg..<hi] =
      find (\<lambda>k. gear_hash (gear_hash 0 (segment lo (avg - lo) p))
                  (segment avg (Suc k - avg) p) AND back = 0) [avg..<hi]"
    using assms by (intro find_cong) (auto simp: gear_hash_split [of lo avg])
  ultimately show ?thesis
    unfolding cdc_cut_def by (simp only: find_append) (simp split: option.split)
qed

lemma find_upt_bounds: "find P [lo..<hi] = Some k \<Longrightarrow> lo \<le> k \<and> k < hi"
  by (auto simp: find_Some_iff)

text \<open>
  \<open>FastCDC_with_NC\<close> on a buffer of the length it is given: no read outside of the
  buffer, the reference cut point, and the new average.
\<close>

lemma FastCDC_with_NC_spec:
  assumes ok: "cdc_ok c" and len: "length p < 2 ^ 31"
  shows "FastCDC_with_NC c p (of_nat (length p)) =
    Inr (of_nat (if length p \<le> unat (MinSize c) then length p
                 else cdc_cut (Mask_front c) (Mask_back c) (unat (MinSize c))
                        (unat (fastcdc_avg_size (cdc_after c (length p))))
                        (min (length p) (unat (MaxSize c))) p),
         cdc_after c (length p))"
proof (cases "length p \<le> unat (MinSize c)")
  case True
  then show ?thesis
    using len by (simp add: FastCDC_with_NC_def word_le_nat_alt unat_of_length cdc_after_def)
next
  case False
  let ?n = "min (length p) (unat (MaxSize c))"
  define c' where "c' = cdc_after c (length p)"
  define lo where "lo = MinSize c"
  define avg where "avg = fastcdc_avg_size c'"
  have sel: "(if MaxSize c < of_nat (length p) then (MaxSize c, c)
      else if of_nat (length p) \<le> fastcdc_avg_size c
        then (of_nat (length p), c\<lparr>fastcdc_avg_size := of_nat (length p)\<rparr>)
      else (of_nat (length p), c)) = (of_nat ?n, c')"
    using False len
    by (auto simp: c'_def cdc_after_def word_le_nat_alt word_less_nat_alt unat_of_length)
  have fields: "MinSize c' = lo" "Mask_front c' = Mask_front c" "Mask_back c' = Mask_back c"
    by (auto simp: c'_def cdc_after_def lo_def)
  have n31: "unat (of_nat ?n :: u32) = ?n" "?n < 2 ^ 31"
    using len by (auto simp: unat_of_length)
  have lo_avg: "unat lo \<le> unat avg" and avg_n: "unat avg \<le> ?n"
    using False ok len
    by (auto simp: avg_def c'_def lo_def cdc_after_def cdc_ok_def word_le_nat_alt unat_of_length)
  then have avg_len: "unat avg \<le> length p" by simp
  have sc1: "scan_unsigned (Mask_front c) p avg lo 0 =
     (case find (\<lambda>k. gear_hash 0 (segment (unat lo) (Suc k - unat lo) p) AND Mask_front c = 0)
            [unat lo..<unat avg] of
       Some k \<Rightarrow> Cut (of_nat k)
     | None \<Rightarrow> Reached avg (gear_hash 0 (segment (unat lo) (unat avg - unat lo) p)))"
    using avg_len lo_avg by (intro scan_unsigned_spec) (simp_all add: word_le_nat_alt)
  have sc2: "scan_signed (Mask_back c) p (of_nat ?n) avg fp =
     (case find (\<lambda>k. gear_hash fp (segment (unat avg) (Suc k - unat avg) p) AND Mask_back c = 0)
            [unat avg..<?n] of
       Some k \<Rightarrow> Cut (of_nat k)
     | None \<Rightarrow> Reached (of_nat ?n) (gear_hash fp (segment (unat avg) (?n - unat avg) p)))" for fp
    using n31 avg_n by (intro scan_signed_spec) auto
  have "FastCDC_with_NC c p (of_nat (length p)) =
      Inr (of_nat (cdc_cut (Mask_front c) (Mask_back c) (unat lo) (unat avg) ?n p), c')"
    unfolding FastCDC_with_NC_def sel
    using False len lo_avg avg_n
    by (simp add: word_le_nat_alt unat_of_length fields sc1 sc2 cdc_cut_split
          flip: lo_def avg_def split: option.split)
  with False show ?thesis by (simp add: avg_def c'_def lo_def)
qed

lemma FastCDC_without_NC_spec:
  assumes ok: "cdc_ok c" and len: "length p < 2 ^ 31"
  shows "FastCDC_without_NC c p (of_nat (length p)) =
    Inr (of_nat (if length p \<le> unat (MinSize c) then length p
                 else cdc_cut FING_GEAR_08KB_64 FING_GEAR_08KB_64 (unat (MinSize c))
                        (unat (MinSize c)) (min (length p) (unat (MaxSize c))) p), c)"
proof (cases "length p \<le> unat (MinSize c)")
  case True
  then show ?thesis
    using len by (simp add: FastCDC_without_NC_def word_le_nat_alt unat_of_length)
next
  case False
  let ?n = "min (length p) (unat (MaxSize c))"
  let ?lo = "MinSize c"
  have sel: "(if MaxSize c < of_nat (length p) then MaxSize c else of_nat (length p)) = of_nat ?n"
    using len by (auto simp: word_less_nat_alt unat_of_length)
  have n31: "unat (of_nat ?n :: u32) = ?n" "?n < 2 ^ 31" using len by (auto simp: unat_of_length)
  have lo_n: "unat ?lo \<le> ?n"
    using False ok by (auto simp: cdc_ok_def word_le_nat_alt)
  have "scan_signed FING_GEAR_08KB_64 p (of_nat ?n) ?lo 0 =
     (case find (\<lambda>k. gear_hash 0 (segment (unat ?lo) (Suc k - unat ?lo) p) AND FING_GEAR_08KB_64 = 0)
            [unat ?lo..<?n] of
       Some k \<Rightarrow> Cut (of_nat k)
     | None \<Rightarrow> Reached (of_nat ?n) (gear_hash 0 (segment (unat ?lo) (?n - unat ?lo) p)))"
    using n31 lo_n by (intro scan_signed_spec) auto
  with False len lo_n show ?thesis
    unfolding FastCDC_without_NC_def sel
    by (simp add: word_le_nat_alt unat_of_length cdc_cut_def split: option.split)
qed

lemma cdc_cut_bounds:
  "lo \<le> hi \<Longrightarrow> lo \<le> cdc_cut front back lo avg hi p \<and> cdc_cut front back lo avg hi p \<le> hi"
  by (auto simp: cdc_cut_def dest: find_upt_bounds split: option.split)

lemma fastCDC_init_sizes:
  assumes "4 \<le> fas" and "fas < 2 ^ 29"
  shows "unat (MinSize (fastCDC_init md5 fas NC_level c)) = nat (fas div 4)"
    and "unat (fastcdc_avg_size (fastCDC_init md5 fas NC_level c)) = nat fas"
    and "unat (MaxSize (fastCDC_init md5 fas NC_level c)) = nat (fas * 4)"
proof -
  have q: "fas sdiv 4 = fas div 4" using assms by (simp add: signed_divide_int_def)
  have u: "unat (word_of_int x :: u32) = nat x" if "0 \<le> x" "x < 2 ^ 32" for x
    using that by (simp add: unsigned_of_int take_bit_int_eq_self flip: nat_uint_eq)
  have "unat (word_of_int (fas div 4) :: u32) = nat (fas div 4)"
    and "unat (word_of_int fas :: u32) = nat fas"
    and "unat (word_of_int (fas * 4) :: u32) = nat (fas * 4)"
    by (rule u; use assms in simp)+
  then show "unat (MinSize (fastCDC_init md5 fas NC_level c)) = nat (fas div 4)"
    and "unat (fastcdc_avg_size (fastCDC_init md5 fas NC_level c)) = nat fas"
    and "unat (MaxSize (fastCDC_init md5 fas NC_level c)) = nat (fas * 4)"
    by (simp_all add: fastCDC_init_def Let_def q)
qed

lemma cdc_ok_init:
  assumes "4 \<le> fas" and "fas < 2 ^ 29"
  shows "cdc_ok (fastCDC_init md5 fas NC_level c)"
proof -
  have "0 < fas div 4" and "fas div 4 \<le> fas" using assms by presburger+
  then show ?thesis
    using assms
    by (simp add: cdc_ok_def fastCDC_init_sizes word_le_nat_alt word_less_nat_alt
          nat_less_iff zless_nat_eq_int_zless nat_le_eq_zle)
qed

section \<open>The rolling hash looks at the last 64 bytes\<close>

lemma gear_hash_offset: "gear_hash fp bs = push_bit (length bs) fp + gear_hash 0 bs"
proof (induction bs arbitrary: fp)
  case Nil
  then show ?case by simp
next
  case (Cons b bs)
  have push_add: "push_bit k (x + y) = push_bit k x + push_bit k y" for k and x y :: u64
    by (simp add: push_bit_eq_mult distrib_right)
  have "gear_hash fp (b # bs) = push_bit (length bs) (gear_step fp b) + gear_hash 0 bs"
    using Cons.IH [of "gear_step fp b"] by simp
  also have "\<dots> = push_bit (Suc (length bs)) fp +
      (push_bit (length bs) (gear_step 0 b) + gear_hash 0 bs)"
    by (simp add: gear_step_def push_add add.assoc)
  also have "push_bit (length bs) (gear_step 0 b) + gear_hash 0 bs = gear_hash 0 (b # bs)"
    using Cons.IH [of "gear_step 0 b"] by simp
  finally show ?case by simp
qed

lemma gear_hash_window:
  assumes "64 \<le> length ys"
  shows "gear_hash fp (xs @ ys) = gear_hash 0 ys"
proof -
  have "push_bit (length ys) x = 0" for x :: u64
    using assms by (intro bit_word_eqI) (simp add: bit_push_bit_iff)
  then show ?thesis
    using gear_hash_offset [of "gear_hash fp xs" ys] by (simp add: gear_hash_append)
qed

text \<open>Whether a position is a cut point depends on the 64 bytes up to it.\<close>

definition is_cut :: "u64 \<Rightarrow> nat \<Rightarrow> bytes \<Rightarrow> nat \<Rightarrow> bool" where
  "is_cut msk lo p i \<longleftrightarrow> gear_hash 0 (segment lo (Suc i - lo) p) AND msk = 0"

lemma is_cut_local:
  assumes i: "lo + 63 \<le> i" "i < length p" and j: "lo' + 63 \<le> j" "j < length p'"
    and window: "segment (i - 63) 64 p = segment (j - 63) 64 p'"
  shows "is_cut msk lo p i \<longleftrightarrow> is_cut msk lo' p' j"
proof -
  have tail: "gear_hash 0 (segment lo (Suc i - lo) p) = gear_hash 0 (segment (i - 63) 64 p)"
    if "lo + 63 \<le> i" "i < length p" for lo i and p :: bytes
  proof -
    have "segment lo (Suc i - lo) p = segment lo (i - 63 - lo) p @ segment (i - 63) 64 p"
      using that segment_add [of lo "i - 63 - lo" 64 p] by (simp add: Suc_diff_le)
    moreover have "length (segment (i - 63) 64 p) = 64"
      using that by (simp add: length_segment)
    ultimately show ?thesis by (simp add: gear_hash_window)
  qed
  show ?thesis using tail [OF i] tail [OF j] window by (simp add: is_cut_def)
qed

end
