(* ===== verification/Config.thy ===== *)
theory Config
  imports Prelude
begin

text \<open>
  \<open>include/config.h\<close>: the configuration singleton, its value translations and the loop of
  \<open>parse_argument\<close> over the members of the parsed JSON object (Settings reads them from the
  text of the file). The singleton has static
  storage, so members its constructor does not set start as zero. A member whose value is
  not a string has a null \<open>valuestring\<close>; using it is \<open>MemoryFault\<close>.
\<close>

section \<open>Enumerations and the singleton\<close>

datatype TASK_TYPE = TASK_RESTORE | TASK_WRITE | TASK_WRITE_PIPELINE | TASK_DELETE | NOT_CHOOSED

datatype CHUNKING_METHOD = CDC | FSC | FULL_FILE

datatype RESTORE_METHOD = NAIVE_RESTORE | CONTAINER_CACHE | CHUNK_CACHE | FAA_FIXED | FAA_ROLLING

record Config =
  tt :: TASK_TYPE
  cm :: CHUNKING_METHOD
  rm :: RESTORE_METHOD
  input_path :: string
  restore_path :: string
  restore_version :: int
  restore_id :: int
  delete_id :: int
  avg_chunk_size :: int
  normal_level :: int
  merkle_tree :: bool
  fingerprints_file_path :: string
  file_recipe_path :: string
  container_path :: string
  full_file_fingerprints_path :: string
  full_file_storage_path :: string
  MTL1 :: string
  MTL2 :: string
  MTL3 :: string
  MTL4 :: string
  MTL5 :: string
  MTL6 :: string

definition config_init :: Config where
  "config_init =
     \<lparr>tt = TASK_RESTORE, cm = CDC, rm = NAIVE_RESTORE, input_path = [], restore_path = [],
      restore_version = 0, restore_id = 0, delete_id = 0, avg_chunk_size = 4096,
      normal_level = 2, merkle_tree = False, fingerprints_file_path = [],
      file_recipe_path = [], container_path = [], full_file_fingerprints_path = [],
      full_file_storage_path = [], MTL1 = [], MTL2 = [], MTL3 = [], MTL4 = [], MTL5 = [],
      MTL6 = []\<rparr>"

section \<open>Translations; an unknown value ends the process\<close>

definition taskTypeTrans :: "string \<Rightarrow> TASK_TYPE result" where
  "taskTypeTrans s =
     (if s = ''write'' then Inr TASK_WRITE
      else if s = ''write_pipeline'' then Inr TASK_WRITE_PIPELINE
      else if s = ''restore'' then Inr TASK_RESTORE
      else if s = ''delete'' then Inr TASK_DELETE
      else Inl ExitFailure)"

definition cmTypeTrans :: "string \<Rightarrow> CHUNKING_METHOD result" where
  "cmTypeTrans s =
     (if s = ''cdc'' then Inr CDC
      else if s = ''fsc'' then Inr FSC
      else if s = ''file'' then Inr FULL_FILE
      else Inl ExitFailure)"

definition yesNoTrans :: "string \<Rightarrow> bool result" where
  "yesNoTrans s =
     (if s = ''yes'' then Inr True else if s = ''no'' then Inr False else Inl ExitFailure)"

definition restoreMethodTrans :: "string \<Rightarrow> RESTORE_METHOD result" where
  "restoreMethodTrans s =
     (if s = ''naive'' then Inr NAIVE_RESTORE
      else if s = ''container'' then Inr CONTAINER_CACHE
      else if s = ''chunk'' then Inr CHUNK_CACHE
      else if s = ''faa_fixed'' then Inr FAA_FIXED
      else if s = ''faa_rolling'' then Inr FAA_ROLLING
      else Inl ExitFailure)"

section \<open>\<open>parse_argument\<close>\<close>

text \<open>
  One member of the JSON object: its name, its string value if it is a string, its integer
  value (0 for a member that is not a number).
\<close>

record param =
  name :: string
  valuestring :: "string option"
  valueint :: int

definition str :: "param \<Rightarrow> string result" where
  "str p = (case valuestring p of None \<Rightarrow> Inl MemoryFault | Some s \<Rightarrow> Inr s)"

definition set_param :: "Config \<Rightarrow> param \<Rightarrow> Config result" where
  "set_param c p =
     (if name p = ''Task'' then
        and_then (str p) (\<lambda>s. and_then (taskTypeTrans s) (\<lambda>t. Inr (c\<lparr>tt := t\<rparr>)))
      else if name p = ''InputFile'' then and_then (str p) (\<lambda>s. Inr (c\<lparr>input_path := s\<rparr>))
      else if name p = ''RestorePath'' then and_then (str p) (\<lambda>s. Inr (c\<lparr>restore_path := s\<rparr>))
      else if name p = ''RestoreVersion'' then Inr (c\<lparr>restore_version := valueint p\<rparr>)
      else if name p = ''ChunkingMethod'' then
        and_then (str p) (\<lambda>s. and_then (cmTypeTrans s) (\<lambda>m. Inr (c\<lparr>cm := m\<rparr>)))
      else if name p = ''RestoreId'' then Inr (c\<lparr>restore_id := valueint p\<rparr>)
      else if name p = ''DeleteId'' then Inr (c\<lparr>delete_id := valueint p\<rparr>)
      else if name p = ''Size'' then Inr (c\<lparr>avg_chunk_size := valueint p\<rparr>)
      else if name p = ''Normal'' then Inr (c\<lparr>normal_level := valueint p\<rparr>)
      else if name p = ''MerkleTree'' then
        and_then (str p) (\<lambda>s. and_then (yesNoTrans s) (\<lambda>b. Inr (c\<lparr>merkle_tree := b\<rparr>)))
      else if name p = ''RestoreMethod'' then
        and_then (str p) (\<lambda>s. and_then (restoreMethodTrans s) (\<lambda>m. Inr (c\<lparr>rm := m\<rparr>)))
      else if name p = ''fingerprintsFilePath'' then
        and_then (str p) (\<lambda>s. Inr (c\<lparr>fingerprints_file_path := s\<rparr>))
      else if name p = ''fileRecipesPath'' then
        and_then (str p) (\<lambda>s. Inr (c\<lparr>file_recipe_path := s\<rparr>))
      else if name p = ''containersPath'' then
        and_then (str p) (\<lambda>s. Inr (c\<lparr>container_path := s\<rparr>))
      else if name p = ''fullFileFingerprintsPath'' then
        and_then (str p) (\<lambda>s. Inr (c\<lparr>full_file_fingerprints_path := s\<rparr>))
      else if name p = ''fullFileStoragePath'' then
        and_then (str p) (\<lambda>s. Inr (c\<lparr>full_file_storage_path := s\<rparr>))
      else if name p = ''MTL1'' then and_then (str p) (\<lambda>s. Inr (c\<lparr>MTL1 := s\<rparr>))
      else if name p = ''MTL2'' then and_then (str p) (\<lambda>s. Inr (c\<lparr>MTL2 := s\<rparr>))
      else if name p = ''MTL3'' then and_then (str p) (\<lambda>s. Inr (c\<lparr>MTL3 := s\<rparr>))
      else if name p = ''MTL4'' then and_then (str p) (\<lambda>s. Inr (c\<lparr>MTL4 := s\<rparr>))
      else if name p = ''MTL5'' then and_then (str p) (\<lambda>s. Inr (c\<lparr>MTL5 := s\<rparr>))
      else if name p = ''MTL6'' then and_then (str p) (\<lambda>s. Inr (c\<lparr>MTL6 := s\<rparr>))
      else Inr c)"

definition parse_params :: "Config \<Rightarrow> param list \<Rightarrow> Config result" where
  "parse_params c ps = foldE set_param c ps"

section \<open>What a parameter list sets\<close>

definition last_int :: "string \<Rightarrow> int \<Rightarrow> param list \<Rightarrow> int" where
  "last_int key d ps =
     (case filter (\<lambda>p. name p = key) (rev ps) of [] \<Rightarrow> d | p # _ \<Rightarrow> valueint p)"

lemma last_int_snoc:
  "last_int key d (ps @ [p]) = (if name p = key then valueint p else last_int key d ps)"
  by (simp add: last_int_def)

text \<open>The member that a parameter does not name is not touched.\<close>

lemma set_param_ints:
  assumes "set_param c p = Inr c'"
  shows "avg_chunk_size c' = (if name p = ''Size'' then valueint p else avg_chunk_size c)"
    and "restore_version c' =
      (if name p = ''RestoreVersion'' then valueint p else restore_version c)"
    and "normal_level c' = (if name p = ''Normal'' then valueint p else normal_level c)"
  using assms
  by (auto simp: set_param_def and_then_eq_Inr split: if_splits)

lemma parse_params_ints:
  assumes "parse_params c ps = Inr c'"
  shows "avg_chunk_size c' = last_int ''Size'' (avg_chunk_size c) ps \<and>
    restore_version c' = last_int ''RestoreVersion'' (restore_version c) ps \<and>
    normal_level c' = last_int ''Normal'' (normal_level c) ps"
  using assms
proof (induction ps arbitrary: c' rule: rev_induct)
  case Nil
  then show ?case by (simp add: parse_params_def last_int_def)
next
  case (snoc p ps)
  then obtain c1 where c1: "parse_params c ps = Inr c1" and p: "set_param c1 p = Inr c'"
    by (auto simp: parse_params_def foldE_append and_then_eq_Inr)
  from snoc.IH [OF c1] set_param_ints [OF p] show ?case by (simp add: last_int_snoc)
qed

end
