(* ===== verification/Chunking.thy ===== *)
theory Chunking
  imports FastCDC Config
begin

text \<open>
  The function pointer \<open>chunking\<close> of \<open>main.cpp\<close> and \<open>src/pipeline_chunk.cpp\<close>: the
  functions it can point to, how the configuration selects one, and the contract every
  caller relies on (the locale \<open>chunker\<close>). \<open>split_chunks\<close> is the loop that advances
  through a buffer by the length each call returns.
\<close>

section \<open>The function pointer\<close>

datatype chunking_fn =
    Null_fn | Fn_FSC_512 | Fn_FSC_4 | Fn_FSC_8 | Fn_FSC_16
  | Fn_FastCDC_without_NC | Fn_FastCDC_with_NC

text \<open>
  A call \<open>chunking(p, n)\<close> on the rest of a buffer; calling the null pointer faults.
\<close>

definition chunking :: "chunking_fn \<Rightarrow> cdc \<Rightarrow> bytes \<Rightarrow> (nat \<times> cdc) result" where
  "chunking f c p =
     (let n = of_nat (length p) :: u32 in
      case f of
        Null_fn \<Rightarrow> Inl MemoryFault
      | Fn_FSC_512 \<Rightarrow> Inr (unat (FSC_512 p n), c)
      | Fn_FSC_4 \<Rightarrow> Inr (unat (FSC_4 p n), c)
      | Fn_FSC_8 \<Rightarrow> Inr (unat (FSC_8 p n), c)
      | Fn_FSC_16 \<Rightarrow> Inr (unat (FSC_16 p n), c)
      | Fn_FastCDC_without_NC \<Rightarrow>
          and_then (FastCDC_without_NC c p n) (\<lambda>(k, c'). Inr (unat k, c'))
      | Fn_FastCDC_with_NC \<Rightarrow>
          and_then (FastCDC_with_NC c p n) (\<lambda>(k, c'). Inr (unat k, c')))"

text \<open>
  The selection in \<open>main\<close>; \<open>None\<close> is its early \<open>return 0\<close>. Full-file deduplication
  never uses the pointer. An invalid level leaves the pointer null.
\<close>

definition select_chunking ::
    "(bytes \<Rightarrow> bytes) \<Rightarrow> Config \<Rightarrow> cdc \<Rightarrow> (chunking_fn \<times> cdc) option" where
  "select_chunking md5 cfg c =
     (case cm cfg of
        CDC \<Rightarrow>
          let c' = fastCDC_init md5 (avg_chunk_size cfg) (normal_level cfg) c
          in Some (if normal_level cfg = 0 then Fn_FastCDC_without_NC
                   else if 1 \<le> normal_level cfg \<and> normal_level cfg \<le> 3 then Fn_FastCDC_with_NC
                   else Null_fn, c')
      | FSC \<Rightarrow>
          if avg_chunk_size cfg = 4 * 1024 then Some (Fn_FSC_4, c)
          else if avg_chunk_size cfg = 8 * 1024 then Some (Fn_FSC_8, c)
          else if avg_chunk_size cfg = 16 * 1024 then Some (Fn_FSC_16, c)
          else if avg_chunk_size cfg = 512 then Some (Fn_FSC_512, c)
          else None
      | FULL_FILE \<Rightarrow> Some (Null_fn, c))"

text \<open>The selection of the pipeline, which uses \<open>FastCDC_with_NC\<close> for every level.\<close>

definition chunking_method_prepare ::
    "(bytes \<Rightarrow> bytes) \<Rightarrow> Config \<Rightarrow> cdc \<Rightarrow> (chunking_fn \<times> cdc) result" where
  "chunking_method_prepare md5 cfg c =
     (if cm cfg = FSC then
        if avg_chunk_size cfg = 4096 then Inr (Fn_FSC_4, c)
        else if avg_chunk_size cfg = 8192 then Inr (Fn_FSC_8, c)
        else if avg_chunk_size cfg = 16384 then Inr (Fn_FSC_16, c)
        else Inl ExitFailure
      else if cm cfg = CDC then
        Inr (Fn_FastCDC_with_NC, fastCDC_init md5 (avg_chunk_size cfg) (normal_level cfg) c)
      else Inl ExitFailure)"

section \<open>The loop over a buffer\<close>

text \<open>
  \<open>while (file_offset < n_read)\<close>: the chunks of a buffer, in order, and the state of the
  chunker after it. \<open>None\<close> is a loop that does not end, which a chunk of length 0 causes.
\<close>

partial_function (option) split_chunks ::
    "('c \<Rightarrow> bytes \<Rightarrow> (nat \<times> 'c) result) \<Rightarrow> 'c \<Rightarrow> bytes \<Rightarrow> (bytes list \<times> 'c) result option" where
  "split_chunks ck c p =
     (if p = [] then Some (Inr ([], c))
      else case ck c p of
        Inl e \<Rightarrow> Some (Inl e)
      | Inr r \<Rightarrow>
          if length p < fst r then Some (Inl MemoryFault)
          else Option.bind (split_chunks ck (snd r) (drop (fst r) p)) (\<lambda>rest.
            Some (and_then rest (\<lambda>(ds, c'). Inr (take (fst r) p # ds, c')))))"

section \<open>The contract of a chunker\<close>

locale chunker =
  fixes ck :: "'c \<Rightarrow> bytes \<Rightarrow> (nat \<times> 'c) result"
    and ok :: "'c \<Rightarrow> bool"
    and limit :: "'c \<Rightarrow> nat"
  assumes progress: "ok c \<Longrightarrow> p \<noteq> [] \<Longrightarrow> length p < 2 ^ 31 \<Longrightarrow>
    \<exists>k c'. ck c p = Inr (k, c') \<and> 0 < k \<and> k \<le> length p \<and> k \<le> limit c \<and>
      ok c' \<and> limit c' = limit c"
begin

text \<open>The loop ends, and its chunks are a partition of the buffer.\<close>

lemma split_total:
  assumes "ok c" and "length p < 2 ^ 31"
  shows "\<exists>ds c'. split_chunks ck c p = Some (Inr (ds, c')) \<and> concat ds = p \<and>
    (\<forall>d \<in> set ds. d \<noteq> [] \<and> length d \<le> limit c) \<and> ok c' \<and> limit c' = limit c"
  using assms
proof (induction p arbitrary: c rule: length_induct)
  case (1 p)
  show ?case
  proof (cases "p = []")
    case True
    then show ?thesis using "1.prems" by (subst split_chunks.simps) simp
  next
    case False
    from progress [OF "1.prems"(1) False "1.prems"(2)] obtain k c' where
      k: "ck c p = Inr (k, c')" "0 < k" "k \<le> length p" "k \<le> limit c"
      and c': "ok c'" "limit c' = limit c" by blast
    have shorter: "length (drop k p) < length p" using k(2,3) by simp
    then have "length (drop k p) < 2 ^ 31" using "1.prems"(2) by simp
    with "1.IH" shorter c'(1) have "\<exists>ds c''.
        split_chunks ck c' (drop k p) = Some (Inr (ds, c'')) \<and> concat ds = drop k p \<and>
        (\<forall>d \<in> set ds. d \<noteq> [] \<and> length d \<le> limit c') \<and> ok c'' \<and> limit c'' = limit c'"
      by blast
    then obtain ds c'' where
      rest: "split_chunks ck c' (drop k p) = Some (Inr (ds, c''))" "concat ds = drop k p"
        "\<forall>d \<in> set ds. d \<noteq> [] \<and> length d \<le> limit c'" "ok c''" "limit c'' = limit c'"
      by blast
    have "split_chunks ck c p = Some (Inr (take k p # ds, c''))"
      using False k rest(1) by (subst split_chunks.simps) simp
    moreover have "concat (take k p # ds) = p" using rest(2) by simp
    moreover have "\<forall>d \<in> set (take k p # ds). d \<noteq> [] \<and> length d \<le> limit c"
      using False k(2,4) c'(2) rest(3) by simp
    ultimately show ?thesis using rest(4,5) c'(2) by metis
  qed
qed

end

definition chunker_ok :: "chunking_fn \<Rightarrow> cdc \<Rightarrow> bool" where
  "chunker_ok f c \<longleftrightarrow>
     (case f of Null_fn \<Rightarrow> False | Fn_FastCDC_without_NC \<Rightarrow> cdc_ok c
      | Fn_FastCDC_with_NC \<Rightarrow> cdc_ok c | _ \<Rightarrow> True)"

definition chunk_limit :: "chunking_fn \<Rightarrow> cdc \<Rightarrow> nat" where
  "chunk_limit f c =
     (case f of Null_fn \<Rightarrow> 0 | Fn_FSC_512 \<Rightarrow> 512 | Fn_FSC_4 \<Rightarrow> 4096 | Fn_FSC_8 \<Rightarrow> 8192
      | Fn_FSC_16 \<Rightarrow> 16384 | _ \<Rightarrow> unat (MaxSize c))"

lemma find_upt_first:
  "(\<forall>i. lo \<le> i \<and> i < (case find P [lo..<hi] of Some i \<Rightarrow> i | None \<Rightarrow> hi) \<longrightarrow> \<not> P i) \<and>
   ((case find P [lo..<hi] of Some i \<Rightarrow> i | None \<Rightarrow> hi) < hi \<longrightarrow>
     P (case find P [lo..<hi] of Some i \<Rightarrow> i | None \<Rightarrow> hi))"
proof (cases "find P [lo..<hi]")
  case None
  then have "\<not> P i" if "lo \<le> i" "i < hi" for i using that by (auto simp: find_None_iff)
  with None show ?thesis by simp
next
  case (Some k)
  then obtain j where "j < hi - lo" "P (lo + j)" "k = lo + j" "\<forall>i<j. \<not> P (lo + i)"
    by (auto simp: find_Some_iff)
  with Some show ?thesis by (auto simp: le_iff_add [of lo])
qed

lemma fsc_length:
  assumes "length p < 2 ^ 31"
  shows "unat (FSC_512 p (of_nat (length p))) = min 512 (length p)"
    and "unat (FSC_4 p (of_nat (length p))) = min 4096 (length p)"
    and "unat (FSC_8 p (of_nat (length p))) = min 8192 (length p)"
    and "unat (FSC_16 p (of_nat (length p))) = min 16384 (length p)"
proof -
  have s: "sint (of_nat (length p) :: u32) = int (length p)"
    using assms sint_small [of "of_nat (length p)"] unat_of_length [of "length p"]
    by (metis int_nat_eq uint_ge_0 nat_uint_eq)
  show "unat (FSC_512 p (of_nat (length p))) = min 512 (length p)"
    and "unat (FSC_4 p (of_nat (length p))) = min 4096 (length p)"
    and "unat (FSC_8 p (of_nat (length p))) = min 8192 (length p)"
    and "unat (FSC_16 p (of_nat (length p))) = min 16384 (length p)"
    using assms
    by (auto simp: FSC_512_def FSC_4_def FSC_8_def FSC_16_def word_sle_eq s unat_of_length)
qed


lemma fastcdc_length:
  assumes ok: "cdc_ok c" and len: "length p < 2 ^ 31" and ne: "p \<noteq> []"
    and k: "k = (if length p \<le> unat (MinSize c) then length p
                 else cdc_cut front bck (unat (MinSize c)) avg (min (length p) (unat (MaxSize c))) p)"
  shows "0 < k \<and> k \<le> length p \<and> k \<le> unat (MaxSize c) \<and> unat (of_nat k :: u32) = k"
proof -
  have min_max: "0 < unat (MinSize c)" "unat (MinSize c) \<le> unat (MaxSize c)"
    using ok by (auto simp: cdc_ok_def word_le_nat_alt word_less_nat_alt)
  have "0 < k \<and> k \<le> length p \<and> k \<le> unat (MaxSize c)"
    using k min_max ne cdc_cut_bounds [of "unat (MinSize c)" "min (length p) (unat (MaxSize c))"
        front bck avg p]
    by (auto split: if_splits)
  then show ?thesis using len by (simp add: unat_of_length)
qed

lemma MaxSize_after: "MaxSize (cdc_after c n) = MaxSize c"
  by (simp add: cdc_after_def)

interpretation fn: chunker "chunking f" "chunker_ok f" "chunk_limit f" for f
proof
  fix c and p :: bytes
  assume ok: "chunker_ok f c" and ne: "p \<noteq> []" and len: "length p < 2 ^ 31"
  show "\<exists>k c'. chunking f c p = Inr (k, c') \<and> 0 < k \<and> k \<le> length p \<and> k \<le> chunk_limit f c \<and>
      chunker_ok f c' \<and> chunk_limit f c' = chunk_limit f c"
  proof (cases f)
    case Fn_FastCDC_with_NC
    then have cok: "cdc_ok c" using ok by (simp add: chunker_ok_def)
    show ?thesis
      using fastcdc_length [OF cok len ne refl] len
      by (simp add: Fn_FastCDC_with_NC chunking_def FastCDC_with_NC_spec [OF cok len]
          chunk_limit_def chunker_ok_def MaxSize_after cdc_ok_after [OF cok len] Let_def)
  next
    case Fn_FastCDC_without_NC
    then have cok: "cdc_ok c" using ok by (simp add: chunker_ok_def)
    show ?thesis
      using fastcdc_length [OF cok len ne refl] len
      by (simp add: Fn_FastCDC_without_NC chunking_def FastCDC_without_NC_spec [OF cok len]
          chunk_limit_def chunker_ok_def cok Let_def)
  qed (use ok ne len in \<open>auto simp: chunking_def chunker_ok_def chunk_limit_def fsc_length Let_def\<close>)
qed

section \<open>Properties\<close>

text \<open>
  C14. Content-defined chunking picks the first cut point: on a buffer of the length it is
  given, longer than the minimum, \<open>FastCDC_with_NC\<close> reads only inside the buffer and returns
  the first position from the minimum on whose rolling hash is zero under the front mask
  (before the average) or the back mask (from the average on), and the capped length when
  there is none. The global average becomes the smaller of itself and a length that is not
  above the maximum.
\<close>

theorem FastCDC_with_NC_first_cut:
  assumes "cdc_ok c" and "length p < 2 ^ 31" and "unat (MinSize c) < length p"
  shows "\<exists>k. FastCDC_with_NC c p (of_nat (length p)) = Inr (of_nat k, cdc_after c (length p)) \<and>
    unat (MinSize c) \<le> k \<and> k \<le> min (length p) (unat (MaxSize c)) \<and>
    (\<forall>i. unat (MinSize c) \<le> i \<and> i < k \<longrightarrow>
       \<not> is_cut (if i < unat (fastcdc_avg_size (cdc_after c (length p)))
                 then Mask_front c else Mask_back c) (unat (MinSize c)) p i) \<and>
    (k < min (length p) (unat (MaxSize c)) \<longrightarrow>
       is_cut (if k < unat (fastcdc_avg_size (cdc_after c (length p)))
               then Mask_front c else Mask_back c) (unat (MinSize c)) p k)"
proof -
  let ?lo = "unat (MinSize c)" and ?hi = "min (length p) (unat (MaxSize c))"
  let ?avg = "unat (fastcdc_avg_size (cdc_after c (length p)))"
  define k where "k = cdc_cut (Mask_front c) (Mask_back c) ?lo ?avg ?hi p"
  have "?lo \<le> ?hi" using assms by (simp add: cdc_ok_def word_le_nat_alt)
  then have "?lo \<le> k \<and> k \<le> ?hi" unfolding k_def by (rule cdc_cut_bounds)
  moreover have "FastCDC_with_NC c p (of_nat (length p)) = Inr (of_nat k, cdc_after c (length p))"
    using assms by (simp add: FastCDC_with_NC_spec k_def)
  moreover have "(\<forall>i. ?lo \<le> i \<and> i < k \<longrightarrow>
       \<not> is_cut (if i < ?avg then Mask_front c else Mask_back c) ?lo p i) \<and>
    (k < ?hi \<longrightarrow> is_cut (if k < ?avg then Mask_front c else Mask_back c) ?lo p k)"
    unfolding k_def cdc_cut_def is_cut_def by (rule find_upt_first)
  ultimately show ?thesis by blast
qed

text \<open>Inputs for the witnesses: nine bytes, an average of 8 at level 2.\<close>

definition sample_bytes :: bytes where
  "sample_bytes = [187, 92, 195, 123, 41, 132, 16, 209, 74]"

definition sample_cdc :: cdc where
  "sample_cdc = fastCDC_init (\<lambda>_. []) 8 2 cdc_zero"

lemma length_sample: "length sample_bytes = 9"
  by (simp add: sample_bytes_def)

lemma sample_cdc_ok: "cdc_ok sample_cdc"
  by (simp add: sample_cdc_def cdc_ok_init)

lemma sample_cdc_sizes: "unat (MinSize sample_cdc) = 2 \<and> unat (MaxSize sample_cdc) = 32"
  by (simp add: sample_cdc_def fastCDC_init_def Let_def signed_divide_int_def)

theorem FastCDC_with_NC_first_cut_witness:
  "\<exists>k. FastCDC_with_NC sample_cdc sample_bytes 9 = Inr (of_nat k, cdc_after sample_cdc 9) \<and>
     2 \<le> k \<and> k \<le> 9"
  using FastCDC_with_NC_first_cut [of sample_cdc sample_bytes] sample_cdc_ok sample_cdc_sizes
  by (auto simp: length_sample)

text \<open>
  C15. Whether a position is a cut point is a matter of content: two positions, in any two
  buffers and at any distance from the start of their chunk of at least 64 bytes, are
  judged alike when the 64 bytes that end in them are the same. This is what lets
  deduplication find the same chunks after an insertion or a deletion.
\<close>

theorem cut_is_content_defined:
  assumes "lo + 63 \<le> i" "i < length p" and "lo' + 63 \<le> j" "j < length p'"
    and "segment (i - 63) 64 p = segment (j - 63) 64 p'"
  shows "is_cut msk lo p i \<longleftrightarrow> is_cut msk lo' p' j"
  using assms by (rule is_cut_local)

theorem cut_is_content_defined_witness:
  "is_cut Mask11 0 (replicate 64 7) 63 \<longleftrightarrow> is_cut Mask11 1 (1 # 2 # replicate 64 7) 65"
  by (rule cut_is_content_defined) (simp_all add: segment_def)

text \<open>A call that returns 0 and leaves the state as it is repeats for ever.\<close>

lemma split_chunks_no_zero:
  assumes "split_chunks ck c p = Some y"
  shows "p \<noteq> [] \<longrightarrow> ck c p \<noteq> Inr (0, c)"
  using assms
proof (rule split_chunks.raw_induct [of "\<lambda>ck c p y. p \<noteq> [] \<longrightarrow> ck c p \<noteq> Inr (0, c)", rotated])
  fix rec ck c p y
  assume IH: "\<And>ck c p y. rec ck c p = Some y \<Longrightarrow> p \<noteq> [] \<longrightarrow> ck c p \<noteq> Inr (0, c)"
    and step: "(if p = [] then Some (Inr ([], c))
      else case ck c p of Inl e \<Rightarrow> Some (Inl e)
      | Inr r \<Rightarrow> if length p < fst r then Some (Inl MemoryFault)
          else Option.bind (rec ck (snd r) (drop (fst r) p)) (\<lambda>rest.
            Some (and_then rest (\<lambda>(ds, c'). Inr (take (fst r) p # ds, c'))))) = Some y"
  show "p \<noteq> [] \<longrightarrow> ck c p \<noteq> Inr (0, c)"
    using IH [of ck c p] step by (auto simp: bind_eq_Some_conv)
qed

lemma split_chunks_stuck: "p \<noteq> [] \<Longrightarrow> ck c p = Inr (0, c) \<Longrightarrow> split_chunks ck c p = None"
  using split_chunks_no_zero [of ck c p] by (cases "split_chunks ck c p") blast+

lemma size_0_returns_0:
  assumes "p \<noteq> []" and "length p < 2 ^ 31" and "f = Fn_FastCDC_with_NC \<or> f = Fn_FastCDC_without_NC"
  shows "chunking f (fastCDC_init md5 0 level c) p = Inr (0, fastCDC_init md5 0 level c)"
proof -
  have n: "(0 :: u32) < of_nat (length p)"
    using assms(1) unat_of_length [OF assms(2)] by (simp add: word_less_nat_alt)
  have sizes: "MinSize (fastCDC_init md5 0 level c) = 0" "MaxSize (fastCDC_init md5 0 level c) = 0"
    "fastcdc_avg_size (fastCDC_init md5 0 level c) = 0"
    by (simp_all add: fastCDC_init_def Let_def signed_divide_int_def)
  show ?thesis
    using assms(3) n
    by (auto simp: chunking_def Let_def FastCDC_with_NC_def FastCDC_without_NC_def sizes
      scan_unsigned.simps scan_signed.simps)
qed

text \<open>
  C16. When the chunk loop ends. The pointer is not null, and for \<open>FastCDC\<close> the sizes are in
  order (\<open>0 < MinSize \<le> fastcdc_avg_size \<le> MaxSize < 2 ^ 31\<close>, which \<open>fastCDC_init\<close> sets up for
  a \<open>Size\<close> from 4 to \<open>2 ^ 29 - 1\<close>): then the loop ends, reads nothing outside of the buffer,
  and its chunks, in order, are the buffer; none is empty and none exceeds the size the function
  is set up for. A null pointer, which an invalid level leaves, faults on the first byte. With
  \<open>CDC\<close> and a \<open>Size\<close> of 0 the loop never ends on a buffer that is not empty: \<open>MaxSize\<close> is 0, each
  call cuts a chunk of length 0, and the offset does not move.
\<close>

theorem split_chunks_partition:
  assumes "length p < 2 ^ 31"
  shows "(chunker_ok f c \<longrightarrow> (\<exists>ds c'. split_chunks (chunking f) c p = Some (Inr (ds, c')) \<and> concat ds = p \<and>
      (\<forall>d \<in> set ds. d \<noteq> [] \<and> length d \<le> chunk_limit f c))) \<and>
    (p \<noteq> [] \<longrightarrow> split_chunks (chunking Null_fn) c p = Some (Inl MemoryFault)) \<and>
    (p \<noteq> [] \<and> (f = Fn_FastCDC_with_NC \<or> f = Fn_FastCDC_without_NC) \<longrightarrow>
      split_chunks (chunking f) (fastCDC_init md5 0 level c) p = None)"
proof (intro conjI impI)
  assume "chunker_ok f c"
  then show "\<exists>ds c'. split_chunks (chunking f) c p = Some (Inr (ds, c')) \<and> concat ds = p \<and>
      (\<forall>d \<in> set ds. d \<noteq> [] \<and> length d \<le> chunk_limit f c)"
    using fn.split_total assms by blast
next
  assume "p \<noteq> []"
  then show "split_chunks (chunking Null_fn) c p = Some (Inl MemoryFault)"
    by (subst split_chunks.simps) (simp add: chunking_def)
next
  assume "p \<noteq> [] \<and> (f = Fn_FastCDC_with_NC \<or> f = Fn_FastCDC_without_NC)"
  then show "split_chunks (chunking f) (fastCDC_init md5 0 level c) p = None"
    using size_0_returns_0 assms by (intro split_chunks_stuck) auto
qed

theorem split_chunks_partition_witness:
  "(\<exists>ds c'. split_chunks (chunking Fn_FastCDC_with_NC) sample_cdc sample_bytes =
      Some (Inr (ds, c')) \<and> concat ds = sample_bytes) \<and>
   split_chunks (chunking Fn_FastCDC_with_NC) (fastCDC_init (\<lambda>_. []) 0 2 sample_cdc) sample_bytes = None"
proof -
  have "sample_bytes \<noteq> []" "length sample_bytes < 2 ^ 31" by (simp_all add: sample_bytes_def)
  with split_chunks_partition [of sample_bytes Fn_FastCDC_with_NC sample_cdc "\<lambda>_. []" 2] show ?thesis
    by (simp add: chunker_ok_def sample_cdc_ok) blast
qed

lemma cdc_cut_first:
  assumes "lo \<le> i" and "i < cdc_cut front bck lo avg hi p"
  shows "\<not> is_cut (if i < avg then front else bck) lo p i"
  using find_upt_first [where lo = lo and hi = hi and P = "\<lambda>i. is_cut (if i < avg then front else bck) lo p i"] assms
  unfolding cdc_cut_def is_cut_def by blast

lemma cdc_cut_at:
  assumes "cdc_cut front bck lo avg hi p < hi"
  shows "is_cut (if cdc_cut front bck lo avg hi p < avg then front else bck) lo p (cdc_cut front bck lo avg hi p)"
  using find_upt_first [where lo = lo and hi = hi and P = "\<lambda>i. is_cut (if i < avg then front else bck) lo p i"] assms
  unfolding cdc_cut_def is_cut_def by blast

lemma is_cut_fewer_bits: "front AND bck = bck \<Longrightarrow> is_cut front lo p i \<Longrightarrow> is_cut bck lo p i"
proof -
  assume sub: "front AND bck = bck" and cut: "is_cut front lo p i"
  let ?h = "gear_hash 0 (segment lo (Suc i - lo) p)"
  have "?h AND bck = (?h AND front) AND bck" by (simp add: sub and.assoc)
  then show "is_cut bck lo p i" using cut by (simp add: is_cut_def)
qed

text \<open>
  A lower average lets the back mask, which has fewer bits, decide earlier: the cut point moves
  to the first position from the new average on that the back mask accepts, when that comes
  before the old average and the old cut point.
\<close>

lemma cdc_cut_lower_avg:
  assumes sub: "front AND bck = bck" and le: "lo \<le> a" "a \<le> b" "lo \<le> hi"
    and k: "k = cdc_cut front bck lo b hi p" and k': "k' = cdc_cut front bck lo a hi p"
  shows "k' \<le> k" and "k' < k \<longleftrightarrow> (\<exists>i. a \<le> i \<and> i < b \<and> i < k \<and> is_cut bck lo p i)"
proof -
  have lo: "lo \<le> k" "k \<le> hi" "lo \<le> k'" "k' \<le> hi"
    using cdc_cut_bounds [OF le(3)] by (auto simp: k k')
  have none: "\<not> is_cut (if i < a then front else bck) lo p i" if "lo \<le> i" "i < k'" for i
    using cdc_cut_first that unfolding k' by blast
  show "k' \<le> k"
  proof (rule ccontr)
    assume "\<not> k' \<le> k"
    then have "k < hi" "k < k'" using lo by auto
    then have "is_cut (if k < b then front else bck) lo p k" using cdc_cut_at unfolding k by blast
    moreover have "\<not> is_cut (if k < a then front else bck) lo p k" using none lo \<open>k < k'\<close> by blast
    ultimately show False using is_cut_fewer_bits [OF sub] le(2) by (auto split: if_splits)
  qed
  show "k' < k \<longleftrightarrow> (\<exists>i. a \<le> i \<and> i < b \<and> i < k \<and> is_cut bck lo p i)"
  proof
    assume less: "k' < k"
    then have "is_cut (if k' < a then front else bck) lo p k'"
      using cdc_cut_at lo(2) unfolding k' by (metis le_trans less_le_not_le not_less)
    moreover have "\<not> is_cut (if k' < b then front else bck) lo p k'"
      using cdc_cut_first lo(3) less unfolding k by blast
    ultimately show "\<exists>i. a \<le> i \<and> i < b \<and> i < k \<and> is_cut bck lo p i"
      using less le(2) by (intro exI [of _ k']) (auto split: if_splits)
  next
    assume "\<exists>i. a \<le> i \<and> i < b \<and> i < k \<and> is_cut bck lo p i"
    then obtain i where i: "a \<le> i" "i < k" "is_cut bck lo p i" by blast
    then have "\<not> i < k'" using none [of i] le(1) by auto
    with i(2) show "k' < k" by simp
  qed
qed

text \<open>
  C17. \<open>FastCDC_with_NC\<close> is not a function of content. A call on a buffer \<open>q\<close> that is longer than
  the minimum and not longer than the average lowers the global average to the length of \<open>q\<close>, and
  nothing raises it again. When the bits of the back mask are among those of the front mask, as at
  levels 2 and 3, a later call on a buffer \<open>p\<close> then never cuts later than it would have without
  the call on \<open>q\<close>, and it cuts earlier exactly when the back mask accepts a position between the
  length of \<open>q\<close> and the old average that lies before the old cut. So how a block of a file is
  cut depends on where the block before it ended.
\<close>

theorem FastCDC_with_NC_depends_on_history:
  assumes "cdc_ok c" and "Mask_front c AND Mask_back c = Mask_back c"
    and "unat (MinSize c) < length q" "length q \<le> unat (fastcdc_avg_size c)"
    and "unat (MinSize c) < length p" "length p < 2 ^ 31"
  shows "\<exists>kq c' k k' s s'. FastCDC_with_NC c q (of_nat (length q)) = Inr (kq, c') \<and>
    c' = c\<lparr>fastcdc_avg_size := of_nat (length q)\<rparr> \<and>
    FastCDC_with_NC c p (of_nat (length p)) = Inr (of_nat k, s) \<and>
    FastCDC_with_NC c' p (of_nat (length p)) = Inr (of_nat k', s') \<and>
    k' \<le> k \<and> k \<le> length p \<and>
    (k' < k \<longleftrightarrow> (\<exists>i. length q \<le> i \<and> i < unat (fastcdc_avg_size c) \<and> i < k \<and>
       is_cut (Mask_back c) (unat (MinSize c)) p i))"
proof -
  let ?lo = "unat (MinSize c)" and ?avg = "unat (fastcdc_avg_size c)"
  let ?hi = "min (length p) (unat (MaxSize c))"
  let ?a = "min (length q) (length p)" and ?b = "min ?avg (length p)"
  define c' where "c' = c\<lparr>fastcdc_avg_size := of_nat (length q)\<rparr>"
  have sizes: "?lo \<le> ?avg" "?avg \<le> unat (MaxSize c)" "unat (MaxSize c) < 2 ^ 31"
    using assms(1) by (simp_all add: cdc_ok_def word_le_nat_alt)
  have q: "length q < 2 ^ 31" "length q \<le> unat (MaxSize c)" using assms(4) sizes by linarith+
  then have after: "cdc_after c (length q) = c'" using assms(3,4) by (simp add: cdc_after_def c'_def)
  have ok': "cdc_ok c'" using cdc_ok_after [OF assms(1) q(1)] after by simp
  have avg: "unat (fastcdc_avg_size (cdc_after c (length p))) = ?b"
    using assms(5,6) sizes by (auto simp: cdc_after_def unat_of_length)
  have avg': "unat (fastcdc_avg_size (cdc_after c' (length p))) = ?a"
    using assms(5,6) sizes q by (auto simp: cdc_after_def unat_of_length c'_def)
  have same: "MinSize c' = MinSize c" "MaxSize c' = MaxSize c" "Mask_front c' = Mask_front c"
    "Mask_back c' = Mask_back c" by (simp_all add: c'_def)
  define k where "k = cdc_cut (Mask_front c) (Mask_back c) ?lo ?b ?hi p"
  define k' where "k' = cdc_cut (Mask_front c) (Mask_back c) ?lo ?a ?hi p"
  have le: "?lo \<le> ?a" "?a \<le> ?b" "?lo \<le> ?hi" using assms(3-5) sizes by auto
  note cut = cdc_cut_lower_avg [OF assms(2) le k_def k'_def]
  have kp: "k \<le> length p" using cdc_cut_bounds [OF le(3)] by (simp add: k_def)
  have "FastCDC_with_NC c p (of_nat (length p)) = Inr (of_nat k, cdc_after c (length p))"
    using assms(5) by (simp add: FastCDC_with_NC_spec [OF assms(1,6)] k_def avg)
  moreover have "FastCDC_with_NC c' p (of_nat (length p)) = Inr (of_nat k', cdc_after c' (length p))"
    using assms(5) by (simp add: FastCDC_with_NC_spec [OF ok' assms(6)] k'_def avg' same)
  moreover have "(k' < k) = (\<exists>i. length q \<le> i \<and> i < ?avg \<and> i < k \<and> is_cut (Mask_back c) ?lo p i)"
  proof -
    have "?a \<le> i \<and> i < ?b \<longleftrightarrow> length q \<le> i \<and> i < ?avg" if "i < k" for i using that kp by auto
    then show ?thesis unfolding cut(2) by blast
  qed
  moreover obtain kq where "FastCDC_with_NC c q (of_nat (length q)) = Inr (kq, c')"
    using FastCDC_with_NC_spec [OF assms(1) q(1)] after by simp
  ultimately show ?thesis
    using cut(1) kp by (intro exI [of _ kq] exI [of _ c'] exI [of _ k] exI [of _ k'] exI conjI)
      (assumption | simp add: c'_def)+
qed

theorem FastCDC_with_NC_depends_on_history_witness:
  "\<exists>c' k k' s s'. FastCDC_with_NC sample_cdc [1, 2, 3] 3 = Inr (3, c') \<and>
     FastCDC_with_NC sample_cdc sample_bytes 9 = Inr (of_nat k, s) \<and>
     FastCDC_with_NC c' sample_bytes 9 = Inr (of_nat k', s') \<and> k = 9 \<and> k' < 9"
proof -
  have mask: "Mask_front sample_cdc AND Mask_back sample_cdc = Mask_back sample_cdc" by code_simp
  have avg: "unat (fastcdc_avg_size sample_cdc) = 8" by code_simp
  have n: "unat (MinSize sample_cdc) = 2" using sample_cdc_sizes by simp
  have "length [1, 2, 3 :: byte] = 3" by simp
  from FastCDC_with_NC_depends_on_history [OF sample_cdc_ok mask, of "[1, 2, 3]" sample_bytes, unfolded n avg length_sample this]
  obtain kq c' k k' s s' where h: "FastCDC_with_NC sample_cdc [1, 2, 3] (of_nat 3) = Inr (kq, c')"
    "FastCDC_with_NC sample_cdc sample_bytes (of_nat 9) = Inr (of_nat k, s)"
    "FastCDC_with_NC c' sample_bytes (of_nat 9) = Inr (of_nat k', s')" "k' \<le> k" "k \<le> 9"
    "k' < k \<longleftrightarrow> (\<exists>i\<ge>3. i < 8 \<and> i < k \<and> is_cut (Mask_back sample_cdc) 2 sample_bytes i)"
    by (simp, blast)
  have "map_sum id (unat \<circ> fst) (FastCDC_with_NC sample_cdc sample_bytes 9) = Inr 9" by code_simp
  then have "unat (of_nat k :: u32) = 9" using h(2) by simp
  then have "k = 9" using h(5) by (simp add: unat_of_length)
  moreover have "is_cut (Mask_back sample_cdc) 2 sample_bytes 5" by code_simp
  then have "k' < 9" using h(6) \<open>k = 9\<close> by auto
  moreover have "map_sum id (unat \<circ> fst) (FastCDC_with_NC sample_cdc [1, 2, 3] 3) = Inr 3" by code_simp
  then have "unat kq = 3" using h(1) by simp
  then have "of_nat (unat kq) = (of_nat 3 :: u32)" by (simp only:)
  then have "kq = 3" by simp
  ultimately show ?thesis using h(1-3) by (intro exI conjI) simp_all
qed

text \<open>
  In the pipeline, level 0 leaves both masks zero and still selects the normalised
  chunker: every buffer longer than the minimum is cut at the minimum, whatever its
  content, while \<open>main\<close> selects the chunker without normalisation.
\<close>

theorem pipeline_level_0_cuts_at_minimum:
  assumes "cm cfg = CDC" and "normal_level cfg = 0"
    and "4 \<le> avg_chunk_size cfg" and "avg_chunk_size cfg < 2 ^ 29"
    and "nat (avg_chunk_size cfg div 4) < length p" and "length p < 2 ^ 31"
  shows "\<exists>c. chunking_method_prepare md5 cfg cdc_zero = Inr (Fn_FastCDC_with_NC, c) \<and>
      chunking Fn_FastCDC_with_NC c p =
        Inr (nat (avg_chunk_size cfg div 4), cdc_after c (length p)) \<and>
      (\<exists>c'. select_chunking md5 cfg cdc_zero = Some (Fn_FastCDC_without_NC, c'))"
proof -
  define c where "c = fastCDC_init md5 (avg_chunk_size cfg) 0 cdc_zero"
  have ok: "cdc_ok c" using assms(3,4) by (simp add: c_def cdc_ok_init)
  have masks: "Mask_front c = 0" "Mask_back c = 0"
    by (simp_all add: c_def fastCDC_init_def cdc_zero_def Let_def)
  have lo: "unat (MinSize c) = nat (avg_chunk_size cfg div 4)"
    and hi: "unat (MaxSize c) = nat (avg_chunk_size cfg * 4)"
    using assms(3,4) by (simp_all add: c_def fastCDC_init_sizes)
  have "avg_chunk_size cfg div 4 < avg_chunk_size cfg * 4" using assms(3) by presburger
  then have less: "unat (MinSize c) < min (length p) (unat (MaxSize c))"
    using assms(3,5) by (simp add: lo hi)
  then have "[unat (MinSize c)..<min (length p) (unat (MaxSize c))] =
      unat (MinSize c) # [Suc (unat (MinSize c))..<min (length p) (unat (MaxSize c))]"
    by (simp add: upt_conv_Cons)
  then have "cdc_cut 0 0 (unat (MinSize c)) avg (min (length p) (unat (MaxSize c))) p =
      unat (MinSize c)" for avg
    by (simp add: cdc_cut_def)
  then have "chunking Fn_FastCDC_with_NC c p = Inr (unat (MinSize c), cdc_after c (length p))"
    using less by (simp add: chunking_def FastCDC_with_NC_spec [OF ok assms(6)] masks Let_def)
  moreover have "chunking_method_prepare md5 cfg cdc_zero = Inr (Fn_FastCDC_with_NC, c)"
    using assms(1,2) by (simp add: chunking_method_prepare_def c_def)
  ultimately show ?thesis
    using assms(1,2) by (simp add: select_chunking_def Let_def lo)
qed

theorem pipeline_level_0_cuts_at_minimum_witness:
  "chunking Fn_FastCDC_with_NC (fastCDC_init (\<lambda>_. []) 8 0 cdc_zero) sample_bytes =
     Inr (2, cdc_after (fastCDC_init (\<lambda>_. []) 8 0 cdc_zero) 9)"
  using pipeline_level_0_cuts_at_minimum
      [of "config_init\<lparr>cm := CDC, avg_chunk_size := 8, normal_level := 0\<rparr>" sample_bytes "\<lambda>_. []"]
  by (auto simp: config_init_def length_sample chunking_method_prepare_def)


end
