(* ===== verification/Write.thy ===== *)
theory Write
  imports Store Chunking
begin

text \<open>
  The write path of \<open>main.cpp\<close>: \<open>saveChunkToContainer\<close>, the body of the chunk loop
  (lookup, store or count), the loops over a block and over the file, and the flush at the
  end. The container buffer is the part of the 4 MiB array written so far; the code's two
  positions into it (\<open>container_buf_pointer\<close> and \<open>container_inner_offset\<close>) are both
  kept. \<open>SHA1\<close> of OpenSSL is the parameter \<open>sha1\<close>.
\<close>

section \<open>State and operations\<close>

record writer =
  manager :: MetadataManager
  cdir :: dir
  file_recipe :: "bytes list"
  container_index :: u32
  container_inner_offset :: u32
  inner_index :: u16
  container_buf :: bytes
  container_buf_pointer :: u32
  rev_container_cnt :: u32
  rev_container_buf :: bytes
  sum_chunks :: int
  sum_size :: int
  dedup_chunks :: int
  dedup_size :: int

definition writer_start :: "MetadataManager \<Rightarrow> dir \<Rightarrow> writer" where
  "writer_start m d =
     \<lparr>manager = m, cdir = d, file_recipe = [], container_index = of_nat (length d),
      container_inner_offset = 0, inner_index = 0, container_buf = [],
      container_buf_pointer = 0, rev_container_cnt = 0, rev_container_buf = [],
      sum_chunks = 0, sum_size = 0, dedup_chunks = 0, dedup_size = 0\<rparr>"

text \<open>
  \<open>saveChunkToContainer\<close>: flush a container that would become full, then copy the chunk
  and its fingerprint behind what the two buffers hold. A copy that passes the end of
  either 4 MiB array is \<open>MemoryFault\<close>. The counters are advanced by the caller.
\<close>

definition flush_container :: "writer \<Rightarrow> writer" where
  "flush_container w =
     w\<lparr>cdir := saveContainer (sint (container_index w)) (container_buf w)
                 (unat (container_buf_pointer w)) (rev_container_cnt w) (rev_container_buf w) (cdir w),
       container_buf := [], container_index := container_index w + 1,
       container_inner_offset := 0, container_buf_pointer := 0, inner_index := 0,
       rev_container_cnt := 0\<rparr>"

definition copy_chunk :: "writer \<Rightarrow> bytes \<Rightarrow> bytes \<Rightarrow> writer result" where
  "copy_chunk w d SHA_buf =
     (if CONTAINER_SIZE < unat (container_buf_pointer w) + length d \<or>
         CONTAINER_SIZE < unat (rev_container_cnt w) * 20 + 20 then Inl MemoryFault
      else Inr (w\<lparr>container_buf := overlay (container_buf w) (unat (container_buf_pointer w)) d,
                  rev_container_buf :=
                    overlay (rev_container_buf w) (unat (rev_container_cnt w) * 20) SHA_buf\<rparr>))"

definition saveChunkToContainer :: "writer \<Rightarrow> bytes \<Rightarrow> bytes \<Rightarrow> writer result" where
  "saveChunkToContainer w d SHA_buf =
     copy_chunk
       (if CONTAINER_SIZE \<le> unat (container_buf_pointer w + of_nat (length d))
        then flush_container w else w) d SHA_buf"

text \<open>The loop body for one chunk.\<close>

definition new_entry :: "writer \<Rightarrow> nat \<Rightarrow> ENTRY_VALUE" where
  "new_entry w len =
     \<lparr>container_number = container_index w, offset = container_inner_offset w,
      chunk_length = of_nat len, container_inner_index = inner_index w, ref_cnt = 1\<rparr>"

definition advance :: "writer \<Rightarrow> nat \<Rightarrow> writer" where
  "advance w len =
     w\<lparr>container_inner_offset := container_inner_offset w + of_nat len,
       container_buf_pointer := container_buf_pointer w + of_nat len,
       inner_index := inner_index w + 1,
       rev_container_cnt := rev_container_cnt w + 1\<rparr>"

definition write_chunk :: "(bytes \<Rightarrow> bytes) \<Rightarrow> writer \<Rightarrow> bytes \<Rightarrow> writer result" where
  "write_chunk sha1 w d =
     (let sha1_fp = dec_fp (sha1 d);
          w0 = w\<lparr>file_recipe := file_recipe w @ [enc_fp sha1_fp],
                 sum_chunks := sum_chunks w + 1, sum_size := sum_size w + int (length d)\<rparr>
      in case dedupLookup (manager w0) sha1_fp of
           Unique \<Rightarrow>
             and_then (saveChunkToContainer w0 d (enc_fp sha1_fp)) (\<lambda>w1.
             and_then (addNewEntry (manager w1) sha1_fp (new_entry w1 (length d))) (\<lambda>m.
               Inr (advance (w1\<lparr>manager := m\<rparr>) (length d))))
         | Dedup \<Rightarrow>
             and_then (addRefCnt (manager w0) sha1_fp) (\<lambda>(_, m).
               Inr (w0\<lparr>manager := m, dedup_chunks := dedup_chunks w0 + 1,
                       dedup_size := dedup_size w0 + int (length d)\<rparr>)))"

text \<open>\<open>while (file_offset < n_read)\<close> over one block; \<open>None\<close> does not end.\<close>

partial_function (option) write_block ::
    "(bytes \<Rightarrow> bytes) \<Rightarrow> ('c \<Rightarrow> bytes \<Rightarrow> (nat \<times> 'c) result) \<Rightarrow> 'c \<Rightarrow> writer \<Rightarrow> bytes \<Rightarrow>
     ('c \<times> writer) result option" where
  "write_block sha1 ck c w p =
     (if p = [] then Some (Inr (c, w))
      else case ck c p of
        Inl e \<Rightarrow> Some (Inl e)
      | Inr r \<Rightarrow>
          if length p < fst r then Some (Inl MemoryFault)
          else case write_chunk sha1 w (take (fst r) p) of
            Inl e \<Rightarrow> Some (Inl e)
          | Inr w' \<Rightarrow> write_block sha1 ck (snd r) w' (drop (fst r) p))"

text \<open>The outer loop reads the file in blocks of \<open>FILE_CACHE\<close> bytes.\<close>

partial_function (option) write_blocks ::
    "(bytes \<Rightarrow> bytes) \<Rightarrow> ('c \<Rightarrow> bytes \<Rightarrow> (nat \<times> 'c) result) \<Rightarrow> 'c \<Rightarrow> writer \<Rightarrow> bytes \<Rightarrow>
     ('c \<times> writer) result option" where
  "write_blocks sha1 ck c w input =
     (if input = [] then Some (Inr (c, w))
      else case write_block sha1 ck c w (take FILE_CACHE input) of
        None \<Rightarrow> None
      | Some (Inl e) \<Rightarrow> Some (Inl e)
      | Some (Inr r) \<Rightarrow> write_blocks sha1 ck (fst r) (snd r) (drop FILE_CACHE input))"

text \<open>
  What follows the label \<open>writend\<close>: the last container, the recipe and the index are saved. The
  statistics then divide the size by the number of chunks.
\<close>

definition write_files :: "writer \<Rightarrow> dir option \<Rightarrow> repo result" where
  "write_files w recipes =
     (let d = (if 0 < container_buf_pointer w
               then saveContainer (sint (container_index w)) (container_buf w)
                      (unat (container_buf_pointer w)) (rev_container_cnt w)
                      (rev_container_buf w) (cdir w)
               else cdir w)
      in and_then (saveFileRecipe (file_recipe w) recipes) (\<lambda>recipes'.
           Inr \<lparr>containers_dir = Some d, recipes_dir = recipes',
                fingerprints_file = Some (save (manager w))\<rparr>))"

definition write_end :: "writer \<Rightarrow> dir option \<Rightarrow> repo result" where
  "write_end w recipes =
     and_then (write_files w recipes) (\<lambda>r. if sum_chunks w = 0 then Inl DivideByZero else Inr r)"

lemma write_end_cases:
  "write_end w recipes =
     (let d = (if 0 < container_buf_pointer w
               then saveContainer (sint (container_index w)) (container_buf w)
                      (unat (container_buf_pointer w)) (rev_container_cnt w)
                      (rev_container_buf w) (cdir w)
               else cdir w)
      in and_then (saveFileRecipe (file_recipe w) recipes) (\<lambda>recipes'.
           if sum_chunks w = 0 then Inl DivideByZero
           else Inr \<lparr>containers_dir = Some d, recipes_dir = recipes',
                     fingerprints_file = Some (save (manager w))\<rparr>))"
  by (cases "saveFileRecipe (file_recipe w) recipes") (simp_all add: write_end_def write_files_def Let_def)

text \<open>The index is loaded when there is a version.\<close>

definition load_index :: "repo \<Rightarrow> MetadataManager result" where
  "load_index r =
     and_then (getFilesNum (recipes_dir r)) (\<lambda>current_version.
       Inr (if current_version \<noteq> 0 then load (fingerprints_file r) mm_new else mm_new))"

definition task_write ::
    "(bytes \<Rightarrow> bytes) \<Rightarrow> ('c \<Rightarrow> bytes \<Rightarrow> (nat \<times> 'c) result) \<Rightarrow> 'c \<Rightarrow> repo \<Rightarrow> bytes option \<Rightarrow>
     repo result option" where
  "task_write sha1 ck c r input =
     (case load_index r of
        Inl e \<Rightarrow> Some (Inl e)
      | Inr m \<Rightarrow>
          (case input of
             None \<Rightarrow> Some (Inl ExitFailure)
           | Some f \<Rightarrow>
               (case containers_dir r of
                  None \<Rightarrow> Some (Inl ExitFailure)
                | Some d \<Rightarrow>
                    map_option (\<lambda>res. and_then res (\<lambda>(c', w). write_end w (recipes_dir r)))
                      (write_blocks sha1 ck c (writer_start m d) f))))"

end
