(* ===== verification/Write_Correct.thy ===== *)
theory Write_Correct
  imports Write
begin

text \<open>
  Correctness of the write path. \<open>store_ok\<close> says how an index and a container directory
  agree; \<open>contents\<close> abstracts both to a map from fingerprints to chunks with reference
  counts, and \<open>write_chunk\<close> refines \<open>put_chunk\<close> on it. The loops over blocks are shown
  to be one fold over the chunks of the file.
\<close>

section \<open>The abstract repository\<close>

definition fp_of :: "(bytes \<Rightarrow> bytes) \<Rightarrow> bytes \<Rightarrow> SHA1FP" where
  "fp_of sha1 d = dec_fp (sha1 d)"

type_synonym contents = "SHA1FP \<rightharpoonup> bytes \<times> nat"

definition contents :: "(string \<rightharpoonup> bytes) \<Rightarrow> (SHA1FP \<rightharpoonup> ENTRY_VALUE) \<Rightarrow> contents" where
  "contents D idx fp =
     (case idx fp of None \<Rightarrow> None
      | Some e \<Rightarrow> map_option (\<lambda>c. (c, unat (ref_cnt e))) (chunk_at D e))"

definition put_chunk :: "(bytes \<Rightarrow> bytes) \<Rightarrow> bytes \<Rightarrow> contents \<Rightarrow> contents" where
  "put_chunk sha1 d st =
     st(fp_of sha1 d \<mapsto> (case st (fp_of sha1 d) of None \<Rightarrow> (d, 1) | Some (c, n) \<Rightarrow> (c, n + 1)))"

section \<open>Agreement of the index with the containers\<close>

definition resolves :: "(bytes \<Rightarrow> bytes) \<Rightarrow> (string \<rightharpoonup> bytes) \<Rightarrow> (SHA1FP \<rightharpoonup> ENTRY_VALUE) \<Rightarrow> bool" where
  "resolves sha1 D idx \<longleftrightarrow>
     (\<forall>fp e. idx fp = Some e \<longrightarrow> (\<exists>c. chunk_at D e = Some c \<and> c \<noteq> [] \<and> fp_of sha1 c = fp))"

definition rev_file :: "bytes \<Rightarrow> SHA1FP list \<Rightarrow> bool" where
  "rev_file f fps \<longleftrightarrow> length fps < 2 ^ 32 \<and>
     f = enc_u32 (of_nat (length fps)) @ concat (map enc_fp fps)"

definition in_container :: "(SHA1FP \<rightharpoonup> ENTRY_VALUE) \<Rightarrow> int \<Rightarrow> SHA1FP set" where
  "in_container idx k = {fp. \<exists>e. idx fp = Some e \<and> uint (container_number e) = k}"

definition rev_ok :: "(string \<rightharpoonup> bytes) \<Rightarrow> (SHA1FP \<rightharpoonup> ENTRY_VALUE) \<Rightarrow> bool" where
  "rev_ok D idx \<longleftrightarrow>
     (\<forall>k f. D (rev_name k) = Some f \<longrightarrow>
        (\<exists>fps. rev_file f fps \<and> distinct fps \<and> set fps = in_container idx k)) \<and>
     (\<forall>fp e. idx fp = Some e \<longrightarrow> D (rev_name (uint (container_number e))) \<noteq> None)"

definition apart :: "ENTRY_VALUE \<Rightarrow> ENTRY_VALUE \<Rightarrow> bool" where
  "apart e1 e2 \<longleftrightarrow> container_number e1 \<noteq> container_number e2 \<or>
     unat (offset e1) + unat (chunk_length e1) \<le> unat (offset e2) \<or>
     unat (offset e2) + unat (chunk_length e2) \<le> unat (offset e1)"

definition disjoint_chunks :: "(SHA1FP \<rightharpoonup> ENTRY_VALUE) \<Rightarrow> bool" where
  "disjoint_chunks idx \<longleftrightarrow>
     (\<forall>fp1 e1 fp2 e2. idx fp1 = Some e1 \<longrightarrow> idx fp2 = Some e2 \<longrightarrow> fp1 \<noteq> fp2 \<longrightarrow> apart e1 e2)"

definition store_ok :: "(bytes \<Rightarrow> bytes) \<Rightarrow> (string \<rightharpoonup> bytes) \<Rightarrow> (SHA1FP \<rightharpoonup> ENTRY_VALUE) \<Rightarrow> bool" where
  "store_ok sha1 D idx \<longleftrightarrow> resolves sha1 D idx \<and> rev_ok D idx \<and> disjoint_chunks idx"

definition ids_distinct :: "(SHA1FP \<rightharpoonup> ENTRY_VALUE) \<Rightarrow> bool" where
  "ids_distinct idx \<longleftrightarrow>
     (\<forall>fp1 e1 fp2 e2. idx fp1 = Some e1 \<longrightarrow> idx fp2 = Some e2 \<longrightarrow>
        container_number e1 = container_number e2 \<longrightarrow>
        container_inner_index e1 = container_inner_index e2 \<longrightarrow> fp1 = fp2)"

lemma ids_distinct_same_place:
  assumes "ids_distinct idx" and "idx fp = Some e"
  shows "ids_distinct (idx(fp \<mapsto> e\<lparr>ref_cnt := n\<rparr>))"
  using assms unfolding ids_distinct_def by (auto split: if_splits)

lemma store_ok_chunk:
  assumes "store_ok sha1 D idx" and "idx fp = Some e"
  obtains c where "chunk_at D e = Some c" and "c \<noteq> []" and "fp_of sha1 c = fp"
    and "contents D idx fp = Some (c, unat (ref_cnt e))"
proof -
  from assms obtain c where c: "chunk_at D e = Some c" "c \<noteq> []" "fp_of sha1 c = fp"
    by (auto simp: store_ok_def resolves_def)
  moreover have "contents D idx fp = Some (c, unat (ref_cnt e))"
    using assms(2) c(1) by (simp add: contents_def)
  ultimately show ?thesis by (rule that)
qed

lemma contents_fp:
  assumes "store_ok sha1 D idx" and "contents D idx fp = Some (c, n)"
  shows "fp_of sha1 c = fp \<and> c \<noteq> []"
  using assms
  by (fastforce simp: contents_def store_ok_def resolves_def split: option.splits)

lemma store_ok_dom: "store_ok sha1 D idx \<Longrightarrow> dom (contents D idx) = dom idx"
  by (auto simp: contents_def store_ok_def resolves_def dom_def split: option.splits)

lemma store_ok_empty: "store_ok sha1 D Map.empty \<longleftrightarrow>
    (\<forall>k f. D (rev_name k) = Some f \<longrightarrow> f = enc_u32 0)"
  by (auto simp: store_ok_def resolves_def rev_ok_def disjoint_chunks_def in_container_def rev_file_def)

text \<open>A change of the reference count alone.\<close>

lemma apart_ref_cnt [simp]:
  "apart (e\<lparr>ref_cnt := n\<rparr>) e' = apart e e'" "apart e (e'\<lparr>ref_cnt := n\<rparr>) = apart e e'"
  by (simp_all add: apart_def)

lemma in_container_same_place:
  "idx fp = Some e \<Longrightarrow> container_number e' = container_number e \<Longrightarrow>
     in_container (idx(fp \<mapsto> e')) k = in_container idx k"
  by (auto simp: in_container_def)

lemma store_ok_ref_cnt:
  assumes "store_ok sha1 D idx" and "idx fp = Some e"
  shows "store_ok sha1 D (idx(fp \<mapsto> e\<lparr>ref_cnt := n\<rparr>))"
  using assms
  by (auto simp: store_ok_def resolves_def rev_ok_def disjoint_chunks_def
      in_container_same_place split: if_splits)

text \<open>A new, empty container.\<close>

lemma store_ok_no_entry:
  assumes "store_ok sha1 D idx" and "D (container_name k) = None" and "idx fp = Some e"
  shows "uint (container_number e) \<noteq> k"
  using assms by (fastforce simp: store_ok_def resolves_def chunk_at_def)

lemma store_ok_new_container:
  assumes ok: "store_ok sha1 D idx" and new: "D (container_name k) = None"
  shows "store_ok sha1 (D(container_name k \<mapsto> [], rev_name k \<mapsto> enc_u32 0)) idx"
    and "contents (D(container_name k \<mapsto> [], rev_name k \<mapsto> enc_u32 0)) idx = contents D idx"
proof -
  let ?D = "D(container_name k \<mapsto> [], rev_name k \<mapsto> enc_u32 0)"
  have other: "uint (container_number e) \<noteq> k" if "idx fp = Some e" for fp e
    using store_ok_no_entry [OF ok new that] .
  have at: "chunk_at ?D e = chunk_at D e" if "idx fp = Some e" for fp e
    using other [OF that] by (auto simp: chunk_at_def)
  show "contents ?D idx = contents D idx"
  proof
    fix fp
    show "contents ?D idx fp = contents D idx fp"
      by (cases "idx fp") (simp_all add: contents_def at del: chunk_at_other)
  qed
  have "in_container idx k = {}" using other by (auto simp: in_container_def)
  moreover have "rev_file (enc_u32 0) []" by (simp add: rev_file_def)
  ultimately have "\<exists>fps. rev_file (enc_u32 0) fps \<and> distinct fps \<and> set fps = in_container idx k"
    by (intro exI [of _ "[]"]) simp
  with ok have "rev_ok ?D idx" using other by (auto simp: store_ok_def rev_ok_def)
  moreover have "resolves sha1 ?D idx"
    using ok at unfolding store_ok_def resolves_def by metis
  ultimately show "store_ok sha1 ?D idx" using ok by (simp add: store_ok_def)
qed

text \<open>A chunk behind the others of a container.\<close>

lemma rev_file_unique: "rev_file f xs \<Longrightarrow> rev_file f ys \<Longrightarrow> xs = ys"
  by (auto simp: rev_file_def append_eq_append_conv u32_codec.width fp_codec.table_inject)

lemma store_ok_rev_list:
  assumes "store_ok sha1 D idx" and "D (rev_name k) = Some f" and "rev_file f fps"
  shows "distinct fps \<and> set fps = in_container idx k"
proof -
  have "rev_ok D idx" using assms(1) by (simp add: store_ok_def)
  with assms(2) obtain fps' where "rev_file f fps'" "distinct fps'" "set fps' = in_container idx k"
    unfolding rev_ok_def by blast
  with rev_file_unique assms(3) show ?thesis by blast
qed

lemma rev_file_snoc:
  assumes "rev_file f fps" and "length fps + 1 < 2 ^ 32"
  shows "rev_file (enc_u32 (of_nat (length fps) + 1) @ concat (map enc_fp (fps @ [fp]))) (fps @ [fp])"
  using assms by (simp add: rev_file_def add.commute)

lemma store_ok_append:
  assumes ok: "store_ok sha1 D idx" and new: "idx fp = None" and fp: "fp_of sha1 d = fp"
    and d: "d \<noteq> []" "length d < 2 ^ 16"
    and buf: "D (container_name k) = Some buf"
    and rev: "D (rev_name k) = Some f" "rev_file f fps" "length fps + 1 < 2 ^ 32"
    and e: "uint (container_number e) = k" "unat (offset e) = length buf"
      "chunk_length e = of_nat (length d)" "ref_cnt e = 1"
    and D': "D' = D(container_name k \<mapsto> buf @ d,
      rev_name k \<mapsto> enc_u32 (of_nat (length fps) + 1) @ concat (map enc_fp (fps @ [fp])))"
  shows "store_ok sha1 D' (idx(fp \<mapsto> e)) \<and> contents D' (idx(fp \<mapsto> e)) = put_chunk sha1 d (contents D idx)"
proof -
  have len: "unat (chunk_length e) = length d"
    using d(2) e(3) by (simp add: unat_of_nat)
  have here: "chunk_at D' e = Some d"
    using e(1,2) by (simp add: D' chunk_at_def len segment_append2 segment_full)
  have old: "chunk_at D' e' = Some c" if "chunk_at D e' = Some c" for e' c
    using chunk_at_append [OF that, of "container_name k" buf d] buf
    by (simp add: D' chunk_at_def)
  have res: "resolves sha1 D' (idx(fp \<mapsto> e))"
    using ok here old fp d(1) unfolding store_ok_def resolves_def by (metis fun_upd_apply option.inject)
  have fps: "distinct fps" "set fps = in_container idx k"
    using store_ok_rev_list [OF ok rev(1,2)] by auto
  then have notin: "fp \<notin> set fps" using new by (auto simp: in_container_def)
  have inc: "in_container (idx(fp \<mapsto> e)) j =
      (if j = k then insert fp (in_container idx k) else in_container idx j)" for j
    using new e(1) by (auto simp: in_container_def)
  have "rev_ok D' (idx(fp \<mapsto> e))"
    unfolding rev_ok_def
  proof (intro conjI allI impI)
    fix j g assume g: "D' (rev_name j) = Some g"
    show "\<exists>fps. rev_file g fps \<and> distinct fps \<and> set fps = in_container (idx(fp \<mapsto> e)) j"
    proof (cases "j = k")
      case True
      with g have "rev_file g (fps @ [fp])" using rev_file_snoc [OF rev(2,3), of fp] by (auto simp: D')
      with True fps notin show ?thesis by (intro exI [of _ "fps @ [fp]"]) (simp add: inc)
    next
      case False
      with g have "D (rev_name j) = Some g" by (simp add: D')
      with False ok show ?thesis by (auto simp: inc store_ok_def rev_ok_def)
    qed
  next
    fix fp' e' assume "(idx(fp \<mapsto> e)) fp' = Some e'"
    then show "D' (rev_name (uint (container_number e'))) \<noteq> None"
      using ok e(1) by (auto simp: D' store_ok_def rev_ok_def split: if_splits)
  qed
  moreover have "disjoint_chunks (idx(fp \<mapsto> e))"
  proof -
    have "apart e' e \<and> apart e e'" if e': "idx fp' = Some e'" for fp' e'
    proof -
      obtain c where "chunk_at D e' = Some c" using store_ok_chunk [OF ok e'] by blast
      then have "container_number e' = container_number e \<Longrightarrow>
          unat (offset e') + unat (chunk_length e') \<le> unat (offset e)"
        using buf e(1,2) by (auto simp: chunk_at_def split: if_splits)
      then show ?thesis by (auto simp: apart_def)
    qed
    then show ?thesis
      using ok unfolding store_ok_def disjoint_chunks_def by (metis fun_upd_apply option.inject)
  qed
  ultimately have "store_ok sha1 D' (idx(fp \<mapsto> e))" using res by (simp add: store_ok_def)
  moreover have "contents D' (idx(fp \<mapsto> e)) = put_chunk sha1 d (contents D idx)"
  proof
    fix fp'
    show "contents D' (idx(fp \<mapsto> e)) fp' = put_chunk sha1 d (contents D idx) fp'"
    proof (cases "fp' = fp")
      case True
      then show ?thesis using new fp e(4) here by (simp add: contents_def put_chunk_def)
    next
      case False
      show ?thesis
      proof (cases "idx fp'")
        case None
        with False fp show ?thesis by (simp add: contents_def put_chunk_def)
      next
        case (Some e')
        obtain c where "chunk_at D e' = Some c" using store_ok_chunk [OF ok Some] by blast
        with False Some fp old show ?thesis by (simp add: contents_def put_chunk_def)
      qed
    qed
  qed
  ultimately show ?thesis by simp
qed

section \<open>One chunk\<close>

text \<open>
  The directory as it would be if the container buffer were saved now, and the invariant of
  the loop before the chunks \<open>ds\<close>: the index agrees with that directory, no container of
  the current or a later number exists, and the counters have room for what is to come (the
  list of fingerprints of a container overflows its array when too many chunks are shorter
  than 128 bytes).
\<close>

definition saved_dir :: "writer \<Rightarrow> dir" where
  "saved_dir w = saveContainer (sint (container_index w)) (container_buf w)
     (unat (container_buf_pointer w)) (rev_container_cnt w) (rev_container_buf w) (cdir w)"

definition view :: "writer \<Rightarrow> string \<rightharpoonup> bytes" where
  "view w = map_of (saved_dir w)"

definition short_chunks :: "bytes list \<Rightarrow> nat" where
  "short_chunks ds = length (filter (\<lambda>d. length d < 128) ds)"

definition writer_room :: "writer \<Rightarrow> bytes list \<Rightarrow> bool" where
  "writer_room w ds \<longleftrightarrow>
     uint (container_index w) + int (length ds) < 2 ^ 31 \<and>
     short_chunks ds \<le> 32000 \<and>
     128 * unat (rev_container_cnt w) + 128 * short_chunks ds \<le> length (container_buf w) + 128 * 32000 \<and>
     (\<forall>fp e. index (manager w) fp = Some e \<longrightarrow> unat (ref_cnt e) + length ds < 2 ^ 32)"

definition writer_ok :: "(bytes \<Rightarrow> bytes) \<Rightarrow> writer \<Rightarrow> bool" where
  "writer_ok sha1 w \<longleftrightarrow>
     mm_ok (manager w) \<and> store_ok sha1 (view w) (index (manager w)) \<and>
     unat (container_buf_pointer w) = length (container_buf w) \<and>
     container_inner_offset w = container_buf_pointer w \<and>
     length (container_buf w) < CONTAINER_SIZE \<and>
     (\<forall>i. uint (container_index w) \<le> i \<longrightarrow>
        map_of (cdir w) (container_name i) = None \<and> map_of (cdir w) (rev_name i) = None)"

lemma view_fresh:
  assumes "writer_ok sha1 w" and "uint (container_index w) < 2 ^ 31"
  shows "view w = (map_of (cdir w))
    (container_name (uint (container_index w)) \<mapsto> container_buf w,
     rev_name (uint (container_index w)) \<mapsto>
       enc_u32 (rev_container_cnt w) @
       array_prefix (unat (rev_container_cnt w) * 20) (rev_container_buf w))"
  using assms
  by (simp add: view_def saved_dir_def saveContainer_def sint_uint_small put_file_new writer_ok_def)

lemma array_prefix_overlay:
  "array_prefix (n + length x) (overlay buf n x) = array_prefix n buf @ x"
  by (simp add: array_prefix_def overlay_def)

text \<open>Flushing the container changes the view by an empty container only.\<close>

lemma flush_container_ok:
  assumes ok: "writer_ok sha1 w" and idx: "uint (container_index w) + 1 < 2 ^ 31"
  shows "writer_ok sha1 (flush_container w)"
    and "contents (view (flush_container w)) (index (manager w)) =
      contents (view w) (index (manager w))"
proof -
  let ?w = "flush_container w" and ?k = "uint (container_index w) + 1"
  have suc: "uint (container_index w + 1) = ?k"
    using idx uint_ge_0 [of "container_index w"]
    by (simp add: uint_word_ariths)
  have cd: "cdir ?w = saved_dir w" by (simp add: flush_container_def saved_dir_def)
  have fresh: "map_of (cdir ?w) (container_name i) = None \<and> map_of (cdir ?w) (rev_name i) = None"
    if "?k \<le> i" for i
    using view_fresh [OF ok] idx that ok unfolding cd view_def
    by (simp add: writer_ok_def)
  have sd: "saved_dir ?w = saveContainer ?k [] 0 0 (rev_container_buf w) (cdir ?w)"
    using idx suc by (simp add: saved_dir_def [of ?w]) (simp add: flush_container_def sint_uint_small)
  have v: "view ?w = (view w)(container_name ?k \<mapsto> [], rev_name ?k \<mapsto> enc_u32 0)"
    using fresh by (simp add: view_def sd saveContainer_def put_file_new array_prefix_def cd)
  have none: "view w (container_name ?k) = None" using fresh by (simp add: view_def cd)
  have st: "store_ok sha1 (view w) (index (manager w))" using ok by (simp add: writer_ok_def)
  show "contents (view ?w) (index (manager w)) = contents (view w) (index (manager w))"
    unfolding v by (rule store_ok_new_container [OF st none])
  have "store_ok sha1 (view ?w) (index (manager w))"
    unfolding v by (rule store_ok_new_container [OF st none])
  then show "writer_ok sha1 ?w"
    using ok fresh suc by (simp add: writer_ok_def flush_container_def CONTAINER_SIZE_def)
qed

lemma view_rev_list:
  assumes ok: "writer_ok sha1 w" and idx: "uint (container_index w) < 2 ^ 31"
  obtains fps where "rev_file (enc_u32 (rev_container_cnt w) @
      array_prefix (unat (rev_container_cnt w) * 20) (rev_container_buf w)) fps"
    and "length fps = unat (rev_container_cnt w)"
    and "array_prefix (unat (rev_container_cnt w) * 20) (rev_container_buf w) = concat (map enc_fp fps)"
proof -
  let ?f = "enc_u32 (rev_container_cnt w) @
      array_prefix (unat (rev_container_cnt w) * 20) (rev_container_buf w)"
  have "view w (rev_name (uint (container_index w))) = Some ?f"
    by (simp add: view_fresh [OF ok idx])
  moreover have "rev_ok (view w) (index (manager w))"
    using ok by (simp add: writer_ok_def store_ok_def)
  ultimately obtain fps where fps: "rev_file ?f fps"
    unfolding rev_ok_def by blast
  then have body: "array_prefix (unat (rev_container_cnt w) * 20) (rev_container_buf w) =
      concat (map enc_fp fps)"
    by (simp add: rev_file_def append_eq_append_conv u32_codec.width)
  then have "unat (rev_container_cnt w) * 20 = length fps * 20"
    by (metis fp_codec.length_table length_array_prefix)
  then have "length fps = unat (rev_container_cnt w)" by simp
  with fps body that show ?thesis by blast
qed

lemma store_new_chunk:
  assumes ok: "writer_ok sha1 w" and idx: "uint (container_index w) < 2 ^ 31"
    and fits: "length (container_buf w) + length d < CONTAINER_SIZE"
    and cnt: "unat (rev_container_cnt w) * 20 + 20 \<le> CONTAINER_SIZE"
    and d: "d \<noteq> []" "length d < 2 ^ 16"
    and new: "index (manager w) (fp_of sha1 d) = None"
  shows "\<exists>w1 m. copy_chunk w d (enc_fp (fp_of sha1 d)) = Inr w1 \<and>
    addNewEntry (manager w1) (fp_of sha1 d) (new_entry w1 (length d)) = Inr m \<and>
    writer_ok sha1 (advance (w1\<lparr>manager := m\<rparr>) (length d)) \<and>
    contents (view (advance (w1\<lparr>manager := m\<rparr>) (length d))) (index m) =
      put_chunk sha1 d (contents (view w) (index (manager w))) \<and>
    index m = (index (manager w))(fp_of sha1 d \<mapsto> new_entry w (length d)) \<and>
    container_buf w1 = container_buf w @ d \<and> rev_container_cnt w1 = rev_container_cnt w \<and>
    container_index w1 = container_index w \<and> file_recipe w1 = file_recipe w \<and>
    sum_chunks w1 = sum_chunks w \<and> unat (rev_container_cnt w + 1) = unat (rev_container_cnt w) + 1"
proof -
  let ?fp = "fp_of sha1 d" and ?k = "uint (container_index w)"
  have ptr: "unat (container_buf_pointer w) = length (container_buf w)"
    and off: "container_inner_offset w = container_buf_pointer w"
    and mok: "mm_ok (manager w)" and st: "store_ok sha1 (view w) (index (manager w))"
    using ok by (auto simp: writer_ok_def)
  define w1 where "w1 = w\<lparr>container_buf := container_buf w @ d,
      rev_container_buf := overlay (rev_container_buf w) (unat (rev_container_cnt w) * 20) (enc_fp ?fp)\<rparr>"
  have copy: "copy_chunk w d (enc_fp ?fp) = Inr w1"
    using fits cnt by (simp add: copy_chunk_def w1_def ptr overlay_end)
  have ne: "new_entry w1 (length d) = new_entry w (length d)"
    by (simp add: new_entry_def w1_def)
  obtain m where m: "addNewEntry (manager w) ?fp (new_entry w (length d)) = Inr m" "mm_ok m"
    "index m = (index (manager w))(?fp \<mapsto> new_entry w (length d))"
    using addNewEntry_spec [OF mok new] by blast
  define w2 where "w2 = advance (w1\<lparr>manager := m\<rparr>) (length d)"
  have ptr2: "unat (container_buf_pointer w + of_nat (length d)) = length (container_buf w) + length d"
    using fits d(2) ptr
    by (simp add: unat_word_ariths unat_of_nat CONTAINER_SIZE_def)
  have cnt2: "unat (rev_container_cnt w + 1) = unat (rev_container_cnt w) + 1"
    using cnt by (simp add: unat_word_ariths CONTAINER_SIZE_def)
  obtain fps where fps: "rev_file (enc_u32 (rev_container_cnt w) @
      array_prefix (unat (rev_container_cnt w) * 20) (rev_container_buf w)) fps"
    "length fps = unat (rev_container_cnt w)"
    "array_prefix (unat (rev_container_cnt w) * 20) (rev_container_buf w) = concat (map enc_fp fps)"
    using view_rev_list [OF ok idx] by blast
  have fresh: "map_of (cdir w) (container_name i) = None \<and> map_of (cdir w) (rev_name i) = None"
    if "?k \<le> i" for i using ok that by (simp add: writer_ok_def)
  have head: "enc_u32 (rev_container_cnt w + 1) = enc_u32 (of_nat (length fps) + 1)"
    by (simp add: fps(2))
  have cnt20: "unat (rev_container_cnt w + 1) * 20 = unat (rev_container_cnt w) * 20 + 20"
    by (simp add: cnt2)
  have body: "array_prefix (unat (rev_container_cnt w + 1) * 20)
      (overlay (rev_container_buf w) (unat (rev_container_cnt w) * 20) (enc_fp ?fp)) =
      concat (map enc_fp (fps @ [?fp]))"
    unfolding cnt20
    using array_prefix_overlay [of "unat (rev_container_cnt w) * 20" "enc_fp ?fp" "rev_container_buf w"]
    by (simp add: fps(3) fp_codec.width)
  have prefix: "array_prefix (length (container_buf w) + length d) (container_buf w @ d) = container_buf w @ d"
    using array_prefix_length [of "container_buf w @ d"] by simp
  have view2: "view w2 = (view w)(container_name ?k \<mapsto> container_buf w @ d,
      rev_name ?k \<mapsto> enc_u32 (of_nat (length fps) + 1) @ concat (map enc_fp (fps @ [?fp])))"
    unfolding view_fresh [OF ok idx]
    using idx fresh head body
    by (auto simp: fun_eq_iff view_def saved_dir_def saveContainer_def w2_def w1_def advance_def
        sint_uint_small put_file_new ptr2 prefix)
  have app: "store_ok sha1 (view w2) ((index (manager w))(?fp \<mapsto> new_entry w (length d))) \<and>
      contents (view w2) ((index (manager w))(?fp \<mapsto> new_entry w (length d))) =
        put_chunk sha1 d (contents (view w) (index (manager w)))"
  proof (rule store_ok_append [OF st new refl d _ _ fps(1) _ _ _ _ _ view2])
    show "length fps + 1 < 2 ^ 32" using cnt fps(2) by (simp add: CONTAINER_SIZE_def)
    show "unat (offset (new_entry w (length d))) = length (container_buf w)"
      by (simp add: new_entry_def off ptr)
  qed (simp_all add: view_fresh [OF ok idx] new_entry_def)
  have "writer_ok sha1 w2"
    using app ok fresh fits ptr2 m
    by (simp add: writer_ok_def) (simp add: w2_def w1_def advance_def off)
  then show ?thesis
    using copy m app cnt2 ne
    by (intro exI [of _ w1] exI [of _ m]) (simp add: w2_def [symmetric], simp add: w1_def)
qed

definition count_chunk :: "(bytes \<Rightarrow> bytes) \<Rightarrow> writer \<Rightarrow> bytes \<Rightarrow> writer" where
  "count_chunk sha1 w d =
     w\<lparr>file_recipe := file_recipe w @ [enc_fp (fp_of sha1 d)], sum_chunks := sum_chunks w + 1,
       sum_size := sum_size w + int (length d)\<rparr>"

lemma count_chunk_simps [simp]:
  "manager (count_chunk sha1 w d) = manager w" "view (count_chunk sha1 w d) = view w"
  "writer_ok sha1 (count_chunk sha1 w d) = writer_ok sha1 w"
  "container_index (count_chunk sha1 w d) = container_index w"
  "container_buf (count_chunk sha1 w d) = container_buf w"
  "rev_container_cnt (count_chunk sha1 w d) = rev_container_cnt w"
  "container_buf_pointer (count_chunk sha1 w d) = container_buf_pointer w"
  "file_recipe (count_chunk sha1 w d) = file_recipe w @ [enc_fp (fp_of sha1 d)]"
  "sum_chunks (count_chunk sha1 w d) = sum_chunks w + 1"
  by (simp_all add: count_chunk_def writer_ok_def view_def saved_dir_def)

lemma write_chunk_cases:
  "write_chunk sha1 w d =
     (if index (manager w) (fp_of sha1 d) = None then
        and_then (saveChunkToContainer (count_chunk sha1 w d) d (enc_fp (fp_of sha1 d))) (\<lambda>w1.
        and_then (addNewEntry (manager w1) (fp_of sha1 d) (new_entry w1 (length d))) (\<lambda>m.
          Inr (advance (w1\<lparr>manager := m\<rparr>) (length d))))
      else and_then (addRefCnt (manager w) (fp_of sha1 d)) (\<lambda>(_, m).
        Inr (count_chunk sha1 w d
          \<lparr>manager := m, dedup_chunks := dedup_chunks w + 1,
           dedup_size := dedup_size w + int (length d)\<rparr>)))"
  by (simp add: write_chunk_def count_chunk_def Let_def dedupLookup_index flip: fp_of_def)

lemma writer_room_length: "writer_room w ds \<Longrightarrow> length ds < 2 ^ 31"
proof -
  assume "writer_room w ds"
  then have "uint (container_index w) + int (length ds) < 2 ^ 31" by (simp add: writer_room_def)
  then have "int (length ds) < 2 ^ 31" using uint_ge_0 [of "container_index w"] by linarith
  then show ?thesis by simp
qed

lemma writer_room_refs:
  "writer_room w (d # ds) \<Longrightarrow> index (manager w) fp = Some e \<Longrightarrow> unat (ref_cnt e) + length ds < 2 ^ 32"
  by (fastforce simp: writer_room_def)

text \<open>A chunk that is not in the index: it is appended, after a flush when it does not fit.\<close>

lemma write_new_chunk:
  assumes ok: "writer_ok sha1 w" and room: "writer_room w (d # ds)"
    and d: "d \<noteq> []" "length d < 2 ^ 16"
    and new: "index (manager w) (fp_of sha1 d) = None"
  shows "\<exists>w'. write_chunk sha1 w d = Inr w' \<and> writer_ok sha1 w' \<and> writer_room w' ds \<and>
    contents (view w') (index (manager w')) = put_chunk sha1 d (contents (view w) (index (manager w))) \<and>
    file_recipe w' = file_recipe w @ [enc_fp (fp_of sha1 d)] \<and> sum_chunks w' = sum_chunks w + 1"
proof -
  let ?w0 = "count_chunk sha1 w d" and ?fp = "fp_of sha1 d"
  define wf where "wf = (if CONTAINER_SIZE \<le> length (container_buf w) + length d
      then flush_container ?w0 else ?w0)"
  have ok0: "writer_ok sha1 ?w0" using ok by simp
  have idx: "uint (container_index w) + 1 < 2 ^ 31" using room by (simp add: writer_room_def)
  have sum: "unat (container_buf_pointer w + of_nat (length d)) = length (container_buf w) + length d"
    using ok d(2) by (simp add: writer_ok_def unat_word_ariths unat_of_nat CONTAINER_SIZE_def)
  have suc: "uint (container_index w + 1) = uint (container_index w) + 1"
    using idx uint_ge_0 [of "container_index w"] by (simp add: uint_word_ariths)
  have okf: "writer_ok sha1 wf" and mf: "manager wf = manager w"
    and cf: "contents (view wf) (index (manager w)) = contents (view w) (index (manager w))"
    and recf: "file_recipe wf = file_recipe w @ [enc_fp ?fp]" "sum_chunks wf = sum_chunks w + 1"
    using flush_container_ok [OF ok0] ok0 idx
    by (simp_all add: wf_def) (simp_all add: flush_container_def)
  have fits: "length (container_buf wf) + length d < CONTAINER_SIZE"
    using d(2) by (simp add: wf_def flush_container_def CONTAINER_SIZE_def)
  have idxf: "uint (container_index wf) \<le> uint (container_index w) + 1"
    using suc by (simp add: wf_def flush_container_def)
  have cntf: "128 * unat (rev_container_cnt wf) + 128 * short_chunks (d # ds) \<le>
      length (container_buf wf) + 128 * 32000"
    using room by (simp add: wf_def flush_container_def writer_room_def)
  then have cnt: "unat (rev_container_cnt wf) * 20 + 20 \<le> CONTAINER_SIZE"
    using fits by (simp add: CONTAINER_SIZE_def)
  have idxf': "uint (container_index wf) < 2 ^ 31" using idxf idx by linarith
  have newf: "index (manager wf) ?fp = None" using new mf by simp
  obtain w1 m where w1: "copy_chunk wf d (enc_fp ?fp) = Inr w1"
      "addNewEntry (manager w1) ?fp (new_entry w1 (length d)) = Inr m"
      "writer_ok sha1 (advance (w1\<lparr>manager := m\<rparr>) (length d))"
      "contents (view (advance (w1\<lparr>manager := m\<rparr>) (length d))) (index m) =
        put_chunk sha1 d (contents (view wf) (index (manager wf)))"
      "index m = (index (manager wf))(?fp \<mapsto> new_entry wf (length d))"
    and f1: "container_buf w1 = container_buf wf @ d" "rev_container_cnt w1 = rev_container_cnt wf"
      "container_index w1 = container_index wf" "file_recipe w1 = file_recipe wf"
      "sum_chunks w1 = sum_chunks wf" "unat (rev_container_cnt wf + 1) = unat (rev_container_cnt wf) + 1"
    using store_new_chunk [OF okf idxf' fits cnt d newf] by blast
  let ?w' = "advance (w1\<lparr>manager := m\<rparr>) (length d)"
  have "write_chunk sha1 w d = Inr ?w'"
    using new w1(1,2) sum by (simp add: write_chunk_cases saveChunkToContainer_def wf_def)
  moreover have "writer_room ?w' ds"
    using room cntf idxf f1 w1(5) mf writer_room_refs [OF room] writer_room_length [OF room]
    by (auto simp: writer_room_def advance_def short_chunks_def new_entry_def split: if_splits)
  ultimately show ?thesis
    using w1(3,4) f1 cf mf recf by (intro exI [of _ ?w']) (simp add: advance_def)
qed

text \<open>A chunk that is in the index: its reference count goes up.\<close>

lemma write_known_chunk:
  assumes ok: "writer_ok sha1 w" and room: "writer_room w (d # ds)"
    and old: "index (manager w) (fp_of sha1 d) = Some e"
  shows "\<exists>w'. write_chunk sha1 w d = Inr w' \<and> writer_ok sha1 w' \<and> writer_room w' ds \<and>
    contents (view w') (index (manager w')) = put_chunk sha1 d (contents (view w) (index (manager w))) \<and>
    file_recipe w' = file_recipe w @ [enc_fp (fp_of sha1 d)] \<and> sum_chunks w' = sum_chunks w + 1"
proof -
  let ?fp = "fp_of sha1 d"
  have mok: "mm_ok (manager w)" and st: "store_ok sha1 (view w) (index (manager w))"
    using ok by (auto simp: writer_ok_def)
  obtain m where m: "addRefCnt (manager w) ?fp = Inr (ref_cnt e + 1, m)" "mm_ok m"
      "index m = (index (manager w))(?fp \<mapsto> e\<lparr>ref_cnt := ref_cnt e + 1\<rparr>)"
    using addRefCnt_spec [OF mok old] by blast
  obtain c where c: "chunk_at (view w) e = Some c"
    "contents (view w) (index (manager w)) ?fp = Some (c, unat (ref_cnt e))"
    using store_ok_chunk [OF st old] by blast
  have "unat (ref_cnt e) + length (d # ds) < 2 ^ 32"
    using room old by (simp add: writer_room_def)
  then have ref: "unat (ref_cnt e + 1) = unat (ref_cnt e) + 1"
    by (simp add: unat_word_ariths)
  define w' where "w' = count_chunk sha1 w d
    \<lparr>manager := m, dedup_chunks := dedup_chunks w + 1, dedup_size := dedup_size w + int (length d)\<rparr>"
  have same: "view w' = view w" "manager w' = m"
    by (simp_all add: w'_def count_chunk_def view_def saved_dir_def)
  have "write_chunk sha1 w d = Inr w'"
    using old m(1) by (simp add: write_chunk_cases w'_def)
  moreover have "writer_ok sha1 w'"
    using ok m(2,3) store_ok_ref_cnt [OF st old]
    by (simp add: writer_ok_def same) (simp add: w'_def count_chunk_def)
  moreover have "writer_room w' ds"
    using room m(3) ref old writer_room_refs [OF room]
    by (auto simp: writer_room_def same short_chunks_def split: if_splits)
      (auto simp: w'_def)
  moreover have "contents (view w') (index (manager w')) =
      put_chunk sha1 d (contents (view w) (index (manager w)))"
    using m(3) c ref by (auto simp: fun_eq_iff contents_def put_chunk_def same)
  moreover have "file_recipe w' = file_recipe w @ [enc_fp ?fp]" "sum_chunks w' = sum_chunks w + 1"
    by (simp_all add: w'_def)
  ultimately show ?thesis by blast
qed

section \<open>All chunks\<close>

lemma write_chunks:
  assumes "writer_ok sha1 w" and "writer_room w ds"
    and "\<forall>d \<in> set ds. d \<noteq> [] \<and> length d < 2 ^ 16"
  shows "\<exists>w'. foldE (write_chunk sha1) w ds = Inr w' \<and> writer_ok sha1 w' \<and> writer_room w' [] \<and>
    contents (view w') (index (manager w')) =
      fold (put_chunk sha1) ds (contents (view w) (index (manager w))) \<and>
    file_recipe w' = file_recipe w @ map (\<lambda>d. enc_fp (fp_of sha1 d)) ds \<and>
    sum_chunks w' = sum_chunks w + int (length ds)"
  using assms
proof (induction ds arbitrary: w)
  case Nil
  then show ?case by simp
next
  case (Cons d ds)
  then have d: "d \<noteq> []" "length d < 2 ^ 16" by auto
  have "\<exists>w1. write_chunk sha1 w d = Inr w1 \<and> writer_ok sha1 w1 \<and> writer_room w1 ds \<and>
    contents (view w1) (index (manager w1)) = put_chunk sha1 d (contents (view w) (index (manager w))) \<and>
    file_recipe w1 = file_recipe w @ [enc_fp (fp_of sha1 d)] \<and> sum_chunks w1 = sum_chunks w + 1"
    using write_new_chunk [OF Cons.prems(1,2) d] write_known_chunk [OF Cons.prems(1,2)]
    by (cases "index (manager w) (fp_of sha1 d)") blast+
  then obtain w1 where w1: "write_chunk sha1 w d = Inr w1" "writer_ok sha1 w1" "writer_room w1 ds"
    "contents (view w1) (index (manager w1)) = put_chunk sha1 d (contents (view w) (index (manager w)))"
    "file_recipe w1 = file_recipe w @ [enc_fp (fp_of sha1 d)]" "sum_chunks w1 = sum_chunks w + 1"
    by blast
  from Cons.IH [OF w1(2,3)] Cons.prems(3) obtain w' where
    "foldE (write_chunk sha1) w1 ds = Inr w'" "writer_ok sha1 w'" "writer_room w' []"
    "contents (view w') (index (manager w')) =
      fold (put_chunk sha1) ds (contents (view w1) (index (manager w1)))"
    "file_recipe w' = file_recipe w1 @ map (\<lambda>d. enc_fp (fp_of sha1 d)) ds"
    "sum_chunks w' = sum_chunks w1 + int (length ds)"
    by auto
  with w1 show ?case by simp
qed

text \<open>The chunks of a file: the chunks of its blocks, with the chunker state carried over.\<close>

partial_function (option) file_chunks ::
    "('c \<Rightarrow> bytes \<Rightarrow> (nat \<times> 'c) result) \<Rightarrow> 'c \<Rightarrow> bytes \<Rightarrow> (bytes list \<times> 'c) result option" where
  "file_chunks ck c input =
     (if input = [] then Some (Inr ([], c))
      else case split_chunks ck c (take FILE_CACHE input) of
        None \<Rightarrow> None
      | Some (Inl e) \<Rightarrow> Some (Inl e)
      | Some (Inr r) \<Rightarrow>
          Option.bind (file_chunks ck (snd r) (drop FILE_CACHE input)) (\<lambda>rest.
            Some (and_then rest (\<lambda>(ds, c'). Inr (fst r @ ds, c')))))"

lemma split_chunks_Some:
  assumes "split_chunks ck c p = Some (Inr (ds, c'))" and "p \<noteq> []"
  obtains k c1 ds' where "ck c p = Inr (k, c1)" and "k \<le> length p" and "ds = take k p # ds'"
    and "split_chunks ck c1 (drop k p) = Some (Inr (ds', c'))"
  using assms
  by (subst (asm) split_chunks.simps)
    (auto split: if_splits sum.splits option.splits simp: and_then_eq_Inr bind_eq_Some_conv)

lemma write_block_fold:
  assumes "split_chunks ck c p = Some (Inr (ds, c'))"
  shows "write_block sha1 ck c w p =
    Some (and_then (foldE (write_chunk sha1) w ds) (\<lambda>w'. Inr (c', w')))"
  using assms
proof (induction ds arbitrary: c p w)
  case Nil
  show ?case
  proof (cases "p = []")
    case True
    with Nil have "c' = c" by (simp add: split_chunks.simps)
    with True show ?thesis by (simp add: write_block.simps)
  next
    case False
    from split_chunks_Some [OF Nil False] show ?thesis by blast
  qed
next
  case (Cons d ds)
  then have "p \<noteq> []" by (auto simp: split_chunks.simps)
  from split_chunks_Some [OF Cons.prems this] obtain k c1 where
    k: "ck c p = Inr (k, c1)" "k \<le> length p" "d = take k p"
    and rest: "split_chunks ck c1 (drop k p) = Some (Inr (ds, c'))" by blast
  show ?case
    using \<open>p \<noteq> []\<close> k Cons.IH [OF rest]
    by (subst write_block.simps) (cases "write_chunk sha1 w d"; simp)
qed

lemma write_blocks_fold:
  assumes "file_chunks ck c input = Some (Inr (ds, c'))"
  shows "write_blocks sha1 ck c w input =
    Some (and_then (foldE (write_chunk sha1) w ds) (\<lambda>w'. Inr (c', w')))"
  using assms
proof (induction input arbitrary: c ds w rule: length_induct)
  case (1 input)
  show ?case
  proof (cases "input = []")
    case True
    with "1.prems" show ?thesis by (simp add: file_chunks.simps write_blocks.simps)
  next
    case False
    with "1.prems" obtain ds1 c1 ds2 where
      block: "split_chunks ck c (take FILE_CACHE input) = Some (Inr (ds1, c1))"
      and rest: "file_chunks ck c1 (drop FILE_CACHE input) = Some (Inr (ds2, c'))"
      and ds: "ds = ds1 @ ds2"
      by (subst (asm) file_chunks.simps)
        (auto split: option.splits sum.splits simp: and_then_eq_Inr bind_eq_Some_conv)
    have "length (drop FILE_CACHE input) < length input" using False by (simp add: FILE_CACHE_def)
    with "1.IH" rest have IH: "write_blocks sha1 ck c1 w1 (drop FILE_CACHE input) =
        Some (and_then (foldE (write_chunk sha1) w1 ds2) (\<lambda>w'. Inr (c', w')))" for w1
      by blast
    show ?thesis
      using False ds
      by (subst write_blocks.simps)
        (cases "foldE (write_chunk sha1) w ds1";
          simp add: write_block_fold [OF block] IH foldE_append)
  qed
qed

context chunker
begin

text \<open>Every file is split, into chunks that make it up.\<close>

lemma file_chunks_total:
  assumes "ok c"
  shows "\<exists>ds c'. file_chunks ck c input = Some (Inr (ds, c')) \<and> concat ds = input \<and>
    (\<forall>d \<in> set ds. d \<noteq> [] \<and> length d \<le> limit c) \<and> ok c' \<and> limit c' = limit c"
  using assms
proof (induction input arbitrary: c rule: length_induct)
  case (1 input)
  show ?case
  proof (cases "input = []")
    case True
    then show ?thesis using "1.prems" by (subst file_chunks.simps) simp
  next
    case False
    have "length (take FILE_CACHE input) < 2 ^ 31" by (simp add: FILE_CACHE_def)
    then obtain ds1 c1 where block: "split_chunks ck c (take FILE_CACHE input) = Some (Inr (ds1, c1))"
      "concat ds1 = take FILE_CACHE input" "\<forall>d \<in> set ds1. d \<noteq> [] \<and> length d \<le> limit c"
      "ok c1" "limit c1 = limit c"
      using split_total [OF "1.prems"] by blast
    have "length (drop FILE_CACHE input) < length input" using False by (simp add: FILE_CACHE_def)
    with "1.IH" block(4) obtain ds2 c2 where
      rest: "file_chunks ck c1 (drop FILE_CACHE input) = Some (Inr (ds2, c2))"
      "concat ds2 = drop FILE_CACHE input" "\<forall>d \<in> set ds2. d \<noteq> [] \<and> length d \<le> limit c1"
      "ok c2" "limit c2 = limit c1" by blast
    have "file_chunks ck c input = Some (Inr (ds1 @ ds2, c2))"
      using False block(1) rest(1) by (subst file_chunks.simps) simp
    moreover have "concat (ds1 @ ds2) = input" using block(2) rest(2) by simp
    moreover have "\<forall>d \<in> set (ds1 @ ds2). d \<noteq> [] \<and> length d \<le> limit c"
      using block(3,5) rest(3) by auto
    ultimately show ?thesis using block(5) rest(4,5) by metis
  qed
qed

end

end
