(* ===== verification/Ordered_Map.thy ===== *)
theory Ordered_Map
  imports Prelude
begin

text \<open>
  \<open>std::map\<close> as an association list sorted by key: assignment through \<open>operator[]\<close>,
  \<open>erase\<close>, and \<open>begin()\<close> as its head.
\<close>

type_synonym ('k, 'v) omap = "('k \<times> 'v) list"

fun omap_put :: "'k::linorder \<Rightarrow> 'v \<Rightarrow> ('k, 'v) omap \<Rightarrow> ('k, 'v) omap" where
  "omap_put k v [] = [(k, v)]"
| "omap_put k v ((k', v') # m) =
     (if k < k' then (k, v) # (k', v') # m
      else if k = k' then (k, v) # m
      else (k', v') # omap_put k v m)"

definition omap_erase :: "'k \<Rightarrow> ('k, 'v) omap \<Rightarrow> ('k, 'v) omap" where
  "omap_erase k m = filter (\<lambda>e. fst e \<noteq> k) m"

definition omap_ok :: "('k::linorder, 'v) omap \<Rightarrow> bool" where
  "omap_ok m \<longleftrightarrow> sorted_wrt (<) (map fst m)"

lemma omap_ok_distinct: "omap_ok m \<Longrightarrow> distinct (map fst m)"
  by (simp add: omap_ok_def strict_sorted_iff)

lemma fst_omap_put: "fst ` set (omap_put k v m) = insert k (fst ` set m)"
  by (induction k v m rule: omap_put.induct) auto

lemma map_of_omap_put: "omap_ok m \<Longrightarrow> map_of (omap_put k v m) = (map_of m)(k \<mapsto> v)"
proof (induction k v m rule: omap_put.induct)
  case (2 k v k' v' m)
  have "map_of m k = None" if "k = k'"
    using "2.prems" that by (auto simp: omap_ok_def map_of_eq_None_iff)
  with 2 show ?case by (auto simp: omap_ok_def fun_eq_iff)
qed simp

lemma omap_ok_put: "omap_ok m \<Longrightarrow> omap_ok (omap_put k v m)"
proof (induction k v m rule: omap_put.induct)
  case (2 k v k' v' m)
  then show ?case
    using fst_omap_put [of k v m] by (auto simp: omap_ok_def)
qed (simp add: omap_ok_def)

text \<open>A key above all others goes to the end.\<close>

lemma omap_put_max: "(\<And>x. x \<in> fst ` set m \<Longrightarrow> x < k) \<Longrightarrow> omap_put k v m = m @ [(k, v)]"
proof (induction k v m rule: omap_put.induct)
  case (2 k v k' v' m)
  then have "k' < k" by simp
  then have "\<not> k < k'" "k \<noteq> k'" by auto
  with 2 show ?case by simp
qed simp

lemma map_of_omap_erase: "map_of (omap_erase k m) = (map_of m)(k := None)"
  by (induction m) (auto simp: omap_erase_def fun_eq_iff)

lemma omap_ok_erase: "omap_ok m \<Longrightarrow> omap_ok (omap_erase k m)"
  by (induction m) (auto simp: omap_erase_def omap_ok_def)

lemma omap_erase_hd: "omap_ok ((k, v) # m) \<Longrightarrow> omap_erase k ((k, v) # m) = m"
  by (auto simp: omap_erase_def omap_ok_def intro!: filter_True)

lemma length_omap_put:
  "length (omap_put k v m) = (if k \<in> fst ` set m then length m else Suc (length m))"
  if "omap_ok m"
  using that
proof (induction k v m rule: omap_put.induct)
  case (2 k v k' v' m)
  then show ?case by (auto simp: omap_ok_def)
qed simp

lemma omap_put_erase: "omap_ok m \<Longrightarrow> omap_put k v (omap_erase k m) = omap_put k v m"
proof (induction m)
  case Nil
  then show ?case by (simp add: omap_erase_def)
next
  case (Cons a m)
  obtain k' v' where a: "a = (k', v')" by (cases a)
  have m: "omap_ok m" and above: "\<forall>x \<in> fst ` set m. k' < x"
    using Cons.prems by (auto simp: omap_ok_def a)
  have head: "omap_put k v m = (k, v) # m" if "\<forall>x \<in> fst ` set m. k < x"
    using that by (cases m) auto
  show ?case
  proof (cases "k' = k")
    case True
    then have "omap_erase k (a # m) = m" using omap_erase_hd Cons.prems a by metis
    then show ?thesis using head above True by (simp add: a)
  next
    case False
    have "k < k' \<Longrightarrow> omap_erase k m = m"
      using above by (auto simp: omap_erase_def intro!: filter_True)
    then show ?thesis using False Cons.IH [OF m] by (auto simp: omap_erase_def a)
  qed
qed

lemma map_snd_omap_erase:
  assumes "distinct (map fst m)" and "distinct (map snd m)" and "(t, x) \<in> set m"
  shows "map snd (omap_erase t m) = remove1 x (map snd m)"
  using assms
proof (induction m)
  case (Cons a m)
  show ?case
  proof (cases "a = (t, x)")
    case True
    then have "t \<notin> fst ` set m" using Cons.prems(1) by simp
    then have "omap_erase t m = m" by (auto simp: omap_erase_def intro!: filter_True)
    then show ?thesis by (simp add: True omap_erase_def)
  next
    case False
    with Cons.prems have "(t, x) \<in> set m" "fst a \<noteq> t" "snd a \<noteq> x"
      by (auto simp: rev_image_eqI)
    with Cons show ?thesis by (auto simp: omap_erase_def)
  qed
qed simp

end
