(* ===== verification/Caches.thy ===== *)
theory Caches
  imports Store Ordered_Map
begin

text \<open>
  \<open>include/Cache.h\<close> and its two implementations, \<open>src/ContainerCache.cpp\<close> (whole
  containers, first in first out) and \<open>src/ChunkCache.cpp\<close> (single chunks, least recently
  used first). The abstract class is the locale \<open>chunk_source\<close>: what the restore loop
  relies on, independently of what is cached.
\<close>

section \<open>Library calls\<close>

text \<open>\<open>std::string(s, pos, len)\<close>; \<open>read\<close> into a buffer that keeps its old tail.\<close>

definition substr :: "bytes \<Rightarrow> nat \<Rightarrow> nat \<Rightarrow> bytes result" where
  "substr s pos len = (if length s < pos then Inl LibraryException else Inr (segment pos len s))"

section \<open>\<open>ContainerCache\<close>\<close>

record ContainerCache =
  container_index_set :: "int set"
  container_index_queue :: "int list"
  containers_max :: nat
  containers_cached :: "(int \<times> bytes) list"

definition container_cache_new :: "nat \<Rightarrow> ContainerCache" where
  "container_cache_new n =
     \<lparr>container_index_set = {}, container_index_queue = [], containers_max = n,
      containers_cached = []\<rparr>"

text \<open>
  The read of a container that cannot be opened returns -1, and a string of that length
  throws.
\<close>

definition cc_loadContainer :: "(string \<rightharpoonup> bytes) \<Rightarrow> int \<Rightarrow> ContainerCache \<Rightarrow> ContainerCache result" where
  "cc_loadContainer D i s =
     (case D (container_name i) of
        None \<Rightarrow> Inl LibraryException
      | Some f \<Rightarrow>
          Inr (s\<lparr>container_index_queue := container_index_queue s @ [i],
                 container_index_set := insert i (container_index_set s),
                 containers_cached := AList.update i (take CONTAINER_SIZE f) (containers_cached s)\<rparr>))"

definition evictContainerFIFO :: "ContainerCache \<Rightarrow> ContainerCache result" where
  "evictContainerFIFO s =
     (case container_index_queue s of
        [] \<Rightarrow> Inl MemoryFault
      | i # q \<Rightarrow>
          Inr (s\<lparr>container_index_set := container_index_set s - {i},
                 container_index_queue := q,
                 containers_cached := AList.delete i (containers_cached s)\<rparr>))"

definition cached_container :: "ContainerCache \<Rightarrow> int \<Rightarrow> bytes" where
  "cached_container s i = (case map_of (containers_cached s) i of None \<Rightarrow> [] | Some f \<Rightarrow> f)"

definition container_getChunkData ::
    "(string \<rightharpoonup> bytes) \<Rightarrow> ContainerCache \<Rightarrow> ENTRY_VALUE \<Rightarrow> (bytes \<times> ContainerCache) result" where
  "container_getChunkData D s ev =
     (let i = sint (container_number ev);
          fetch = (\<lambda>s. and_then (substr (cached_container s i) (unat (offset ev)) (unat (chunk_length ev)))
                         (\<lambda>data. Inr (data, s)))
      in if i \<in> container_index_set s then fetch s
         else and_then (if containers_max s \<le> length (container_index_queue s)
                        then evictContainerFIFO s else Inr s) (\<lambda>s1.
              and_then (cc_loadContainer D i s1) fetch))"

section \<open>\<open>ChunkCache\<close>\<close>

record ChunkCache =
  LRUtimestamp :: u64
  chunks_max :: nat
  chunks_cached :: "(u64, bytes \<times> u64) omap"
  LRUstack :: "(u64, u64) omap"
  read_buf :: bytes

definition chunk_cache_new :: "nat \<Rightarrow> bytes \<Rightarrow> ChunkCache" where
  "chunk_cache_new n buf =
     \<lparr>LRUtimestamp = 0, chunks_max = n, chunks_cached = [], LRUstack = [], read_buf = buf\<rparr>"

definition ChunkGlobalID :: "ENTRY_VALUE \<Rightarrow> u64" where
  "ChunkGlobalID ev = push_bit 32 (ucast (container_number ev)) + ucast (container_inner_index ev)"

text \<open>
  A failed \<open>open\<close> or a short \<open>read\<close> only prints; the result is then what the buffer
  held before.
\<close>

definition loadChunk :: "(string \<rightharpoonup> bytes) \<Rightarrow> ENTRY_VALUE \<Rightarrow> ChunkCache \<Rightarrow> bytes \<times> ChunkCache" where
  "loadChunk D ev s =
     (let content = (case D (container_name (uint (container_number ev))) of
                       None \<Rightarrow> []
                     | Some f \<Rightarrow> segment (unat (offset ev)) (unat (chunk_length ev)) f);
          buf = overlay (read_buf s) 0 content
      in (array_prefix (unat (chunk_length ev)) buf, s\<lparr>read_buf := buf\<rparr>))"

definition evictChunkLRU :: "ChunkCache \<Rightarrow> ChunkCache result" where
  "evictChunkLRU s =
     (case LRUstack s of
        [] \<Rightarrow> Inl MemoryFault
      | (t, cid) # _ \<Rightarrow>
          Inr (s\<lparr>chunks_cached := omap_erase cid (chunks_cached s),
                 LRUstack := omap_erase t (LRUstack s)\<rparr>))"

definition chunk_getChunkData ::
    "(string \<rightharpoonup> bytes) \<Rightarrow> ChunkCache \<Rightarrow> ENTRY_VALUE \<Rightarrow> (bytes \<times> ChunkCache) result" where
  "chunk_getChunkData D s ev =
     (let cid = ChunkGlobalID ev in
      case map_of (chunks_cached s) cid of
        Some (data, t) \<Rightarrow>
          let t' = LRUtimestamp s + 1
          in Inr (data, s\<lparr>LRUstack := omap_put t' cid (omap_erase t (LRUstack s)),
                          LRUtimestamp := t',
                          chunks_cached := omap_put cid (data, t') (chunks_cached s)\<rparr>)
      | None \<Rightarrow>
          and_then (if chunks_max s \<le> length (chunks_cached s) then evictChunkLRU s else Inr s) (\<lambda>s1.
            let (data, s2) = loadChunk D ev s1;
                t' = LRUtimestamp s2 + 1
            in Inr (data, s2\<lparr>LRUtimestamp := t',
                             LRUstack := omap_put t' cid (LRUstack s2),
                             chunks_cached := omap_put cid (data, t') (chunks_cached s2)\<rparr>)))"

section \<open>The interface\<close>

text \<open>
  A source of chunks over the directory \<open>D\<close>, used for the entries \<open>E\<close>: as long as its
  invariant holds for \<open>n\<close> more calls, a call returns the chunk the entry names.
\<close>

locale chunk_source =
  fixes get :: "'s \<Rightarrow> ENTRY_VALUE \<Rightarrow> (bytes \<times> 's) result"
    and inv :: "nat \<Rightarrow> 's \<Rightarrow> bool"
    and D :: "string \<rightharpoonup> bytes"
    and E :: "ENTRY_VALUE set"
  assumes get_chunk: "inv (Suc n) s \<Longrightarrow> e \<in> E \<Longrightarrow> chunk_at D e = Some c \<Longrightarrow>
    \<exists>s'. get s e = Inr (c, s') \<and> inv n s'"
begin

lemma get_chunks:
  assumes "inv (length es) s" and "set es \<subseteq> E"
    and "list_all2 (\<lambda>e c. chunk_at D e = Some c) es cs"
  shows "\<exists>s'. foldE (\<lambda>(ds, s) e. and_then (get s e) (\<lambda>(d, s'). Inr (ds @ [d], s'))) (ds, s) es =
    Inr (ds @ cs, s')"
  using assms
proof (induction es arbitrary: s cs ds)
  case Nil
  then show ?case by simp
next
  case (Cons e es)
  then obtain c cs' where cs: "cs = c # cs'" "chunk_at D e = Some c"
    "list_all2 (\<lambda>e c. chunk_at D e = Some c) es cs'"
    by (auto simp: list_all2_Cons1)
  from Cons.prems cs(2) obtain s' where "get s e = Inr (c, s')" "inv (length es) s'"
    using get_chunk [of "length es" s e c] by auto
  with Cons.IH [of s' cs' "ds @ [c]"] Cons.prems cs show ?case by simp
qed

end

section \<open>Containers, first in first out\<close>

text \<open>Each cached container is the file, and the queue lists what is cached.\<close>

definition container_inv :: "(string \<rightharpoonup> bytes) \<Rightarrow> ContainerCache \<Rightarrow> bool" where
  "container_inv D s \<longleftrightarrow>
     set (container_index_queue s) = container_index_set s \<and>
     distinct (container_index_queue s) \<and>
     length (container_index_queue s) \<le> containers_max s \<and> 0 < containers_max s \<and>
     (\<forall>i \<in> container_index_set s.
        \<exists>f. D (container_name i) = Some f \<and>
            map_of (containers_cached s) i = Some (take CONTAINER_SIZE f))"

text \<open>Entries whose chunk lies in the part of a container that is read.\<close>

definition container_entries :: "ENTRY_VALUE set" where
  "container_entries = {e. uint (container_number e) < 2 ^ 31 \<and>
     unat (offset e) + unat (chunk_length e) \<le> CONTAINER_SIZE}"

lemma container_inv_new: "0 < n \<Longrightarrow> container_inv D (container_cache_new n)"
  by (simp add: container_inv_def container_cache_new_def)

lemma container_inv_evict:
  assumes "container_inv D s" and "containers_max s \<le> length (container_index_queue s)"
  obtains s1 where "evictContainerFIFO s = Inr s1" and "container_inv D s1"
    and "length (container_index_queue s1) < containers_max s1"
    and "container_index_set s1 \<subseteq> container_index_set s"
proof -
  from assms obtain i q where q: "container_index_queue s = i # q"
    by (cases "container_index_queue s") (auto simp: container_inv_def)
  with assms show ?thesis
    by (intro that [of "s\<lparr>container_index_set := container_index_set s - {i},
          container_index_queue := q,
          containers_cached := AList.delete i (containers_cached s)\<rparr>"])
      (auto simp: evictContainerFIFO_def container_inv_def map_of_delete)
qed

lemma container_inv_load:
  assumes "container_inv D s" and "length (container_index_queue s) < containers_max s"
    and "i \<notin> container_index_set s" and "D (container_name i) = Some f"
  shows "\<exists>s1. cc_loadContainer D i s = Inr s1 \<and> container_inv D s1 \<and>
    cached_container s1 i = take CONTAINER_SIZE f"
  using assms
  by (auto simp: cc_loadContainer_def container_inv_def map_of_update cached_container_def)

lemma container_get_cached:
  assumes "chunk_at D e = Some c" and "e \<in> container_entries"
    and "D (container_name (uint (container_number e))) = Some f"
  shows "substr (take CONTAINER_SIZE f) (unat (offset e)) (unat (chunk_length e)) = Inr c"
  using assms
  by (auto simp: chunk_at_def substr_def segment_def container_entries_def drop_take min_def
      split: if_splits)

lemma container_getChunkData_spec:
  assumes inv: "container_inv D s" and e: "e \<in> container_entries" and c: "chunk_at D e = Some c"
  shows "\<exists>s'. container_getChunkData D s e = Inr (c, s') \<and> container_inv D s'"
proof -
  let ?i = "uint (container_number e)"
  have i: "sint (container_number e) = ?i"
    using e by (simp add: container_entries_def sint_uint_small)
  obtain f where f: "D (container_name ?i) = Some f"
    using c by (auto simp: chunk_at_def split: option.splits)
  show ?thesis
  proof (cases "?i \<in> container_index_set s")
    case True
    then have "cached_container s ?i = take CONTAINER_SIZE f"
      using inv f by (auto simp: container_inv_def cached_container_def)
    with True show ?thesis
      using inv container_get_cached [OF c e f]
      by (simp add: container_getChunkData_def i Let_def)
  next
    case False
    obtain s1 where s1: "(if containers_max s \<le> length (container_index_queue s)
        then evictContainerFIFO s else Inr s) = Inr s1" "container_inv D s1"
      "length (container_index_queue s1) < containers_max s1" "?i \<notin> container_index_set s1"
    proof (cases "containers_max s \<le> length (container_index_queue s)")
      case True
      from container_inv_evict [OF inv True] that True False show thesis by auto
    next
      case not_full: False
      with that inv False show thesis by auto
    qed
    from container_inv_load [OF s1(2,3,4) f] obtain s2 where
      "cc_loadContainer D ?i s1 = Inr s2" "container_inv D s2"
      "cached_container s2 ?i = take CONTAINER_SIZE f" by blast
    with False s1(1) show ?thesis
      using container_get_cached [OF c e f]
      by (simp add: container_getChunkData_def i Let_def)
  qed
qed

interpretation container_source: chunk_source
  "container_getChunkData D" "\<lambda>_. container_inv D" D container_entries for D
  by unfold_locales (rule container_getChunkData_spec)

section \<open>Chunks, least recently used first\<close>

text \<open>
  The stack and the cache are inverse to each other, and no time stamp is in the future.
\<close>

definition stack_ok :: "(u64, u64) omap \<Rightarrow> (u64, bytes \<times> u64) omap \<Rightarrow> u64 \<Rightarrow> bool" where
  "stack_ok stack cached now \<longleftrightarrow> omap_ok stack \<and> omap_ok cached \<and>
     (\<forall>t cid. map_of stack t = Some cid \<longleftrightarrow> (\<exists>data. map_of cached cid = Some (data, t))) \<and>
     (\<forall>t \<in> fst ` set stack. t \<le> now)"

lemma stack_okD:
  assumes "stack_ok stack cached now"
  shows "omap_ok stack" and "omap_ok cached"
    and "map_of stack t = Some cid \<longleftrightarrow> (\<exists>data. map_of cached cid = Some (data, t))"
    and "t \<in> fst ` set stack \<Longrightarrow> t \<le> now"
  by (insert assms, unfold stack_ok_def) (elim conjE, assumption | blast)+

lemma stack_ok_values: "stack_ok stack cached now \<Longrightarrow> distinct (map snd stack)"
proof -
  assume ok: "stack_ok stack cached now"
  then have dist: "distinct (map fst stack)" by (simp add: stack_ok_def omap_ok_distinct)
  have "inj_on snd (set stack)"
  proof (rule inj_onI)
    fix x y assume xy: "x \<in> set stack" "y \<in> set stack" "snd x = snd y"
    have "map_of stack (fst x) = Some (snd x)" "map_of stack (fst y) = Some (snd y)"
      using dist xy(1,2) by (simp_all add: map_of_eq_Some_iff)
    then have "map_of stack (fst x) = Some (snd x)" "map_of stack (fst y) = Some (snd x)"
      by (simp_all add: xy(3))
    then obtain d1 d2 where "map_of cached (snd x) = Some (d1, fst x)"
        "map_of cached (snd x) = Some (d2, fst y)"
      unfolding stack_okD(3) [OF ok] by blast
    then have "fst x = fst y" by simp
    then show "x = y" using xy(3) by (rule prod_eqI)
  qed
  then show ?thesis using dist by (simp add: distinct_map)
qed

lemma stack_ok_put:
  assumes ok: "stack_ok stack cached now" and none: "map_of cached cid = None" and "now < now'"
  shows "stack_ok (omap_put now' cid stack) (omap_put cid (data, now') cached) now'"
    and "map snd (omap_put now' cid stack) = map snd stack @ [cid]"
proof -
  have below: "x < now'" if "x \<in> fst ` set stack" for x
    using ok that assms(3) by (auto simp: stack_ok_def)
  then have "map_of stack now' = None" by (auto simp: map_of_eq_None_iff)
  show "map snd (omap_put now' cid stack) = map snd stack @ [cid]"
    using below by (simp add: omap_put_max)
  have corr: "map_of stack t = Some c \<longleftrightarrow> (\<exists>data. map_of cached c = Some (data, t))" for t c
    using ok by (simp add: stack_ok_def)
  show "stack_ok (omap_put now' cid stack) (omap_put cid (data, now') cached) now'"
    unfolding stack_ok_def
  proof (intro conjI allI)
    fix t c
    show "map_of (omap_put now' cid stack) t = Some c \<longleftrightarrow>
        (\<exists>d. map_of (omap_put cid (data, now') cached) c = Some (d, t))"
      using ok none \<open>map_of stack now' = None\<close> corr [of t c] corr [of now' c] corr [of t cid]
      by (auto simp: stack_ok_def map_of_omap_put)
  qed (use ok below assms(3) in \<open>auto simp: stack_ok_def omap_ok_put fst_omap_put order_less_imp_le\<close>)
qed

lemma stack_ok_erase:
  assumes ok: "stack_ok stack cached now" and some: "map_of cached cid = Some (data, t)"
  shows "stack_ok (omap_erase t stack) (omap_erase cid cached) now"
    and "map snd (omap_erase t stack) = remove1 cid (map snd stack)"
proof -
  have corr: "map_of stack u = Some c \<longleftrightarrow> (\<exists>d. map_of cached c = Some (d, u))" for u c
    using ok by (simp add: stack_ok_def)
  have t: "map_of stack t = Some cid" using corr some by blast
  have dist: "distinct (map fst stack)" using ok by (simp add: stack_ok_def omap_ok_distinct)
  show "map snd (omap_erase t stack) = remove1 cid (map snd stack)"
    using map_snd_omap_erase [OF dist stack_ok_values [OF ok]] t map_of_SomeD by fast
  show "stack_ok (omap_erase t stack) (omap_erase cid cached) now"
    unfolding stack_ok_def
  proof (intro conjI allI)
    fix u c
    show "map_of (omap_erase t stack) u = Some c \<longleftrightarrow> (\<exists>d. map_of (omap_erase cid cached) c = Some (d, u))"
      using t some corr [of u c] by (auto simp: map_of_omap_erase)
  next
    show "\<forall>u \<in> fst ` set (omap_erase t stack). u \<le> now"
      using ok by (auto simp: stack_ok_def omap_erase_def)
  qed (use ok in \<open>simp_all add: stack_ok_def omap_ok_erase\<close>)
qed

definition ids_agree :: "(string \<rightharpoonup> bytes) \<Rightarrow> ENTRY_VALUE set \<Rightarrow> bool" where
  "ids_agree D E \<longleftrightarrow>
     (\<forall>e1 \<in> E. \<forall>e2 \<in> E. ChunkGlobalID e1 = ChunkGlobalID e2 \<longrightarrow> chunk_at D e1 = chunk_at D e2)"

definition chunk_inv :: "(string \<rightharpoonup> bytes) \<Rightarrow> ENTRY_VALUE set \<Rightarrow> nat \<Rightarrow> ChunkCache \<Rightarrow> bool" where
  "chunk_inv D E n s \<longleftrightarrow>
     stack_ok (LRUstack s) (chunks_cached s) (LRUtimestamp s) \<and>
     unat (LRUtimestamp s) + n < 2 ^ 64 \<and> 0 < chunks_max s \<and>
     length (chunks_cached s) \<le> chunks_max s \<and> 
     (\<forall>cid data t. map_of (chunks_cached s) cid = Some (data, t) \<longrightarrow>
        (\<forall>e \<in> E. ChunkGlobalID e = cid \<longrightarrow> chunk_at D e = Some data)) \<and>
     ids_agree D E"

lemma chunk_invD:
  assumes "chunk_inv D E n s"
  shows "stack_ok (LRUstack s) (chunks_cached s) (LRUtimestamp s)"
    and "unat (LRUtimestamp s) + n < 2 ^ 64"
    and "0 < chunks_max s" and "length (chunks_cached s) \<le> chunks_max s"
    and "map_of (chunks_cached s) (ChunkGlobalID e) = Some (data, t) \<Longrightarrow> e \<in> E \<Longrightarrow>
      chunk_at D e = Some data"
    and "ids_agree D E"
  using assms unfolding chunk_inv_def by blast+

lemma ids_agreeD:
  "ids_agree D E \<Longrightarrow> e \<in> E \<Longrightarrow> e' \<in> E \<Longrightarrow> ChunkGlobalID e = ChunkGlobalID e' \<Longrightarrow>
    chunk_at D e = chunk_at D e'"
  unfolding ids_agree_def by blast

lemma chunk_inv_new:
  assumes "0 < sz" and "n < 2 ^ 64" and "ids_agree D E"
  shows "chunk_inv D E n (chunk_cache_new sz buf)"
  using assms by (simp add: chunk_inv_def chunk_cache_new_def stack_ok_def omap_ok_def)

lemma loadChunk_data:
  assumes "chunk_at D e = Some c"
  shows "\<exists>buf. loadChunk D e s = (c, s\<lparr>read_buf := buf\<rparr>)"
proof -
  obtain f where f: "D (container_name (uint (container_number e))) = Some f"
    and c: "c = segment (unat (offset e)) (unat (chunk_length e)) f"
    using assms by (auto simp: chunk_at_def split: option.splits if_splits)
  have "length c = unat (chunk_length e)" using assms by (rule chunk_at_length)
  then have "array_prefix (unat (chunk_length e)) (overlay (read_buf s) 0 c) = c"
    by (simp add: array_prefix_def overlay_0)
  then have "loadChunk D e s = (c, s\<lparr>read_buf := overlay (read_buf s) 0 c\<rparr>)"
    by (simp add: loadChunk_def f flip: c)
  then show ?thesis by blast
qed

lemma evict_oldest:
  assumes inv: "chunk_inv D E n s" and full: "chunks_max s \<le> length (chunks_cached s)"
  obtains s1 where "evictChunkLRU s = Inr s1" and "chunk_inv D E n s1"
    and "length (chunks_cached s1) < chunks_max s1" and "LRUtimestamp s1 = LRUtimestamp s"
    and "map snd (LRUstack s1) = tl (map snd (LRUstack s))"
    and "\<And>cid. map_of (chunks_cached s) cid = None \<Longrightarrow> map_of (chunks_cached s1) cid = None"
proof -
  note ok = chunk_invD(1) [OF inv]
  note corr = stack_okD(3) [OF ok]
  have "chunks_cached s \<noteq> []" using chunk_invD(3) [OF inv] full by auto
  then obtain cid data t where "map_of (chunks_cached s) cid = Some (data, t)"
    by (metis list.exhaust prod.exhaust map_of_Cons_code(2))
  then have "map_of (LRUstack s) t = Some cid" unfolding corr by blast
  then obtain t0 cid0 rest where stack: "LRUstack s = (t0, cid0) # rest"
    by (cases "LRUstack s") auto
  then have "map_of (LRUstack s) t0 = Some cid0" by simp
  then obtain data0 where cached: "map_of (chunks_cached s) cid0 = Some (data0, t0)"
    unfolding corr by blast
  have rest: "omap_erase t0 (LRUstack s) = rest"
    using omap_erase_hd [of t0 cid0 rest] stack_okD(1) [OF ok] unfolding stack by blast
  let ?s1 = "s\<lparr>chunks_cached := omap_erase cid0 (chunks_cached s), LRUstack := rest\<rparr>"
  have "length (omap_erase cid0 (chunks_cached s)) < length (chunks_cached s)"
    using map_of_SomeD [OF cached] by (auto simp: omap_erase_def intro: length_filter_less)
  then have fewer: "length (chunks_cached ?s1) < chunks_max ?s1"
    using chunk_invD(4) [OF inv] by simp
  have "stack_ok rest (omap_erase cid0 (chunks_cached s)) (LRUtimestamp s)"
    using stack_ok_erase(1) [OF ok cached] unfolding rest .
  moreover have "chunk_at D e = Some d"
    if "map_of (omap_erase cid0 (chunks_cached s)) (ChunkGlobalID e) = Some (d, u)" "e \<in> E" for e d u
    using chunk_invD(5) [OF inv _ that(2)] that(1) by (simp add: map_of_omap_erase split: if_splits)
  ultimately have "chunk_inv D E n ?s1"
    unfolding chunk_inv_def
    using fewer chunk_invD(2,3,6) [OF inv] by auto
  moreover have "evictChunkLRU s = Inr ?s1"
    using rest by (simp add: evictChunkLRU_def stack)
  ultimately show thesis
    using fewer by (intro that [of ?s1]) (simp_all add: stack map_of_omap_erase)
qed

text \<open>
  The recency list is the stack without its time stamps, oldest first; a use moves its
  chunk to the end, and a miss in a full cache drops the head.
\<close>

definition recency :: "ChunkCache \<Rightarrow> u64 list" where
  "recency s = map snd (LRUstack s)"

definition lru_use :: "nat \<Rightarrow> 'k \<Rightarrow> 'k list \<Rightarrow> 'k list" where
  "lru_use n k ks =
     (if k \<in> set ks then remove1 k ks @ [k]
      else if n \<le> length ks then tl ks @ [k] else ks @ [k])"

lemma cached_recency: "chunk_inv D E n s \<Longrightarrow> (\<exists>d t. map_of (chunks_cached s) cid = Some (d, t)) \<longleftrightarrow> cid \<in> set (recency s)"
proof -
  assume inv: "chunk_inv D E n s"
  note ok = chunk_invD(1) [OF inv]
  have "cid \<in> set (recency s) \<longleftrightarrow> (\<exists>t. map_of (LRUstack s) t = Some cid)"
    using omap_ok_distinct [OF stack_okD(1) [OF ok]]
    by (force simp: recency_def map_of_eq_Some_iff)
  then show ?thesis unfolding stack_okD(3) [OF ok] by blast
qed

lemma distinct_recency: "chunk_inv D E n s \<Longrightarrow> distinct (recency s)"
  unfolding recency_def by (rule stack_ok_values [OF chunk_invD(1)])

lemma length_recency: "chunk_inv D E n s \<Longrightarrow> length (recency s) = length (chunks_cached s)"
proof -
  assume inv: "chunk_inv D E n s"
  have dist: "distinct (map fst (chunks_cached s))"
    using omap_ok_distinct stack_okD(2) [OF chunk_invD(1) [OF inv]] .
  have "set (recency s) = fst ` set (chunks_cached s)"
  proof (intro set_eqI)
    fix cid
    have "cid \<in> fst ` set (chunks_cached s) \<longleftrightarrow> (\<exists>d t. map_of (chunks_cached s) cid = Some (d, t))"
      using map_of_eq_None_iff [of "chunks_cached s" cid] by auto
    then show "cid \<in> set (recency s) \<longleftrightarrow> cid \<in> fst ` set (chunks_cached s)"
      using cached_recency [OF inv] by blast
  qed
  then have "card (set (recency s)) = card (set (map fst (chunks_cached s)))" by simp
  then show ?thesis
    using distinct_card [OF dist] distinct_card [OF distinct_recency [OF inv]] by simp
qed

lemma chunk_inv_use:
  fixes s :: ChunkCache
  assumes inv: "chunk_inv D E (Suc n) s" and e: "e \<in> E" and c: "chunk_at D e = Some c"
    and absent: "map_of (chunks_cached s) (ChunkGlobalID e) = None"
    and fits: "length (chunks_cached s) < chunks_max s"
  defines "t' \<equiv> LRUtimestamp s + 1"
  shows "chunk_inv D E n (s\<lparr>read_buf := buf, LRUtimestamp := t',
      LRUstack := omap_put t' (ChunkGlobalID e) (LRUstack s),
      chunks_cached := omap_put (ChunkGlobalID e) (c, t') (chunks_cached s)\<rparr>)"
    and "map snd (omap_put t' (ChunkGlobalID e) (LRUstack s)) = recency s @ [ChunkGlobalID e]"
proof -
  note ok = chunk_invD(1) [OF inv]
  let ?cid = "ChunkGlobalID e" and ?now = "LRUtimestamp s"
  have room: "unat ?now + Suc n < 2 ^ 64" using chunk_invD(2) [OF inv] .
  then have t': "unat t' = Suc (unat ?now)" unfolding t'_def by (simp add: unat_word_ariths)
  then have "?now < t'" by (simp add: word_less_nat_alt)
  note put = stack_ok_put [OF ok absent this]
  have "map_of (omap_put ?cid (c, t') (chunks_cached s)) = (map_of (chunks_cached s))(?cid \<mapsto> (c, t'))"
    using stack_okD(2) [OF ok] by (rule map_of_omap_put)
  then have "chunk_at D e' = Some d"
    if "map_of (omap_put ?cid (c, t') (chunks_cached s)) (ChunkGlobalID e') = Some (d, u)" "e' \<in> E" for e' d u
    using that chunk_invD(5) [OF inv, of e'] ids_agreeD [OF chunk_invD(6) [OF inv] e that(2)] c
    by (auto split: if_splits)
  moreover have "length (omap_put ?cid (c, t') (chunks_cached s)) \<le> chunks_max s"
    using length_omap_put [OF stack_okD(2) [OF ok], of ?cid "(c, t')"] fits by simp
  ultimately show "chunk_inv D E n (s\<lparr>read_buf := buf, LRUtimestamp := t',
      LRUstack := omap_put t' ?cid (LRUstack s),
      chunks_cached := omap_put ?cid (c, t') (chunks_cached s)\<rparr>)"
    unfolding chunk_inv_def
    using put(1) t' room chunk_invD(3,6) [OF inv] by auto
  show "map snd (omap_put t' ?cid (LRUstack s)) = recency s @ [?cid]"
    using put(2) by (simp add: recency_def)
qed

lemma chunk_getChunkData_spec:
  assumes inv: "chunk_inv D E (Suc n) s" and e: "e \<in> E" and c: "chunk_at D e = Some c"
  shows "\<exists>s'. chunk_getChunkData D s e = Inr (c, s') \<and> chunk_inv D E n s' \<and>
    recency s' = lru_use (chunks_max s) (ChunkGlobalID e) (recency s)"
proof (cases "map_of (chunks_cached s) (ChunkGlobalID e)")
  case None
  then have absent: "ChunkGlobalID e \<notin> set (recency s)"
    using cached_recency [OF inv, of "ChunkGlobalID e"] by simp
  obtain s1 where s1: "(if chunks_max s \<le> length (chunks_cached s) then evictChunkLRU s else Inr s) = Inr s1"
    "chunk_inv D E (Suc n) s1" "length (chunks_cached s1) < chunks_max s1"
    "map_of (chunks_cached s1) (ChunkGlobalID e) = None"
    and rec: "recency s1 = (if chunks_max s \<le> length (chunks_cached s) then tl (recency s) else recency s)"
  proof (cases "chunks_max s \<le> length (chunks_cached s)")
    case True
    from evict_oldest [OF inv True] that True None show thesis by (metis recency_def)
  next
    case False
    with that [of s] inv None show thesis by simp
  qed
  obtain buf where load: "loadChunk D e s1 = (c, s1\<lparr>read_buf := buf\<rparr>)"
    using loadChunk_data [OF c] by blast
  note use = chunk_inv_use [OF s1(2) e c s1(4,3)]
  show ?thesis
    using use(1) [of buf] use(2) absent rec length_recency [OF inv]
    by (simp add: chunk_getChunkData_def None s1(1) load lru_use_def recency_def Let_def)
next
  case (Some dt)
  obtain d t where dt: "dt = (d, t)" by (cases dt)
  note some = Some [unfolded dt]
  note ok = chunk_invD(1) [OF inv]
  let ?cid = "ChunkGlobalID e"
  have d: "d = c" using chunk_invD(5) [OF inv some e] c by simp
  have present: "?cid \<in> set (recency s)" using cached_recency [OF inv] some by blast
  let ?s0 = "s\<lparr>LRUstack := omap_erase t (LRUstack s), chunks_cached := omap_erase ?cid (chunks_cached s)\<rparr>"
  have len: "length (omap_erase ?cid (chunks_cached s)) < length (chunks_cached s)"
    using map_of_SomeD [OF some] by (auto simp: omap_erase_def intro: length_filter_less)
  have "chunk_at D e' = Some d'"
    if "map_of (omap_erase ?cid (chunks_cached s)) (ChunkGlobalID e') = Some (d', u)" "e' \<in> E" for e' d' u
    using chunk_invD(5) [OF inv _ that(2)] that(1) by (simp add: map_of_omap_erase split: if_splits)
  then have inv0: "chunk_inv D E (Suc n) ?s0"
    unfolding chunk_inv_def
    using stack_ok_erase(1) [OF ok some] chunk_invD(2,3,4,6) [OF inv] len
    by auto
  note use = chunk_inv_use [OF inv0 e c]
  have rec0: "recency ?s0 = remove1 ?cid (recency s)"
    using stack_ok_erase(2) [OF ok some] by (simp add: recency_def)
  let ?t = "LRUtimestamp s + 1"
  let ?s' = "s\<lparr>LRUstack := omap_put ?t ?cid (omap_erase t (LRUstack s)), LRUtimestamp := ?t,
       chunks_cached := omap_put ?cid (c, ?t) (chunks_cached s)\<rparr>"
  have swap: "s\<lparr>LRUtimestamp := u, LRUstack := v, chunks_cached := w\<rparr> =
      s\<lparr>LRUstack := v, LRUtimestamp := u, chunks_cached := w\<rparr>" for u v w
    by simp
  have "chunk_getChunkData D s e = Inr (c, ?s')"
    by (simp add: chunk_getChunkData_def some d Let_def)
  moreover have "chunk_inv D E n ?s'"
    using use(1) [of "read_buf s"] len chunk_invD(4) [OF inv] omap_put_erase [OF stack_okD(2) [OF ok]]
    by (simp add: map_of_omap_erase swap)
  moreover have "recency ?s' = lru_use (chunks_max s) ?cid (recency s)"
    using use(2) len chunk_invD(4) [OF inv] rec0 present
    by (simp add: map_of_omap_erase recency_def lru_use_def)
  ultimately show ?thesis by blast
qed

interpretation lru: chunk_source "chunk_getChunkData D" "chunk_inv D E" D E for D E
  by unfold_locales (use chunk_getChunkData_spec in blast)

end
