(* ===== verification/Delete.thy ===== *)
theory Delete
  imports Store Write
begin

text \<open>
  The delete task of \<open>main.cpp\<close>: \<open>del_seg\<close> cuts a range out of a file,
  \<open>container_del_chunk\<close> removes a chunk and its fingerprint from a container and moves the
  offsets of the others back, and the loop over the recipe counts references down.
  \<open>rev_container_cnt\<close> and \<open>tmp_buf\<close> are globals of the program and keep their value.
\<close>

record deleter =
  dmanager :: MetadataManager
  ddir :: dir
  dcnt :: u32
  tmp_buf :: bytes

definition deleter_start :: "MetadataManager \<Rightarrow> dir \<Rightarrow> deleter" where
  "deleter_start m d = \<lparr>dmanager = m, ddir = d, dcnt = 0, tmp_buf = []\<rparr>"

definition remove_file :: "string \<Rightarrow> dir \<Rightarrow> dir" where
  "remove_file fname d = AList.delete fname d"

text \<open>\<open>rename\<close> replaces a file of the new name; nothing happens when the old one is missing.\<close>

definition rename_file :: "string \<Rightarrow> string \<Rightarrow> dir \<Rightarrow> dir" where
  "rename_file old new d =
     (case map_of d old of None \<Rightarrow> d | Some f \<Rightarrow> AList.update new f (remove_file old d))"

text \<open>
  \<open>del_seg\<close>: the bytes before \<open>oft\<close> and at most \<open>CONTAINER_SIZE\<close> bytes after the
  range are copied to a temporary file, which then takes the name of the file (or is
  removed when nothing is left). A read of \<open>oft\<close> bytes from a shorter file leaves old
  bytes in the buffer. A negative length is a huge \<open>size_t\<close>, and so is the -1 of the last
  read when the file does not exist: the following \<open>write\<close> passes the end of the buffer.
\<close>

definition del_seg :: "string \<Rightarrow> int \<Rightarrow> nat \<Rightarrow> deleter \<Rightarrow> deleter result" where
  "del_seg s oft len st =
     (case map_of (ddir st) s of
        None \<Rightarrow> Inl MemoryFault
      | Some f \<Rightarrow>
          if oft < 0 \<or> int CONTAINER_SIZE < oft \<or> CONTAINER_SIZE < len then Inl MemoryFault
          else
            let s2 = s @ ''tmp'';
                old = (case map_of (ddir st) s2 of None \<Rightarrow> [] | Some g \<Rightarrow> g);
                buf1 = overlay (tmp_buf st) 0 (take (nat oft) f);
                head = array_prefix (nat oft) buf1;
                buf2 = overlay buf1 0 (segment (nat oft) len f);
                rest = take CONTAINER_SIZE (drop (nat oft + len) f);
                d1 = remove_file s (AList.update s2 (overlay old 0 (head @ rest)) (ddir st))
            in Inr (st\<lparr>ddir := (if oft = 0 \<and> rest = [] then remove_file s2 d1
                                else rename_file s2 s d1),
                       tmp_buf := overlay buf2 0 rest\<rparr>))"

text \<open>
  The loop over the fingerprints of a container. Reading behind the end of the list would
  leave \<open>sha1t\<close> undefined.
\<close>

fun rev_scan ::
    "SHA1FP \<Rightarrow> u32 \<Rightarrow> u32 \<Rightarrow> nat \<Rightarrow> nat \<Rightarrow> int \<Rightarrow> bytes \<Rightarrow> MetadataManager \<Rightarrow>
     (int \<times> MetadataManager) result" where
  "rev_scan del_sha oft len 0 a d_pos fd m = Inr (d_pos, m)"
| "rev_scan del_sha oft len (Suc todo) a d_pos fd m =
     (if length fd < SHA1_LENGTH then Inl MemoryFault
      else let sha1t = dec_fp (take SHA1_LENGTH fd); fd' = drop SHA1_LENGTH fd in
           if tuple_equal sha1t del_sha
           then rev_scan del_sha oft len todo (Suc a) (int a) fd' m
           else and_then (chunkOffsetDec m sha1t oft len)
                  (rev_scan del_sha oft len todo (Suc a) d_pos fd'))"

text \<open>
  The counter keeps its value when the list does not exist. The list is written back with
  the new counter first, and without the fingerprint then.
\<close>

definition container_del_chunk ::
    "int \<Rightarrow> SHA1FP \<Rightarrow> u32 \<Rightarrow> u16 \<Rightarrow> deleter \<Rightarrow> deleter result" where
  "container_del_chunk ctr_id del_sha oft len st =
     and_then (del_seg (container_name ctr_id) (sint oft) (unat len) st) (\<lambda>st1.
       let r = rev_name ctr_id;
           f = (case map_of (ddir st1) r of None \<Rightarrow> [] | Some f \<Rightarrow> f);
           cnt = (if length f < 4 then dcnt st1 else dec_u32 (take 4 f))
       in if cnt = 1 then Inr (st1\<lparr>dcnt := cnt, ddir := remove_file r (ddir st1)\<rparr>)
          else and_then (rev_scan del_sha oft (ucast len) (unat cnt) 0 (-1) (drop 4 f) (dmanager st1))
            (\<lambda>(d_pos, m).
              let st2 = st1\<lparr>dmanager := m, dcnt := cnt - 1,
                            ddir := put_file r (enc_u32 (cnt - 1)) (ddir st1)\<rparr>
              in del_seg r (4 + d_pos * 20) 20 st2))"

definition delete_chunk :: "deleter \<Rightarrow> bytes \<Rightarrow> deleter result" where
  "delete_chunk st x =
     (let fp = dec_fp x in
      case dedupLookup (dmanager st) fp of
        Unique \<Rightarrow> Inl ExitFailure
      | Dedup \<Rightarrow>
          let (ev, m) = getEntry (dmanager st) fp
          in and_then (decRefCnt m fp) (\<lambda>(dv, m').
               if dv = 0
               then container_del_chunk (sint (container_number ev)) fp (offset ev) (chunk_length ev)
                      (st\<lparr>dmanager := m'\<rparr>)
               else Inr (st\<lparr>dmanager := m'\<rparr>)))"

text \<open>The task. Nothing changes when the version does not exist.\<close>

definition task_delete :: "repo \<Rightarrow> int \<Rightarrow> repo result" where
  "task_delete r version =
     and_then (load_index r) (\<lambda>m.
       if \<not> fileRecipeExist (of_int version) (entries (recipes_dir r)) then Inr r
       else and_then (getFileRecipe (of_int version) (entries (recipes_dir r))) (\<lambda>recipe.
         and_then (foldE delete_chunk (deleter_start m (entries (containers_dir r))) recipe) (\<lambda>st.
           Inr \<lparr>containers_dir = map_option (\<lambda>_. ddir st) (containers_dir r),
                recipes_dir = Some (remove_file (getRecipeNameFromVersion (of_int version))
                                 (entries (recipes_dir r))),
                fingerprints_file = Some (save (dmanager st))\<rparr>)))"

end
