(* ===== verification/Delete_Correct.thy ===== *)
theory Delete_Correct
  imports Delete Write_Correct
begin

text \<open>
  Correctness of deletion: dropping the last reference of a chunk removes it from its
  container, and every other chunk of the repository keeps its fingerprint, its bytes and
  its count, although the offsets behind it move.
\<close>

section \<open>The abstract operation\<close>

definition drop_chunk :: "SHA1FP \<Rightarrow> contents \<Rightarrow> contents" where
  "drop_chunk fp st =
     (case st fp of None \<Rightarrow> st
      | Some (c, n) \<Rightarrow> if 1 < n then st(fp \<mapsto> (c, n - 1)) else st(fp := None))"

section \<open>Cutting a chunk out of a container\<close>

text \<open>The entries behind a removed chunk move back.\<close>

definition pull_back :: "ENTRY_VALUE \<Rightarrow> ENTRY_VALUE \<Rightarrow> ENTRY_VALUE" where
  "pull_back e e' =
     (if container_number e' = container_number e
      then move_back (offset e) (ucast (chunk_length e)) e' else e')"

lemma pull_back_simps [simp]:
  "container_number (pull_back e e') = container_number e'"
  "chunk_length (pull_back e e') = chunk_length e'" "ref_cnt (pull_back e e') = ref_cnt e'"
  "container_inner_index (pull_back e e') = container_inner_index e'"
  by (simp_all add: pull_back_def move_back_def)

lemma unat_ucast_length [simp]: "unat (ucast (n :: u16) :: u32) = unat n"
proof -
  have "unat n < 2 ^ 16" using unsigned_less [of n, where 'a = nat] by simp
  then show ?thesis by (simp add: unsigned_ucast_eq take_bit_nat_eq_self)
qed

lemma chunk_length_pos: "chunk_at D e = Some c \<Longrightarrow> c \<noteq> [] \<Longrightarrow> 0 < unat (chunk_length e)"
  by (metis chunk_at_length length_greater_0_conv)

lemma pull_back_offset:
  assumes "container_number e' = container_number e" and "apart e e'"
    and "0 < unat (chunk_length e)" and "0 < unat (chunk_length e')"
  shows "unat (offset (pull_back e e')) =
    (if unat (offset e) + unat (chunk_length e) \<le> unat (offset e')
     then unat (offset e') - unat (chunk_length e) else unat (offset e'))"
proof (cases "unat (offset e) + unat (chunk_length e) \<le> unat (offset e')")
  case True
  then have "offset e < offset e'" using assms(3) by (simp add: word_less_nat_alt)
  moreover have "(ucast (chunk_length e) :: u32) \<le> offset e'"
    using True by (simp add: word_le_nat_alt)
  ultimately show ?thesis using True assms(1) by (simp add: pull_back_def move_back_def unat_sub)
next
  case False
  then have "unat (offset e') + unat (chunk_length e') \<le> unat (offset e)"
    using assms(1,2) by (auto simp: apart_def)
  then have "\<not> offset e < offset e'" using assms(4) by (simp add: word_less_nat_alt)
  then show ?thesis using False by (simp add: pull_back_def move_back_def)
qed

text \<open>A container without the chunk of \<open>e\<close>; an empty container is removed.\<close>

definition without_chunk :: "ENTRY_VALUE \<Rightarrow> bytes \<Rightarrow> bytes option" where
  "without_chunk e f =
     (let f' = cut (unat (offset e)) (unat (chunk_length e)) f in if f' = [] then None else Some f')"

lemma chunk_at_pull_back:
  assumes f: "D (container_name (uint (container_number e))) = Some f"
    and c0: "chunk_at D e = Some c0" "c0 \<noteq> []" and c: "chunk_at D e' = Some c" "c \<noteq> []"
    and apart: "apart e e'"
  shows "chunk_at (D(container_name (uint (container_number e)) := without_chunk e f,
    rev_name (uint (container_number e)) := g)) (pull_back e e') = Some c"
proof (cases "container_number e' = container_number e")
  case False
  then have "uint (container_number e') \<noteq> uint (container_number e)"
    by (simp add: word_uint_eq_iff)
  with False c(1) show ?thesis by (simp add: chunk_at_def pull_back_def)
next
  case True
  let ?o = "unat (offset e)" and ?l = "unat (chunk_length e)"
  let ?o' = "unat (offset e')" and ?l' = "unat (chunk_length e')"
  have e: "?o + ?l \<le> length f" "0 < ?l"
    using c0 f chunk_length_pos [OF c0] by (auto simp: chunk_at_def split: if_splits)
  have e': "?o' + ?l' \<le> length f" "segment ?o' ?l' f = c" "0 < ?l'"
    using c f True chunk_length_pos [OF c] by (auto simp: chunk_at_def split: if_splits)
  have off: "unat (offset (pull_back e e')) = (if ?o + ?l \<le> ?o' then ?o' - ?l else ?o')"
    using pull_back_offset [OF True apart e(2) e'(3)] .
  have seg: "segment (unat (offset (pull_back e e'))) ?l' (cut ?o ?l f) = c"
  proof (cases "?o + ?l \<le> ?o'")
    case True
    then show ?thesis using e(1) e'(2) by (simp add: off segment_cut_after)
  next
    case False
    then have "?o' + ?l' \<le> ?o" using apart True by (auto simp: apart_def)
    with False show ?thesis using e(1) e'(2) by (simp add: off segment_cut_before)
  qed
  have "cut ?o ?l f \<noteq> []" using seg c(2) by (auto simp: segment_def)
  moreover have "unat (offset (pull_back e e')) + ?l' \<le> length (cut ?o ?l f)"
    using off e e' apart True by (auto simp: length_cut apart_def)
  ultimately show ?thesis using True seg by (simp add: chunk_at_def without_chunk_def Let_def)
qed

lemma apart_pull_back:
  assumes "apart e e1" and "apart e e2" and "apart e1 e2"
    and "0 < unat (chunk_length e)" and "0 < unat (chunk_length e1)" and "0 < unat (chunk_length e2)"
  shows "apart (pull_back e e1) (pull_back e e2)"
proof (cases "container_number e1 = container_number e \<and> container_number e2 = container_number e")
  case True
  then show ?thesis
    using pull_back_offset [of e1 e] pull_back_offset [of e2 e] assms
    by (auto simp: apart_def)
next
  case False
  then show ?thesis
    using assms(3)
    by (cases "container_number e1 = container_number e2")
      (simp add: pull_back_def, simp add: apart_def)
qed

text \<open>The list of fingerprints of a container without one of them.\<close>

definition without_fp :: "SHA1FP \<Rightarrow> SHA1FP list \<Rightarrow> bytes option" where
  "without_fp fp fps =
     (if length fps = 1 then None
      else Some (enc_u32 (of_nat (length fps) - 1) @ concat (map enc_fp (remove1 fp fps))))"

definition drop_entry :: "SHA1FP \<Rightarrow> ENTRY_VALUE \<Rightarrow> (SHA1FP \<rightharpoonup> ENTRY_VALUE) \<Rightarrow> SHA1FP \<rightharpoonup> ENTRY_VALUE" where
  "drop_entry fp e idx = (\<lambda>x. if x = fp then None else map_option (pull_back e) (idx x))"

lemma ids_distinct_drop_entry: "ids_distinct idx \<Longrightarrow> ids_distinct (drop_entry fp e idx)"
  unfolding ids_distinct_def drop_entry_def by (auto split: if_splits)

lemma store_ok_drop:
  assumes ok: "store_ok sha1 D idx" and fp: "idx fp = Some e"
    and k: "k = uint (container_number e)"
    and f: "D (container_name k) = Some f" and g: "D (rev_name k) = Some g" "rev_file g fps"
    and D': "D' = D(container_name k := without_chunk e f, rev_name k := without_fp fp fps)"
  shows "store_ok sha1 D' (drop_entry fp e idx) \<and>
    contents D' (drop_entry fp e idx) = (contents D idx)(fp := None)"
proof -
  obtain c0 where c0: "chunk_at D e = Some c0" "c0 \<noteq> []" using store_ok_chunk [OF ok fp] by blast
  have ap: "apart e e'" if "idx x = Some e'" "x \<noteq> fp" for x e'
    using ok fp that unfolding store_ok_def disjoint_chunks_def by metis
  have at: "chunk_at D' (pull_back e e') = Some c" "0 < unat (chunk_length e')"
    if "idx x = Some e'" "x \<noteq> fp" "chunk_at D e' = Some c" "c \<noteq> []" for x e' c
  proof -
    show "chunk_at D' (pull_back e e') = Some c"
      using chunk_at_pull_back [OF f [unfolded k] c0 that(3,4) ap [OF that(1,2)]] by (simp add: D' k)
    show "0 < unat (chunk_length e')" using that(3,4) by (rule chunk_length_pos)
  qed
  have res: "resolves sha1 D' (drop_entry fp e idx)"
    unfolding resolves_def
  proof (intro allI impI)
    fix x e2 assume "drop_entry fp e idx x = Some e2"
    then obtain e' where x: "x \<noteq> fp" "idx x = Some e'" "e2 = pull_back e e'"
      by (auto simp: drop_entry_def split: if_splits)
    obtain c where "chunk_at D e' = Some c" "c \<noteq> []" "fp_of sha1 c = x"
      using store_ok_chunk [OF ok x(2)] by blast
    with at [OF x(2,1)] x(3) show "\<exists>c. chunk_at D' e2 = Some c \<and> c \<noteq> [] \<and> fp_of sha1 c = x"
      by blast
  qed
  have fps: "distinct fps" "set fps = in_container idx k"
    using store_ok_rev_list [OF ok g] by auto
  have inc: "in_container (drop_entry fp e idx) j = in_container idx j - {fp}" for j
    by (auto simp: in_container_def drop_entry_def)
  have mem: "fp \<in> set fps" using fp k fps(2) by (auto simp: in_container_def)
  have "length fps < 2 ^ 32" using g(2) by (simp add: rev_file_def)
  obtain n where "length fps = Suc n" using mem by (cases fps) auto
  then have len: "(of_nat (length fps) - 1 :: u32) = of_nat (length (remove1 fp fps))"
    using mem by (simp add: length_remove1)
  have "rev_ok D' (drop_entry fp e idx)"
    unfolding rev_ok_def
  proof (intro conjI allI impI)
    fix j h assume h: "D' (rev_name j) = Some h"
    show "\<exists>fps. rev_file h fps \<and> distinct fps \<and> set fps = in_container (drop_entry fp e idx) j"
    proof (cases "j = k")
      case True
      then have "h = enc_u32 (of_nat (length fps) - 1) @ concat (map enc_fp (remove1 fp fps))"
        using h by (auto simp: D' without_fp_def split: if_splits)
      then have "rev_file h (remove1 fp fps)"
        using \<open>length fps < 2 ^ 32\<close> length_remove1 [of fp fps]
      by (simp add: rev_file_def len less_imp_diff_less)
      then show ?thesis
        using True fps mem by (intro exI [of _ "remove1 fp fps"]) (simp add: inc distinct_remove1)
    next
      case False
      with h have "D (rev_name j) = Some h" by (simp add: D')
      moreover have "fp \<notin> in_container idx j" using False fp k by (auto simp: in_container_def)
      ultimately show ?thesis using ok by (auto simp: inc store_ok_def rev_ok_def)
    qed
  next
    fix x e2 assume "drop_entry fp e idx x = Some e2"
    then obtain e' where x: "x \<noteq> fp" "idx x = Some e'" "e2 = pull_back e e'"
      by (auto simp: drop_entry_def split: if_splits)
    show "D' (rev_name (uint (container_number e2))) \<noteq> None"
    proof (cases "uint (container_number e') = k")
      case True
      then have "x \<in> set fps" using x(2) fps(2) by (auto simp: in_container_def)
      then have "length fps \<noteq> 1" using mem x(1) by (auto simp: length_Suc_conv)
      with True x(3) show ?thesis by (simp add: D' without_fp_def)
    next
      case False
      then show ?thesis using ok x by (auto simp: D' store_ok_def rev_ok_def)
    qed
  qed
  moreover have "disjoint_chunks (drop_entry fp e idx)"
    unfolding disjoint_chunks_def
  proof (intro allI impI)
    fix x1 e1 x2 e2
    assume "drop_entry fp e idx x1 = Some e1" "drop_entry fp e idx x2 = Some e2" and ne: "x1 \<noteq> x2"
    then obtain d1 d2 where d: "x1 \<noteq> fp" "idx x1 = Some d1" "e1 = pull_back e d1"
      "x2 \<noteq> fp" "idx x2 = Some d2" "e2 = pull_back e d2"
      by (auto simp: drop_entry_def split: if_splits)
    obtain c1 c2 where "chunk_at D d1 = Some c1" "c1 \<noteq> []" "chunk_at D d2 = Some c2" "c2 \<noteq> []"
      using store_ok_chunk [OF ok d(2)] store_ok_chunk [OF ok d(5)] by metis
    then have "0 < unat (chunk_length d1)" "0 < unat (chunk_length d2)" "0 < unat (chunk_length e)"
      using at(2) d chunk_length_pos [OF c0] by blast+
    moreover have "apart d1 d2"
      using ok d(2,5) ne unfolding store_ok_def disjoint_chunks_def by blast
    ultimately show "apart e1 e2"
      using ap d by (simp add: apart_pull_back)
  qed
  ultimately have "store_ok sha1 D' (drop_entry fp e idx)" using res by (simp add: store_ok_def)
  moreover have "contents D' (drop_entry fp e idx) = (contents D idx)(fp := None)"
  proof
    fix x
    show "contents D' (drop_entry fp e idx) x = ((contents D idx)(fp := None)) x"
    proof (cases "x = fp \<or> idx x = None")
      case True
      then show ?thesis by (auto simp: contents_def drop_entry_def)
    next
      case False
      then obtain e' where x: "x \<noteq> fp" "idx x = Some e'" by auto
      obtain c where "chunk_at D e' = Some c" "c \<noteq> []" using store_ok_chunk [OF ok x(2)] by blast
      with at [OF x(2,1)] x show ?thesis by (simp add: contents_def drop_entry_def)
    qed
  qed
  ultimately show ?thesis by simp
qed

section \<open>The operations on files\<close>

lemma map_of_remove_file: "map_of (remove_file fname d) = (map_of d)(fname := None)"
  by (simp add: remove_file_def map_of_delete)

lemma tmp_name [simp]: "s @ ''tmp'' \<noteq> s" "s \<noteq> s @ ''tmp''"
  by simp_all

lemma del_seg_spec:
  assumes f: "map_of (ddir st) s = Some f" and tmp: "map_of (ddir st) (s @ ''tmp'') = None"
    and len: "oft + len \<le> length f" "oft \<le> CONTAINER_SIZE" "len \<le> CONTAINER_SIZE"
      "length f \<le> oft + len + CONTAINER_SIZE"
  shows "\<exists>d b. del_seg s (int oft) len st = Inr (st\<lparr>ddir := d, tmp_buf := b\<rparr>) \<and>
    map_of d = (map_of (ddir st))(s := (if cut oft len f = [] then None else Some (cut oft len f)))"
proof -
  let ?rest = "drop (oft + len) f"
  have rest: "take CONTAINER_SIZE ?rest = ?rest" using len(4) by simp
  have head: "array_prefix oft (overlay (tmp_buf st) 0 (take oft f)) = take oft f"
    using len(1) by (simp add: array_prefix_def overlay_0)
  have empty: "cut oft len f = [] \<longleftrightarrow> oft = 0 \<and> ?rest = []"
    using len(1) by (auto simp: cut_def)
  define d1 where "d1 = remove_file s (AList.update (s @ ''tmp'') (cut oft len f) (ddir st))"
  define d where "d = (if oft = 0 \<and> ?rest = [] then remove_file (s @ ''tmp'') d1
    else rename_file (s @ ''tmp'') s d1)"
  have out: "overlay [] 0 (take oft f @ ?rest) = cut oft len f" by (simp add: cut_def buf_simps)
  have "del_seg s (int oft) len st = Inr (st\<lparr>ddir := d, tmp_buf :=
      overlay (overlay (overlay (tmp_buf st) 0 (take oft f)) 0 (segment oft len f)) 0 ?rest\<rparr>)"
    using f tmp len(2,3) 
    by (simp add: del_seg_def rest head out Let_def d_def d1_def)
      (simp add: array_prefix_def buf_simps cut_def)
  moreover have "map_of d = (map_of (ddir st))(s := (if cut oft len f = [] then None else Some (cut oft len f)))"
    using tmp unfolding empty
    by (auto simp: d_def d1_def rename_file_def map_of_remove_file map_of_update fun_eq_iff)
  ultimately show ?thesis by blast
qed

text \<open>Moving the entries of a list of fingerprints back, one after the other.\<close>

lemma rev_scan_spec:
  assumes "mm_ok m" and "distinct fps" and "\<forall>x \<in> set fps - {del}. index m x \<noteq> None"
    and "fp_table_added m = []" and "a + length fps < 2 ^ 32"
  shows "\<exists>m'. rev_scan del oft len (length fps) a d_pos (concat (map enc_fp fps)) m =
      Inr (if del \<in> set fps then int a + int (length (takeWhile (\<lambda>x. x \<noteq> del) fps)) else d_pos, m') \<and>
    mm_ok m' \<and> fp_table_added m' = [] \<and>
    index m' = (\<lambda>x. if x \<in> set fps - {del} then map_option (move_back oft len) (index m x) else index m x)"
  using assms
proof (induction fps arbitrary: m a d_pos)
  case Nil
  then show ?case by simp
next
  case (Cons x fps)
  have dec: "dec_fp (take SHA1_LENGTH (enc_fp x @ rest)) = x"
    "drop SHA1_LENGTH (enc_fp x @ rest) = rest" for rest
    by (simp_all add: SHA1_LENGTH_def fp_codec.width fp_codec.dec_enc)
  have long: "\<not> length (enc_fp x @ rest) < SHA1_LENGTH" for rest
    by (simp add: SHA1_LENGTH_def fp_codec.width)
  show ?case
  proof (cases "x = del")
    case True
    then have "del \<notin> set fps" using Cons.prems(2) by simp
    with Cons.IH [OF Cons.prems(1) _ _ Cons.prems(4), of "Suc a" "int a"] Cons.prems(2,3,5) True dec long
    show ?thesis
      by (auto simp: tuple_equal_eq fun_eq_iff simp del: length_append)
  next
    case False
    then obtain v where v: "index m x = Some v" using Cons.prems(3) by auto
    from chunkOffsetDec_spec [OF Cons.prems(1) v] Cons.prems(4) obtain m1 where
      m1: "chunkOffsetDec m x oft len = Inr m1" "mm_ok m1" "fp_table_added m1 = []"
        "index m1 = (index m)(x \<mapsto> move_back oft len v)" by blast
    have "\<forall>y \<in> set fps - {del}. index m1 y \<noteq> None" using Cons.prems(3) m1(4) by auto
    from Cons.IH [OF m1(2) _ this m1(3), of "Suc a" d_pos] Cons.prems(2,5) obtain m' where
      m': "rev_scan del oft len (length fps) (Suc a) d_pos (concat (map enc_fp fps)) m1 =
          Inr (if del \<in> set fps then int (Suc a) + int (length (takeWhile (\<lambda>x. x \<noteq> del) fps)) else d_pos, m')"
        "mm_ok m'" "fp_table_added m' = []"
        "index m' = (\<lambda>x. if x \<in> set fps - {del} then map_option (move_back oft len) (index m1 x)
          else index m1 x)" by auto
    have "index m' = (\<lambda>y. if y \<in> set (x # fps) - {del} then map_option (move_back oft len) (index m y)
        else index m y)"
      using Cons.prems(2) m'(4) m1(4) v False by (auto simp: fun_eq_iff)
    with m'(1,2,3) m1(1) False dec long show ?thesis
      by (simp add: tuple_equal_eq del: length_append)
  qed
qed

lemma cut_fingerprint:
  assumes "fp \<in> set fps"
  shows "cut (4 + length (takeWhile (\<lambda>x. x \<noteq> fp) fps) * 20) 20 (enc_u32 n @ concat (map enc_fp fps)) =
    enc_u32 n @ concat (map enc_fp (remove1 fp fps))"
proof -
  obtain xs ys where fps: "fps = xs @ fp # ys" "fp \<notin> set xs"
    using split_list_first [OF assms] by blast
  then have "takeWhile (\<lambda>x. x \<noteq> fp) fps = xs" by (auto simp: takeWhile_append)
  moreover have "remove1 fp fps = xs @ ys" using fps by (simp add: remove1_append)
  ultimately show ?thesis
    by (simp add: fps cut_def u32_codec.width fp_codec.width fp_codec.length_table)
qed

text \<open>What the buffers of the program can hold, and no left-over temporary file.\<close>

definition sizes_ok :: "(string \<rightharpoonup> bytes) \<Rightarrow> bool" where
  "sizes_ok D \<longleftrightarrow>
     (\<forall>k f. D (container_name k) = Some f \<longrightarrow> length f \<le> CONTAINER_SIZE) \<and>
     (\<forall>k f. D (rev_name k) = Some f \<longrightarrow> length f \<le> CONTAINER_SIZE + 4) \<and>
     (\<forall>k. D (container_name k @ ''tmp'') = None \<and> D (rev_name k @ ''tmp'') = None)"

lemma tmp_names [simp]:
  "container_name i \<noteq> container_name j @ ''tmp''" "container_name i \<noteq> rev_name j @ ''tmp''"
  "rev_name i \<noteq> container_name j @ ''tmp''" "rev_name i \<noteq> rev_name j @ ''tmp''"
proof -
  have t: "CHR ''t'' \<notin> set (to_string i)" by (rule letter_not_to_string) simp
  show "container_name i \<noteq> container_name j @ ''tmp''" "container_name i \<noteq> rev_name j @ ''tmp''"
  proof -
    have "to_string i \<noteq> to_string j @ ''tmp''" "to_string i \<noteq> to_string j @ ''rtmp''"
      using t by auto
    then show "container_name i \<noteq> container_name j @ ''tmp''" "container_name i \<noteq> rev_name j @ ''tmp''"
      by (simp_all add: container_name_def rev_name_def)
  qed
  have "last (rev_name i) = CHR ''r''" by (simp add: rev_name_def)
  then show "rev_name i \<noteq> container_name j @ ''tmp''" "rev_name i \<noteq> rev_name j @ ''tmp''"
    by auto
qed

lemmas tmp_names_sym [simp] = tmp_names [symmetric]

lemma sizes_ok_smaller:
  assumes "sizes_ok D"
    and "\<And>k f. D' (container_name k) = Some f \<Longrightarrow> length f \<le> CONTAINER_SIZE"
    and "\<And>k f. D' (rev_name k) = Some f \<Longrightarrow> length f \<le> CONTAINER_SIZE + 4"
    and "\<And>k. D' (container_name k @ ''tmp'') = D (container_name k @ ''tmp'')"
    and "\<And>k. D' (rev_name k @ ''tmp'') = D (rev_name k @ ''tmp'')"
  shows "sizes_ok D'"
  using assms by (simp add: sizes_ok_def)

lemma scanned_drop_entry:
  assumes "idx fp = Some e" and "set fps = in_container idx (uint (container_number e))"
  shows "(\<lambda>x. if x \<in> set fps - {fp}
      then map_option (move_back (offset e) (ucast (chunk_length e))) ((idx(fp := None)) x)
      else (idx(fp := None)) x) = drop_entry fp e idx"
proof
  fix x
  show "(if x \<in> set fps - {fp}
      then map_option (move_back (offset e) (ucast (chunk_length e))) ((idx(fp := None)) x)
      else (idx(fp := None)) x) = drop_entry fp e idx x"
  proof (cases "x = fp \<or> idx x = None")
    case True
    then show ?thesis by (auto simp: drop_entry_def)
  next
    case False
    then obtain e' where "x \<noteq> fp" "idx x = Some e'" by auto
    then show ?thesis
      using assms(2) by (simp add: drop_entry_def in_container_def pull_back_def word_uint_eq_iff)
  qed
qed

lemma container_del_chunk_spec:
  assumes ok: "store_ok sha1 (map_of (ddir st)) idx" and sizes: "sizes_ok (map_of (ddir st))"
    and fp: "idx fp = Some e" and num: "uint (container_number e) < 2 ^ 31"
    and m: "mm_ok (dmanager st)" "fp_table_added (dmanager st) = []"
      "index (dmanager st) = idx(fp := None)"
  shows "\<exists>st' f fps. container_del_chunk (sint (container_number e)) fp (offset e) (chunk_length e) st = Inr st' \<and>
    mm_ok (dmanager st') \<and> fp_table_added (dmanager st') = [] \<and>
    index (dmanager st') = drop_entry fp e idx \<and>
    map_of (ddir st) (container_name (uint (container_number e))) = Some f \<and>
    map_of (ddir st) (rev_name (uint (container_number e))) = Some (enc_u32 (of_nat (length fps)) @ concat (map enc_fp fps)) \<and>
    rev_file (enc_u32 (of_nat (length fps)) @ concat (map enc_fp fps)) fps \<and> fp \<in> set fps \<and>
    map_of (ddir st') = (map_of (ddir st))(container_name (uint (container_number e)) := without_chunk e f,
      rev_name (uint (container_number e)) := without_fp fp fps)"
proof -
  let ?k = "uint (container_number e)"
  obtain c where c: "chunk_at (map_of (ddir st)) e = Some c" "c \<noteq> []"
    using store_ok_chunk [OF ok fp] by blast
  obtain f where f: "map_of (ddir st) (container_name ?k) = Some f"
    and fit: "unat (offset e) + unat (chunk_length e) \<le> length f"
    using c(1) by (auto simp: chunk_at_def split: option.splits if_splits)
  have "map_of (ddir st) (rev_name ?k) \<noteq> None"
    using ok fp unfolding store_ok_def rev_ok_def by blast
  then obtain g where g: "map_of (ddir st) (rev_name ?k) = Some g" by auto
  then obtain fps where rev: "rev_file g fps" and fps: "distinct fps" "set fps = in_container idx ?k"
    using ok unfolding store_ok_def rev_ok_def by blast
  have gl: "g = enc_u32 (of_nat (length fps)) @ concat (map enc_fp fps)" "length fps < 2 ^ 32"
    using rev by (auto simp: rev_file_def)
  have mem: "fp \<in> set fps" using fp fps(2) by (auto simp: in_container_def)
  have "length f \<le> CONTAINER_SIZE" "length g \<le> CONTAINER_SIZE + 4"
    using sizes f g by (auto simp: sizes_ok_def)
  then have small: "length f \<le> CONTAINER_SIZE" "length fps * 20 \<le> CONTAINER_SIZE"
    by (simp_all add: gl(1) u32_codec.width fp_codec.length_table)
  have "unat (offset e) < 2 ^ 31" using fit small(1) by (simp add: CONTAINER_SIZE_def)
  then have off: "sint (offset e) = int (unat (offset e))" using sint_small by simp
  have sn: "sint (container_number e) = ?k" using num by (rule sint_uint_small)
  have tmp: "map_of (ddir st) (container_name ?k @ ''tmp'') = None" "map_of (ddir st) (rev_name ?k @ ''tmp'') = None"
    using sizes by (auto simp: sizes_ok_def)
  obtain d1 b1 where s1: "del_seg (container_name ?k) (int (unat (offset e))) (unat (chunk_length e)) st =
      Inr (st\<lparr>ddir := d1, tmp_buf := b1\<rparr>)"
    "map_of d1 = (map_of (ddir st))(container_name ?k := without_chunk e f)"
    using del_seg_spec [OF f tmp(1) fit] fit small(1) by (auto simp: without_chunk_def Let_def)
  let ?st1 = "st\<lparr>ddir := d1, tmp_buf := b1\<rparr>"
  have g1: "map_of d1 (rev_name ?k) = Some g" "map_of d1 (rev_name ?k @ ''tmp'') = None"
    using g tmp(2) s1(2) by auto
  have cnt: "\<not> length g < 4" "dec_u32 (take 4 g) = of_nat (length fps)" "drop 4 g = concat (map enc_fp fps)"
    "unat (of_nat (length fps) :: u32) = length fps"
    using gl(2) by (simp_all add: gl(1) u32_codec.width u32_codec.dec_enc unat_of_nat)
  have head: "container_del_chunk (sint (container_number e)) fp (offset e) (chunk_length e) st =
    (if length fps = 1 then Inr (?st1\<lparr>dcnt := of_nat (length fps), ddir := remove_file (rev_name ?k) d1\<rparr>)
     else and_then (rev_scan fp (offset e) (ucast (chunk_length e)) (length fps) 0 (-1)
         (concat (map enc_fp fps)) (dmanager st))
       (\<lambda>(d_pos, m'). del_seg (rev_name ?k) (4 + d_pos * 20) 20
          (?st1\<lparr>dmanager := m', dcnt := of_nat (length fps) - 1,
             ddir := put_file (rev_name ?k) (enc_u32 (of_nat (length fps) - 1)) d1\<rparr>)))"
  proof -
    have "(of_nat (length fps) = (1 :: u32)) \<longleftrightarrow> length fps = 1"
      using cnt(4) by (metis unat_1 of_nat_1)
    moreover have "del_seg (container_name ?k) (sint (offset e)) (unat (chunk_length e)) st = Inr ?st1"
      unfolding off by (rule s1(1))
    ultimately show ?thesis
      unfolding container_del_chunk_def sn by (simp add: g1 cnt Let_def)
  qed
  show ?thesis
  proof (cases "length fps = 1")
    case True
    with mem have one: "set fps = {fp}" by (auto simp: length_Suc_conv)
    let ?st' = "?st1\<lparr>dcnt := of_nat (length fps), ddir := remove_file (rev_name ?k) d1\<rparr>"
    have "container_del_chunk (sint (container_number e)) fp (offset e) (chunk_length e) st = Inr ?st'"
      unfolding head by (simp add: True)
    moreover have "index (dmanager ?st') = drop_entry fp e idx"
      using scanned_drop_entry [OF fp fps(2)] m(3) one by (simp add: fun_upd_def)
    moreover have "map_of (ddir ?st') = (map_of (ddir st))(container_name ?k := without_chunk e f,
        rev_name ?k := without_fp fp fps)"
      using True by (simp add: map_of_remove_file s1(2) without_fp_def fun_eq_iff)
    ultimately show ?thesis
      using m(1,2) f g rev mem by (intro exI [of _ ?st'] exI [of _ f] exI [of _ fps]) (simp add: gl(1))
  next
    case False
    have "\<forall>x \<in> set fps - {fp}. index (dmanager st) x \<noteq> None"
      using fps(2) m(3) by (auto simp: in_container_def)
    from rev_scan_spec [OF m(1) fps(1) this m(2), of 0 "offset e" "ucast (chunk_length e)" "-1"] mem gl(2)
    obtain m' where m': "rev_scan fp (offset e) (ucast (chunk_length e)) (length fps) 0 (-1)
         (concat (map enc_fp fps)) (dmanager st) = Inr (int (length (takeWhile (\<lambda>x. x \<noteq> fp) fps)), m')"
      "mm_ok m'" "fp_table_added m' = []" "index m' = drop_entry fp e idx"
      unfolding scanned_drop_entry [OF fp fps(2), folded m(3)] by auto
    let ?pos = "length (takeWhile (\<lambda>x. x \<noteq> fp) fps)"
    let ?d2 = "put_file (rev_name ?k) (enc_u32 (of_nat (length fps) - 1)) d1"
    let ?g2 = "enc_u32 (of_nat (length fps) - 1) @ concat (map enc_fp fps)"
    let ?st2 = "?st1\<lparr>dmanager := m', dcnt := of_nat (length fps) - 1, ddir := ?d2\<rparr>"
    have d2: "map_of ?d2 = (map_of d1)(rev_name ?k \<mapsto> ?g2)"
      by (simp add: map_of_put_file g1 gl(1) overlay_0 u32_codec.width)
    have pos: "?pos < length fps" 
    proof -
      obtain xs ys where "fps = xs @ fp # ys" "fp \<notin> set xs" using split_list_first [OF mem] by blast
      then show ?thesis by (auto simp: takeWhile_append)
    qed
    have cutg: "cut (4 + ?pos * 20) 20 ?g2 = enc_u32 (of_nat (length fps) - 1) @ concat (map enc_fp (remove1 fp fps))"
      using cut_fingerprint [OF mem] .
    have "\<exists>d b. del_seg (rev_name ?k) (int (4 + ?pos * 20)) 20 ?st2 = Inr (?st2\<lparr>ddir := d, tmp_buf := b\<rparr>) \<and>
      map_of d = (map_of (ddir ?st2))(rev_name ?k := (if cut (4 + ?pos * 20) 20 ?g2 = [] then None
        else Some (cut (4 + ?pos * 20) 20 ?g2)))"
      using d2 g1(2) pos small(2)
      by (intro del_seg_spec) (simp_all add: u32_codec.width fp_codec.length_table CONTAINER_SIZE_def)
    moreover have "enc_u32 n \<noteq> []" for n using u32_codec.width [of n] by (metis list.size(3) zero_neq_numeral)
    ultimately obtain d3 b3 where s3: "del_seg (rev_name ?k) (4 + int ?pos * 20) 20 ?st2 =
        Inr (?st2\<lparr>ddir := d3, tmp_buf := b3\<rparr>)"
      "map_of d3 = (map_of ?d2)(rev_name ?k := without_fp fp fps)"
      using False unfolding cutg by (auto simp: without_fp_def)
    let ?st' = "?st2\<lparr>ddir := d3, tmp_buf := b3\<rparr>"
    have "container_del_chunk (sint (container_number e)) fp (offset e) (chunk_length e) st = Inr ?st'"
      unfolding head m'(1) using False s3(1) by simp
    moreover have "map_of (ddir ?st') = (map_of (ddir st))(container_name ?k := without_chunk e f,
        rev_name ?k := without_fp fp fps)"
      using s3(2) d2 s1(2) by (auto simp: fun_eq_iff)
    ultimately show ?thesis
      using m' f g rev mem by (intro exI [of _ ?st'] exI [of _ f] exI [of _ fps]) (simp add: gl(1))
  qed
qed

section \<open>Dropping references\<close>

definition refs :: "contents \<Rightarrow> SHA1FP \<Rightarrow> nat" where
  "refs st fp = (case st fp of None \<Rightarrow> 0 | Some (c, n) \<Rightarrow> n)"

definition deleter_ok :: "(bytes \<Rightarrow> bytes) \<Rightarrow> deleter \<Rightarrow> bool" where
  "deleter_ok sha1 st \<longleftrightarrow>
     mm_ok (dmanager st) \<and> fp_table_added (dmanager st) = [] \<and>
     store_ok sha1 (map_of (ddir st)) (index (dmanager st)) \<and> sizes_ok (map_of (ddir st)) \<and>
     ids_distinct (index (dmanager st)) \<and>
     (\<forall>fp e. index (dmanager st) fp = Some e \<longrightarrow> uint (container_number e) < 2 ^ 31 \<and> 0 < ref_cnt e)"

definition deleter_contents :: "deleter \<Rightarrow> contents" where
  "deleter_contents st = contents (map_of (ddir st)) (index (dmanager st))"

lemma deleter_okD:
  assumes "deleter_ok sha1 st"
  shows "mm_ok (dmanager st)" and "fp_table_added (dmanager st) = []"
    and "store_ok sha1 (map_of (ddir st)) (index (dmanager st))" and "sizes_ok (map_of (ddir st))"
    and "index (dmanager st) fp = Some e \<Longrightarrow> uint (container_number e) < 2 ^ 31 \<and> 0 < ref_cnt e"
    and "ids_distinct (index (dmanager st))"
  using assms unfolding deleter_ok_def by blast+

lemma sizes_ok_drop:
  assumes sizes: "sizes_ok D" and f: "D (container_name k) = Some f"
    and g: "D (rev_name k) = Some (enc_u32 n @ concat (map enc_fp fps))" and mem: "fp \<in> set fps"
  shows "sizes_ok (D(container_name k := without_chunk e f, rev_name k := without_fp fp fps))"
proof -
  have "length f \<le> CONTAINER_SIZE" "length (enc_u32 n @ concat (map enc_fp fps)) \<le> CONTAINER_SIZE + 4"
    using sizes f g unfolding sizes_ok_def by blast+
  then have small: "length f \<le> CONTAINER_SIZE" "length fps * 20 \<le> CONTAINER_SIZE"
    by (simp_all add: u32_codec.width fp_codec.length_table)
  have "length (remove1 fp fps) \<le> length fps" by (simp add: length_remove1)
  then have "length (remove1 fp fps) * 20 \<le> CONTAINER_SIZE" using small(2) by linarith
  moreover have "length (cut a b f) \<le> CONTAINER_SIZE" for a b
    using small(1) by (simp add: cut_def)
  ultimately show ?thesis
    using sizes
    by (intro sizes_ok_smaller [OF sizes])
      (auto simp: without_chunk_def without_fp_def sizes_ok_def u32_codec.width fp_codec.length_table Let_def
        split: if_splits)
qed

lemma deleter_index_origin:
  "deleter_ok sha1 st \<Longrightarrow> index (dmanager st) = map_of (fp_table_origin (dmanager st))"
  using deleter_okD(2) by (auto simp: index_def fun_eq_iff split: option.split)

text \<open>A reference less, and the last reference, which takes the chunk out of its container.\<close>

lemma delete_chunk_counts:
  assumes ok: "deleter_ok sha1 st" and e: "index (dmanager st) (dec_fp x) = Some e" "1 < ref_cnt e"
  shows "\<exists>m. delete_chunk st x = Inr (st\<lparr>dmanager := m\<rparr>) \<and> mm_ok m \<and> fp_table_added m = [] \<and>
    index m = (index (dmanager st))(dec_fp x \<mapsto> e\<lparr>ref_cnt := ref_cnt e - 1\<rparr>)"
proof -
  have origin: "map_of (fp_table_origin (dmanager st)) (dec_fp x) = Some e"
    using e deleter_index_origin [OF ok] by simp
  have "dedupLookup (dmanager st) (dec_fp x) = Dedup" "getEntry (dmanager st) (dec_fp x) = (e, dmanager st)"
    using e getEntry_spec [OF origin] by (simp_all add: dedupLookup_index)
  moreover have "ref_cnt e - 1 \<noteq> 0" using e(2) by auto
  ultimately show ?thesis
    using decRefCnt_spec [OF deleter_okD(1) [OF ok] origin] deleter_okD(2) [OF ok] e(2)
    by (auto simp: delete_chunk_def Let_def)
qed

lemma delete_chunk_cuts:
  assumes ok: "deleter_ok sha1 st" and e: "index (dmanager st) (dec_fp x) = Some e" "\<not> 1 < ref_cnt e"
    and k: "k = uint (container_number e)"
  shows "\<exists>st' f fps. delete_chunk st x = Inr st' \<and> mm_ok (dmanager st') \<and> fp_table_added (dmanager st') = [] \<and>
    index (dmanager st') = drop_entry (dec_fp x) e (index (dmanager st)) \<and>
    map_of (ddir st) (container_name k) = Some f \<and>
    map_of (ddir st) (rev_name k) = Some (enc_u32 (of_nat (length fps)) @ concat (map enc_fp fps)) \<and>
    rev_file (enc_u32 (of_nat (length fps)) @ concat (map enc_fp fps)) fps \<and> dec_fp x \<in> set fps \<and>
    map_of (ddir st') = (map_of (ddir st))(container_name k := without_chunk e f,
      rev_name k := without_fp (dec_fp x) fps)"
proof -
  have origin: "map_of (fp_table_origin (dmanager st)) (dec_fp x) = Some e"
    using e deleter_index_origin [OF ok] by simp
  have look: "dedupLookup (dmanager st) (dec_fp x) = Dedup" "getEntry (dmanager st) (dec_fp x) = (e, dmanager st)"
    using e getEntry_spec [OF origin] by (simp_all add: dedupLookup_index)
  obtain m where m: "decRefCnt (dmanager st) (dec_fp x) = Inr (0, m)" "mm_ok m" "fp_table_added m = []"
    "index m = (index (dmanager st))(dec_fp x := None)"
    using decRefCnt_spec [OF deleter_okD(1) [OF ok] origin] deleter_okD(2) [OF ok] e(2) by auto
  have "delete_chunk st x = container_del_chunk (sint (container_number e)) (dec_fp x) (offset e) (chunk_length e)
      (st\<lparr>dmanager := m\<rparr>)"
    using look m(1) by (simp add: delete_chunk_def Let_def)
  then show ?thesis
    using container_del_chunk_spec [of sha1 "st\<lparr>dmanager := m\<rparr>" "index (dmanager st)" "dec_fp x" e]
      deleter_okD(3,4) [OF ok] deleter_okD(5) [OF ok e(1)] e(1) m(2,3,4) k
    by auto
qed

lemma delete_chunk_spec:
  assumes ok: "deleter_ok sha1 st" and some: "deleter_contents st (dec_fp x) = Some (c, n)"
  shows "\<exists>st'. delete_chunk st x = Inr st' \<and> deleter_ok sha1 st' \<and>
    deleter_contents st' = drop_chunk (dec_fp x) (deleter_contents st)"
proof -
  let ?fp = "dec_fp x" and ?m = "dmanager st"
  obtain e where e: "index ?m ?fp = Some e" and at: "chunk_at (map_of (ddir st)) e = Some c"
    and n: "n = unat (ref_cnt e)"
    using some by (auto simp: deleter_contents_def contents_def split: option.splits)
  have gt: "1 < ref_cnt e \<longleftrightarrow> 1 < n" by (simp add: n word_less_nat_alt)
  show ?thesis
  proof (cases "1 < ref_cnt e")
    case True
    from delete_chunk_counts [OF ok e True] obtain m1 where m1: "delete_chunk st x = Inr (st\<lparr>dmanager := m1\<rparr>)"
      "mm_ok m1" "fp_table_added m1 = []" "index m1 = (index ?m)(?fp \<mapsto> e\<lparr>ref_cnt := ref_cnt e - 1\<rparr>)"
      by blast
    let ?st' = "st\<lparr>dmanager := m1\<rparr>"
    have dec: "unat (ref_cnt e - 1) = n - 1" "0 < ref_cnt e - 1"
    proof -
      have "1 \<le> ref_cnt e" using True by simp
      then show u: "unat (ref_cnt e - 1) = n - 1" by (simp add: n unat_sub)
      then have "ref_cnt e - 1 \<noteq> 0" using True gt by (metis unat_0 zero_less_diff less_numeral_extra(3))
      then show "0 < ref_cnt e - 1" by (simp add: word_gt_0)
    qed
    have "deleter_ok sha1 ?st'"
      using deleter_okD(3,4,5) [OF ok] m1(2,3,4) e dec(2) store_ok_ref_cnt [OF deleter_okD(3) [OF ok] e]
        ids_distinct_same_place [OF deleter_okD(6) [OF ok] e]
      by (auto simp: deleter_ok_def)
    moreover have "deleter_contents ?st' = drop_chunk ?fp (deleter_contents st)"
      using True gt some m1(4) at dec(1)
      by (auto simp: deleter_contents_def drop_chunk_def contents_def fun_eq_iff)
    ultimately show ?thesis using m1(1) by blast
  next
    case False
    from delete_chunk_cuts [OF ok e False refl] obtain st' f fps where del: "delete_chunk st x = Inr st'"
      "mm_ok (dmanager st')" "fp_table_added (dmanager st') = []"
      "index (dmanager st') = drop_entry ?fp e (index ?m)"
      and f: "map_of (ddir st) (container_name (uint (container_number e))) = Some f"
      and g: "map_of (ddir st) (rev_name (uint (container_number e))) = Some (enc_u32 (of_nat (length fps)) @ concat (map enc_fp fps))"
      "rev_file (enc_u32 (of_nat (length fps)) @ concat (map enc_fp fps)) fps" "?fp \<in> set fps"
      and d: "map_of (ddir st') = (map_of (ddir st))(container_name (uint (container_number e)) := without_chunk e f,
        rev_name (uint (container_number e)) := without_fp ?fp fps)"
      by blast
    note drop = store_ok_drop [OF deleter_okD(3) [OF ok] e refl f g(1,2) d]
    have "deleter_ok sha1 st'"
      unfolding deleter_ok_def
    proof (intro conjI allI impI)
      show "store_ok sha1 (map_of (ddir st')) (index (dmanager st'))" using drop del(4) by simp
      show "sizes_ok (map_of (ddir st'))"
        unfolding d by (rule sizes_ok_drop [OF deleter_okD(4) [OF ok] f g(1,3)])
      show "ids_distinct (index (dmanager st'))"
        unfolding del(4) by (rule ids_distinct_drop_entry [OF deleter_okD(6) [OF ok]])
      fix fp2 e2 assume "index (dmanager st') fp2 = Some e2"
      then obtain e1 where "index ?m fp2 = Some e1" "e2 = pull_back e e1"
        unfolding del(4) by (auto simp: drop_entry_def split: if_splits)
      then show "uint (container_number e2) < 2 ^ 31" "0 < ref_cnt e2"
        using deleter_okD(5) [OF ok] by auto
    qed (use del in auto)
    moreover have "deleter_contents st' = drop_chunk ?fp (deleter_contents st)"
      using False gt some drop del(4) by (simp add: deleter_contents_def drop_chunk_def)
    ultimately show ?thesis using del(1) by blast
  qed
qed

lemma refs_drop: "refs (drop_chunk fp st) x = (if x = fp then refs st x - 1 else refs st x)"
  by (auto simp: refs_def drop_chunk_def split: option.splits prod.splits)

lemma delete_chunks:
  assumes "deleter_ok sha1 st" and "\<forall>fp. count_list (map dec_fp xs) fp \<le> refs (deleter_contents st) fp"
  shows "\<exists>st'. foldE delete_chunk st xs = Inr st' \<and> deleter_ok sha1 st' \<and>
    deleter_contents st' = fold drop_chunk (map dec_fp xs) (deleter_contents st)"
  using assms
proof (induction xs arbitrary: st)
  case Nil
  then show ?case by simp
next
  case (Cons x xs)
  have "0 < refs (deleter_contents st) (dec_fp x)" using Cons.prems(2) by (auto dest: spec [of _ "dec_fp x"])
  then obtain c n where "deleter_contents st (dec_fp x) = Some (c, n)"
    by (auto simp: refs_def split: option.splits)
  from delete_chunk_spec [OF Cons.prems(1) this] obtain st1 where
    st1: "delete_chunk st x = Inr st1" "deleter_ok sha1 st1"
      "deleter_contents st1 = drop_chunk (dec_fp x) (deleter_contents st)" by blast
  have "\<forall>fp. count_list (map dec_fp xs) fp \<le> refs (deleter_contents st1) fp"
  proof
    fix fp
    show "count_list (map dec_fp xs) fp \<le> refs (deleter_contents st1) fp"
      using Cons.prems(2) [rule_format, of fp] by (auto simp: st1(3) refs_drop)
  qed
  from Cons.IH [OF st1(2) this] st1(1,3) show ?case by auto
qed

end
