(* ===== verification/Write_Bounds.thy ===== *)
theory Write_Bounds
  imports Write_Correct Caches Delete_Correct
begin

text \<open>
  What a write guarantees beyond the agreement of index and containers: files that fit into
  the buffers of the other tasks, and chunk identifiers (\<open>ChunkGlobalID\<close>) that are
  unique although the index inside a container has only 16 bits.
\<close>

lemma ChunkGlobalID_parts:
  "ChunkGlobalID e = ChunkGlobalID e' \<longleftrightarrow>
     container_number e = container_number e' \<and> container_inner_index e = container_inner_index e'"
proof
  have parts: "ChunkGlobalID x = (push_bit 32 (ucast (container_number x)) OR ucast (container_inner_index x) :: u64)" for x
    unfolding ChunkGlobalID_def
    by (rule disjunctive_add) (auto simp: bit_simps dest: bit_imp_le_length)
  assume eq: "ChunkGlobalID e = ChunkGlobalID e'"
  have bit: "bit (ChunkGlobalID e) n = bit (ChunkGlobalID e') n" for n by (simp add: eq)
  have "container_number e = container_number e'"
  proof (rule bit_word_eqI)
    fix n assume "n < LENGTH(32)"
    then show "bit (container_number e) n = bit (container_number e') n"
      using bit [of "n + 32"] by (auto simp: parts bit_simps dest: bit_imp_le_length)
  qed
  moreover have "container_inner_index e = container_inner_index e'"
  proof (rule bit_word_eqI)
    fix n assume "n < LENGTH(16)"
    then show "bit (container_inner_index e) n = bit (container_inner_index e') n"
      using bit [of n] by (auto simp: parts bit_simps)
  qed
  ultimately show "container_number e = container_number e' \<and> container_inner_index e = container_inner_index e'"
    by simp
qed (simp add: ChunkGlobalID_def)

lemma ids_agree_distinct: "ids_distinct idx \<Longrightarrow> ids_agree D (ran idx)"
  unfolding ids_agree_def ids_distinct_def ChunkGlobalID_parts ran_def by fastforce

lemma sizes_ok_save:
  assumes "sizes_ok (map_of d)" and "len \<le> CONTAINER_SIZE" and "unat cnt * 20 \<le> CONTAINER_SIZE"
  shows "sizes_ok (map_of (saveContainer i buf len cnt rv d))"
proof -
  have old: "map_of d (container_name k) = Some f \<Longrightarrow> length f \<le> CONTAINER_SIZE"
    "map_of d (rev_name k) = Some f \<Longrightarrow> length f \<le> CONTAINER_SIZE + 4" for k f
    using assms(1) by (auto simp: sizes_ok_def)
  show ?thesis
  proof (rule sizes_ok_smaller [OF assms(1)])
    fix k f assume "map_of (saveContainer i buf len cnt rv d) (container_name k) = Some f"
    then show "length f \<le> CONTAINER_SIZE"
      using assms(2) old
      by (auto simp: saveContainer_def map_of_put_file length_overlay split: if_splits option.splits)
  next
    fix k f assume "map_of (saveContainer i buf len cnt rv d) (rev_name k) = Some f"
    then show "length f \<le> CONTAINER_SIZE + 4"
      using assms(3) old
      by (auto simp: saveContainer_def map_of_put_file length_overlay u32_codec.width
          split: if_splits option.splits)
  qed (simp_all add: saveContainer_def map_of_put_file)
qed

lemma length_put_file:
  "length (put_file fname data d) = (if map_of d fname = None then Suc (length d) else length d)"
proof -
  have "length (AList.update k v d) = (if map_of d k = None then Suc (length d) else length d)" for k v
    by (induction d) auto
  then show ?thesis by (simp add: put_file_def)
qed

lemma length_saveContainer:
  "map_of d (container_name i) = None \<Longrightarrow> map_of d (rev_name i) = None \<Longrightarrow>
     length (saveContainer i buf len cnt rv d) = length d + 2"
  by (simp add: saveContainer_def length_put_file map_of_put_file)

definition writer_tidy :: "writer \<Rightarrow> bool" where
  "writer_tidy w \<longleftrightarrow>
     sizes_ok (map_of (cdir w)) \<and> unat (inner_index w) = unat (rev_container_cnt w) \<and>
     ids_distinct (index (manager w)) \<and> uint (container_index w) \<le> int (length (cdir w)) \<and>
     (\<forall>fp e. index (manager w) fp = Some e \<longrightarrow>
        uint (container_number e) \<le> uint (container_index w) \<and> 0 < ref_cnt e \<and>
        (container_number e = container_index w \<longrightarrow> unat (container_inner_index e) < unat (inner_index w)))"

lemma writer_tidy_count [simp]: "writer_tidy (count_chunk sha1 w d) = writer_tidy w"
  by (simp add: writer_tidy_def count_chunk_def)

lemma writer_tidy_flush:
  assumes tidy: "writer_tidy w" and ok: "writer_ok sha1 w" and room: "writer_room w ds" "ds \<noteq> []"
    and cnt: "unat (rev_container_cnt w) * 20 \<le> CONTAINER_SIZE"
  shows "writer_tidy (flush_container w)"
proof -
  have idx: "uint (container_index w) + 1 < 2 ^ 32"
  proof -
    have "0 < length ds" using room(2) by simp
    then have "1 \<le> int (length ds)" by linarith
    then show ?thesis using room(1) by (simp add: writer_room_def)
  qed
  then have suc: "uint (container_index w + 1) = uint (container_index w) + 1"
    using uint_ge_0 [of "container_index w"] by (simp add: uint_word_ariths)
  have "sizes_ok (map_of (saved_dir w))"
    unfolding saved_dir_def
    using tidy ok cnt by (intro sizes_ok_save) (auto simp: writer_tidy_def writer_ok_def)
  moreover have "uint (container_number e) \<le> uint (container_index w + 1) \<and> container_number e \<noteq> container_index w + 1"
    if "index (manager w) fp = Some e" for fp e
  proof -
    have "uint (container_number e) < uint (container_index w + 1)"
      using tidy that unfolding suc writer_tidy_def by force
    then show ?thesis by auto
  qed
  moreover have "length (saved_dir w) = length (cdir w) + 2"
  proof -
    have "uint (container_index w) < 2 ^ 31"
      using room by (cases ds) (auto simp: writer_room_def)
    then show ?thesis
      using ok unfolding saved_dir_def
      by (intro length_saveContainer) (simp_all add: sint_uint_small writer_ok_def)
  qed
  ultimately show ?thesis
    using tidy suc by (auto simp: writer_tidy_def flush_container_def saved_dir_def)
qed

lemma writer_room_cnt:
  assumes "writer_ok sha1 w" and "writer_room w ds"
  shows "unat (rev_container_cnt w) < 64768" and "unat (rev_container_cnt w) * 20 + 20 \<le> CONTAINER_SIZE"
proof -
  have "length (container_buf w) < 4194304"
    using assms(1) by (simp add: writer_ok_def CONTAINER_SIZE_def)
  moreover have "128 * unat (rev_container_cnt w) \<le> length (container_buf w) + 128 * 32000"
    using assms(2) by (simp add: writer_room_def)
  ultimately show "unat (rev_container_cnt w) < 64768" by linarith
  then show "unat (rev_container_cnt w) * 20 + 20 \<le> CONTAINER_SIZE" by (simp add: CONTAINER_SIZE_def)
qed

lemma writer_tidy_store:
  assumes tidy: "writer_tidy w" and cnt: "unat (rev_container_cnt w) < 64768"
    and new: "index (manager w) fp = None" and m: "index m = (index (manager w))(fp \<mapsto> new_entry w len)"
    and w1: "cdir w1 = cdir w" "inner_index w1 = inner_index w" "rev_container_cnt w1 = rev_container_cnt w"
      "container_index w1 = container_index w"
  shows "writer_tidy (advance (w1\<lparr>manager := m\<rparr>) len)"
proof -
  have inner: "unat (inner_index w) = unat (rev_container_cnt w)" using tidy by (simp add: writer_tidy_def)
  have suc: "unat (inner_index w + 1) = unat (inner_index w) + 1" "unat (rev_container_cnt w + 1) = unat (rev_container_cnt w) + 1"
    using cnt by (simp_all add: unat_word_ariths inner)
  have old: "uint (container_number e) \<le> uint (container_index w)" "0 < ref_cnt e"
    "container_number e = container_index w \<Longrightarrow> unat (container_inner_index e) < unat (inner_index w)"
    if "index (manager w) x = Some e" for x e
    using tidy that by (auto simp: writer_tidy_def)
  have "ids_distinct (index m)"
    unfolding ids_distinct_def m
  proof (intro allI impI)
    fix x1 e1 x2 e2
    assume a: "((index (manager w))(fp \<mapsto> new_entry w len)) x1 = Some e1"
      "((index (manager w))(fp \<mapsto> new_entry w len)) x2 = Some e2"
      "container_number e1 = container_number e2" "container_inner_index e1 = container_inner_index e2"
    show "x1 = x2"
    proof (cases "x1 = fp \<or> x2 = fp")
      case True
      then show ?thesis
        using a old(3) [of x1 e1] old(3) [of x2 e2] by (auto simp: new_entry_def split: if_splits)
    next
      case False
      then show ?thesis using a tidy unfolding writer_tidy_def ids_distinct_def by auto
    qed
  qed
  then show ?thesis
    using tidy old inner suc w1 by (auto simp: writer_tidy_def advance_def m new_entry_def intro: less_SucI)
qed

lemma write_chunk_tidy:
  assumes ok: "writer_ok sha1 w" and room: "writer_room w (d # ds)" and tidy: "writer_tidy w"
    and d: "length d < 2 ^ 16" and step: "write_chunk sha1 w d = Inr w'"
  shows "writer_tidy w'"
proof (cases "index (manager w) (fp_of sha1 d)")
  case None
  let ?w0 = "count_chunk sha1 w d"
  define wf where "wf = (if CONTAINER_SIZE \<le> unat (container_buf_pointer w + of_nat (length d))
      then flush_container ?w0 else ?w0)"
  from step None obtain w1 m where w1: "copy_chunk wf d (enc_fp (fp_of sha1 d)) = Inr w1"
    and m: "addNewEntry (manager w1) (fp_of sha1 d) (new_entry w1 (length d)) = Inr m"
    and w': "w' = advance (w1\<lparr>manager := m\<rparr>) (length d)"
    by (auto simp: write_chunk_cases saveChunkToContainer_def and_then_eq_Inr wf_def)
  have same: "cdir w1 = cdir wf" "inner_index w1 = inner_index wf" "rev_container_cnt w1 = rev_container_cnt wf"
    "container_index w1 = container_index wf" "manager w1 = manager wf" "manager wf = manager w"
    "new_entry w1 = new_entry wf"
    using w1 by (auto simp: copy_chunk_def wf_def flush_container_def new_entry_def split: if_splits)
  note cnt = writer_room_cnt [OF ok room]
  have room0: "writer_room ?w0 (d # ds)" using room by (simp add: writer_room_def)
  have tidyf: "writer_tidy wf" "unat (rev_container_cnt wf) < 64768"
    using writer_tidy_flush [of ?w0 sha1 "d # ds"] tidy ok room0 cnt
    by (auto simp: wf_def) (auto simp: flush_container_def)
  have "mm_ok (manager wf)" using ok same by (simp add: writer_ok_def)
  from addNewEntry_spec [OF this, of "fp_of sha1 d" "new_entry wf (length d)"]
  have "index m = (index (manager wf))(fp_of sha1 d \<mapsto> new_entry wf (length d))"
    using m None same by (simp add: new_entry_def)
  with writer_tidy_store [OF tidyf _ this same(1-4)] None same(6) show ?thesis by (simp add: w')
next
  case (Some e)
  have mok: "mm_ok (manager w)" using ok by (simp add: writer_ok_def)
  from step Some obtain r m where m: "addRefCnt (manager w) (fp_of sha1 d) = Inr (r, m)"
    and w': "w' = count_chunk sha1 w d\<lparr>manager := m, dedup_chunks := dedup_chunks w + 1,
      dedup_size := dedup_size w + int (length d)\<rparr>"
    by (auto simp: write_chunk_cases and_then_eq_Inr)
  have idx: "index m = (index (manager w))(fp_of sha1 d \<mapsto> e\<lparr>ref_cnt := ref_cnt e + 1\<rparr>)"
    using addRefCnt_spec [OF mok Some] m by auto
  have "unat (ref_cnt e) + length (d # ds) < 2 ^ 32" using room Some by (simp add: writer_room_def)
  then have "unat (ref_cnt e + 1) = unat (ref_cnt e) + 1" by (simp add: unat_word_ariths)
  then have "0 < ref_cnt e + 1" by (simp add: word_less_nat_alt)
  moreover have "ids_distinct (index m)"
    unfolding idx using tidy Some by (intro ids_distinct_same_place) (auto simp: writer_tidy_def)
  ultimately show ?thesis
    using tidy Some by (auto simp: writer_tidy_def w' idx count_chunk_def)
qed

lemma write_chunks_tidy:
  assumes "writer_ok sha1 w" and "writer_room w ds" and "writer_tidy w"
    and "\<forall>d \<in> set ds. d \<noteq> [] \<and> length d < 2 ^ 16" and "foldE (write_chunk sha1) w ds = Inr w'"
  shows "writer_tidy w'"
  using assms
proof (induction ds arbitrary: w)
  case Nil
  then show ?case by simp
next
  case (Cons d ds)
  then have d: "d \<noteq> []" "length d < 2 ^ 16" by auto
  from Cons.prems(5) obtain w1 where w1: "write_chunk sha1 w d = Inr w1"
    and rest: "foldE (write_chunk sha1) w1 ds = Inr w'" by auto
  have "writer_ok sha1 w1 \<and> writer_room w1 ds"
    using write_new_chunk [OF Cons.prems(1,2) d] write_known_chunk [OF Cons.prems(1,2)] w1
    by (cases "index (manager w) (fp_of sha1 d)") auto
  with Cons.IH [OF _ _ write_chunk_tidy [OF Cons.prems(1,2,3) d(2) w1] _ rest] Cons.prems(4)
  show ?case by simp
qed

end
