(* ===== verification/Restore.thy ===== *)
theory Restore
  imports Caches Write
begin

text \<open>
  The restore task of \<open>main.cpp\<close>: the loop over the recipe with a container or chunk
  cache, and the forward assembly area of \<open>include/FAA.h\<close>. The loop is written over an
  arbitrary cache, its correctness is proved once for every \<open>chunk_source\<close>.
\<close>

section \<open>The loop over a cache\<close>

text \<open>
  The assembling buffer is the part of the array of \<open>FILE_CACHE\<close> bytes written so far;
  \<open>restored\<close> is what has been written to the output file.
\<close>

record restorer =
  rmanager :: MetadataManager
  assembling_buffer :: bytes
  write_buffer_offset :: nat
  restored :: bytes
  restore_size :: int

definition restorer_start :: "MetadataManager \<Rightarrow> restorer" where
  "restorer_start m =
     \<lparr>rmanager = m, assembling_buffer = [], write_buffer_offset = 0, restored = [], restore_size = 0\<rparr>"

definition flushAssemblingBuffer :: "bytes \<Rightarrow> bytes \<Rightarrow> nat \<Rightarrow> bytes" where
  "flushAssemblingBuffer fd buf len = fd @ array_prefix len buf"

definition flush_full :: "restorer \<Rightarrow> nat \<Rightarrow> restorer" where
  "flush_full r len =
     (if FILE_CACHE \<le> write_buffer_offset r + len
      then r\<lparr>restored := flushAssemblingBuffer (restored r) (assembling_buffer r) (write_buffer_offset r),
             write_buffer_offset := 0\<rparr>
      else r)"

definition restore_chunk ::
    "('s \<Rightarrow> ENTRY_VALUE \<Rightarrow> (bytes \<times> 's) result) \<Rightarrow> restorer \<times> 's \<Rightarrow> bytes \<Rightarrow> (restorer \<times> 's) result" where
  "restore_chunk getChunkData rs x =
     (let r = fst rs; fp = dec_fp x in
      case dedupLookup (rmanager r) fp of
        Unique \<Rightarrow> Inl ExitFailure
      | Dedup \<Rightarrow>
          let (ev, m) = getEntry (rmanager r) fp
          in and_then (getChunkData (snd rs) ev) (\<lambda>(ck_data, s).
               if length ck_data \<noteq> unat (chunk_length ev) then Inl ExitFailure
               else
                 let r1 = flush_full (r\<lparr>rmanager := m\<rparr>) (length ck_data) in
                 if FILE_CACHE < write_buffer_offset r1 + length ck_data then Inl MemoryFault
                 else Inr (r1\<lparr>assembling_buffer :=
                                overlay (assembling_buffer r1) (write_buffer_offset r1) ck_data,
                              write_buffer_offset := write_buffer_offset r1 + unat (chunk_length ev),
                              restore_size := restore_size r1 + uint (chunk_length ev)\<rparr>, s)))"

definition restore_with_cache ::
    "('s \<Rightarrow> ENTRY_VALUE \<Rightarrow> (bytes \<times> 's) result) \<Rightarrow> 's \<Rightarrow> MetadataManager \<Rightarrow> bytes list \<Rightarrow> bytes result" where
  "restore_with_cache getChunkData cc m recipe =
     and_then (foldE (restore_chunk getChunkData) (restorer_start m, cc) recipe) (\<lambda>(r, s).
       Inr (flushAssemblingBuffer (restored r) (assembling_buffer r) (write_buffer_offset r)))"

section \<open>The forward assembly area\<close>

record recipe_buffer_entry =
  CID :: int
  length_of :: nat
  container_offset :: int
  faa_start :: nat
  used :: bool

definition recipe_entry :: "ENTRY_VALUE \<Rightarrow> nat \<Rightarrow> recipe_buffer_entry" where
  "recipe_entry ev start =
     \<lparr>CID = sint (container_number ev), length_of = unat (chunk_length ev),
      container_offset = sint (offset ev), faa_start = start, used = False\<rparr>"

text \<open>
  Step 1: as many recipe entries as fit into the area; the rest of the recipe, the number of
  bytes and the manager (whose \<open>operator[]\<close> may have added an entry) are returned too.
\<close>

fun faa_fill ::
    "MetadataManager \<Rightarrow> nat \<Rightarrow> nat \<Rightarrow> bytes list \<Rightarrow>
     recipe_buffer_entry list \<times> nat \<times> bytes list \<times> MetadataManager" where
  "faa_fill m start written [] = ([], written, [], m)"
| "faa_fill m start written (x # xs) =
     (let (ev, m') = getEntry m (dec_fp x); len = unat (chunk_length ev) in
      if written + len \<le> FILE_CACHE then
        let (buffer, written', rest, m'') = faa_fill m' (start + len) (written + len) xs
        in (recipe_entry ev start # buffer, written', rest, m'')
      else ([], written, x # xs, m'))"

text \<open>\<open>FAA::loadContainer\<close> fills a zeroed array; a container that cannot be opened leaves it so.\<close>

definition faa_loadContainer :: "(string \<rightharpoonup> bytes) \<Rightarrow> int \<Rightarrow> bytes" where
  "faa_loadContainer D i =
     (case D (container_name i) of None \<Rightarrow> [] | Some f \<Rightarrow> take CONTAINER_SIZE f)"

text \<open>Step 2, inner loop: every unused entry of the container in the buffer is copied.\<close>

fun faa_copy ::
    "int \<Rightarrow> bytes \<Rightarrow> bytes \<Rightarrow> recipe_buffer_entry list \<Rightarrow> (bytes \<times> recipe_buffer_entry list) result" where
  "faa_copy cid container abuf [] = Inr (abuf, [])"
| "faa_copy cid container abuf (x # xs) =
     (if \<not> used x \<and> CID x = cid then
        if container_offset x < 0 \<or> int CONTAINER_SIZE < container_offset x + int (length_of x) \<or>
           FILE_CACHE < faa_start x + length_of x then Inl MemoryFault
        else and_then (faa_copy cid container
               (overlay abuf (faa_start x)
                 (array_prefix (length_of x) (drop (nat (container_offset x)) container))) xs)
             (\<lambda>(abuf', xs'). Inr (abuf', x\<lparr>used := True\<rparr> # xs'))
      else and_then (faa_copy cid container abuf xs) (\<lambda>(abuf', xs'). Inr (abuf', x # xs')))"

lemma faa_copy_entries:
  "faa_copy cid container abuf xs = Inr (abuf', xs') \<Longrightarrow>
   xs' = map (\<lambda>x. if CID x = cid then x\<lparr>used := True\<rparr> else x) xs"
proof (induction cid container abuf xs arbitrary: abuf' xs' rule: faa_copy.induct)
  case (2 cid container abuf x xs)
  then show ?case by (fastforce simp: and_then_eq_Inr split: if_splits)
qed simp

definition unused :: "recipe_buffer_entry list \<Rightarrow> recipe_buffer_entry list" where
  "unused xs = filter (\<lambda>x. \<not> used x) xs"

lemma unused_copied:
  "unused (map (\<lambda>x. if CID x = cid then x\<lparr>used := True\<rparr> else x) xs) = filter (\<lambda>x. CID x \<noteq> cid) (unused xs)"
  by (induction xs) (auto simp: unused_def)

text \<open>
  Step 2, outer loop: until no entry is unused, load the container of the first unused one.
  The second result lists the containers in the order in which they are read.
\<close>

function faa_assemble ::
    "(string \<rightharpoonup> bytes) \<Rightarrow> bytes \<Rightarrow> recipe_buffer_entry list \<Rightarrow> (bytes \<times> int list) result" where
  "faa_assemble D abuf xs =
     (case unused xs of
        [] \<Rightarrow> Inr (abuf, [])
      | x # _ \<Rightarrow>
          (case faa_copy (CID x) (faa_loadContainer D (CID x)) abuf xs of
             Inl e \<Rightarrow> Inl e
           | Inr r \<Rightarrow> and_then (faa_assemble D (fst r) (snd r)) (\<lambda>(abuf', loads). Inr (abuf', CID x # loads))))"
  by pat_completeness auto
termination
proof (relation "measure (\<lambda>(D, abuf, xs). length (unused xs))", goal_cases)
  case (2 D abuf xs x rest r)
  obtain abuf' xs' where r: "r = (abuf', xs')" by (cases r)
  have "unused xs' = filter (\<lambda>y. CID y \<noteq> CID x) (unused xs)"
    using faa_copy_entries [OF 2(2) [unfolded r]] by (simp add: unused_copied)
  moreover have "x \<in> set (unused xs)" using 2(1) by simp
  ultimately show ?case using r by (auto intro: length_filter_less)
qed simp

declare faa_assemble.simps [simp del]

text \<open>
  The loop over the segments of the recipe. The test \<open>recipe_offset <= size() - 1\<close> is
  unsigned: an empty recipe reads outside the vector.
\<close>

lemma faa_fill_progress:
  "length (fst (snd (snd (faa_fill m start written xs)))) \<le> length xs"
  by (induction m start written xs rule: faa_fill.induct) (auto simp: Let_def le_SucI split: prod.splits)

lemma faa_fill_first:
  "xs \<noteq> [] \<Longrightarrow> length (fst (snd (snd (faa_fill m 0 0 xs)))) < length xs"
proof (cases xs)
  case (Cons x ys)
  obtain ev m' where ev: "getEntry m (dec_fp x) = (ev, m')" by (cases "getEntry m (dec_fp x)")
  have "unat (chunk_length ev) \<le> FILE_CACHE"
    using unsigned_less [of "chunk_length ev", where 'a = nat] by (simp add: FILE_CACHE_def)
  then show ?thesis
    using faa_fill_progress [of m' "unat (chunk_length ev)" "unat (chunk_length ev)" ys]
    by (auto simp: Cons ev Let_def split: prod.splits)
qed simp

function faa_segments ::
    "(string \<rightharpoonup> bytes) \<Rightarrow> MetadataManager \<Rightarrow> bytes \<Rightarrow> bytes \<Rightarrow> bytes list \<Rightarrow> bytes result" where
  "faa_segments D m abuf fd xs =
     (if xs = [] then Inr fd
      else let seg = faa_fill m 0 0 xs in
           case faa_assemble D abuf (fst seg) of
             Inl e \<Rightarrow> Inl e
           | Inr r \<Rightarrow> faa_segments D (snd (snd (snd seg))) (fst r)
                       (flushAssemblingBuffer fd (fst r) (fst (snd seg))) (fst (snd (snd seg))))"
  by pat_completeness auto
termination
  by (relation "measure (\<lambda>(D, m, abuf, fd, xs). length xs)") (auto simp: faa_fill_first)

declare faa_segments.simps [simp del]

definition restore_with_faa ::
    "(string \<rightharpoonup> bytes) \<Rightarrow> MetadataManager \<Rightarrow> bytes list \<Rightarrow> bytes result" where
  "restore_with_faa D m recipe =
     (if recipe = [] then Inl MemoryFault else faa_segments D m [] [] recipe)"

section \<open>The task\<close>

definition restore_bytes ::
    "RESTORE_METHOD \<Rightarrow> (string \<rightharpoonup> bytes) \<Rightarrow> bytes \<Rightarrow> MetadataManager \<Rightarrow> bytes list \<Rightarrow> bytes result" where
  "restore_bytes alg D buf m recipe =
     (case alg of
        CONTAINER_CACHE \<Rightarrow>
          restore_with_cache (container_getChunkData D) (container_cache_new 128) m recipe
      | CHUNK_CACHE \<Rightarrow>
          restore_with_cache (chunk_getChunkData D) (chunk_cache_new (16 * 1024) buf) m recipe
      | FAA_FIXED \<Rightarrow> restore_with_faa D m recipe
      | NAIVE_RESTORE \<Rightarrow> Inl ExitFailure
      | FAA_ROLLING \<Rightarrow> Inl ExitFailure)"

text \<open>
  The new contents of the output file; nothing is written when the version does not exist.
  The output is opened without \<open>O_TRUNC\<close>. The initial contents of the buffer
  \<open>malloc\<close> gives the chunk cache are a parameter.
\<close>

definition task_restore ::
    "RESTORE_METHOD \<Rightarrow> bytes \<Rightarrow> repo \<Rightarrow> int \<Rightarrow> bytes option \<Rightarrow> bytes option result" where
  "task_restore alg buf r version output =
     and_then (load_index r) (\<lambda>m.
       if \<not> fileRecipeExist (of_int version) (entries (recipes_dir r)) then Inr output
       else and_then (getFileRecipe (of_int version) (entries (recipes_dir r))) (\<lambda>recipe.
         and_then (restore_bytes alg (map_of (entries (containers_dir r))) buf m recipe) (\<lambda>data.
           Inr (Some (overlay (case output of None \<Rightarrow> [] | Some f \<Rightarrow> f) 0 data)))))"

end
