(* ===== verification/Restore_Correct.thy ===== *)
theory Restore_Correct
  imports Restore Write_Correct
begin

text \<open>
  Correctness of restoring: with either cache and with the assembly area the output is the
  concatenation of the chunks the recipe names. The statements are about a recipe whose
  fingerprints are all in the index and resolve in the container directory.
\<close>

section \<open>Recipes that resolve\<close>

definition recipe_chunks ::
    "(string \<rightharpoonup> bytes) \<Rightarrow> ENTRY_VALUE set \<Rightarrow> MetadataManager \<Rightarrow> bytes list \<Rightarrow> bytes list \<Rightarrow> bool" where
  "recipe_chunks D E m recipe cs \<longleftrightarrow>
     list_all2 (\<lambda>x c. \<exists>e \<in> E. map_of (fp_table_origin m) (dec_fp x) = Some e \<and> chunk_at D e = Some c)
       recipe cs"

lemma recipe_chunks_Cons:
  "recipe_chunks D E m (x # xs) cs \<longleftrightarrow>
     (\<exists>e c cs'. cs = c # cs' \<and> e \<in> E \<and> map_of (fp_table_origin m) (dec_fp x) = Some e \<and>
        chunk_at D e = Some c \<and> recipe_chunks D E m xs cs')"
  by (auto simp: recipe_chunks_def list_all2_Cons1)

lemma recipe_chunks_Nil [simp]: "recipe_chunks D E m [] cs \<longleftrightarrow> cs = []"
  by (simp add: recipe_chunks_def)

lemma recipe_chunks_mono:
  "recipe_chunks D E m xs cs \<Longrightarrow> E \<subseteq> E' \<Longrightarrow> recipe_chunks D E' m xs cs"
  unfolding recipe_chunks_def by (erule list_all2_mono) blast

section \<open>Restoring with a cache\<close>

definition restored_bytes :: "restorer \<Rightarrow> bytes" where
  "restored_bytes r = restored r @ array_prefix (write_buffer_offset r) (assembling_buffer r)"

lemma restored_bytes_flush:
  "write_buffer_offset r \<le> FILE_CACHE \<Longrightarrow> len < 2 ^ 16 \<Longrightarrow>
     restored_bytes (flush_full r len) = restored_bytes r \<and>
     write_buffer_offset (flush_full r len) + len \<le> FILE_CACHE \<and>
     rmanager (flush_full r len) = rmanager r"
  by (auto simp: flush_full_def restored_bytes_def flushAssemblingBuffer_def array_prefix_def
      FILE_CACHE_def)

lemma restored_bytes_append:
  "restored_bytes (r\<lparr>assembling_buffer := overlay (assembling_buffer r) (write_buffer_offset r) d,
     write_buffer_offset := write_buffer_offset r + length d, restore_size := z\<rparr>) = restored_bytes r @ d"
  by (simp add: restored_bytes_def array_prefix_overlay)

lemma chunk_at_short: "chunk_at D e = Some c \<Longrightarrow> length c < 2 ^ 16"
  using unsigned_less [of "chunk_length e", where 'a = nat] by (simp add: chunk_at_length)

context chunk_source
begin

lemma restore_chunks:
  assumes "inv (length recipe) s" and "recipe_chunks D E (rmanager r) recipe cs"
    and "write_buffer_offset r \<le> FILE_CACHE"
  shows "\<exists>r' s'. foldE (restore_chunk get) (r, s) recipe = Inr (r', s') \<and>
    restored_bytes r' = restored_bytes r @ concat cs"
  using assms
proof (induction recipe arbitrary: r s cs)
  case Nil
  then show ?case by simp
next
  case (Cons x recipe)
  then obtain e c cs' where cs: "cs = c # cs'" and e: "e \<in> E" "chunk_at D e = Some c"
    and look: "map_of (fp_table_origin (rmanager r)) (dec_fp x) = Some e"
    and rest: "recipe_chunks D E (rmanager r) recipe cs'"
    by (auto simp: recipe_chunks_Cons)
  from Cons.prems(1) e obtain s1 where s1: "get s e = Inr (c, s1)" "inv (length recipe) s1"
    using get_chunk [of "length recipe" s e c] by auto
  let ?f = "flush_full r (length c)"
  have len: "length c = unat (chunk_length e)" using chunk_at_length [OF e(2)] .
  have f: "restored_bytes ?f = restored_bytes r" "write_buffer_offset ?f + length c \<le> FILE_CACHE"
    "rmanager ?f = rmanager r"
    using restored_bytes_flush [OF Cons.prems(3) chunk_at_short [OF e(2)]] by auto
  define r1 where "r1 = ?f\<lparr>assembling_buffer := overlay (assembling_buffer ?f) (write_buffer_offset ?f) c,
    write_buffer_offset := write_buffer_offset ?f + length c,
    restore_size := restore_size ?f + uint (chunk_length e)\<rparr>"
  have step: "restore_chunk get (r, s) x = Inr (r1, s1)"
    using look s1(1) f(2) len
    by (simp add: restore_chunk_def dedupLookup_def getEntry_def r1_def Let_def)
  have r1: "restored_bytes r1 = restored_bytes r @ c" "rmanager r1 = rmanager r"
    "write_buffer_offset r1 \<le> FILE_CACHE"
    using f unfolding r1_def restored_bytes_append by simp_all
  from Cons.IH [OF s1(2) rest [folded r1(2)] r1(3)] obtain r' s' where
    "foldE (restore_chunk get) (r1, s1) recipe = Inr (r', s')"
    "restored_bytes r' = restored_bytes r1 @ concat cs'" by blast
  with step r1(1) cs show ?case by auto
qed

lemma restore_with_cache_spec:
  assumes "inv (length recipe) cc" and "recipe_chunks D E m recipe cs"
  shows "restore_with_cache get cc m recipe = Inr (concat cs)"
proof -
  have "recipe_chunks D E (rmanager (restorer_start m)) recipe cs"
    "write_buffer_offset (restorer_start m) \<le> FILE_CACHE"
    using assms(2) by (simp_all add: restorer_start_def)
  from restore_chunks [OF assms(1) this] obtain r' s' where
    r: "foldE (restore_chunk get) (restorer_start m, cc) recipe = Inr (r', s')"
    "restored_bytes r' = restored_bytes (restorer_start m) @ concat cs" by blast
  then show ?thesis
    by (simp add: restore_with_cache_def flushAssemblingBuffer_def flip: restored_bytes_def)
      (simp add: restored_bytes_def restorer_start_def array_prefix_def)
qed

end

section \<open>Restoring with the assembly area\<close>

text \<open>The entries of a segment lie one behind the other in the area.\<close>

fun area_layout :: "nat \<Rightarrow> recipe_buffer_entry list \<Rightarrow> bool" where
  "area_layout start [] = True"
| "area_layout start (x # xs) \<longleftrightarrow> faa_start x = start \<and> area_layout (start + length_of x) xs"

definition area_length :: "recipe_buffer_entry list \<Rightarrow> nat" where
  "area_length xs = sum_list (map length_of xs)"

text \<open>An entry names the chunk \<open>c\<close>; it is placed when the area holds \<open>c\<close> at its position.\<close>

definition names_chunk :: "(string \<rightharpoonup> bytes) \<Rightarrow> recipe_buffer_entry \<Rightarrow> bytes \<Rightarrow> bool" where
  "names_chunk D x c \<longleftrightarrow> length c = length_of x \<and> 0 \<le> container_offset x \<and>
     container_offset x + int (length_of x) \<le> int CONTAINER_SIZE \<and>
     segment (nat (container_offset x)) (length_of x) (faa_loadContainer D (CID x)) = c"

definition placed :: "bytes \<Rightarrow> recipe_buffer_entry \<Rightarrow> bytes \<Rightarrow> bool" where
  "placed abuf x c \<longleftrightarrow> (used x \<longrightarrow> segment (faa_start x) (length c) abuf = c)"

lemma segment_overlay_before:
  assumes "o1 + length c \<le> off" and "segment o1 (length c) buf = c"
  shows "segment o1 (length c) (overlay buf off d) = c"
proof (cases "c = []")
  case True
  then show ?thesis by (simp add: segment_def)
next
  case False
  have "length (segment o1 (length c) buf) = length c" using assms(2) by simp
  then have "length c \<le> length buf - o1" "0 < length c"
    using False by (simp_all add: length_segment min_def split: if_splits)
  then have "o1 + length c \<le> length (take off buf)" using assms(1) by (simp del: length_greater_0_conv)
  then have "segment o1 (length c) (overlay buf off d) = segment o1 (length c) (take off buf)"
    unfolding overlay_def by (rule segment_append1)
  also have "\<dots> = segment o1 (length c) buf"
    using assms(1) by (simp add: segment_def drop_take min_def)
  finally show ?thesis using assms(2) by simp
qed

lemma segment_overlay_after:
  assumes "off + length d \<le> o1" and "segment o1 (length c) buf = c"
  shows "segment o1 (length c) (overlay buf off d) = c"
proof (cases "c = []")
  case True
  then show ?thesis by (simp add: segment_def)
next
  case False
  have "length (segment o1 (length c) buf) = length c" using assms(2) by simp
  then have "length c \<le> length buf - o1" "0 < length c"
    using False by (simp_all add: length_segment min_def split: if_splits)
  then have "o1 < length buf" by (simp del: length_greater_0_conv)
  then have "drop o1 (overlay buf off d) = drop o1 buf"
    using assms(1) by (simp add: overlay_def)
  then show ?thesis using assms(2) by (simp add: segment_def)
qed

lemma area_layout_start: "area_layout start xs \<Longrightarrow> x \<in> set xs \<Longrightarrow> start \<le> faa_start x"
  by (induction xs arbitrary: start) fastforce+

lemma names_chunk_data:
  "names_chunk D x c \<Longrightarrow>
     array_prefix (length_of x) (drop (nat (container_offset x)) (faa_loadContainer D (CID x))) = c"
  by (auto simp: names_chunk_def array_prefix_def segment_def min_def split: if_splits)

lemma faa_copy_spec:
  assumes "list_all2 (names_chunk D) xs cs" and "list_all2 (placed abuf) xs cs"
    and "area_layout start xs" and "start + area_length xs \<le> FILE_CACHE"
  shows "\<exists>abuf' xs'. faa_copy cid (faa_loadContainer D cid) abuf xs = Inr (abuf', xs') \<and>
    list_all2 (placed abuf') xs' cs \<and>
    (\<forall>pos c. pos + length c \<le> start \<longrightarrow> segment pos (length c) abuf = c \<longrightarrow> segment pos (length c) abuf' = c)"
  using assms
proof (induction xs arbitrary: abuf cs start)
  case Nil
  then show ?case by simp
next
  case (Cons x xs)
  then obtain c cs' where cs: "cs = c # cs'" and x: "names_chunk D x c" "placed abuf x c"
    and xs: "list_all2 (names_chunk D) xs cs'" "list_all2 (placed abuf) xs cs'"
    by (auto simp: list_all2_Cons1)
  have start: "faa_start x = start" and layout: "area_layout (start + length_of x) xs"
    and room: "start + length_of x + area_length xs \<le> FILE_CACHE"
    and len: "length c = length_of x"
    using Cons.prems(3,4) x(1) by (simp_all add: area_length_def names_chunk_def)
  show ?case
  proof (cases "\<not> used x \<and> CID x = cid")
    case True
    let ?abuf = "overlay abuf start c"
    have "list_all2 (placed ?abuf) xs cs'"
    proof (rule list.rel_mono_strong [OF xs(2)])
      fix y d assume y: "y \<in> set xs" "placed abuf y d"
      then have "start + length c \<le> faa_start y" using area_layout_start [OF layout] len by simp
      with y(2) show "placed ?abuf y d" by (auto simp: placed_def intro: segment_overlay_after)
    qed
    from Cons.IH [OF xs(1) this layout room] obtain abuf' xs' where
      rest: "faa_copy cid (faa_loadContainer D cid) ?abuf xs = Inr (abuf', xs')"
        "list_all2 (placed abuf') xs' cs'"
      and keep: "\<And>pos c. pos + length c \<le> start + length_of x \<Longrightarrow>
        segment pos (length c) ?abuf = c \<Longrightarrow> segment pos (length c) abuf' = c" by blast
    have "placed abuf' (x\<lparr>used := True\<rparr>) c"
      using keep [of start c] segment_overlay [of start c abuf] start len by (simp add: placed_def)
    moreover have "segment pos (length d) abuf' = d"
      if "pos + length d \<le> start" "segment pos (length d) abuf = d" for pos d
      using keep [of pos d] segment_overlay_before [OF that] that(1) by simp
    moreover have "faa_copy cid (faa_loadContainer D cid) abuf (x # xs) = Inr (abuf', x\<lparr>used := True\<rparr> # xs')"
      using True rest(1) x(1) names_chunk_data [OF x(1)] room start
      by (simp add: names_chunk_def)
    ultimately show ?thesis using rest(2) cs by auto
  next
    case False
    from Cons.IH [OF xs layout room] obtain abuf' xs' where
      rest: "faa_copy cid (faa_loadContainer D cid) abuf xs = Inr (abuf', xs')"
        "list_all2 (placed abuf') xs' cs'"
      and keep: "\<And>pos c. pos + length c \<le> start + length_of x \<Longrightarrow>
        segment pos (length c) abuf = c \<Longrightarrow> segment pos (length c) abuf' = c" by blast
    have "placed abuf' x c" using x(2) keep [of start c] start len by (auto simp: placed_def)
    moreover have "faa_copy cid (faa_loadContainer D cid) abuf (x # xs) = Inr (abuf', x # xs')"
      using False rest(1) by auto
    ultimately show ?thesis using rest(2) cs keep by auto
  qed
qed

text \<open>Copying does not touch what an entry says.\<close>

lemma names_chunk_used [simp]: "names_chunk D (x\<lparr>used := b\<rparr>) c = names_chunk D x c"
  by (simp add: names_chunk_def)

lemma copied_layout [simp]:
  "area_layout start (map (\<lambda>x. if P x then x\<lparr>used := True\<rparr> else x) xs) = area_layout start xs"
  "area_length (map (\<lambda>x. if P x then x\<lparr>used := True\<rparr> else x) xs) = area_length xs"
  by (induction xs arbitrary: start) (auto simp: area_length_def)

lemma copied_names [simp]:
  "list_all2 (names_chunk D) (map (\<lambda>x. if P x then x\<lparr>used := True\<rparr> else x) xs) cs =
     list_all2 (names_chunk D) xs cs"
  by (simp add: list_all2_map1 if_distrib if_distribR cong: if_cong)

text \<open>Every container of the segment is read once, in the order of its first use.\<close>

fun first_uses :: "'a list \<Rightarrow> 'a list" where
  "first_uses [] = []"
| "first_uses (x # xs) = x # filter (\<lambda>y. y \<noteq> x) (first_uses xs)"

lemma first_uses_filter: "first_uses (filter P xs) = filter P (first_uses xs)"
  by (induction xs) (auto intro!: filter_cong)

lemma first_uses_set [simp]: "set (first_uses xs) = set xs"
  by (induction xs) auto

lemma first_uses_distinct: "distinct (first_uses xs)"
  by (induction xs) auto

lemma faa_assemble_spec:
  assumes "list_all2 (names_chunk D) xs cs" and "list_all2 (placed abuf) xs cs"
    and "area_layout 0 xs" and "area_length xs \<le> FILE_CACHE"
  shows "\<exists>abuf' xs'. faa_assemble D abuf xs = Inr (abuf', first_uses (map CID (unused xs))) \<and>
    list_all2 (placed abuf') xs' cs \<and> xs' = map (\<lambda>x. x\<lparr>used := True\<rparr>) xs"
  using assms
proof (induction "length (unused xs)" arbitrary: abuf xs rule: less_induct)
  case less
  show ?case
  proof (cases "unused xs")
    case Nil
    then have "map (\<lambda>x. x\<lparr>used := True\<rparr>) xs = xs"
      by (intro map_idI) (auto simp: unused_def filter_empty_conv)
    with Nil less.prems(2) show ?thesis by (subst faa_assemble.simps) simp
  next
    case (Cons x ys)
    let ?mark = "map (\<lambda>y. if CID y = CID x then y\<lparr>used := True\<rparr> else y)"
    obtain abuf1 xs1 where
      copy: "faa_copy (CID x) (faa_loadContainer D (CID x)) abuf xs = Inr (abuf1, xs1)"
      and placed: "list_all2 (placed abuf1) xs1 cs"
      using faa_copy_spec [OF less.prems(1,2,3), of "CID x"] less.prems(4) by auto
    have xs1: "xs1 = ?mark xs" using faa_copy_entries [OF copy] .
    have un: "unused xs1 = filter (\<lambda>y. CID y \<noteq> CID x) ys"
      using Cons unused_copied [of "CID x" xs] by (simp add: xs1)
    then have "length (unused xs1) < length (unused xs)" by (simp add: Cons le_imp_less_Suc)
    from less.hyps [OF this] less.prems placed obtain abuf' where
      rest: "faa_assemble D abuf1 xs1 = Inr (abuf', first_uses (map CID (unused xs1)))"
        "list_all2 (placed abuf') (map (\<lambda>x. x\<lparr>used := True\<rparr>) xs1) cs" by (auto simp: xs1)
    have "first_uses (map CID (unused xs1)) = filter (\<lambda>i. i \<noteq> CID x) (first_uses (map CID ys))"
      by (simp add: un first_uses_filter [symmetric] filter_map comp_def)
    moreover have "map (\<lambda>x. x\<lparr>used := True\<rparr>) xs1 = map (\<lambda>x. x\<lparr>used := True\<rparr>) xs"
      by (simp add: xs1)
    ultimately show ?thesis
      using copy rest by (subst faa_assemble.simps) (simp add: Cons)
  qed
qed

lemma area_contents:
  assumes "list_all2 (names_chunk D) xs cs" and "area_layout start xs"
    and "list_all2 (placed abuf) (map (\<lambda>x. x\<lparr>used := True\<rparr>) xs) cs"
  shows "segment start (area_length xs) abuf = concat cs \<and> length (concat cs) = area_length xs"
  using assms
proof (induction xs arbitrary: start cs)
  case Nil
  then show ?case by (simp add: area_length_def segment_def)
next
  case (Cons x xs)
  then obtain c cs' where cs: "cs = c # cs'" "names_chunk D x c" "list_all2 (names_chunk D) xs cs'"
    and p: "placed abuf (x\<lparr>used := True\<rparr>) c"
    and placed: "list_all2 (placed abuf) (map (\<lambda>x. x\<lparr>used := True\<rparr>) xs) cs'"
    by (auto simp: list_all2_Cons1)
  have "segment start (length_of x) abuf = c"
    using p cs(2) Cons.prems(2) by (simp add: placed_def names_chunk_def)
  moreover from Cons.IH [OF cs(3) _ placed] Cons.prems(2)
  have "segment (start + length_of x) (area_length xs) abuf = concat cs'"
    "length (concat cs') = area_length xs" by auto
  moreover have "length c = length_of x" using cs(2) by (simp add: names_chunk_def)
  ultimately show ?case
    using cs(1) by (simp add: area_length_def segment_add)
qed

lemma array_prefix_segment:
  "segment 0 n buf = xs \<Longrightarrow> length xs = n \<Longrightarrow> array_prefix n buf = xs"
  by (auto simp: array_prefix_def segment_def min_def split: if_splits)

lemma recipe_entry_names:
  assumes "chunk_at D e = Some c" and "e \<in> container_entries"
  shows "names_chunk D (recipe_entry e start) c"
proof -
  obtain f where f: "D (container_name (uint (container_number e))) = Some f"
    using assms(1) by (auto simp: chunk_at_def split: option.splits)
  have bound: "unat (offset e) + unat (chunk_length e) \<le> CONTAINER_SIZE"
    and num: "sint (container_number e) = uint (container_number e)"
    using assms(2) by (simp_all add: container_entries_def sint_uint_small)
  then have "unat (offset e) < 2 ^ 31" by (simp add: CONTAINER_SIZE_def)
  then have off: "sint (offset e) = uint (offset e)" by (rule sint_small)
  have "uint (offset e) + uint (chunk_length e) \<le> int CONTAINER_SIZE"
    using bound by (simp only: uint_nat flip: of_nat_add)
  moreover have "segment (unat (offset e)) (unat (chunk_length e)) (take CONTAINER_SIZE f) = c"
    using container_get_cached [OF assms f] by (simp add: substr_def split: if_splits)
  ultimately show ?thesis
    using chunk_at_length [OF assms(1)] f
    by (simp add: names_chunk_def recipe_entry_def faa_loadContainer_def num off)
qed

lemma faa_fill_spec:
  assumes "recipe_chunks D container_entries m xs cs" and "written \<le> FILE_CACHE"
  shows "\<exists>buffer k. faa_fill m start written xs = (buffer, written + area_length buffer, drop k xs, m) \<and>
    recipe_chunks D container_entries m (drop k xs) (drop k cs) \<and>
    list_all2 (names_chunk D) buffer (take k cs) \<and> area_layout start buffer \<and>
    written + area_length buffer \<le> FILE_CACHE \<and> unused buffer = buffer"
  using assms
proof (induction xs arbitrary: cs start written)
  case Nil
  then show ?case by (simp add: area_length_def unused_def)
next
  case (Cons x xs)
  then obtain e c cs' where cs: "cs = c # cs'" and e: "e \<in> container_entries" "chunk_at D e = Some c"
    and look: "map_of (fp_table_origin m) (dec_fp x) = Some e"
    and rest: "recipe_chunks D container_entries m xs cs'"
    by (auto simp: recipe_chunks_Cons)
  let ?len = "unat (chunk_length e)"
  show ?case
  proof (cases "written + ?len \<le> FILE_CACHE")
    case True
    from Cons.IH [OF rest True, of "start + ?len"] obtain buffer k where
      IH: "faa_fill m (start + ?len) (written + ?len) xs =
          (buffer, written + ?len + area_length buffer, drop k xs, m)"
      "recipe_chunks D container_entries m (drop k xs) (drop k cs')"
      "list_all2 (names_chunk D) buffer (take k cs')" "area_layout (start + ?len) buffer"
      "written + ?len + area_length buffer \<le> FILE_CACHE" "unused buffer = buffer" by blast
    have entry: "faa_start (recipe_entry e start) = start" "length_of (recipe_entry e start) = ?len"
      "\<not> used (recipe_entry e start)" by (simp_all add: recipe_entry_def)
    have "faa_fill m start written (x # xs) = (recipe_entry e start # buffer,
        written + area_length (recipe_entry e start # buffer), drop (Suc k) (x # xs), m)"
      using True IH(1) by (simp add: getEntry_spec [OF look] area_length_def entry Let_def)
    then show ?thesis
      using IH recipe_entry_names [OF e(2,1), of start] cs
      by (intro exI [of _ "recipe_entry e start # buffer"] exI [of _ "Suc k"])
        (simp add: entry area_length_def unused_def)
  next
    case False
    then show ?thesis
      using Cons.prems
      by (intro exI [of _ "[]"] exI [of _ 0])
        (simp add: getEntry_spec [OF look] area_length_def unused_def Let_def)
  qed
qed

lemma faa_segments_spec:
  assumes "recipe_chunks D container_entries m xs cs"
  shows "faa_segments D m abuf fd xs = Inr (fd @ concat cs)"
  using assms
proof (induction "length xs" arbitrary: abuf fd xs cs rule: less_induct)
  case less
  show ?case
  proof (cases "xs = []")
    case True
    with less.prems show ?thesis by (simp add: faa_segments.simps)
  next
    case False
    obtain buffer k where fill: "faa_fill m 0 0 xs = (buffer, area_length buffer, drop k xs, m)"
      and rest: "recipe_chunks D container_entries m (drop k xs) (drop k cs)"
      and buffer: "list_all2 (names_chunk D) buffer (take k cs)" "area_layout 0 buffer"
        "area_length buffer \<le> FILE_CACHE" "unused buffer = buffer"
      using faa_fill_spec [OF less.prems, of 0 0] by auto
    have "list_all2 (placed abuf) buffer (take k cs)"
      using buffer(1,4) by (auto simp: placed_def unused_def filter_id_conv elim: list.rel_mono_strong)
    from faa_assemble_spec [OF buffer(1) this buffer(2,3)] obtain abuf' where
      asm: "faa_assemble D abuf buffer = Inr (abuf', first_uses (map CID (unused buffer)))"
      and "list_all2 (placed abuf') (map (\<lambda>x. x\<lparr>used := True\<rparr>) buffer) (take k cs)" by blast
    from area_contents [OF buffer(1,2) this(2)]
    have "flushAssemblingBuffer fd abuf' (area_length buffer) = fd @ concat (take k cs)"
      by (simp add: flushAssemblingBuffer_def array_prefix_segment)
    moreover have "length (drop k xs) < length xs" using faa_fill_first [OF False, of m] fill by simp
    moreover have "concat (take k cs) @ concat (drop k cs) = concat cs"
      by (metis append_take_drop_id concat_append)
    ultimately show ?thesis
      using less.hyps [OF _ rest] asm fill False by (subst faa_segments.simps) simp
  qed
qed

lemma restore_with_faa_spec:
  "recipe_chunks D container_entries m recipe cs \<Longrightarrow> recipe \<noteq> [] \<Longrightarrow>
     restore_with_faa D m recipe = Inr (concat cs)"
  by (simp add: restore_with_faa_def faa_segments_spec)

section \<open>The three algorithms\<close>

definition supported :: "RESTORE_METHOD \<Rightarrow> bool" where
  "supported alg \<longleftrightarrow> alg \<in> {CONTAINER_CACHE, CHUNK_CACHE, FAA_FIXED}"

lemma restore_bytes_spec:
  assumes "recipe_chunks D E m recipe cs" and "E \<subseteq> container_entries" and "ids_agree D E"
    and "recipe \<noteq> []" and "length recipe < 2 ^ 64" and "supported alg"
  shows "restore_bytes alg D buf m recipe = Inr (concat cs)"
proof -
  note all = recipe_chunks_mono [OF assms(1,2)]
  have "container_inv D (container_cache_new 128)" by (rule container_inv_new) simp
  from container_source.restore_with_cache_spec [OF this all]
  have "restore_bytes CONTAINER_CACHE D buf m recipe = Inr (concat cs)"
    by (simp add: restore_bytes_def)
  moreover have "chunk_inv D E (length recipe) (chunk_cache_new (16 * 1024) buf)"
    using assms(3,5) by (intro chunk_inv_new) simp_all
  from lru.restore_with_cache_spec [OF this assms(1)]
  have "restore_bytes CHUNK_CACHE D buf m recipe = Inr (concat cs)"
    by (simp add: restore_bytes_def)
  moreover have "restore_bytes FAA_FIXED D buf m recipe = Inr (concat cs)"
    using restore_with_faa_spec [OF all assms(4)] by (simp add: restore_bytes_def)
  ultimately show ?thesis using assms(6) by (auto simp: supported_def)
qed

end
