(* ===== verification/Repository.thy ===== *)
theory Repository
  imports Write_Bounds Restore_Correct
begin

text \<open>
  A repository as a whole: the invariant that every task keeps, the abstract state (which
  version consists of which chunks, and how often a chunk is used), and how writing,
  restoring and deleting act on it.
\<close>

section \<open>The abstract state\<close>

definition stored :: "repo \<Rightarrow> string \<rightharpoonup> bytes" where
  "stored r = map_of (entries (containers_dir r))"

definition repo_index :: "repo \<Rightarrow> SHA1FP \<rightharpoonup> ENTRY_VALUE" where
  "repo_index r = (case load_index r of Inl _ \<Rightarrow> Map.empty | Inr m \<Rightarrow> index m)"

definition repo_contents :: "repo \<Rightarrow> contents" where
  "repo_contents r = contents (stored r) (repo_index r)"

definition file_fps :: "bytes \<Rightarrow> SHA1FP list" where
  "file_fps f = map dec_fp (read_recipe (replicate SHA1_LENGTH 0) f)"

definition version_fps :: "repo \<Rightarrow> int \<Rightarrow> SHA1FP list option" where
  "version_fps r v = map_option file_fps (map_of (entries (recipes_dir r)) (recipe_name v))"

definition chunk_of :: "contents \<Rightarrow> SHA1FP \<Rightarrow> bytes" where
  "chunk_of st fp = (case st fp of None \<Rightarrow> [] | Some (c, n) \<Rightarrow> c)"

definition version_data :: "repo \<Rightarrow> int \<Rightarrow> bytes option" where
  "version_data r v = map_option (\<lambda>fps. concat (map (chunk_of (repo_contents r)) fps)) (version_fps r v)"

text \<open>How often the recipes of a directory use a fingerprint.\<close>

definition uses :: "dir \<Rightarrow> SHA1FP \<Rightarrow> nat" where
  "uses d fp = sum_list (map (\<lambda>e. count_list (file_fps (snd e)) fp) d)"

section \<open>The invariant\<close>

definition index_ok :: "(SHA1FP \<rightharpoonup> ENTRY_VALUE) \<Rightarrow> bool" where
  "index_ok idx \<longleftrightarrow> ids_distinct idx \<and> finite (dom idx) \<and>
     card (dom idx) \<le> FILE_CACHE div META_DATA_SIZE \<and>
     (\<forall>fp e. idx fp = Some e \<longrightarrow> uint (container_number e) < 2 ^ 31 \<and> 0 < ref_cnt e)"

definition recipes_ok :: "dir \<Rightarrow> bool" where
  "recipes_ok d \<longleftrightarrow> distinct (map fst d) \<and>
     (\<forall>e \<in> set d. snd e \<noteq> [] \<and> length (snd e) < 2 ^ 64)"

definition repo_ok :: "(bytes \<Rightarrow> bytes) \<Rightarrow> repo \<Rightarrow> bool" where
  "repo_ok sha1 r \<longleftrightarrow>
     containers_dir r \<noteq> None \<and> recipes_dir r \<noteq> None \<and>
     (\<exists>m. load_index r = Inr m \<and> mm_ok m \<and> fp_table_added m = []) \<and>
     store_ok sha1 (stored r) (repo_index r) \<and> sizes_ok (stored r) \<and> index_ok (repo_index r) \<and>
     recipes_ok (entries (recipes_dir r)) \<and>
     (\<forall>fp. refs (repo_contents r) fp = uses (entries (recipes_dir r)) fp)"

text \<open>
  The numbers that the counts of the two directories give are free. A write keeps this; a
  deletion need not.
\<close>

definition numbered :: "repo \<Rightarrow> bool" where
  "numbered r \<longleftrightarrow>
     (\<forall>i \<ge> int (length (entries (containers_dir r))).
        stored r (container_name i) = None \<and> stored r (rev_name i) = None) \<and>
     (\<forall>i \<ge> int (length (entries (recipes_dir r))). version_fps r i = None)"

lemma repo_okD:
  assumes "repo_ok sha1 r"
  obtains d rd m where "containers_dir r = Some d" and "recipes_dir r = Some rd"
    and "load_index r = Inr m" and "mm_ok m" and "fp_table_added m = []" and "repo_index r = index m"
    and "index m = map_of (fp_table_origin m)"
proof -
  from assms obtain d rd m where r: "containers_dir r = Some d" "recipes_dir r = Some rd"
    "load_index r = Inr m" "mm_ok m" "fp_table_added m = []"
    unfolding repo_ok_def by auto
  moreover have "index m = map_of (fp_table_origin m)"
    using r(5) by (auto simp: index_def fun_eq_iff split: option.split)
  ultimately show thesis using that by (simp add: repo_index_def)
qed

lemma repo_ok_parts:
  assumes "repo_ok sha1 r"
  shows "store_ok sha1 (stored r) (repo_index r)" and "sizes_ok (stored r)" and "index_ok (repo_index r)"
    and "recipes_ok (entries (recipes_dir r))"
    and "refs (repo_contents r) fp = uses (entries (recipes_dir r)) fp"
  using assms unfolding repo_ok_def by blast+

text \<open>Every fingerprint of a version is in the index, with a chunk that resolves.\<close>

lemma uses_pos: "e \<in> set d \<Longrightarrow> fp \<in> set (file_fps (snd e)) \<Longrightarrow> 0 < uses d fp"
proof -
  assume e: "e \<in> set d" and fp: "fp \<in> set (file_fps (snd e))"
  have "0 < count_list (file_fps (snd e)) fp" using fp by (metis count_list_0_iff gr0I)
  moreover have "count_list (file_fps (snd e)) fp \<le> uses d fp"
    unfolding uses_def using e by (intro member_le_sum_list) auto
  ultimately show ?thesis by linarith
qed

lemma version_resolves:
  assumes ok: "repo_ok sha1 r" and v: "version_fps r v = Some fps" and fp: "fp \<in> set fps"
  obtains e c where "repo_index r fp = Some e" and "chunk_at (stored r) e = Some c"
    and "repo_contents r fp = Some (c, unat (ref_cnt e))"
proof -
  from v obtain f where f: "map_of (entries (recipes_dir r)) (recipe_name v) = Some f" "fps = file_fps f"
    by (auto simp: version_fps_def)
  have "0 < uses (entries (recipes_dir r)) fp"
    using uses_pos [OF map_of_SomeD [OF f(1)]] f(2) fp by simp
  then have "repo_contents r fp \<noteq> None"
    using repo_ok_parts(5) [OF ok, of fp] by (auto simp: refs_def split: option.splits)
  then have "fp \<in> dom (contents (stored r) (repo_index r))" by (simp add: repo_contents_def dom_def)
  then have "fp \<in> dom (repo_index r)"
    unfolding store_ok_dom [OF repo_ok_parts(1) [OF ok]] .
  then obtain e where e: "repo_index r fp = Some e" by (auto simp: dom_def)
  from store_ok_chunk [OF repo_ok_parts(1) [OF ok] e] that e show thesis
    unfolding repo_contents_def by blast
qed

lemma contents_used:
  assumes "repo_ok sha1 r"
  shows "repo_contents r fp \<noteq> None \<longleftrightarrow> 0 < uses (entries (recipes_dir r)) fp"
proof
  assume "repo_contents r fp \<noteq> None"
  then obtain e where e: "repo_index r fp = Some e"
    by (auto simp: repo_contents_def contents_def split: option.splits)
  obtain c where "repo_contents r fp = Some (c, unat (ref_cnt e))"
    using store_ok_chunk [OF repo_ok_parts(1) [OF assms] e] unfolding repo_contents_def by blast
  moreover have "0 < unat (ref_cnt e)"
    using repo_ok_parts(3) [OF assms] e by (simp add: index_ok_def word_less_nat_alt)
  ultimately show "0 < uses (entries (recipes_dir r)) fp"
    using repo_ok_parts(5) [OF assms, of fp] by (simp add: refs_def)
next
  assume "0 < uses (entries (recipes_dir r)) fp"
  then show "repo_contents r fp \<noteq> None"
    using repo_ok_parts(5) [OF assms, of fp] by (auto simp: refs_def split: option.splits)
qed

section \<open>Restoring a version\<close>

lemma chunk_in_container:
  assumes "sizes_ok D" and "chunk_at D e = Some c" and "uint (container_number e) < 2 ^ 31"
  shows "e \<in> container_entries"
  using assms
  by (fastforce simp: container_entries_def chunk_at_def sizes_ok_def split: option.splits if_splits)

lemma read_recipe_nonempty: "f \<noteq> [] \<Longrightarrow> read_recipe buf f \<noteq> []"
  by (subst read_recipe.simps) (simp add: Let_def)

lemma read_recipe_length: "length (read_recipe buf f) \<le> length f"
proof (induction f arbitrary: buf rule: length_induct)
  case (1 f)
  show ?case
  proof (cases "f = []")
    case False
    then have "length (drop SHA1_LENGTH f) < length f" by (simp add: SHA1_LENGTH_def)
    moreover from this 1 have "length (read_recipe b (drop SHA1_LENGTH f)) \<le> length (drop SHA1_LENGTH f)" for b
      by blast
    ultimately have "length (read_recipe b (drop SHA1_LENGTH f)) < length f" for b
      using le_less_trans by blast
    with False show ?thesis
      by (subst read_recipe.simps) (simp add: Let_def Suc_le_eq)
  qed (simp add: read_recipe.simps)
qed

text \<open>
  A version is restored from any repository that has the index of \<open>r\<close>, its recipe and at least
  its containers.
\<close>

lemma restore_version_ext:
  assumes ok: "repo_ok sha1 r" and v: "version_data r v = Some data" and v255: "0 \<le> v" "v < 256"
    and alg: "supported alg" and index: "load_index r1 = load_index r"
    and recipe1: "map_of (entries (recipes_dir r1)) (recipe_name v) = map_of (entries (recipes_dir r)) (recipe_name v)"
    and more: "\<And>i f. stored r (container_name i) = Some f \<Longrightarrow> stored r1 (container_name i) = Some f"
  shows "task_restore alg buf r1 v output =
    Inr (Some (overlay (case output of None \<Rightarrow> [] | Some f \<Rightarrow> f) 0 data))"
proof -
  from ok obtain d rd m where r: "containers_dir r = Some d" "recipes_dir r = Some rd"
    "load_index r = Inr m" "mm_ok m" "fp_table_added m = []" "repo_index r = index m"
    "index m = map_of (fp_table_origin m)" by (rule repo_okD)
  from v obtain fps where fps: "version_fps r v = Some fps"
    and data: "data = concat (map (chunk_of (repo_contents r)) fps)"
    by (auto simp: version_data_def)
  then obtain f where f: "map_of rd (recipe_name v) = Some f" "fps = file_fps f"
    by (auto simp: version_fps_def r(2) entries_def)
  let ?recipe = "read_recipe (replicate SHA1_LENGTH 0) f"
  have "f \<noteq> []" "length f < 2 ^ 64"
    using repo_ok_parts(4) [OF ok] map_of_SomeD [OF f(1)] by (auto simp: recipes_ok_def r(2) entries_def)
  then have recipe: "?recipe \<noteq> []" "length ?recipe < 2 ^ 64"
    using read_recipe_nonempty read_recipe_length [of "replicate SHA1_LENGTH 0" f] by (auto simp: le_less_trans)
  have name: "getRecipeNameFromVersion (of_int v) = recipe_name v"
  proof -
    have "uint (of_int v :: 8 word) = v" using v255 by (simp add: uint_word_of_int)
    then show ?thesis by (simp add: getRecipeNameFromVersion_def)
  qed
  let ?D = "stored r1" and ?E = "ran (repo_index r)"
  have more_chunks: "chunk_at ?D e = Some c" if "chunk_at (stored r) e = Some c" for e c
    using that more by (auto simp: chunk_at_def split: option.splits)
  have "recipe_chunks ?D ?E m ?recipe (map (\<lambda>x. chunk_of (repo_contents r) (dec_fp x)) ?recipe)"
    unfolding recipe_chunks_def list_all2_map2
  proof (rule list.rel_refl_strong)
    fix x assume "x \<in> set ?recipe"
    then have "dec_fp x \<in> set fps" by (simp add: f(2) file_fps_def)
    from version_resolves [OF ok fps this] obtain e c where
      "repo_index r (dec_fp x) = Some e" "chunk_at (stored r) e = Some c"
      "repo_contents r (dec_fp x) = Some (c, unat (ref_cnt e))" by blast
    then show "\<exists>e \<in> ?E. map_of (fp_table_origin m) (dec_fp x) = Some e \<and>
        chunk_at ?D e = Some (chunk_of (repo_contents r) (dec_fp x))"
      using r(6,7) more_chunks by (intro bexI [of _ e]) (auto simp: chunk_of_def intro: ranI)
  qed
  moreover have "?E \<subseteq> container_entries"
  proof
    fix e assume "e \<in> ?E"
    then obtain fp where e: "repo_index r fp = Some e" by (auto simp: ran_def)
    obtain c where "chunk_at (stored r) e = Some c" using store_ok_chunk [OF repo_ok_parts(1) [OF ok] e] by blast
    then show "e \<in> container_entries"
      using repo_ok_parts(2,3) [OF ok] e by (intro chunk_in_container) (auto simp: index_ok_def)
  qed
  moreover have "ids_agree ?D ?E"
    using repo_ok_parts(3) [OF ok] by (intro ids_agree_distinct) (simp add: index_ok_def)
  ultimately have "restore_bytes alg ?D buf m ?recipe =
      Inr (concat (map (\<lambda>x. chunk_of (repo_contents r) (dec_fp x)) ?recipe))"
    using recipe alg by (intro restore_bytes_spec)
  moreover have "concat (map (\<lambda>x. chunk_of (repo_contents r) (dec_fp x)) ?recipe) = data"
    by (simp add: data f(2) file_fps_def comp_def)
  ultimately show ?thesis
    using f(1) recipe1
    by (simp add: task_restore_def index r(3) fileRecipeExist_def getFileRecipe_def name stored_def)
      (simp add: entries_def r(2))
qed

lemma restore_version_spec:
  assumes "repo_ok sha1 r" and "version_data r v = Some data" and "0 \<le> v" "v < 256" and "supported alg"
  shows "task_restore alg buf r v output =
    Inr (Some (overlay (case output of None \<Rightarrow> [] | Some f \<Rightarrow> f) 0 data))"
  by (rule restore_version_ext [OF assms]) simp_all

section \<open>Restoring with an empty index\<close>

text \<open>
  The caches end with an error at the first fingerprint. The forward assembly area never asks
  \<open>dedupLookup\<close>: it gets a zero entry for every fingerprint, writes nothing and succeeds.
\<close>

text \<open>A table that holds zero entries only gives a zero entry for every fingerprint.\<close>

definition zero_table :: "MetadataManager \<Rightarrow> bool" where
  "zero_table m \<longleftrightarrow> (\<forall>e\<in>set (fp_table_origin m). snd e = zero_entry)"

lemma getEntry_zero:
  "zero_table m \<Longrightarrow> fst (getEntry m fp) = zero_entry \<and> zero_table (snd (getEntry m fp))"
  by (fastforce simp: zero_table_def getEntry_def emplace_def dest: map_of_SomeD split: option.splits)

lemma faa_fill_zero:
  assumes "zero_table m" and "written \<le> FILE_CACHE"
  shows "\<exists>m'. faa_fill m start written xs = (replicate (length xs) (recipe_entry zero_entry start), written, [], m')"
  using assms
proof (induction xs arbitrary: m)
  case (Cons x xs)
  obtain ev m' where ev: "getEntry m (dec_fp x) = (ev, m')" by (cases "getEntry m (dec_fp x)")
  then have "ev = zero_entry" "zero_table m'" using getEntry_zero [OF Cons.prems(1), of "dec_fp x"] by simp_all
  with Cons.IH [of m'] Cons.prems(2) ev show ?case by (auto simp: zero_entry_def)
qed simp

lemma faa_copy_zero:
  "faa_copy 0 container [] (replicate n (recipe_entry zero_entry 0)) =
     Inr ([], replicate n ((recipe_entry zero_entry 0)\<lparr>used := True\<rparr>))"
  by (induction n) (simp_all add: recipe_entry_def zero_entry_def overlay_def array_prefix_def)

lemma faa_assemble_zero:
  "faa_assemble D [] (recipe_entry zero_entry 0 # replicate k (recipe_entry zero_entry 0)) = Inr ([], [0])"
proof -
  let ?e = "recipe_entry zero_entry 0" and ?u = "(recipe_entry zero_entry 0)\<lparr>used := True\<rparr>"
  have "unused (?e # replicate k ?e) = ?e # replicate k ?e" "CID ?e = 0"
    by (simp_all add: unused_def recipe_entry_def zero_entry_def)
  moreover have "faa_copy 0 c [] (?e # replicate k ?e) = Inr ([], ?u # replicate k ?u)" for c
    using faa_copy_zero [of c "Suc k"] by (simp del: faa_copy.simps)
  moreover have "faa_assemble D [] (?u # replicate k ?u) = Inr ([], [])"
    by (subst faa_assemble.simps) (simp add: unused_def)
  ultimately show ?thesis
    by (simp add: faa_assemble.simps [of D "[]" "?e # replicate k ?e"] del: faa_copy.simps)
qed

lemma restore_with_faa_zero:
  assumes "zero_table m"
  shows "restore_with_faa D m (x # xs) = Inr []"
proof -
  obtain m' where "faa_fill m 0 0 (x # xs) = (recipe_entry zero_entry 0 # replicate (length xs) (recipe_entry zero_entry 0), 0, [], m')"
    using faa_fill_zero [OF assms, of 0 0 "x # xs"] by (auto simp del: faa_fill.simps)
  then show ?thesis
    using faa_assemble_zero
    by (simp add: restore_with_faa_def faa_segments.simps [of D m] faa_segments.simps [of D m' _ _ "[]"]
        flushAssemblingBuffer_def array_prefix_def del: faa_fill.simps)
qed

lemma restore_with_cache_empty: "restore_with_cache g s mm_new (x # xs) = Inl ExitFailure"
  by (simp add: restore_with_cache_def restore_chunk_def restorer_start_def dedupLookup_def mm_new_def)

lemma empty_index_restore:
  assumes "load_index r = Inr mm_new" and f: "map_of (entries (recipes_dir r)) (recipe_name v) = Some f" "f \<noteq> []"
    and v: "0 \<le> v" "v < 256"
  shows "alg \<in> {CONTAINER_CACHE, CHUNK_CACHE} \<Longrightarrow> task_restore alg buf r v output = Inl ExitFailure"
    and "task_restore FAA_FIXED buf r v output = Inr (Some (case output of None \<Rightarrow> [] | Some g \<Rightarrow> g))"
proof -
  have name: "getRecipeNameFromVersion (of_int v) = recipe_name v"
    using v by (simp add: getRecipeNameFromVersion_def uint_word_of_int)
  obtain x xs where recipe: "read_recipe (replicate SHA1_LENGTH 0) f = x # xs"
    using read_recipe_nonempty [OF f(2)] by (metis neq_Nil_conv)
  show "task_restore alg buf r v output = Inl ExitFailure" if "alg \<in> {CONTAINER_CACHE, CHUNK_CACHE}"
    using that f(1) by (auto simp: task_restore_def assms(1) fileRecipeExist_def getFileRecipe_def name recipe
        restore_bytes_def restore_with_cache_empty)
  have "zero_table mm_new" by (simp add: zero_table_def mm_new_def)
  then show "task_restore FAA_FIXED buf r v output = Inr (Some (case output of None \<Rightarrow> [] | Some g \<Rightarrow> g))"
    using f(1) by (simp add: task_restore_def assms(1) fileRecipeExist_def getFileRecipe_def name recipe
        restore_bytes_def restore_with_faa_zero overlay_def)
qed

section \<open>Writing a version\<close>

lemma refs_put_chunk: "refs (put_chunk sha1 d st) fp = refs st fp + (if fp_of sha1 d = fp then 1 else 0)"
  by (auto simp: refs_def put_chunk_def split: option.splits)

lemma refs_put_chunks:
  "refs (fold (put_chunk sha1) ds st) fp = refs st fp + count_list (map (fp_of sha1) ds) fp"
  by (induction ds arbitrary: st) (auto simp: refs_put_chunk)

lemma dom_put_chunks: "dom (fold (put_chunk sha1) ds st) = dom st \<union> fp_of sha1 ` set ds"
  by (induction ds arbitrary: st) (auto simp: put_chunk_def)

lemma chunk_of_put_chunks_old:
  "fp \<in> dom st \<Longrightarrow> chunk_of (fold (put_chunk sha1) ds st) fp = chunk_of st fp"
proof (induction ds arbitrary: st)
  case (Cons d ds)
  then have "fp \<in> dom (put_chunk sha1 d st)" by (auto simp: put_chunk_def)
  with Cons have "chunk_of (fold (put_chunk sha1) (d # ds) st) fp = chunk_of (put_chunk sha1 d st) fp" by simp
  also have "\<dots> = chunk_of st fp"
    using Cons.prems by (auto simp: chunk_of_def put_chunk_def split: option.splits)
  finally show ?case .
qed simp

text \<open>No two different chunks, stored or new, have the same fingerprint.\<close>

definition collision_free :: "(bytes \<Rightarrow> bytes) \<Rightarrow> contents \<Rightarrow> bytes list \<Rightarrow> bool" where
  "collision_free sha1 st ds \<longleftrightarrow> inj_on (fp_of sha1) (set ds) \<and>
     (\<forall>d \<in> set ds. \<forall>c n. st (fp_of sha1 d) = Some (c, n) \<longrightarrow> c = d)"

lemma chunk_of_put_chunks_new:
  "collision_free sha1 st ds \<Longrightarrow> d \<in> set ds \<Longrightarrow> chunk_of (fold (put_chunk sha1) ds st) (fp_of sha1 d) = d"
proof (induction ds arbitrary: st)
  case (Cons a ds)
  let ?st = "put_chunk sha1 a st"
  have a: "chunk_of ?st (fp_of sha1 a) = a" "fp_of sha1 a \<in> dom ?st"
    using Cons.prems(1) by (auto simp: collision_free_def chunk_of_def put_chunk_def split: option.splits)
  show ?case
  proof (cases "d = a")
    case True
    then show ?thesis using a chunk_of_put_chunks_old [OF a(2), of sha1 ds] by simp
  next
    case False
    have "collision_free sha1 ?st ds"
      using Cons.prems(1) by (auto simp: collision_free_def put_chunk_def inj_on_def split: if_splits option.splits)
    with Cons False show ?thesis by simp
  qed
qed simp

lemma update_new: "map_of d k = None \<Longrightarrow> AList.update k v d = d @ [(k, v)]"
  by (induction d) auto

lemma file_fps_concat:
  assumes "\<forall>x \<in> set xs. length x = SHA1_LENGTH"
  shows "file_fps (concat xs) = map dec_fp xs"
  using read_recipe_concat [OF _ assms, of "replicate SHA1_LENGTH 0"] by (simp add: file_fps_def)

lemma store_ok_forget:
  assumes ok: "store_ok sha1 (D(container_name k \<mapsto> [], rev_name k \<mapsto> g)) idx"
    and new: "D (container_name k) = None" "D (rev_name k) = None"
  shows "store_ok sha1 D idx \<and> contents D idx = contents (D(container_name k \<mapsto> [], rev_name k \<mapsto> g)) idx"
proof -
  let ?D = "D(container_name k \<mapsto> [], rev_name k \<mapsto> g)"
  have other: "uint (container_number e) \<noteq> k" if e: "idx fp = Some e" for fp e
  proof
    assume "uint (container_number e) = k"
    moreover obtain c where "chunk_at ?D e = Some c" "c \<noteq> []" using store_ok_chunk [OF ok e] by blast
    ultimately show False by (auto simp: chunk_at_def segment_def split: if_splits)
  qed
  have at: "chunk_at ?D e = chunk_at D e" if "idx fp = Some e" for fp e
    using other [OF that] by (auto simp: chunk_at_def)
  have "contents D idx = contents ?D idx"
  proof
    fix fp
    show "contents D idx fp = contents ?D idx fp"
      by (cases "idx fp") (simp_all add: contents_def at del: chunk_at_other)
  qed
  moreover have "resolves sha1 D idx"
    using ok at unfolding store_ok_def resolves_def by metis
  moreover have "rev_ok D idx"
    unfolding rev_ok_def
  proof (intro conjI allI impI)
    fix j f assume f: "D (rev_name j) = Some f"
    then have "?D (rev_name j) = Some f" using new(2) by auto
    then show "\<exists>fps. rev_file f fps \<and> distinct fps \<and> set fps = in_container idx j"
      using ok unfolding store_ok_def rev_ok_def by blast
  next
    fix fp e assume e: "idx fp = Some e"
    have "?D (rev_name (uint (container_number e))) \<noteq> None"
      using ok e unfolding store_ok_def rev_ok_def by blast
    then show "D (rev_name (uint (container_number e))) \<noteq> None" using other [OF e] by simp
  qed
  ultimately show ?thesis using ok by (simp add: store_ok_def)
qed

text \<open>The loop starts from the repository, with an empty container of a free number.\<close>

lemma writer_start_ok:
  assumes ok: "repo_ok sha1 r" and nb: "numbered r" and d: "containers_dir r = Some d"
    and m: "load_index r = Inr m" and len: "length d < 2 ^ 31"
  shows "writer_ok sha1 (writer_start m d)" and "writer_tidy (writer_start m d)"
    and "contents (view (writer_start m d)) (index m) = repo_contents r"
proof -
  let ?k = "int (length d)" and ?w = "writer_start m d"
  have u: "uint (of_nat (length d) :: u32) = ?k" using unat_of_length [OF len] by (simp only: uint_nat)
  moreover have "sint (of_nat (length d) :: u32) = ?k"
    using sint_uint_small [of "of_nat (length d)"] len unfolding u by simp
  ultimately have idx: "uint (container_index ?w) = ?k" "sint (container_index ?w) = ?k"
    by (simp_all add: writer_start_def)
  have mm: "mm_ok m" "repo_index r = index m"
    using ok m unfolding repo_ok_def by (auto simp: repo_index_def)
  have D: "stored r = map_of d" by (simp add: stored_def d entries_def)
  have new: "map_of d (container_name i) = None" "map_of d (rev_name i) = None" if "?k \<le> i" for i
    using nb that by (auto simp: numbered_def d entries_def stored_def)
  have v: "view ?w = (map_of d)(container_name ?k \<mapsto> [], rev_name ?k \<mapsto> enc_u32 0)"
    using new idx(2)
    by (simp add: view_def saved_dir_def saveContainer_def put_file_new) (simp add: writer_start_def array_prefix_def put_file_new)
  have st: "store_ok sha1 (map_of d) (index m)" using repo_ok_parts(1) [OF ok] D mm(2) by simp
  show "contents (view ?w) (index m) = repo_contents r"
    unfolding v repo_contents_def D mm(2) by (rule store_ok_new_container [OF st]) (simp add: new)
  have "store_ok sha1 (view ?w) (index m)"
    unfolding v by (rule store_ok_new_container [OF st]) (simp add: new)
  then show "writer_ok sha1 ?w"
    using mm(1) new idx(1) by (simp add: writer_ok_def) (simp add: writer_start_def CONTAINER_SIZE_def)
  have "uint (container_number e) < ?k" if e: "index m fp = Some e" for fp e
    using store_ok_no_entry [OF st new(1) e, of "uint (container_number e)"] by force
  then have "uint (container_number e) \<le> ?k \<and> container_number e \<noteq> container_index ?w" if "index m fp = Some e" for fp e
    using that idx(1) by force
  then show "writer_tidy ?w"
    using repo_ok_parts(2,3) [OF ok] idx(1) D mm(2)
    by (auto simp: writer_tidy_def index_ok_def) (auto simp: writer_start_def)
qed

definition last_save :: "writer \<Rightarrow> dir" where
  "last_save w = (if 0 < container_buf_pointer w then saved_dir w else cdir w)"

lemma last_save_ok:
  assumes ok: "writer_ok sha1 w" and tidy: "writer_tidy w" and room: "writer_room w []"
  shows "store_ok sha1 (map_of (last_save w)) (index (manager w))"
    and "contents (map_of (last_save w)) (index (manager w)) = contents (view w) (index (manager w))"
    and "sizes_ok (map_of (last_save w))"
    and "\<forall>i \<ge> int (length (last_save w)).
      map_of (last_save w) (container_name i) = None \<and> map_of (last_save w) (rev_name i) = None"
proof -
  let ?k = "uint (container_index w)"
  have k: "?k < 2 ^ 31" "sint (container_index w) = ?k"
    using room by (simp_all add: writer_room_def sint_uint_small)
  have st: "store_ok sha1 (view w) (index (manager w))" using ok by (simp add: writer_ok_def)
  have fresh: "map_of (cdir w) (container_name i) = None" "map_of (cdir w) (rev_name i) = None"
    if "?k \<le> i" for i
    using ok that by (auto simp: writer_ok_def)
  have ptr: "unat (container_buf_pointer w) = length (container_buf w)" using ok by (simp add: writer_ok_def)
  have len: "?k \<le> int (length (cdir w))" using tidy by (simp add: writer_tidy_def)
  note v = view_fresh [OF ok k(1)]
  have "store_ok sha1 (map_of (last_save w)) (index (manager w)) \<and>
    contents (map_of (last_save w)) (index (manager w)) = contents (view w) (index (manager w))"
  proof (cases "0 < container_buf_pointer w")
    case True
    then show ?thesis using st by (simp add: last_save_def view_def)
  next
    case False
    then have "container_buf w = []" using ptr by (simp add: word_gt_0)
    then show ?thesis
      using st store_ok_forget [of sha1 "map_of (cdir w)" ?k _ "index (manager w)"] fresh [of ?k] False
      unfolding v by (simp add: last_save_def)
  qed
  then show "store_ok sha1 (map_of (last_save w)) (index (manager w))"
    and "contents (map_of (last_save w)) (index (manager w)) = contents (view w) (index (manager w))"
    by blast+
  have "unat (rev_container_cnt w) * 20 \<le> CONTAINER_SIZE" using writer_room_cnt [OF ok room] by simp
  then show "sizes_ok (map_of (last_save w))"
    using tidy ok by (auto simp: last_save_def saved_dir_def writer_tidy_def writer_ok_def intro: sizes_ok_save)
  show "\<forall>i \<ge> int (length (last_save w)).
      map_of (last_save w) (container_name i) = None \<and> map_of (last_save w) (rev_name i) = None"
  proof (cases "0 < container_buf_pointer w")
    case True
    have "length (saved_dir w) = length (cdir w) + 2"
      unfolding saved_dir_def k(2) by (rule length_saveContainer) (simp_all add: fresh)
    then have "map_of (saved_dir w) (container_name i) = None \<and> map_of (saved_dir w) (rev_name i) = None"
      if "int (length (saved_dir w)) \<le> i" for i
      using that len fresh [of i] unfolding view_def [symmetric] v by simp
    with True show ?thesis by (simp add: last_save_def)
  next
    case False
    then show ?thesis using fresh len by (simp add: last_save_def)
  qed
qed

text \<open>Room for the chunks \<open>ds\<close> in the counters, the fingerprint lists and the index buffer.\<close>

definition write_room :: "repo \<Rightarrow> bytes list \<Rightarrow> bool" where
  "write_room r ds \<longleftrightarrow>
     length (entries (containers_dir r)) + length ds < 2 ^ 31 \<and> short_chunks ds \<le> 32000 \<and>
     (\<forall>fp. refs (repo_contents r) fp + length ds < 2 ^ 32) \<and>
     card (dom (repo_index r)) + length ds \<le> FILE_CACHE div META_DATA_SIZE"

lemma card_index: "mm_ok m \<Longrightarrow> length (fp_table_added m @ fp_table_origin m) = card (dom (index m))"
proof -
  assume ok: "mm_ok m"
  have "dom (index m) = set (map fst (fp_table_added m @ fp_table_origin m))"
    unfolding index_append [OF ok] dom_map_of_conv_image_fst by (simp add: image_Un)
  then show ?thesis using distinct_card [OF mm_ok_distinct [OF ok]] by (metis length_map)
qed

lemma load_save:
  assumes ok: "mm_ok m" and card: "card (dom (index m)) \<le> FILE_CACHE div META_DATA_SIZE"
  shows "index (load (Some (save m)) mm_new) = index m \<and> mm_ok (load (Some (save m)) mm_new) \<and>
    fp_table_added (load (Some (save m)) mm_new) = []"
proof -
  let ?xs = "fp_table_added m @ fp_table_origin m"
  have "length ?xs * META_DATA_SIZE \<le> FILE_CACHE"
    using card card_index [OF ok] by (simp add: META_DATA_SIZE_def less_eq_div_iff_mult_less_eq)
  then show ?thesis
    unfolding save_items
    using load_save_index [OF ok refl] mm_ok_load_items [OF mm_ok_distinct [OF ok]]
    by (simp add: load_added mm_new_def)
qed

lemma refs_index:
  assumes "store_ok sha1 D idx" and "idx fp = Some e"
  shows "refs (contents D idx) fp = unat (ref_cnt e)"
proof -
  obtain c where "contents D idx fp = Some (c, unat (ref_cnt e))" by (rule store_ok_chunk [OF assms])
  then show ?thesis by (simp add: refs_def)
qed

lemma writer_start_room:
  assumes ok: "repo_ok sha1 r" and room: "write_room r ds"
    and d: "containers_dir r = Some d" and m: "load_index r = Inr m"
  shows "writer_room (writer_start m d) ds"
proof -
  have len: "length d + length ds < 2 ^ 31" using room by (simp add: write_room_def d entries_def)
  then have len': "length d < 2 ^ 31" by simp
  have idx: "repo_index r = index m" by (simp add: repo_index_def m)
  have "uint (container_index (writer_start m d)) = int (length d)"
    using unat_of_length [OF len'] by (simp only: writer_start_def writer.simps uint_nat)
  moreover have "unat (ref_cnt e) + length ds < 2 ^ 32" if "index m fp = Some e" for fp e
  proof -
    have "refs (repo_contents r) fp + length ds < 2 ^ 32" using room unfolding write_room_def by blast
    then show ?thesis
      using refs_index [OF repo_ok_parts(1) [OF ok], of fp e] that unfolding repo_contents_def idx by simp
  qed
  ultimately show ?thesis
    using room len by (simp add: writer_room_def write_room_def) (simp add: writer_start_def)
qed

lemma write_version_spec:
  assumes ok: "repo_ok sha1 r" and nb: "numbered r" and room: "write_room r ds" and ne: "ds \<noteq> []"
    and chunks: "file_chunks ck c f = Some (Inr (ds, c'))"
    and sizes: "\<forall>d \<in> set ds. d \<noteq> [] \<and> length d < 2 ^ 16"
  shows "\<exists>r'. task_write sha1 ck c r (Some f) = Some (Inr r') \<and> repo_ok sha1 r' \<and> numbered r' \<and>
    repo_contents r' = fold (put_chunk sha1) ds (repo_contents r) \<and>
    version_fps r' = (version_fps r)(int (length (entries (recipes_dir r))) \<mapsto> map (fp_of sha1) ds) \<and>
    length (entries (recipes_dir r')) = Suc (length (entries (recipes_dir r)))"
proof -
  from ok obtain d rd m where r: "containers_dir r = Some d" "recipes_dir r = Some rd"
    "load_index r = Inr m" "mm_ok m" "fp_table_added m = []" "repo_index r = index m"
    "index m = map_of (fp_table_origin m)" by (rule repo_okD)
  have len: "length d + length ds < 2 ^ 31" using room by (simp add: write_room_def r(1) entries_def)
  then have len': "length d < 2 ^ 31" by simp
  let ?w = "writer_start m d" and ?n = "int (length rd)"
  note start = writer_start_ok [OF ok nb r(1,3) len']
  have mw: "manager ?w = m" by (simp add: writer_start_def)
  note start_room = writer_start_room [OF ok room r(1,3)]
  from write_chunks [OF start(1) start_room sizes] obtain w where
    w: "foldE (write_chunk sha1) ?w ds = Inr w" "writer_ok sha1 w" "writer_room w []"
    "contents (view w) (index (manager w)) = fold (put_chunk sha1) ds (repo_contents r)"
    "file_recipe w = map (\<lambda>d. enc_fp (fp_of sha1 d)) ds" "sum_chunks w = int (length ds)"
    unfolding mw start(3) by (auto simp: writer_start_def)
  have tidy: "writer_tidy w"
    using write_chunks_tidy [OF start(1) start_room start(2) sizes w(1)] .
  note save = last_save_ok [OF w(2) tidy w(3)]
  let ?recipe = "concat (file_recipe w)"
  let ?rd' = "rd @ [(recipe_name ?n, ?recipe)]"
  let ?r' = "\<lparr>containers_dir = Some (last_save w), recipes_dir = Some ?rd',
    fingerprints_file = Some (save (manager w))\<rparr>"
  have new: "map_of rd (recipe_name i) = None" if "?n \<le> i" for i
    using nb that by (auto simp: numbered_def version_fps_def r(2) entries_def)
  have fps20: "\<forall>x \<in> set (file_recipe w). length x = SHA1_LENGTH"
    by (simp add: w(5) fp_codec.width SHA1_LENGTH_def)
  then have take20: "map (take SHA1_LENGTH) (file_recipe w) = file_recipe w" by (simp add: map_idI)
  have rec: "saveFileRecipe (file_recipe w) (Some rd) = Inr (Some ?rd')"
    using new [of ?n] unfolding saveFileRecipe_def take20
    by (simp add: getFilesNum_def entries_def put_file_def update_new buf_simps)
  have sum: "sum_chunks w \<noteq> 0" using ne w(6) by simp
  have run: "task_write sha1 ck c r (Some f) = Some (Inr ?r')"
    using r(1,2,3) w(1) rec sum
    by (simp add: task_write_def write_blocks_fold [OF chunks] write_end_cases last_save_def saved_dir_def Let_def)
  have ne_recipe: "?recipe \<noteq> []" "length ?recipe < 2 ^ 64"
  proof -
    have "file_recipe w = map enc_fp (map (fp_of sha1) ds)" by (simp add: w(5))
    then have "length ?recipe = length ds * 20" by (simp only: fp_codec.length_table length_map)
    then show "?recipe \<noteq> []" "length ?recipe < 2 ^ 64"
      using ne len by (metis length_0_conv mult_is_0 zero_neq_numeral, simp)
  qed
  have fps: "file_fps ?recipe = map (fp_of sha1) ds"
    using file_fps_concat [OF fps20] by (simp add: w(5) comp_def fp_codec.dec_enc)
  have mok: "mm_ok (manager w)" using w(2) by (simp add: writer_ok_def)
  have dom': "dom (index (manager w)) = dom (index m) \<union> fp_of sha1 ` set ds"
  proof -
    have "dom (index (manager w)) = dom (contents (view w) (index (manager w)))"
      using w(2) store_ok_dom [of sha1 "view w" "index (manager w)"] by (simp add: writer_ok_def)
    also have "\<dots> = dom (repo_contents r) \<union> fp_of sha1 ` set ds" by (simp add: w(4) dom_put_chunks)
    finally show ?thesis
      using store_ok_dom [OF repo_ok_parts(1) [OF ok]] by (simp add: repo_contents_def r(6))
  qed
  have card: "card (dom (index (manager w))) \<le> FILE_CACHE div META_DATA_SIZE"
  proof -
    have "card (fp_of sha1 ` set ds) \<le> length ds"
      by (meson card_image_le card_length List.finite_set le_trans)
    then have "card (dom (index (manager w))) \<le> card (dom (index m)) + length ds"
      unfolding dom' by (meson card_Un_le add_left_mono le_trans)
    then show ?thesis using room by (simp add: write_room_def r(6))
  qed
  note ls = load_save [OF mok card]
  have load: "load_index ?r' = Inr (load (Some (save (manager w))) mm_new)"
    by (simp add: load_index_def getFilesNum_def)
  then have idx: "repo_index ?r' = index (manager w)" using ls by (simp add: repo_index_def)
  have st: "stored ?r' = map_of (last_save w)" by (simp add: stored_def entries_def)
  have cont: "repo_contents ?r' = fold (put_chunk sha1) ds (repo_contents r)"
    unfolding repo_contents_def [of ?r'] idx st save(2) w(4) ..
  have refs: "refs (repo_contents ?r') fp = uses ?rd' fp" for fp
    using repo_ok_parts(5) [OF ok, of fp]
    by (simp add: cont refs_put_chunks uses_def fps r(2) entries_def)
  have "index_ok (index (manager w))"
    unfolding index_ok_def
  proof (intro conjI allI impI)
    show "finite (dom (index (manager w)))"
      using dom' repo_ok_parts(3) [OF ok] by (simp add: index_ok_def r(6))
    fix fp e assume e: "index (manager w) fp = Some e"
    have "uint (container_number e) \<le> uint (container_index w)" "0 < ref_cnt e"
      using tidy e unfolding writer_tidy_def by blast+
    then show "uint (container_number e) < 2 ^ 31" "0 < ref_cnt e"
      using w(3) by (auto simp: writer_room_def)
  qed (use tidy card in \<open>simp_all add: writer_tidy_def\<close>)
  moreover have "recipes_ok ?rd'"
    using repo_ok_parts(4) [OF ok] new [of ?n] ne_recipe
    by (auto simp: recipes_ok_def r(2) entries_def map_of_eq_None_iff)
  ultimately have "repo_ok sha1 ?r'"
    using load ls save(1,3) refs unfolding repo_ok_def idx st by (simp add: entries_def)
  moreover have "version_fps ?r' = (version_fps r)(?n \<mapsto> map (fp_of sha1) ds)"
    using new [of ?n] by (auto simp: fun_eq_iff version_fps_def entries_def r(2) fps map_add_def split: option.split)
  moreover have "numbered ?r'"
    using save(4) new by (auto simp: numbered_def st entries_def version_fps_def)
  ultimately show ?thesis
    using run cont by (intro exI [of _ ?r']) (simp add: r(2) entries_def)
qed

section \<open>Deleting a version\<close>

lemma refs_drop_chunks: "refs (fold drop_chunk fps st) fp = refs st fp - count_list fps fp"
  by (induction fps arbitrary: st) (auto simp: refs_drop)

lemma drop_chunk_Some: "drop_chunk fp st x = Some (c, n) \<Longrightarrow> \<exists>n'. st x = Some (c, n')"
  by (auto simp: drop_chunk_def split: option.splits prod.splits if_splits)

lemma drop_chunks_Some: "fold drop_chunk fps st x = Some (c, n) \<Longrightarrow> \<exists>n'. st x = Some (c, n')"
proof (induction fps arbitrary: st)
  case (Cons fp fps)
  then obtain n' where "drop_chunk fp st x = Some (c, n')" by fastforce
  then show ?case by (rule drop_chunk_Some)
qed simp

lemma uses_delete:
  assumes "distinct (map fst d)" and "map_of d k = Some f"
  shows "uses d fp = uses (AList.delete k d) fp + count_list (file_fps f) fp"
  using assms
proof (induction d)
  case (Cons a d)
  obtain k' f' where a: "a = (k', f')" by (cases a)
  show ?case
  proof (cases "k = k'")
    case True
    then have "k \<notin> set (map fst d)" using Cons.prems(1) by (simp add: a)
    then have "AList.delete k d = d" by (simp add: AList.delete_id)
    then show ?thesis using True Cons.prems by (simp add: a uses_def)
  next
    case False
    then show ?thesis using Cons by (simp add: a uses_def)
  qed
qed simp

lemma deleter_start_ok:
  assumes ok: "repo_ok sha1 r" and d: "containers_dir r = Some d" and m: "load_index r = Inr m"
  shows "deleter_ok sha1 (deleter_start m d)" and "deleter_contents (deleter_start m d) = repo_contents r"
proof -
  from ok m have mm: "mm_ok m" "fp_table_added m = []" unfolding repo_ok_def by auto
  have D: "stored r = map_of d" and idx: "repo_index r = index m"
    by (simp_all add: stored_def d entries_def repo_index_def m)
  show "deleter_ok sha1 (deleter_start m d)"
    using repo_ok_parts(1,2,3) [OF ok] mm by (auto simp: deleter_ok_def deleter_start_def D idx index_ok_def)
  show "deleter_contents (deleter_start m d) = repo_contents r"
    by (simp add: deleter_contents_def deleter_start_def repo_contents_def D idx)
qed

text \<open>A recipe uses a fingerprint at most as often as it is counted.\<close>

lemma recipe_counts:
  assumes ok: "repo_ok sha1 r" and f: "map_of (entries (recipes_dir r)) (recipe_name v) = Some f"
  shows "count_list (file_fps f) fp \<le> refs (repo_contents r) fp"
proof -
  have "distinct (map fst (entries (recipes_dir r)))" using repo_ok_parts(4) [OF ok] by (simp add: recipes_ok_def)
  then show ?thesis using uses_delete [OF _ f, of fp] repo_ok_parts(5) [OF ok, of fp] by simp
qed

lemma delete_version_spec:
  assumes ok: "repo_ok sha1 r" and v: "version_fps r v = Some fps" and v255: "0 \<le> v" "v < 256"
  shows "\<exists>r'. task_delete r v = Inr r' \<and> repo_ok sha1 r' \<and>
    repo_contents r' = fold drop_chunk fps (repo_contents r) \<and> version_fps r' = (version_fps r)(v := None)"
proof -
  from ok obtain d rd m where r: "containers_dir r = Some d" "recipes_dir r = Some rd"
    "load_index r = Inr m" "mm_ok m" "fp_table_added m = []" "repo_index r = index m"
    "index m = map_of (fp_table_origin m)" by (rule repo_okD)
  note parts = repo_ok_parts [OF ok]
  obtain f where f: "map_of rd (recipe_name v) = Some f" "fps = file_fps f"
    using v by (auto simp: version_fps_def r(2) entries_def)
  let ?recipe = "read_recipe (replicate SHA1_LENGTH 0) f"
  have name: "getRecipeNameFromVersion (of_int v) = recipe_name v"
  proof -
    have "uint (of_int v :: 8 word) = v" using v255 by (simp add: uint_word_of_int)
    then show ?thesis by (simp add: getRecipeNameFromVersion_def)
  qed
  note start = deleter_start_ok [OF ok r(1,3)]
  have dist: "distinct (map fst rd)" using parts(4) by (simp add: recipes_ok_def r(2) entries_def)
  have uses: "uses rd fp = uses (AList.delete (recipe_name v) rd) fp + count_list fps fp" for fp
    using uses_delete [OF dist f(1)] by (simp add: f(2))
  have "\<forall>fp. count_list (map dec_fp ?recipe) fp \<le> refs (deleter_contents (deleter_start m d)) fp"
    using recipe_counts [OF ok, of v f] f(1) by (simp add: start(2) r(2) entries_def file_fps_def)
  from delete_chunks [OF start(1) this] obtain st where
    st: "foldE delete_chunk (deleter_start m d) ?recipe = Inr st" "deleter_ok sha1 st"
      "deleter_contents st = fold drop_chunk fps (repo_contents r)"
    by (auto simp: start(2) f(2) file_fps_def)
  let ?rd' = "remove_file (recipe_name v) rd" and ?idx = "index (dmanager st)"
  let ?r' = "\<lparr>containers_dir = Some (ddir st), recipes_dir = Some ?rd', fingerprints_file = Some (save (dmanager st))\<rparr>"
  have run: "task_delete r v = Inr ?r'"
    using st(1) f(1)
    by (simp add: task_delete_def r(1,2,3) fileRecipeExist_def getFileRecipe_def name entries_def)
  have rd': "?rd' = AList.delete (recipe_name v) rd" by (simp add: remove_file_def)
  have refs: "refs (deleter_contents st) fp = uses ?rd' fp" for fp
    using parts(5) [of fp] uses [of fp] by (simp add: st(3) refs_drop_chunks r(2) entries_def rd')
  have dom: "dom ?idx \<subseteq> dom (index m)"
  proof -
    have "dom (deleter_contents st) \<subseteq> dom (repo_contents r)"
      using drop_chunks_Some unfolding st(3) by fastforce
    then show ?thesis
      using store_ok_dom [OF deleter_okD(3) [OF st(2)]] store_ok_dom [OF parts(1)]
      by (simp add: deleter_contents_def repo_contents_def r(6))
  qed
  have fin: "finite (dom (index m))" and card: "card (dom ?idx) \<le> FILE_CACHE div META_DATA_SIZE"
    using parts(3) card_mono [OF _ dom] by (auto simp: index_ok_def r(6))
  have "\<exists>m'. load_index ?r' = Inr m' \<and> mm_ok m' \<and> fp_table_added m' = [] \<and> index m' = ?idx"
  proof (cases "?rd' = []")
    case True
    have "?idx = Map.empty"
    proof
      fix fp
      show "?idx fp = None"
      proof (cases "?idx fp")
        case (Some e)
        have "refs (deleter_contents st) fp = unat (ref_cnt e)"
          using refs_index [OF deleter_okD(3) [OF st(2)] Some] by (simp add: deleter_contents_def)
        then have "ref_cnt e = 0" using refs [of fp] True by (simp add: uses_def unat_eq_zero)
        then show ?thesis using deleter_okD(5) [OF st(2) Some] by simp
      qed
    qed
    then show ?thesis using True
      by (simp add: load_index_def getFilesNum_def mm_ok_new mm_new_index) (simp add: mm_new_def)
  next
    case False
    then show ?thesis
      using load_save [OF deleter_okD(1) [OF st(2)] card] by (simp add: load_index_def getFilesNum_def)
  qed
  then obtain m' where m': "load_index ?r' = Inr m'" "mm_ok m'" "fp_table_added m' = []" "index m' = ?idx" by blast
  have idx: "repo_index ?r' = ?idx" using m' by (simp add: repo_index_def)
  have stored': "stored ?r' = map_of (ddir st)" by (simp add: stored_def entries_def)
  have cont': "repo_contents ?r' = deleter_contents st"
    unfolding repo_contents_def [of ?r'] idx stored' deleter_contents_def ..
  have iok: "index_ok ?idx"
    unfolding index_ok_def
  proof (intro conjI allI impI)
    show "finite (dom ?idx)" using dom fin by (rule finite_subset)
    fix fp e assume "?idx fp = Some e"
    then show "uint (container_number e) < 2 ^ 31" "0 < ref_cnt e" using deleter_okD(5) [OF st(2)] by auto
  qed (use deleter_okD(6) [OF st(2)] card in auto)
  have rok: "recipes_ok ?rd'"
    using parts(4) by (auto simp: recipes_ok_def r(2) entries_def rd' AList.delete_eq distinct_map_filter)
  have e: "entries (recipes_dir ?r') = ?rd'" by (simp add: entries_def)
  have "repo_ok sha1 ?r'"
    unfolding repo_ok_def idx stored' cont'
  proof (intro conjI allI)
    show "containers_dir ?r' \<noteq> None" "recipes_dir ?r' \<noteq> None" by simp_all
    show "index_ok ?idx" by (rule iok)
    show "recipes_ok (entries (recipes_dir ?r'))" unfolding e by (rule rok)
    show "\<exists>m'. load_index ?r' = Inr m' \<and> mm_ok m' \<and> fp_table_added m' = []" using m' by blast
    show "store_ok sha1 (map_of (ddir st)) ?idx" "sizes_ok (map_of (ddir st))"
      using deleter_okD(3,4) [OF st(2)] by blast+
    show "refs (deleter_contents st) fp = uses (entries (recipes_dir ?r')) fp" for fp
      unfolding e by (rule refs)
  qed
  moreover have "version_fps ?r' = (version_fps r)(v := None)"
    unfolding version_fps_def e by (auto simp: fun_eq_iff entries_def r(2) map_of_remove_file)
  ultimately show ?thesis
    using run st(3) by (intro exI [of _ ?r'] conjI) (simp_all only: cont')
qed

section \<open>What a task leaves of the other versions\<close>

lemma version_data_same:
  assumes "version_fps r' v = version_fps r v"
    and "\<And>fps fp. version_fps r v = Some fps \<Longrightarrow> fp \<in> set fps \<Longrightarrow>
      chunk_of (repo_contents r') fp = chunk_of (repo_contents r) fp"
  shows "version_data r' v = version_data r v"
  using assms by (cases "version_fps r v") (simp_all add: version_data_def cong: map_cong)

lemma version_kept_write:
  assumes ok: "repo_ok sha1 r" and cont: "repo_contents r' = fold (put_chunk sha1) ds (repo_contents r)"
    and same: "version_fps r' v = version_fps r v"
  shows "version_data r' v = version_data r v"
proof (rule version_data_same [OF same])
  fix fps fp assume "version_fps r v = Some fps" "fp \<in> set fps"
  from version_resolves [OF ok this] obtain c n where "repo_contents r fp = Some (c, n)" by blast
  then have "fp \<in> dom (repo_contents r)" by blast
  then show "chunk_of (repo_contents r') fp = chunk_of (repo_contents r) fp"
    unfolding cont by (rule chunk_of_put_chunks_old)
qed

lemma version_kept_delete:
  assumes ok: "repo_ok sha1 r'" and cont: "repo_contents r' = fold drop_chunk del (repo_contents r)"
    and same: "version_fps r' v = version_fps r v"
  shows "version_data r' v = version_data r v"
proof (rule version_data_same [OF same])
  fix fps fp assume "version_fps r v = Some fps" "fp \<in> set fps"
  then have "version_fps r' v = Some fps" "fp \<in> set fps" using same by auto
  from version_resolves [OF ok this] obtain c n where c: "repo_contents r' fp = Some (c, n)" by blast
  then obtain n' where "repo_contents r fp = Some (c, n')" using drop_chunks_Some unfolding cont by blast
  with c show "chunk_of (repo_contents r') fp = chunk_of (repo_contents r) fp" by (simp add: chunk_of_def)
qed

lemma version_written:
  assumes "collision_free sha1 (repo_contents r) ds"
    and "repo_contents r' = fold (put_chunk sha1) ds (repo_contents r)"
    and "version_fps r' v = Some (map (fp_of sha1) ds)"
  shows "version_data r' v = Some (concat ds)"
proof -
  have "map (chunk_of (repo_contents r')) (map (fp_of sha1) ds) = ds"
    using chunk_of_put_chunks_new [OF assms(1)] by (simp add: assms(2) comp_def map_idI)
  then show ?thesis by (simp add: version_data_def assms(3))
qed

section \<open>What a write needs\<close>

text \<open>
  \<open>ds\<close> are the chunks of the file \<open>f\<close> under the selected chunking function, and there is
  room for them. With content-defined chunking and an average of 16384 bytes and more the
  limit fails: a chunk of 65536 bytes has no length in 16 bits.
\<close>

definition can_write :: "(bytes \<Rightarrow> bytes) \<Rightarrow> chunking_fn \<Rightarrow> cdc \<Rightarrow> repo \<Rightarrow> bytes \<Rightarrow> bytes list \<Rightarrow> bool" where
  "can_write sha1 fn c r f ds \<longleftrightarrow>
     repo_ok sha1 r \<and> numbered r \<and> chunker_ok fn c \<and> chunk_limit fn c < 2 ^ 16 \<and> f \<noteq> [] \<and>
     (\<exists>c'. file_chunks (chunking fn) c f = Some (Inr (ds, c'))) \<and> write_room r ds"

lemma can_write_chunks:
  assumes "can_write sha1 fn c r f ds"
  shows "concat ds = f" and "ds \<noteq> []" and "\<forall>d \<in> set ds. d \<noteq> [] \<and> length d < 2 ^ 16"
proof -
  from assms obtain c' where c: "chunker_ok fn c" "chunk_limit fn c < 2 ^ 16" "f \<noteq> []"
    "file_chunks (chunking fn) c f = Some (Inr (ds, c'))"
    unfolding can_write_def by blast
  from fn.file_chunks_total [OF c(1), of f] c(4)
  have parts: "concat ds = f" "\<forall>d \<in> set ds. d \<noteq> [] \<and> length d \<le> chunk_limit fn c" by auto
  then show "concat ds = f" "ds \<noteq> []" using c(3) by auto
  show "\<forall>d \<in> set ds. d \<noteq> [] \<and> length d < 2 ^ 16" using parts(2) c(2) by auto
qed

lemma can_write_task:
  assumes "can_write sha1 fn c r f ds"
  obtains r' where "task_write sha1 (chunking fn) c r (Some f) = Some (Inr r')" and "repo_ok sha1 r'"
    and "numbered r'" and "repo_contents r' = fold (put_chunk sha1) ds (repo_contents r)"
    and "version_fps r' = (version_fps r)(int (length (entries (recipes_dir r))) \<mapsto> map (fp_of sha1) ds)"
    and "length (entries (recipes_dir r')) = Suc (length (entries (recipes_dir r)))"
proof -
  from assms obtain c' where w: "repo_ok sha1 r" "numbered r" "write_room r ds"
    "file_chunks (chunking fn) c f = Some (Inr (ds, c'))"
    unfolding can_write_def by blast
  from write_version_spec [OF w(1-3) can_write_chunks(2) [OF assms] w(4) can_write_chunks(3) [OF assms]] that
  show thesis by blast
qed

text \<open>Chunks that are known leave the containers alone.\<close>

lemma write_known_chunks_dir:
  assumes "foldE (write_chunk sha1) w ds = Inr w'" and "mm_ok (manager w)"
    and "\<forall>d \<in> set ds. index (manager w) (fp_of sha1 d) \<noteq> None"
  shows "cdir w' = cdir w \<and> container_buf_pointer w' = container_buf_pointer w"
  using assms
proof (induction ds arbitrary: w)
  case (Cons d ds)
  then obtain e where e: "index (manager w) (fp_of sha1 d) = Some e" by auto
  from Cons.prems(1) obtain w1 where w1: "write_chunk sha1 w d = Inr w1" "foldE (write_chunk sha1) w1 ds = Inr w'"
    by auto
  from addRefCnt_spec [OF Cons.prems(2) e] obtain m where m: "addRefCnt (manager w) (fp_of sha1 d) = Inr (ref_cnt e + 1, m)"
    "mm_ok m" "index m = (index (manager w))(fp_of sha1 d \<mapsto> e\<lparr>ref_cnt := ref_cnt e + 1\<rparr>)" by blast
  have "manager w1 = m" "cdir w1 = cdir w" "container_buf_pointer w1 = container_buf_pointer w"
    using w1(1) m(1) e by (auto simp: write_chunk_cases count_chunk_def)
  with Cons.IH [OF w1(2)] m(2,3) Cons.prems(3) show ?case by simp
qed simp

lemma write_known_file:
  assumes w: "can_write sha1 fn c r f ds" and known: "fp_of sha1 ` set ds \<subseteq> dom (repo_contents r)"
    and run: "task_write sha1 (chunking fn) c r (Some f) = Some (Inr r')"
  shows "containers_dir r' = containers_dir r"
proof -
  have ok: "repo_ok sha1 r" using w by (simp add: can_write_def)
  from ok obtain d rd m where r: "containers_dir r = Some d" "recipes_dir r = Some rd"
    "load_index r = Inr m" "mm_ok m" "fp_table_added m = []" "repo_index r = index m"
    "index m = map_of (fp_table_origin m)" by (rule repo_okD)
  from w obtain c' where c': "file_chunks (chunking fn) c f = Some (Inr (ds, c'))"
    unfolding can_write_def by blast
  from run obtain w' where w': "foldE (write_chunk sha1) (writer_start m d) ds = Inr w'"
    "write_end w' (recipes_dir r) = Inr r'"
    by (auto simp: task_write_def r(1,3) write_blocks_fold [OF c'] and_then_eq_Inr)
  have "index m (fp_of sha1 x) \<noteq> None" if "x \<in> set ds" for x
    using known that store_ok_dom [OF repo_ok_parts(1) [OF ok]] by (auto simp: repo_contents_def r(6))
  then have "cdir w' = d \<and> container_buf_pointer w' = 0"
    using write_known_chunks_dir [OF w'(1)] r(4) by (simp add: writer_start_def)
  then show ?thesis
    using w'(2) by (auto simp: write_end_cases and_then_eq_Inr r(1) split: if_splits)
qed

section \<open>A repository for the examples\<close>

text \<open>
  An empty repository, a function that is injective on short chunks in the place of SHA-1,
  and a file of three bytes, which fixed-size chunking leaves as one chunk.
\<close>

definition empty_repo :: repo where
  "empty_repo = \<lparr>containers_dir = Some [], recipes_dir = Some [], fingerprints_file = None\<rparr>"

definition sample_sha1 :: "bytes \<Rightarrow> bytes" where
  "sample_sha1 d = array_prefix 20 d"

lemma sample_sha1_inject:
  "fp_of sample_sha1 a = fp_of sample_sha1 b \<longleftrightarrow> array_prefix 20 a = array_prefix 20 b"
  using fp_codec.dec_inject [of "sample_sha1 a" "sample_sha1 b"] by (simp add: fp_of_def sample_sha1_def)

lemma empty_repo_parts:
  "load_index empty_repo = Inr mm_new" "repo_index empty_repo = Map.empty"
  "stored empty_repo = Map.empty" "repo_contents empty_repo = Map.empty"
  "entries (recipes_dir empty_repo) = []" "entries (containers_dir empty_repo) = []"
  by (simp_all add: empty_repo_def load_index_def getFilesNum_def repo_index_def mm_new_index
      stored_def entries_def repo_contents_def contents_def fun_eq_iff)

lemma empty_repo_ok: "repo_ok sha1 empty_repo" and empty_repo_numbered: "numbered empty_repo"
proof -
  have "store_ok sha1 Map.empty Map.empty" by (simp add: store_ok_empty)
  then show "repo_ok sha1 empty_repo"
    unfolding repo_ok_def empty_repo_parts
    by (simp add: mm_ok_new sizes_ok_def index_ok_def ids_distinct_def recipes_ok_def refs_def uses_def)
      (simp add: empty_repo_def mm_new_def)
  show "numbered empty_repo" by (simp add: numbered_def empty_repo_parts version_fps_def)
qed

lemma one_chunk:
  assumes "f \<noteq> []" and "length f \<le> 512"
  shows "file_chunks (chunking Fn_FSC_512) c f = Some (Inr ([f], c))"
proof -
  have "length f < 2 ^ 31" using assms(2) by simp
  then have n: "unat (FSC_512 f (of_nat (length f))) = length f"
    using fsc_length(1) [of f] assms(2) by simp
  have nil: "split_chunks (chunking Fn_FSC_512) c [] = Some (Inr ([], c))"
    by (subst split_chunks.simps) simp
  have "split_chunks (chunking Fn_FSC_512) c f = Some (Inr ([f], c))"
    using assms(1) n nil by (subst split_chunks.simps) (simp add: chunking_def Let_def)
  moreover have "file_chunks (chunking Fn_FSC_512) c [] = Some (Inr ([], c))"
    by (subst file_chunks.simps) simp
  moreover have "take FILE_CACHE f = f" "drop FILE_CACHE f = []"
    using assms(2) by (simp_all add: FILE_CACHE_def)
  ultimately show ?thesis using assms(1) by (subst file_chunks.simps) simp
qed

lemma sample_can_write:
  assumes "f \<noteq> []" and "length f \<le> 20"
  shows "can_write sample_sha1 Fn_FSC_512 c empty_repo f [f]"
  using assms one_chunk [of f c] empty_repo_ok empty_repo_numbered
  by (simp add: can_write_def chunker_ok_def chunk_limit_def write_room_def empty_repo_parts refs_def
      short_chunks_def FILE_CACHE_def META_DATA_SIZE_def)

lemma task_write_one:
  assumes "f \<noteq> []" and "length f \<le> 512" and "load_index r = Inr m" and "containers_dir r = Some d"
  shows "task_write sha1 (chunking Fn_FSC_512) c r (Some f) =
    Some (and_then (write_chunk sha1 (writer_start m d) f) (\<lambda>w. write_end w (recipes_dir r)))"
  using write_blocks_fold [OF one_chunk [OF assms(1,2)]]
  by (simp add: task_write_def assms(3,4)) (cases "write_chunk sha1 (writer_start m d) f"; simp)

text \<open>The repository after a first write.\<close>

definition sample_file :: bytes where "sample_file = [1, 2, 3]"

definition sample_fp :: SHA1FP where "sample_fp = fp_of sample_sha1 sample_file"

definition sample_entry :: ENTRY_VALUE where
  "sample_entry = \<lparr>container_number = 0, offset = 0, chunk_length = 3, container_inner_index = 0, ref_cnt = 1\<rparr>"

definition sample_repo :: repo where
  "sample_repo =
     \<lparr>containers_dir = Some [(container_name 0, sample_file), (rev_name 0, enc_u32 1 @ enc_fp sample_fp)],
      recipes_dir = Some [(recipe_name 0, enc_fp sample_fp)],
      fingerprints_file = Some (enc_item (sample_fp, sample_entry))\<rparr>"

lemma sample_written:
  "task_write sample_sha1 (chunking Fn_FSC_512) c empty_repo (Some sample_file) = Some (Inr sample_repo)"
proof -
  have fp: "dec_fp (sample_sha1 sample_file) = sample_fp" by (simp add: sample_fp_def fp_of_def)
  have len: "length (enc_fp sample_fp) = 20" by (simp add: fp_codec.width)
  have d: "containers_dir empty_repo = Some []" "recipes_dir empty_repo = Some []"
    by (simp_all add: empty_repo_def)
  have "write_chunk sample_sha1 (writer_start mm_new []) sample_file =
    Inr (writer_start mm_new []
      \<lparr>manager := \<lparr>fp_table_origin = [], fp_table_added = [(sample_fp, sample_entry)]\<rparr>,
       file_recipe := [enc_fp sample_fp], sum_chunks := 1, sum_size := 3, container_buf := sample_file,
       rev_container_buf := enc_fp sample_fp, container_inner_offset := 3, container_buf_pointer := 3,
       inner_index := 1, rev_container_cnt := 1\<rparr>)"
    by (simp add: write_chunk_def fp [unfolded sample_file_def] Let_def dedupLookup_def mm_new_def writer_start_def
        saveChunkToContainer_def copy_chunk_def CONTAINER_SIZE_def buf_simps addNewEntry_def
        emplace_def new_entry_def advance_def sample_entry_def sample_file_def)
  then show ?thesis
    using task_write_one [of sample_file empty_repo mm_new "[]" sample_sha1 c] len d
    by (simp add: sample_file_def empty_repo_parts(1) write_end_cases writer_start_def saveContainer_def
        put_file_def saveFileRecipe_def getFilesNum_def entries_def SHA1_LENGTH_def buf_simps save_def
        array_prefix_def sample_repo_def)
qed

lemma sample_repo_spec:
  shows "repo_ok sample_sha1 sample_repo" and "numbered sample_repo"
    and "repo_contents sample_repo = [sample_fp \<mapsto> (sample_file, 1)]"
    and "version_fps sample_repo = [0 \<mapsto> [sample_fp]]"
proof -
  have w: "can_write sample_sha1 Fn_FSC_512 cdc_zero empty_repo sample_file [sample_file]"
    by (rule sample_can_write) (simp_all add: sample_file_def)
  from can_write_task [OF w] obtain r' where
    r': "task_write sample_sha1 (chunking Fn_FSC_512) cdc_zero empty_repo (Some sample_file) = Some (Inr r')"
      "repo_ok sample_sha1 r'" "numbered r'"
      "repo_contents r' = fold (put_chunk sample_sha1) [sample_file] (repo_contents empty_repo)"
      "version_fps r' = (version_fps empty_repo)(int (length (entries (recipes_dir empty_repo))) \<mapsto>
         map (fp_of sample_sha1) [sample_file])"
    by blast
  have "r' = sample_repo" using r'(1) by (simp add: sample_written)
  moreover have "version_fps empty_repo = Map.empty"
    by (simp add: fun_eq_iff version_fps_def empty_repo_parts)
  ultimately show "repo_ok sample_sha1 sample_repo" and "numbered sample_repo"
    and "repo_contents sample_repo = [sample_fp \<mapsto> (sample_file, 1)]"
    and "version_fps sample_repo = [0 \<mapsto> [sample_fp]]"
    using r'(2-5) by (simp_all add: empty_repo_parts put_chunk_def sample_fp_def)
qed

lemma sample_version: "version_data sample_repo 0 = Some sample_file"
  by (simp add: version_data_def sample_repo_spec(3,4) chunk_of_def)

lemma sample_can_write_again:
  assumes "f \<noteq> []" and "length f \<le> 20"
  shows "can_write sample_sha1 Fn_FSC_512 c sample_repo f [f]"
proof -
  have "length (entries (containers_dir sample_repo)) = 2" by (simp add: sample_repo_def entries_def)
  moreover have "dom (repo_index sample_repo) = {sample_fp}"
    using store_ok_dom [OF repo_ok_parts(1) [OF sample_repo_spec(1)]]
    by (simp add: sample_repo_spec(3) flip: repo_contents_def)
  moreover have "refs (repo_contents sample_repo) fp \<le> 1" for fp
    by (simp add: sample_repo_spec(3) refs_def)
  then have "refs (repo_contents sample_repo) fp + 1 < 2 ^ 32" for fp
    by (rule order.strict_trans1 [OF add_right_mono]) simp
  ultimately show ?thesis
    using assms one_chunk [of f c] sample_repo_spec(1,2)
    by (simp add: can_write_def chunker_ok_def chunk_limit_def write_room_def
        short_chunks_def FILE_CACHE_def META_DATA_SIZE_def)
qed

end
