(* ===== verification/Compaction.thy ===== *)
theory Compaction
  imports Repository
begin

text \<open>
  No space is lost: every byte of every container belongs to a chunk of the index, a container
  without a chunk does not exist, and neither does its list of fingerprints. An empty
  repository has this, writing keeps it, and deletion keeps it because \<open>del_seg\<close> cuts the bytes
  of a chunk out of its container and moves the chunks behind it.
\<close>

section \<open>Compact containers\<close>

definition occupies :: "ENTRY_VALUE \<Rightarrow> int \<Rightarrow> nat \<Rightarrow> bool" where
  "occupies e k i \<longleftrightarrow> uint (container_number e) = k \<and>
     unat (offset e) \<le> i \<and> i < unat (offset e) + unat (chunk_length e)"

definition all_live :: "(SHA1FP \<rightharpoonup> ENTRY_VALUE) \<Rightarrow> int \<Rightarrow> bytes \<Rightarrow> bool" where
  "all_live idx k f \<longleftrightarrow> (\<forall>i < length f. \<exists>fp e. idx fp = Some e \<and> occupies e k i)"

definition compact :: "(string \<rightharpoonup> bytes) \<Rightarrow> (SHA1FP \<rightharpoonup> ENTRY_VALUE) \<Rightarrow> bool" where
  "compact D idx \<longleftrightarrow>
     (\<forall>k f. D (container_name k) = Some f \<longrightarrow> f \<noteq> [] \<and> all_live idx k f) \<and>
     (\<forall>k. D (rev_name k) \<noteq> None \<longrightarrow> in_container idx k \<noteq> {})"

lemma all_live_nil [simp]: "all_live idx k []"
  by (simp add: all_live_def)

lemma all_live_used: "all_live idx k f \<Longrightarrow> f \<noteq> [] \<Longrightarrow> in_container idx k \<noteq> {}"
  by (fastforce simp: all_live_def in_container_def occupies_def)

lemma occupies_ref_cnt [simp]: "occupies (e\<lparr>ref_cnt := n\<rparr>) k i = occupies e k i"
  by (simp add: occupies_def)

text \<open>More entries, or entries with other counts, keep what is live.\<close>

definition extends :: "(SHA1FP \<rightharpoonup> ENTRY_VALUE) \<Rightarrow> (SHA1FP \<rightharpoonup> ENTRY_VALUE) \<Rightarrow> bool" where
  "extends idx idx' \<longleftrightarrow>
     (\<forall>fp e. idx fp = Some e \<longrightarrow> (\<exists>n. idx' fp = Some (e\<lparr>ref_cnt := n\<rparr>)))"

lemma extends_refl: "\<exists>n. e = e\<lparr>ref_cnt := n\<rparr>" for e :: ENTRY_VALUE
  by (rule exI [of _ "ref_cnt e"]) simp

lemma extends_count: "idx fp = Some e \<Longrightarrow> extends idx (idx(fp \<mapsto> e\<lparr>ref_cnt := n\<rparr>))"
  using extends_refl by (auto simp: extends_def)

lemma extends_new: "idx fp = None \<Longrightarrow> extends idx (idx(fp \<mapsto> e))"
  using extends_refl by (auto simp: extends_def)

lemma all_live_mono: "all_live idx k f \<Longrightarrow> extends idx idx' \<Longrightarrow> all_live idx' k f"
  unfolding all_live_def extends_def by (metis occupies_ref_cnt)

lemma compact_mono:
  assumes "compact D idx" and "extends idx idx'"
  shows "compact D idx'"
proof -
  have "in_container idx k \<subseteq> in_container idx' k" for k
    using assms(2) by (fastforce simp: in_container_def extends_def)
  then show ?thesis using assms all_live_mono unfolding compact_def by blast
qed

section \<open>Deleting\<close>

lemma all_live_cut:
  assumes live: "all_live idx k f" and fp: "idx fp = Some e" and k: "uint (container_number e) = k"
    and fit: "unat (offset e) + unat (chunk_length e) \<le> length f"
    and apart: "\<And>x e'. idx x = Some e' \<Longrightarrow> x \<noteq> fp \<Longrightarrow> apart e e'"
    and pos: "\<And>x e'. idx x = Some e' \<Longrightarrow> 0 < unat (chunk_length e')"
  shows "all_live (drop_entry fp e idx) k (cut (unat (offset e)) (unat (chunk_length e)) f)"
  unfolding all_live_def
proof (intro allI impI)
  let ?o = "unat (offset e)" and ?l = "unat (chunk_length e)"
  fix i assume "i < length (cut ?o ?l f)"
  then have i: "i < length f - ?l" using fit by (simp add: length_cut)
  define j where "j = (if i < ?o then i else i + ?l)"
  have "j < length f" "\<not> occupies e k j" using i fit by (auto simp: j_def occupies_def)
  then obtain x e' where x: "idx x = Some e'" "occupies e' k j" "x \<noteq> fp"
    using live fp unfolding all_live_def by (metis option.inject)
  have same: "container_number e' = container_number e"
    using x(2) k by (simp add: occupies_def word_uint_eq_iff)
  have off: "unat (offset (pull_back e e')) =
      (if ?o + ?l \<le> unat (offset e') then unat (offset e') - ?l else unat (offset e'))"
    by (rule pull_back_offset [OF same apart [OF x(1,3)] pos [OF fp] pos [OF x(1)]])
  have "occupies (pull_back e e') k i"
    using x(2) apart [OF x(1,3)] same off by (auto simp: occupies_def j_def apart_def split: if_splits)
  then show "\<exists>x e'. drop_entry fp e idx x = Some e' \<and> occupies e' k i"
    using x(1,3) by (intro exI [of _ x] exI [of _ "pull_back e e'"]) (simp add: drop_entry_def)
qed

lemma compact_drop:
  assumes comp: "compact D idx" and ok: "store_ok sha1 D idx" and fp: "idx fp = Some e"
    and k: "k = uint (container_number e)"
    and f: "D (container_name k) = Some f" and g: "D (rev_name k) = Some g" "rev_file g fps"
    and D': "D' = D(container_name k := without_chunk e f, rev_name k := without_fp fp fps)"
  shows "compact D' (drop_entry fp e idx)"
proof -
  have chunk: "\<exists>c. chunk_at D e' = Some c \<and> c \<noteq> []" if "idx x = Some e'" for x e'
    using store_ok_chunk [OF ok that] by metis
  have pos: "0 < unat (chunk_length e')" if "idx x = Some e'" for x e'
    using chunk [OF that] chunk_length_pos by blast
  have ap: "apart e e'" if "idx x = Some e'" "x \<noteq> fp" for x e'
    using ok fp that unfolding store_ok_def disjoint_chunks_def by metis
  have fit: "unat (offset e) + unat (chunk_length e) \<le> length f"
    using chunk [OF fp] f by (auto simp: chunk_at_def k split: if_splits)
  have fps: "distinct fps" "set fps = in_container idx k" using store_ok_rev_list [OF ok g] by auto
  have inc: "in_container (drop_entry fp e idx) j = in_container idx j - {fp}" for j
    by (auto simp: in_container_def drop_entry_def)
  have live: "all_live (drop_entry fp e idx) j h" if old: "all_live idx j h" "j \<noteq> k" for j h
    unfolding all_live_def
  proof (intro allI impI)
    fix i assume "i < length h"
    then obtain x e' where x: "idx x = Some e'" "occupies e' j i" using old(1) unfolding all_live_def by blast
    then have "x \<noteq> fp" "container_number e' \<noteq> container_number e" using fp old(2) k by (auto simp: occupies_def)
    then show "\<exists>x e'. drop_entry fp e idx x = Some e' \<and> occupies e' j i"
      using x by (intro exI [of _ x] exI [of _ e']) (simp add: drop_entry_def pull_back_def)
  qed
  have "h \<noteq> [] \<and> all_live (drop_entry fp e idx) j h" if h: "D' (container_name j) = Some h" for j h
  proof (cases "j = k")
    case True
    have "all_live idx k f" using comp f by (simp add: compact_def)
    from all_live_cut [OF this fp k [symmetric] fit ap pos] True h show ?thesis
      by (auto simp: D' without_chunk_def Let_def split: if_splits)
  next
    case False
    then have "D (container_name j) = Some h" using h by (simp add: D')
    then show ?thesis using comp live False by (simp add: compact_def)
  qed
  moreover have "in_container (drop_entry fp e idx) j \<noteq> {}" if h: "D' (rev_name j) \<noteq> None" for j
  proof (cases "j = k")
    case True
    then have "length fps \<noteq> 1" using h by (auto simp: D' without_fp_def)
    then have "in_container idx k \<noteq> {fp}" using fps distinct_card [of fps] by auto
    moreover have "fp \<in> in_container idx k" using fp k by (simp add: in_container_def)
    ultimately show ?thesis unfolding inc True by blast
  next
    case False
    then have "in_container idx j \<noteq> {}" using comp h by (simp add: compact_def D')
    moreover have "fp \<notin> in_container idx j" using False fp k by (simp add: in_container_def)
    ultimately show ?thesis unfolding inc by blast
  qed
  ultimately show ?thesis unfolding compact_def by blast
qed

definition deleter_compact :: "deleter \<Rightarrow> bool" where
  "deleter_compact st \<longleftrightarrow> compact (map_of (ddir st)) (index (dmanager st))"

lemma delete_chunk_compact:
  assumes ok: "deleter_ok sha1 st" and some: "deleter_contents st (dec_fp x) \<noteq> None"
    and comp: "deleter_compact st" and step: "delete_chunk st x = Inr st'"
  shows "deleter_compact st'"
proof -
  obtain e where e: "index (dmanager st) (dec_fp x) = Some e"
    using some by (auto simp: deleter_contents_def contents_def split: option.splits)
  note comp = comp [unfolded deleter_compact_def]
  show ?thesis
  proof (cases "1 < ref_cnt e")
    case True
    from delete_chunk_counts [OF ok e True] step have st': "ddir st' = ddir st"
      "index (dmanager st') = (index (dmanager st))(dec_fp x \<mapsto> e\<lparr>ref_cnt := ref_cnt e - 1\<rparr>)" by auto
    have "extends (index (dmanager st)) (index (dmanager st'))"
      unfolding st' using e by (rule extends_count)
    from compact_mono [OF comp this] show ?thesis by (simp add: deleter_compact_def st'(1))
  next
    case False
    from delete_chunk_cuts [OF ok e False refl] step obtain f fps where
      st': "index (dmanager st') = drop_entry (dec_fp x) e (index (dmanager st))"
      and f: "map_of (ddir st) (container_name (uint (container_number e))) = Some f"
      and g: "map_of (ddir st) (rev_name (uint (container_number e))) = Some (enc_u32 (of_nat (length fps)) @ concat (map enc_fp fps))"
      "rev_file (enc_u32 (of_nat (length fps)) @ concat (map enc_fp fps)) fps"
      and d: "map_of (ddir st') = (map_of (ddir st))(container_name (uint (container_number e)) := without_chunk e f,
        rev_name (uint (container_number e)) := without_fp (dec_fp x) fps)"
      by auto
    show ?thesis
      unfolding deleter_compact_def st'
      by (rule compact_drop [OF comp deleter_okD(3) [OF ok] e refl f g d])
  qed
qed

lemma delete_chunks_compact:
  assumes "deleter_ok sha1 st" and "deleter_compact st"
    and "\<forall>fp. count_list (map dec_fp xs) fp \<le> refs (deleter_contents st) fp"
    and "foldE delete_chunk st xs = Inr st'"
  shows "deleter_compact st'"
  using assms
proof (induction xs arbitrary: st)
  case (Cons x xs)
  have "0 < refs (deleter_contents st) (dec_fp x)" using Cons.prems(3) by (auto dest: spec [of _ "dec_fp x"])
  then obtain c n where some: "deleter_contents st (dec_fp x) = Some (c, n)"
    by (auto simp: refs_def split: option.splits)
  from delete_chunk_spec [OF Cons.prems(1) this] Cons.prems(4) obtain st1 where
    st1: "delete_chunk st x = Inr st1" "deleter_ok sha1 st1" "foldE delete_chunk st1 xs = Inr st'"
      "deleter_contents st1 = drop_chunk (dec_fp x) (deleter_contents st)" by auto
  have "count_list (map dec_fp xs) fp \<le> refs (deleter_contents st1) fp" for fp
    using Cons.prems(3) [rule_format, of fp] by (auto simp: st1(4) refs_drop)
  then show ?case
    using Cons.IH [OF st1(2) delete_chunk_compact [OF Cons.prems(1) _ Cons.prems(2) st1(1)] _ st1(3)] some
    by simp
qed simp

section \<open>Writing\<close>

text \<open>The containers that have been saved, and the one that is in the buffer.\<close>

definition writer_compact :: "writer \<Rightarrow> bool" where
  "writer_compact w \<longleftrightarrow> compact (map_of (cdir w)) (index (manager w)) \<and>
     all_live (index (manager w)) (uint (container_index w)) (container_buf w)"

lemma saved_compact:
  assumes ok: "writer_ok sha1 w" and idx: "uint (container_index w) < 2 ^ 31"
    and comp: "writer_compact w" and ne: "container_buf w \<noteq> []"
  shows "compact (map_of (saved_dir w)) (index (manager w))"
proof -
  have "in_container (index (manager w)) (uint (container_index w)) \<noteq> {}"
    using comp ne by (intro all_live_used) (auto simp: writer_compact_def)
  then show ?thesis
    using comp ne unfolding view_def [symmetric] view_fresh [OF ok idx]
    by (auto simp: writer_compact_def compact_def)
qed

lemma store_compact:
  assumes comp: "writer_compact w" and ok: "writer_ok sha1 w" and d: "length d < 2 ^ 16"
    and new: "index (manager w) fp = None" and m: "index m = (index (manager w))(fp \<mapsto> new_entry w (length d))"
    and w1: "cdir w1 = cdir w" "container_buf w1 = container_buf w @ d" "container_index w1 = container_index w"
  shows "writer_compact (advance (w1\<lparr>manager := m\<rparr>) (length d))"
proof -
  have old: "extends (index (manager w)) (index m)" unfolding m using new by (rule extends_new)
  have place: "unat (offset (new_entry w (length d))) = length (container_buf w)"
    "unat (chunk_length (new_entry w (length d))) = length d"
    using ok d by (simp_all add: new_entry_def writer_ok_def unat_of_nat)
  have "all_live (index m) (uint (container_index w)) (container_buf w @ d)"
    unfolding all_live_def
  proof (intro allI impI)
    fix i assume i: "i < length (container_buf w @ d)"
    show "\<exists>x e. index m x = Some e \<and> occupies e (uint (container_index w)) i"
    proof (cases "i < length (container_buf w)")
      case True
      moreover have "all_live (index m) (uint (container_index w)) (container_buf w)"
        using comp by (intro all_live_mono [OF _ old]) (simp add: writer_compact_def)
      ultimately show ?thesis unfolding all_live_def by blast
    next
      case False
      then have "occupies (new_entry w (length d)) (uint (container_index w)) i"
        using i by (simp add: occupies_def place) (simp add: new_entry_def)
      then show ?thesis by (intro exI [of _ fp]) (simp add: m)
    qed
  qed
  moreover have "compact (map_of (cdir w)) (index m)"
    using comp by (intro compact_mono [OF _ old]) (simp add: writer_compact_def)
  ultimately show ?thesis by (simp add: writer_compact_def advance_def w1)
qed

lemma write_chunk_compact:
  assumes ok: "writer_ok sha1 w" and room: "writer_room w (d # ds)" and comp: "writer_compact w"
    and d: "length d < 2 ^ 16" and step: "write_chunk sha1 w d = Inr w'"
  shows "writer_compact w'"
proof (cases "index (manager w) (fp_of sha1 d)")
  case None
  let ?w0 = "count_chunk sha1 w d"
  define wf where "wf = (if CONTAINER_SIZE \<le> unat (container_buf_pointer w + of_nat (length d))
      then flush_container ?w0 else ?w0)"
  from step None obtain w1 m where w1: "copy_chunk wf d (enc_fp (fp_of sha1 d)) = Inr w1"
    and m: "addNewEntry (manager w1) (fp_of sha1 d) (new_entry w1 (length d)) = Inr m"
    and w': "w' = advance (w1\<lparr>manager := m\<rparr>) (length d)"
    by (auto simp: write_chunk_cases saveChunkToContainer_def and_then_eq_Inr wf_def)
  have idx: "uint (container_index w) + 1 < 2 ^ 31" using room by (simp add: writer_room_def)
  have sum: "unat (container_buf_pointer w + of_nat (length d)) = length (container_buf w) + length d"
    using ok d by (simp add: writer_ok_def unat_word_ariths unat_of_nat CONTAINER_SIZE_def)
  have ok0: "writer_ok sha1 ?w0" "writer_compact ?w0"
    using ok comp by (simp_all add: writer_compact_def) (simp add: count_chunk_def)
  have "container_buf w \<noteq> []" if "CONTAINER_SIZE \<le> length (container_buf w) + length d"
    using that d by (auto simp: CONTAINER_SIZE_def)
  then have flushed: "writer_compact (flush_container ?w0)" if "CONTAINER_SIZE \<le> length (container_buf w) + length d"
    using saved_compact [OF ok0(1) _ ok0(2)] that idx
    by (simp add: writer_compact_def) (simp add: flush_container_def saved_dir_def)
  have okf: "writer_ok sha1 wf" "writer_compact wf"
    using flush_container_ok(1) [OF ok0(1)] ok0 idx flushed by (simp_all add: wf_def sum)
  have same: "manager w1 = manager wf" "manager wf = manager w" "new_entry w1 = new_entry wf"
    "cdir w1 = cdir wf" "container_index w1 = container_index wf" "container_buf w1 = container_buf wf @ d"
    using w1 okf(1) by (auto simp: copy_chunk_def wf_def flush_container_def new_entry_def writer_ok_def overlay_end
      split: if_splits)
  have "mm_ok (manager wf)" using okf(1) by (simp add: writer_ok_def)
  from addNewEntry_spec [OF this, of "fp_of sha1 d" "new_entry wf (length d)"]
  have "index m = (index (manager wf))(fp_of sha1 d \<mapsto> new_entry wf (length d))"
    using m None same by (simp add: new_entry_def)
  from store_compact [OF okf(2,1) d _ this same(4,6,5)] None same(2) show ?thesis by (simp add: w')
next
  case (Some e)
  have mok: "mm_ok (manager w)" using ok by (simp add: writer_ok_def)
  from step Some obtain r m where m: "addRefCnt (manager w) (fp_of sha1 d) = Inr (r, m)"
    and w': "w' = count_chunk sha1 w d\<lparr>manager := m, dedup_chunks := dedup_chunks w + 1,
      dedup_size := dedup_size w + int (length d)\<rparr>"
    by (auto simp: write_chunk_cases and_then_eq_Inr)
  have idx: "index m = (index (manager w))(fp_of sha1 d \<mapsto> e\<lparr>ref_cnt := ref_cnt e + 1\<rparr>)"
    using addRefCnt_spec [OF mok Some] m by auto
  have ext: "extends (index (manager w)) (index m)" unfolding idx using Some by (rule extends_count)
  have "compact (map_of (cdir w)) (index m)" "all_live (index m) (uint (container_index w)) (container_buf w)"
    using comp by (auto simp: writer_compact_def intro: compact_mono [OF _ ext] all_live_mono [OF _ ext])
  then show ?thesis by (simp add: writer_compact_def w' count_chunk_def)
qed

lemma write_chunks_compact:
  assumes "writer_ok sha1 w" and "writer_room w ds" and "writer_compact w"
    and "\<forall>d \<in> set ds. d \<noteq> [] \<and> length d < 2 ^ 16" and "foldE (write_chunk sha1) w ds = Inr w'"
  shows "writer_compact w'"
  using assms
proof (induction ds arbitrary: w)
  case (Cons d ds)
  then have d: "d \<noteq> []" "length d < 2 ^ 16" by auto
  from Cons.prems(5) obtain w1 where w1: "write_chunk sha1 w d = Inr w1"
    and rest: "foldE (write_chunk sha1) w1 ds = Inr w'" by auto
  have "writer_ok sha1 w1 \<and> writer_room w1 ds"
    using write_new_chunk [OF Cons.prems(1,2) d] write_known_chunk [OF Cons.prems(1,2)] w1
    by (cases "index (manager w) (fp_of sha1 d)") auto
  with Cons.IH [OF _ _ write_chunk_compact [OF Cons.prems(1,2,3) d(2) w1] _ rest] Cons.prems(4)
  show ?case by simp
qed simp

lemma last_save_compact:
  assumes ok: "writer_ok sha1 w" and room: "writer_room w []" and comp: "writer_compact w"
  shows "compact (map_of (last_save w)) (index (manager w))"
proof (cases "0 < container_buf_pointer w")
  case True
  then have "container_buf w \<noteq> []" using ok by (auto simp: writer_ok_def word_less_nat_alt)
  with saved_compact [OF ok _ comp] room True show ?thesis by (simp add: last_save_def writer_room_def)
next
  case False
  then show ?thesis using comp by (simp add: last_save_def writer_compact_def)
qed

section \<open>The repository\<close>

definition compact_repo :: "repo \<Rightarrow> bool" where
  "compact_repo r \<longleftrightarrow> compact (stored r) (repo_index r)"

text \<open>The index that the next task loads is the one the task has saved.\<close>

lemma saved_index:
  assumes ok: "repo_ok sha1 r'" and m: "mm_ok m" and idxfile: "fingerprints_file r' = Some (save m)"
    and st: "store_ok sha1 (stored r') (index m)"
    and cont: "contents (stored r') (index m) = repo_contents r'"
  shows "repo_index r' = index m"
proof -
  have dom: "dom (index m) = dom (repo_index r')"
    using store_ok_dom [OF st] store_ok_dom [OF repo_ok_parts(1) [OF ok]]
    unfolding cont repo_contents_def by simp
  then have "card (dom (index m)) \<le> FILE_CACHE div META_DATA_SIZE"
    using repo_ok_parts(3) [OF ok] by (simp add: index_ok_def)
  from load_save [OF m this] have ls: "index (load (Some (save m)) mm_new) = index m" by blast
  from ok obtain m' where m': "load_index r' = Inr m'" "repo_index r' = index m'" by (rule repo_okD)
  then consider "m' = load (Some (save m)) mm_new" | "m' = mm_new"
    using idxfile by (auto simp: load_index_def and_then_eq_Inr split: if_splits)
  then show ?thesis
  proof cases
    case 2
    then have "dom (index m) = {}" using dom m'(2) by (simp add: mm_new_index)
    then show ?thesis using 2 m'(2) by (simp add: mm_new_index)
  qed (use ls m'(2) in simp)
qed

lemma write_keeps_compact:
  assumes can: "can_write sha1 fn c r f ds" and comp: "compact_repo r"
    and run: "task_write sha1 (chunking fn) c r (Some f) = Some (Inr r')"
  shows "compact_repo r'"
proof -
  from can obtain c' where w: "repo_ok sha1 r" "numbered r" "write_room r ds"
    "file_chunks (chunking fn) c f = Some (Inr (ds, c'))"
    unfolding can_write_def by blast
  from w(1) obtain d rd m where r: "containers_dir r = Some d" "recipes_dir r = Some rd"
    "load_index r = Inr m" "mm_ok m" "fp_table_added m = []" "repo_index r = index m"
    "index m = map_of (fp_table_origin m)" by (rule repo_okD)
  have "length d < 2 ^ 31" using w(3) by (simp add: write_room_def r(1) entries_def)
  note start = writer_start_ok [OF w(1,2) r(1,3) this] and room = writer_start_room [OF w(1,3) r(1,3)]
  have mw: "manager (writer_start m d) = m" by (simp add: writer_start_def)
  from write_chunks [OF start(1) room can_write_chunks(3) [OF can]] obtain w' where
    w': "foldE (write_chunk sha1) (writer_start m d) ds = Inr w'" "writer_ok sha1 w'" "writer_room w' []"
    "contents (view w') (index (manager w')) = fold (put_chunk sha1) ds (repo_contents r)"
    unfolding mw start(3) by blast
  have "writer_compact (writer_start m d)"
    using comp by (simp add: writer_compact_def compact_repo_def writer_start_def stored_def r(1,6) entries_def)
  note comp' = last_save_compact [OF w'(2,3)
      write_chunks_compact [OF start(1) room this can_write_chunks(3) [OF can] w'(1)]]
  note tidy = write_chunks_tidy [OF start(1) room start(2) can_write_chunks(3) [OF can] w'(1)]
  note save = last_save_ok [OF w'(2) tidy w'(3)]
  from run have "write_end w' (recipes_dir r) = Inr r'"
    using w'(1) by (simp add: task_write_def r(1,3) write_blocks_fold [OF w(4)])
  then have r': "containers_dir r' = Some (last_save w')" "fingerprints_file r' = Some (save (manager w'))"
    by (auto simp: write_end_cases and_then_eq_Inr last_save_def saved_dir_def Let_def split: if_splits)
  have D: "stored r' = map_of (last_save w')" by (simp add: stored_def entries_def r'(1))
  have ok': "repo_ok sha1 r'" "repo_contents r' = fold (put_chunk sha1) ds (repo_contents r)"
    by (rule can_write_task [OF can]; use run in auto)+
  have "mm_ok (manager w')" using w'(2) by (simp add: writer_ok_def)
  then have "repo_index r' = index (manager w')"
    using saved_index [OF ok'(1) _ r'(2)] save(1,2) w'(4) ok'(2) unfolding D by simp
  then show ?thesis using comp' by (simp add: compact_repo_def D)
qed

lemma delete_keeps_compact:
  assumes ok: "repo_ok sha1 r" and comp: "compact_repo r" and v: "version_fps r v = Some fps" "0 \<le> v" "v < 256"
    and run: "task_delete r v = Inr r'"
  shows "compact_repo r'"
proof -
  from ok obtain d rd m where r: "containers_dir r = Some d" "recipes_dir r = Some rd"
    "load_index r = Inr m" "mm_ok m" "fp_table_added m = []" "repo_index r = index m"
    "index m = map_of (fp_table_origin m)" by (rule repo_okD)
  note start = deleter_start_ok [OF ok r(1,3)]
  obtain f where f: "map_of rd (recipe_name v) = Some f" "fps = file_fps f"
    using v(1) by (auto simp: version_fps_def r(2) entries_def)
  let ?recipe = "read_recipe (replicate SHA1_LENGTH 0) f"
  have name: "getRecipeNameFromVersion (of_int v) = recipe_name v"
  proof -
    have "uint (of_int v :: 8 word) = v" using v(2,3) by (simp add: uint_word_of_int)
    then show ?thesis by (simp add: getRecipeNameFromVersion_def)
  qed
  have counts: "\<forall>fp. count_list (map dec_fp ?recipe) fp \<le> refs (deleter_contents (deleter_start m d)) fp"
    using recipe_counts [OF ok, of v f] f(1) by (simp add: start(2) r(2) entries_def file_fps_def)
  from delete_chunks [OF start(1) this] obtain st where
    st: "foldE delete_chunk (deleter_start m d) ?recipe = Inr st" "deleter_ok sha1 st"
      "deleter_contents st = fold drop_chunk fps (repo_contents r)"
    by (auto simp: start(2) f(2) file_fps_def)
  have "deleter_compact (deleter_start m d)"
    using comp by (simp add: deleter_compact_def compact_repo_def deleter_start_def stored_def r(1,6) entries_def)
  note comp' = delete_chunks_compact [OF start(1) this counts st(1)]
  have r': "containers_dir r' = Some (ddir st)" "fingerprints_file r' = Some (save (dmanager st))"
    using run st(1) f(1)
    by (auto simp: task_delete_def r(1,2,3) fileRecipeExist_def getFileRecipe_def name entries_def)
  have D: "stored r' = map_of (ddir st)" by (simp add: stored_def entries_def r'(1))
  have ok': "repo_ok sha1 r'" "repo_contents r' = fold drop_chunk fps (repo_contents r)"
    using delete_version_spec [OF ok v] run by auto
  have "repo_index r' = index (dmanager st)"
    using saved_index [OF ok'(1) deleter_okD(1) [OF st(2)] r'(2)] deleter_okD(3) [OF st(2)] st(3) ok'(2)
    unfolding D deleter_contents_def by simp
  then show ?thesis using comp' by (simp add: compact_repo_def deleter_compact_def D)
qed

section \<open>Writing and deleting from an empty repository\<close>

text \<open>
  The repositories that writes with \<open>can_write\<close> and deletions, in any order, make of an empty one.
\<close>

inductive built :: "(bytes \<Rightarrow> bytes) \<Rightarrow> repo \<Rightarrow> bool" for sha1 where
  built_empty: "built sha1 empty_repo"
| built_write: "built sha1 r \<Longrightarrow> can_write sha1 fn c r f ds \<Longrightarrow>
    task_write sha1 (chunking fn) c r (Some f) = Some (Inr r') \<Longrightarrow> built sha1 r'"
| built_delete: "built sha1 r \<Longrightarrow> 0 \<le> v \<Longrightarrow> v < 256 \<Longrightarrow> task_delete r v = Inr r' \<Longrightarrow> built sha1 r'"

lemma delete_missing:
  assumes "version_fps r v = None" and "0 \<le> v" "v < 256" and "task_delete r v = Inr r'"
  shows "r' = r"
proof -
  have "\<not> fileRecipeExist (of_int v) (entries (recipes_dir r))"
    using assms(1-3) by (simp add: version_fps_def fileRecipeExist_def getRecipeNameFromVersion_def uint_word_of_int)
  then show ?thesis using assms(4) by (auto simp: task_delete_def and_then_eq_Inr)
qed

lemma built_ok: "built sha1 r \<Longrightarrow> repo_ok sha1 r \<and> compact_repo r"
proof (induction rule: built.induct)
  case built_empty
  then show ?case by (simp add: empty_repo_ok compact_repo_def compact_def empty_repo_parts)
next
  case (built_write r fn c f ds r')
  then show ?case using can_write_task [OF built_write.hyps(2)] write_keeps_compact by fastforce
next
  case (built_delete r v r')
  show ?case
  proof (cases "version_fps r v")
    case None
    then show ?thesis using built_delete delete_missing by blast
  next
    case (Some fps)
    then show ?thesis
      using built_delete delete_version_spec [of sha1 r v fps] delete_keeps_compact [of sha1 r v fps r'] by auto
  qed
qed

text \<open>
  The entries of the index are those of chunks that a recipe uses; every byte is in one of them,
  and in one only, and every list of fingerprints belongs to a container that has one.
\<close>

lemma index_used:
  assumes ok: "repo_ok sha1 r" and e: "repo_index r fp = Some e"
  shows "0 < uses (entries (recipes_dir r)) fp" and "chunk_at (stored r) e \<noteq> None"
proof -
  from store_ok_chunk [OF repo_ok_parts(1) [OF ok] e] obtain c where
    "chunk_at (stored r) e = Some c" "repo_contents r fp = Some (c, unat (ref_cnt e))"
    unfolding repo_contents_def by blast
  then show "0 < uses (entries (recipes_dir r)) fp" and "chunk_at (stored r) e \<noteq> None"
    using contents_used [OF ok, of fp] by simp_all
qed

lemma compact_bytes:
  assumes ok: "repo_ok sha1 r" and comp: "compact_repo r"
    and f: "stored r (container_name k) = Some f" "i < length f"
  shows "\<exists>!fp. \<exists>e. repo_index r fp = Some e \<and> occupies e k i"
proof -
  obtain fp e where e: "repo_index r fp = Some e" "occupies e k i"
    using f comp unfolding compact_repo_def compact_def all_live_def by blast
  have "fp' = fp" if e': "repo_index r fp' = Some e'" "occupies e' k i" for fp' e'
  proof (rule ccontr)
    assume "fp' \<noteq> fp"
    then have "apart e' e"
      using repo_ok_parts(1) [OF ok] e(1) e'(1) unfolding store_ok_def disjoint_chunks_def by blast
    then show False using e(2) e'(2) by (auto simp: apart_def occupies_def word_uint_eq_iff)
  qed
  with e show ?thesis by blast
qed

lemma compact_files:
  assumes "compact_repo r"
  shows "stored r (container_name k) \<noteq> Some []"
    and "stored r (rev_name k) \<noteq> None \<Longrightarrow> \<exists>fp e. repo_index r fp = Some e \<and> uint (container_number e) = k"
  using assms by (auto simp: compact_repo_def compact_def in_container_def)

lemma sample_built: "built sample_sha1 sample_repo"
proof -
  have "can_write sample_sha1 Fn_FSC_512 cdc_zero empty_repo sample_file [sample_file]"
    by (rule sample_can_write) (simp_all add: sample_file_def)
  from built_write [OF built_empty this sample_written] show ?thesis .
qed

end
