(* ===== verification/Interrupt.thy ===== *)
theory Interrupt
  imports Repository
begin

text \<open>
  A write that is interrupted: what the files of the repository hold after each system call
  that changes them. The write task (\<open>main.cpp\<close>) saves containers while it reads the file, then
  the recipe, one fingerprint after the other, then the index, which
  \<open>MetadataManager::save\<close> truncates before it writes it again.
\<close>

section \<open>The states of the files\<close>

text \<open>Opening a file, which creates it, and writing the pieces one after the other.\<close>

definition write_calls :: "string \<Rightarrow> bytes list \<Rightarrow> dir \<Rightarrow> dir list" where
  "write_calls fname pieces d =
     map (\<lambda>k. put_file fname (concat (take k pieces)) d) [0..<Suc (length pieces)]"

definition saveContainer_calls :: "int \<Rightarrow> bytes \<Rightarrow> nat \<Rightarrow> u32 \<Rightarrow> bytes \<Rightarrow> dir \<Rightarrow> dir list" where
  "saveContainer_calls i buf len rev_cnt rev_buf d =
     write_calls (container_name i) [array_prefix len buf] d @
     write_calls (rev_name i) [enc_u32 rev_cnt, array_prefix (unat rev_cnt * 20) rev_buf]
       (put_file (container_name i) (array_prefix len buf) d)"

definition save_open_container :: "writer \<Rightarrow> dir list" where
  "save_open_container w =
     saveContainer_calls (sint (container_index w)) (container_buf w) (unat (container_buf_pointer w))
       (rev_container_cnt w) (rev_container_buf w) (cdir w)"

text \<open>A chunk is written to a container that is full before.\<close>

definition write_chunk_calls :: "(bytes \<Rightarrow> bytes) \<Rightarrow> writer \<Rightarrow> bytes \<Rightarrow> dir list" where
  "write_chunk_calls sha1 w d =
     (if dedupLookup (manager w) (dec_fp (sha1 d)) = Unique \<and>
         CONTAINER_SIZE \<le> unat (container_buf_pointer w + of_nat (length d))
      then save_open_container w else [])"

fun write_chunks_calls :: "(bytes \<Rightarrow> bytes) \<Rightarrow> writer \<Rightarrow> bytes list \<Rightarrow> dir list" where
  "write_chunks_calls sha1 w [] = (if 0 < container_buf_pointer w then save_open_container w else [])"
| "write_chunks_calls sha1 w (d # ds) =
     write_chunk_calls sha1 w d @
     (case write_chunk sha1 w d of Inl e \<Rightarrow> [] | Inr w' \<Rightarrow> write_chunks_calls sha1 w' ds)"

definition saveFileRecipe_calls :: "bytes list \<Rightarrow> dir \<Rightarrow> dir list" where
  "saveFileRecipe_calls recipe d =
     write_calls (recipe_name (int (length d))) (map (take SHA1_LENGTH) recipe) d"

text \<open>The index after \<open>ftruncate\<close> and after each \<open>write\<close>.\<close>

definition save_pieces :: "MetadataManager \<Rightarrow> bytes list" where
  "save_pieces m =
     concat (map (\<lambda>item. [enc_fp (fst item), enc_entry (snd item)]) (fp_table_added m @ fp_table_origin m))"

definition save_calls :: "MetadataManager \<Rightarrow> bytes list" where
  "save_calls m = map (\<lambda>k. concat (take k (save_pieces m))) [0..<Suc (length (save_pieces m))]"

text \<open>
  The repository in the two phases of a write of the chunks \<open>ds\<close>: while containers and recipe
  are written, the index is the old one.
\<close>

definition data_phase :: "(bytes \<Rightarrow> bytes) \<Rightarrow> bytes list \<Rightarrow> MetadataManager \<Rightarrow> repo \<Rightarrow> repo list" where
  "data_phase sha1 ds m r =
     (let w = writer_start m (entries (containers_dir r))
      in map (\<lambda>d. r\<lparr>containers_dir := Some d\<rparr>) (write_chunks_calls sha1 w ds) @
         (case foldE (write_chunk sha1) w ds of
            Inl e \<Rightarrow> []
          | Inr w' \<Rightarrow>
              (case write_files w' (recipes_dir r) of
                 Inl e \<Rightarrow> []
               | Inr r' \<Rightarrow>
                   map (\<lambda>rd. r\<lparr>containers_dir := containers_dir r', recipes_dir := Some rd\<rparr>)
                     (saveFileRecipe_calls (file_recipe w') (entries (recipes_dir r))))))"

definition index_phase :: "(bytes \<Rightarrow> bytes) \<Rightarrow> bytes list \<Rightarrow> MetadataManager \<Rightarrow> repo \<Rightarrow> repo list" where
  "index_phase sha1 ds m r =
     (case foldE (write_chunk sha1) (writer_start m (entries (containers_dir r))) ds of
        Inl e \<Rightarrow> []
      | Inr w' \<Rightarrow>
          (case write_files w' (recipes_dir r) of
             Inl e \<Rightarrow> []
           | Inr r' \<Rightarrow> map (\<lambda>f. r'\<lparr>fingerprints_file := Some f\<rparr>) (save_calls (manager w'))))"

section \<open>The last state is the result of the task\<close>

lemma last_write_calls: "last (write_calls fname pieces d) = put_file fname (concat pieces) d"
  by (simp add: write_calls_def)

lemma last_save_calls: "last (save_calls m) = save m"
proof -
  have "concat (concat (map (\<lambda>item. [enc_fp (fst item), enc_entry (snd item)]) xs)) = concat (map enc_item xs)" for xs
    by (induction xs) (simp_all add: enc_item_def)
  then have "concat (save_pieces m) = save m" by (simp only: save_items save_pieces_def)
  then show ?thesis by (simp add: save_calls_def)
qed

lemma save_calls_ne: "save_calls m \<noteq> []"
  by (simp add: save_calls_def)

lemma index_phase_result:
  assumes "task_write sha1 ck c r (Some f) = Some (Inr r')" and "file_chunks ck c f = Some (Inr (ds, c'))"
    and "load_index r = Inr m"
  shows "index_phase sha1 ds m r \<noteq> [] \<and> last (index_phase sha1 ds m r) = r'"
proof -
  from assms obtain d w where w: "containers_dir r = Some d" "foldE (write_chunk sha1) (writer_start m d) ds = Inr w"
    "write_end w (recipes_dir r) = Inr r'"
    by (auto simp: task_write_def write_blocks_fold [OF assms(2)] and_then_eq_Inr split: option.splits)
  then have files: "write_files w (recipes_dir r) = Inr r'"
    by (auto simp: write_end_def and_then_eq_Inr split: if_splits)
  then have "fingerprints_file r' = Some (save (manager w))" by (auto simp: write_files_def and_then_eq_Inr Let_def)
  then have "r'\<lparr>fingerprints_file := Some (save (manager w))\<rparr> = r'" by simp
  then show ?thesis
    using w(1,2) files save_calls_ne last_save_calls [of "manager w"]
    by (simp add: index_phase_def entries_def last_map)
qed

lemma data_phase_ne: "index_phase sha1 ds m r \<noteq> [] \<Longrightarrow> data_phase sha1 ds m r \<noteq> []"
  by (auto simp: index_phase_def data_phase_def Let_def saveFileRecipe_calls_def write_calls_def split: sum.splits)

section \<open>Old containers and recipes stay\<close>

text \<open>The containers below the number \<open>K\<close> are those of \<open>D\<close>.\<close>

definition same_below :: "int \<Rightarrow> dir \<Rightarrow> dir \<Rightarrow> bool" where
  "same_below K d d1 \<longleftrightarrow> (\<forall>i<K. map_of d1 (container_name i) = map_of d (container_name i))"

lemma same_below_write_calls:
  assumes "same_below K d d0" and "\<forall>i<K. fname \<noteq> container_name i"
  shows "\<forall>d1\<in>set (write_calls fname pieces d0). same_below K d d1"
  using assms by (auto simp: write_calls_def same_below_def map_of_put_file)

lemma same_below_put:
  "same_below K d d0 \<Longrightarrow> \<forall>i<K. fname \<noteq> container_name i \<Longrightarrow> same_below K d (put_file fname x d0)"
  by (auto simp: same_below_def map_of_put_file)

lemma same_below_saveContainer:
  assumes "same_below K d d0" and "K \<le> i"
  shows "(\<forall>d1\<in>set (saveContainer_calls i buf len cnt rv d0). same_below K d d1) \<and>
    same_below K d (saveContainer i buf len cnt rv d0)"
proof -
  have names: "\<forall>j<K. container_name i \<noteq> container_name j" "\<forall>j<K. rev_name i \<noteq> container_name j"
    using assms(2) by auto
  note put = same_below_put [OF assms(1) names(1)]
  show ?thesis
    using same_below_write_calls [OF assms(1) names(1)] same_below_write_calls [OF put names(2)]
      same_below_put [OF put names(2)]
    by (auto simp: saveContainer_calls_def saveContainer_def)
qed

text \<open>The directory after a chunk, and the number of the container that is filled.\<close>

lemma write_chunk_place:
  assumes "write_chunk sha1 w d = Inr w'"
  shows "container_index w' = container_index w \<and> cdir w' = cdir w \<or>
    container_index w' = container_index w + 1 \<and>
    cdir w' = saveContainer (sint (container_index w)) (container_buf w) (unat (container_buf_pointer w))
      (rev_container_cnt w) (rev_container_buf w) (cdir w)"
  using assms
  by (auto simp: write_chunk_def Let_def saveChunkToContainer_def copy_chunk_def flush_container_def advance_def
      and_then_eq_Inr split: LookupResult.splits if_splits)

definition filling :: "int \<Rightarrow> dir \<Rightarrow> writer \<Rightarrow> nat \<Rightarrow> bool" where
  "filling K d w n \<longleftrightarrow> same_below K d (cdir w) \<and> K \<le> uint (container_index w) \<and> uint (container_index w) + int n < 2 ^ 31"

lemma filling_index: "filling K d w n \<Longrightarrow> K \<le> sint (container_index w)"
  by (simp add: filling_def sint_uint_small)

lemma filling_step:
  assumes "write_chunk sha1 w x = Inr w'" and "filling K d w (Suc n)"
  shows "filling K d w' n"
proof -
  have "uint (container_index w + 1) = uint (container_index w) + 1"
    using assms(2) uint_ge_0 [of "container_index w"] by (simp add: filling_def uint_word_ariths)
  then show ?thesis
    using write_chunk_place [OF assms(1)] same_below_saveContainer [OF _ filling_index [OF assms(2)]] assms(2)
    by (auto simp: filling_def)
qed

lemma filling_open:
  assumes "filling K d w n"
  shows "\<forall>d1\<in>set (save_open_container w). same_below K d d1"
proof -
  have "same_below K d (cdir w)" using assms by (simp add: filling_def)
  then show ?thesis
    using conjunct1 [OF same_below_saveContainer [OF _ filling_index [OF assms]]] by (simp add: save_open_container_def)
qed

lemma write_chunks_calls_same:
  assumes "filling K d w (length ds)"
  shows "\<forall>d1\<in>set (write_chunks_calls sha1 w ds). same_below K d d1"
  using assms
proof (induction ds arbitrary: w)
  case Nil
  then show ?case using filling_open by simp
next
  case (Cons x ds)
  have "\<forall>d1\<in>set (write_chunk_calls sha1 w x). same_below K d d1"
    using filling_open [OF Cons.prems] by (simp add: write_chunk_calls_def)
  moreover have "\<forall>d1\<in>set (write_chunks_calls sha1 w' ds). same_below K d d1" if "write_chunk sha1 w x = Inr w'" for w'
    using Cons.IH [of w'] filling_step [OF that, of K d "length ds"] Cons.prems by simp
  ultimately show ?case by (cases "write_chunk sha1 w x") auto
qed

lemma filling_chunks:
  assumes "foldE (write_chunk sha1) w ds = Inr w'" and "filling K d w (length ds)"
  shows "filling K d w' 0"
  using assms by (induction ds arbitrary: w) (auto simp: and_then_eq_Inr dest: filling_step)

lemma write_files_same:
  assumes "write_files w recipes = Inr r'" and "filling K d w 0"
  shows "\<exists>d'. containers_dir r' = Some d' \<and> same_below K d d'"
  using assms(1) same_below_saveContainer [OF _ filling_index [OF assms(2)]] assms(2)
  by (auto simp: write_files_def Let_def and_then_eq_Inr filling_def)

text \<open>A repository of the first phase keeps the index, the old recipes and the old containers.\<close>

lemma data_phase_keeps:
  assumes ok: "repo_ok sha1 r" and nb: "numbered r" and room: "length (entries (containers_dir r)) + length ds < 2 ^ 31"
    and m: "load_index r = Inr m" and v: "version_fps r v = Some fps" and r1: "r1 \<in> set (data_phase sha1 ds m r)"
  shows "load_index r1 = load_index r \<and>
    map_of (entries (recipes_dir r1)) (recipe_name v) = map_of (entries (recipes_dir r)) (recipe_name v) \<and>
    (\<forall>i f. stored r (container_name i) = Some f \<longrightarrow> stored r1 (container_name i) = Some f)"
proof -
  from ok obtain d rd where r: "containers_dir r = Some d" "recipes_dir r = Some rd" by (rule repo_okD)
  let ?w = "writer_start m d" and ?K = "int (length d)"
  have room': "length d + length ds < 2 ^ 31" using room by (simp add: r(1) entries_def)
  then have "uint (container_index ?w) = ?K"
    using unat_of_length [of "length d"] by (simp only: writer_start_def writer.simps uint_nat)
  then have start: "filling ?K d ?w (length ds)"
    using room' by (simp add: filling_def same_below_def) (simp add: writer_start_def)
  have old: "stored r1' (container_name i) = Some f"
    if "containers_dir r1' = Some d1" "same_below ?K d d1" "stored r (container_name i) = Some f" for r1' d1 i f
  proof -
    have "i < ?K" using nb that(3) by (auto simp: numbered_def r(1) entries_def not_le [symmetric])
    then show ?thesis using that by (simp add: stored_def entries_def same_below_def r(1))
  qed
  have rd_ne: "rd \<noteq> []" using v by (auto simp: version_fps_def r(2) entries_def)
  from r1 consider (containers) d1 where "d1 \<in> set (write_chunks_calls sha1 ?w ds)" "r1 = r\<lparr>containers_dir := Some d1\<rparr>"
    | (recipe) w r' rd1 where "foldE (write_chunk sha1) ?w ds = Inr w" "write_files w (Some rd) = Inr r'"
        "rd1 \<in> set (saveFileRecipe_calls (file_recipe w) rd)"
        "r1 = r\<lparr>containers_dir := containers_dir r', recipes_dir := Some rd1\<rparr>"
    by (auto simp: data_phase_def Let_def r entries_def split: sum.splits) metis
  then show ?thesis
  proof cases
    case containers
    have "same_below ?K d d1" using write_chunks_calls_same [OF start] containers(1) by blast
    with old [of r1 d1] show ?thesis by (simp add: containers(2) load_index_def getFilesNum_def r(2))
  next
    case recipe
    obtain d' where d': "containers_dir r' = Some d'" "same_below ?K d d'"
      using write_files_same [OF recipe(2) filling_chunks [OF recipe(1) start]] by blast
    obtain x where rd1: "rd1 = put_file (recipe_name (int (length rd))) x rd"
      using recipe(3) by (auto simp: saveFileRecipe_calls_def write_calls_def)
    have "v \<noteq> int (length rd)" using nb v by (auto simp: numbered_def r(2) entries_def)
    moreover have "rd1 \<noteq> []" using rd_ne rd1 by (cases rd) (auto simp: put_file_def)
    ultimately show ?thesis
      using old [of r1 d'] d' rd_ne
      by (simp add: recipe(4) load_index_def getFilesNum_def r(2) rd1 entries_def map_of_put_file)
  qed
qed

section \<open>The two phases\<close>

lemma interrupted_data_phase:
  assumes can: "can_write sha1 fn c r f ds" and m: "load_index r = Inr m" and v: "version_data r v = Some x"
    and v255: "0 \<le> v" "v < 256" and alg: "supported alg" and r1: "r1 \<in> set (data_phase sha1 ds m r)"
  shows "task_restore alg buf r1 v None = Inr (Some x)"
proof -
  have ok: "repo_ok sha1 r" "numbered r" "length (entries (containers_dir r)) + length ds < 2 ^ 31"
    using can by (auto simp: can_write_def write_room_def)
  from v obtain fps where "version_fps r v = Some fps" by (auto simp: version_data_def)
  from data_phase_keeps [OF ok m this r1]
  have keeps: "load_index r1 = load_index r"
    "map_of (entries (recipes_dir r1)) (recipe_name v) = map_of (entries (recipes_dir r)) (recipe_name v)"
    "\<And>i f. stored r (container_name i) = Some f \<Longrightarrow> stored r1 (container_name i) = Some f" by auto
  then show ?thesis using restore_version_ext [OF ok(1) v v255 alg keeps, of buf None] by (simp add: overlay_def)
qed

lemma hd_save_calls: "hd (save_calls m) = []"
  by (simp add: save_calls_def upt_rec)

lemma index_phase_ne:
  assumes can: "can_write sha1 fn c r f ds" and m: "load_index r = Inr m"
  shows "index_phase sha1 ds m r \<noteq> []"
proof -
  obtain r' where "task_write sha1 (chunking fn) c r (Some f) = Some (Inr r')" using can_write_task [OF can] by blast
  moreover obtain c' where "file_chunks (chunking fn) c f = Some (Inr (ds, c'))" using can by (auto simp: can_write_def)
  ultimately show ?thesis using index_phase_result [OF _ _ m] by metis
qed

text \<open>In the first state of the second phase the index is empty, the recipes are those of the result.\<close>

lemma index_phase_head:
  assumes can: "can_write sha1 fn c r f ds" and m: "load_index r = Inr m"
  shows "load_index (hd (index_phase sha1 ds m r)) = Inr mm_new"
    and "version_fps r v = Some fps \<Longrightarrow>
      \<exists>g. map_of (entries (recipes_dir (hd (index_phase sha1 ds m r)))) (recipe_name v) = Some g \<and> g \<noteq> []"
proof -
  obtain r' where r': "task_write sha1 (chunking fn) c r (Some f) = Some (Inr r')" "repo_ok sha1 r'" "numbered r'"
    "version_fps r' = (version_fps r)(int (length (entries (recipes_dir r))) \<mapsto> map (fp_of sha1) ds)"
    using can_write_task [OF can] by blast
  obtain c' where "file_chunks (chunking fn) c f = Some (Inr (ds, c'))" using can by (auto simp: can_write_def)
  note last = index_phase_result [OF r'(1) this m]
  obtain w r2 where w: "index_phase sha1 ds m r = map (\<lambda>x. r2\<lparr>fingerprints_file := Some x\<rparr>) (save_calls w)"
    using last by (auto simp: index_phase_def split: sum.splits)
  have hd: "hd (index_phase sha1 ds m r) = r2\<lparr>fingerprints_file := Some []\<rparr>"
    unfolding w by (simp add: hd_map [OF save_calls_ne] hd_save_calls)
  have "recipes_dir r' = recipes_dir r2"
    using last unfolding w by (auto simp: last_map [OF save_calls_ne])
  moreover obtain d rd where rd: "recipes_dir r' = Some rd" using repo_okD [OF r'(2)] by metis
  ultimately have rd2: "recipes_dir r2 = Some rd" by simp
  show "load_index (hd (index_phase sha1 ds m r)) = Inr mm_new"
    by (simp add: hd load_index_def getFilesNum_def rd2 load_def mm_new_def)
  show "\<exists>g. map_of (entries (recipes_dir (hd (index_phase sha1 ds m r)))) (recipe_name v) = Some g \<and> g \<noteq> []"
    if v: "version_fps r v = Some fps"
  proof -
    have "version_fps r' v \<noteq> None" using v r'(4) by simp
    then obtain g where "map_of rd (recipe_name v) = Some g" by (auto simp: version_fps_def rd entries_def)
    moreover from this have "g \<noteq> []"
      using repo_ok_parts(4) [OF r'(2)] map_of_SomeD by (fastforce simp: recipes_ok_def rd entries_def)
    ultimately show ?thesis by (simp add: hd entries_def rd2)
  qed
qed

text \<open>
  C10. A write that finds the repository as \<open>can_write\<close> demands (the next numbers free, room, a
  nonempty file) and is interrupted while it saves containers or the recipe harms no version: from
  the files as they are after any system call of the first phase, every version of before is
  restored byte for byte, with every supported method. The last state of the second phase, which
  rewrites the index, is the repository that the uninterrupted task leaves.
\<close>

theorem interrupted_write_keeps_versions:
  assumes "can_write sha1 fn c r f ds" and "load_index r = Inr m"
  shows "(\<forall>r1\<in>set (data_phase sha1 ds m r). \<forall>v x alg.
      version_data r v = Some x \<longrightarrow> 0 \<le> v \<longrightarrow> v < 256 \<longrightarrow> supported alg \<longrightarrow>
      task_restore alg buf r1 v None = Inr (Some x)) \<and>
    task_write sha1 (chunking fn) c r (Some f) = Some (Inr (last (index_phase sha1 ds m r)))"
proof
  show "\<forall>r1\<in>set (data_phase sha1 ds m r). \<forall>v x alg.
      version_data r v = Some x \<longrightarrow> 0 \<le> v \<longrightarrow> v < 256 \<longrightarrow> supported alg \<longrightarrow>
      task_restore alg buf r1 v None = Inr (Some x)"
    using interrupted_data_phase [OF assms] by blast
  obtain r' where "task_write sha1 (chunking fn) c r (Some f) = Some (Inr r')" using can_write_task [OF assms(1)] by blast
  moreover obtain c' where "file_chunks (chunking fn) c f = Some (Inr (ds, c'))" using assms(1) by (auto simp: can_write_def)
  ultimately show "task_write sha1 (chunking fn) c r (Some f) = Some (Inr (last (index_phase sha1 ds m r)))"
    using index_phase_result [OF _ _ assms(2)] by metis
qed

text \<open>
  C11. The second phase is not safe: \<open>MetadataManager::save\<close> truncates the only copy of the index
  before it writes the new one. Interrupted there, no version is left: the restores with a
  cache end with the fatal error, and the forward assembly area, which never asks \<open>dedupLookup\<close>, reports
  success and writes an empty file.
\<close>

theorem interrupted_save_loses_index:
  assumes "can_write sha1 fn c r f ds" and "load_index r = Inr m"
    and "version_data r v = Some x" and "0 \<le> v" and "v < 256"
  shows "task_restore CONTAINER_CACHE buf (hd (index_phase sha1 ds m r)) v None = Inl ExitFailure \<and>
    task_restore CHUNK_CACHE buf (hd (index_phase sha1 ds m r)) v None = Inl ExitFailure \<and>
    task_restore FAA_FIXED buf (hd (index_phase sha1 ds m r)) v None = Inr (Some [])"
proof -
  from assms(3) obtain fps where "version_fps r v = Some fps" by (auto simp: version_data_def)
  from index_phase_head(2) [OF assms(1,2) this] obtain g where
    g: "map_of (entries (recipes_dir (hd (index_phase sha1 ds m r)))) (recipe_name v) = Some g" "g \<noteq> []" by blast
  show ?thesis using empty_index_restore [OF index_phase_head(1) [OF assms(1,2)] g assms(4,5)] by simp
qed

text \<open>A repository with a version, and a write of one new chunk to it.\<close>

lemma sample_load: "\<exists>m. load_index sample_repo = Inr m"
  using repo_okD [OF sample_repo_spec(1)] by metis

theorem interrupted_write_keeps_versions_witness:
  "\<exists>m. data_phase sample_sha1 [[9]] m sample_repo \<noteq> [] \<and> (\<forall>r1\<in>set (data_phase sample_sha1 [[9]] m sample_repo).
     task_restore CHUNK_CACHE [] r1 0 None = Inr (Some sample_file))"
proof -
  obtain m where m: "load_index sample_repo = Inr m" using sample_load by blast
  have can: "can_write sample_sha1 Fn_FSC_512 cdc_zero sample_repo [9] [[9]]" by (rule sample_can_write_again) simp_all
  have "data_phase sample_sha1 [[9]] m sample_repo \<noteq> []" by (rule data_phase_ne [OF index_phase_ne [OF can m]])
  with interrupted_write_keeps_versions [OF can m, of "[]"] sample_version
  show ?thesis by (intro exI [of _ m]) (auto simp: supported_def)
qed

theorem interrupted_save_loses_index_witness:
  "\<exists>m. load_index sample_repo = Inr m \<and>
     task_restore CHUNK_CACHE [] (hd (index_phase sample_sha1 [[9]] m sample_repo)) 0 None = Inl ExitFailure \<and>
     task_restore FAA_FIXED [] (hd (index_phase sample_sha1 [[9]] m sample_repo)) 0 None = Inr (Some [])"
proof -
  obtain m where m: "load_index sample_repo = Inr m" using sample_load by blast
  have "can_write sample_sha1 Fn_FSC_512 cdc_zero sample_repo [9] [[9]]" by (rule sample_can_write_again) simp_all
  from interrupted_save_loses_index [OF this m sample_version, of "[]"] m show ?thesis by auto
qed

end
