(* ===== verification/Interrupt_Delete.thy ===== *)
theory Interrupt_Delete
  imports Interrupt
begin

text \<open>
  A deletion that is interrupted: what the files of the repository hold after each system call
  that changes them. The delete task (\<open>main.cpp\<close>) cuts chunks out of containers and their
  fingerprints out of the lists beside them, then removes the recipe and saves the index last.
  A file is cut by a copy to a temporary file that takes its name after it has been removed.
\<close>

section \<open>The states of the files\<close>

text \<open>Opening the temporary file, the two writes, the removal of the file, the new name.\<close>

definition del_seg_calls :: "string \<Rightarrow> int \<Rightarrow> nat \<Rightarrow> deleter \<Rightarrow> dir list" where
  "del_seg_calls s oft len st =
     (case (map_of (ddir st) s, del_seg s oft len st) of
        (Some f, Inr st') \<Rightarrow>
          let s2 = s @ ''tmp'';
              old = (case map_of (ddir st) s2 of None \<Rightarrow> [] | Some g \<Rightarrow> g);
              head = array_prefix (nat oft) (overlay (tmp_buf st) 0 (take (nat oft) f));
              rest = take CONTAINER_SIZE (drop (nat oft + len) f);
              copied = AList.update s2 (overlay old 0 (head @ rest)) (ddir st)
          in [AList.update s2 old (ddir st), AList.update s2 (overlay old 0 head) (ddir st), copied,
              remove_file s copied, ddir st']
      | _ \<Rightarrow> [])"

definition container_del_chunk_calls ::
    "int \<Rightarrow> SHA1FP \<Rightarrow> u32 \<Rightarrow> u16 \<Rightarrow> deleter \<Rightarrow> dir list" where
  "container_del_chunk_calls ctr_id del_sha oft len st =
     del_seg_calls (container_name ctr_id) (sint oft) (unat len) st @
     (case del_seg (container_name ctr_id) (sint oft) (unat len) st of
        Inl e \<Rightarrow> []
      | Inr st1 \<Rightarrow>
          let r = rev_name ctr_id;
              f = (case map_of (ddir st1) r of None \<Rightarrow> [] | Some f \<Rightarrow> f);
              cnt = (if length f < 4 then dcnt st1 else dec_u32 (take 4 f))
          in if cnt = 1 then [remove_file r (ddir st1)]
             else case rev_scan del_sha oft (ucast len) (unat cnt) 0 (-1) (drop 4 f) (dmanager st1) of
                 Inl e \<Rightarrow> []
               | Inr (d_pos, m) \<Rightarrow>
                   let st2 = st1\<lparr>dmanager := m, dcnt := cnt - 1,
                                 ddir := put_file r (enc_u32 (cnt - 1)) (ddir st1)\<rparr>
                   in write_calls r [enc_u32 (cnt - 1)] (ddir st1) @ del_seg_calls r (4 + d_pos * 20) 20 st2)"

definition delete_chunk_calls :: "deleter \<Rightarrow> bytes \<Rightarrow> dir list" where
  "delete_chunk_calls st x =
     (let fp = dec_fp x in
      case dedupLookup (dmanager st) fp of
        Unique \<Rightarrow> []
      | Dedup \<Rightarrow>
          let (ev, m) = getEntry (dmanager st) fp
          in (case decRefCnt m fp of
                Inl e \<Rightarrow> []
              | Inr (dv, m') \<Rightarrow>
                  if dv = 0
                  then container_del_chunk_calls (sint (container_number ev)) fp (offset ev) (chunk_length ev)
                         (st\<lparr>dmanager := m'\<rparr>)
                  else []))"

fun delete_chunks_calls :: "deleter \<Rightarrow> bytes list \<Rightarrow> dir list" where
  "delete_chunks_calls st [] = []"
| "delete_chunks_calls st (x # xs) =
     delete_chunk_calls st x @
     (case delete_chunk st x of Inl e \<Rightarrow> [] | Inr st' \<Rightarrow> delete_chunks_calls st' xs)"

text \<open>
  The repository in the two phases of the deletion of a recipe: until the recipe has been
  removed, and while the index is rewritten.
\<close>

definition delete_data_phase :: "repo \<Rightarrow> int \<Rightarrow> MetadataManager \<Rightarrow> bytes list \<Rightarrow> repo list" where
  "delete_data_phase r version m recipe =
     (let st0 = deleter_start m (entries (containers_dir r))
      in map (\<lambda>d. r\<lparr>containers_dir := Some d\<rparr>) (delete_chunks_calls st0 recipe) @
         (case foldE delete_chunk st0 recipe of
            Inl e \<Rightarrow> []
          | Inr st \<Rightarrow>
              [r\<lparr>containers_dir := map_option (\<lambda>_. ddir st) (containers_dir r),
                 recipes_dir := Some (remove_file (getRecipeNameFromVersion (of_int version))
                                  (entries (recipes_dir r)))\<rparr>]))"

definition delete_index_phase :: "repo \<Rightarrow> int \<Rightarrow> MetadataManager \<Rightarrow> bytes list \<Rightarrow> repo list" where
  "delete_index_phase r version m recipe =
     (case foldE delete_chunk (deleter_start m (entries (containers_dir r))) recipe of
        Inl e \<Rightarrow> []
      | Inr st \<Rightarrow>
          map (\<lambda>f. \<lparr>containers_dir = map_option (\<lambda>_. ddir st) (containers_dir r),
                    recipes_dir = Some (remove_file (getRecipeNameFromVersion (of_int version))
                                     (entries (recipes_dir r))),
                    fingerprints_file = Some f\<rparr>) (save_calls (dmanager st)))"

section \<open>The last state is the result of the task\<close>

lemma del_seg_last:
  "del_seg s oft len st = Inr st' \<Longrightarrow> del_seg_calls s oft len st \<noteq> [] \<and> last (del_seg_calls s oft len st) = ddir st'"
  by (auto simp: del_seg_calls_def del_seg_def Let_def split: option.splits if_splits)

lemma container_del_chunk_last:
  assumes "container_del_chunk i fp oft len st = Inr st'"
  shows "container_del_chunk_calls i fp oft len st \<noteq> [] \<and> last (container_del_chunk_calls i fp oft len st) = ddir st'"
proof -
  obtain st1 where seg: "del_seg (container_name i) (sint oft) (unat len) st = Inr st1"
    using assms by (cases "del_seg (container_name i) (sint oft) (unat len) st") (simp_all add: container_del_chunk_def)
  define f where "f = (case map_of (ddir st1) (rev_name i) of None \<Rightarrow> [] | Some f \<Rightarrow> f)"
  define cnt where "cnt = (if length f < 4 then dcnt st1 else dec_u32 (take 4 f))"
  define st2 where "st2 m = st1\<lparr>dmanager := m, dcnt := cnt - 1,
    ddir := put_file (rev_name i) (enc_u32 (cnt - 1)) (ddir st1)\<rparr>" for m
  let ?scan = "rev_scan fp oft (ucast len) (unat cnt) 0 (-1) (drop 4 f) (dmanager st1)"
  have del: "container_del_chunk i fp oft len st =
      (if cnt = 1 then Inr (st1\<lparr>dcnt := cnt, ddir := remove_file (rev_name i) (ddir st1)\<rparr>)
       else and_then ?scan (\<lambda>(d_pos, m). del_seg (rev_name i) (4 + d_pos * 20) 20 (st2 m)))"
    by (simp add: container_del_chunk_def seg Let_def f_def cnt_def st2_def)
  have calls: "container_del_chunk_calls i fp oft len st =
      del_seg_calls (container_name i) (sint oft) (unat len) st @
      (if cnt = 1 then [remove_file (rev_name i) (ddir st1)]
       else case ?scan of Inl e \<Rightarrow> [] | Inr (d_pos, m) \<Rightarrow>
         write_calls (rev_name i) [enc_u32 (cnt - 1)] (ddir st1) @ del_seg_calls (rev_name i) (4 + d_pos * 20) 20 (st2 m))"
    unfolding container_del_chunk_calls_def seg Let_def f_def cnt_def st2_def sum.case by (rule refl)
  show ?thesis
  proof (cases "cnt = 1")
    case True
    then show ?thesis using assms by (auto simp: del calls)
  next
    case False
    then obtain d_pos m where scan: "?scan = Inr (d_pos, m)"
      and cut: "del_seg (rev_name i) (4 + d_pos * 20) 20 (st2 m) = Inr st'"
      using assms by (auto simp: del and_then_eq_Inr)
    show ?thesis using False del_seg_last [OF cut] by (simp add: calls scan last_append)
  qed
qed

lemma delete_chunk_last:
  assumes "delete_chunk st x = Inr st'"
  shows "last (ddir st # delete_chunk_calls st x) = ddir st'"
  using assms container_del_chunk_last
  by (auto simp: delete_chunk_def delete_chunk_calls_def Let_def and_then_eq_Inr split: LookupResult.splits prod.splits if_splits)

lemma delete_chunks_last:
  "foldE delete_chunk st xs = Inr st' \<Longrightarrow> last (ddir st # delete_chunks_calls st xs) = ddir st'"
proof (induction xs arbitrary: st)
  case (Cons x xs)
  then obtain st1 where st1: "delete_chunk st x = Inr st1" "foldE delete_chunk st1 xs = Inr st'" by auto
  from delete_chunk_last [OF st1(1)] Cons.IH [OF st1(2)] st1(1) show ?case
    by (cases "delete_chunks_calls st1 xs = []") (auto simp: last_append)
qed simp

section \<open>One chunk\<close>

lemma del_seg_removes:
  assumes "del_seg s oft len st = Inr st'"
  shows "\<exists>d\<in>set (del_seg_calls s oft len st). map_of d s = None"
proof -
  obtain f where "map_of (ddir st) s = Some f" using assms by (auto simp: del_seg_def split: option.splits)
  then show ?thesis using assms by (simp add: del_seg_calls_def Let_def map_of_remove_file)
qed

lemma container_del_chunk_removes:
  assumes "container_del_chunk i fp oft len st = Inr st'"
  shows "\<exists>d\<in>set (container_del_chunk_calls i fp oft len st). map_of d (container_name i) = None"
proof -
  obtain st1 where "del_seg (container_name i) (sint oft) (unat len) st = Inr st1"
    using assms by (cases "del_seg (container_name i) (sint oft) (unat len) st") (simp_all add: container_del_chunk_def)
  from del_seg_removes [OF this] show ?thesis by (auto simp: container_del_chunk_calls_def)
qed

text \<open>A chunk that is used elsewhere only loses a reference; one that is not is cut out.\<close>

lemma delete_chunk_kept:
  assumes ok: "deleter_ok sha1 st" and e: "index (dmanager st) (dec_fp x) = Some e" and n: "1 < ref_cnt e"
  shows "delete_chunk_calls st x = [] \<and> (\<exists>st'. delete_chunk st x = Inr st' \<and> ddir st' = ddir st \<and>
    index (dmanager st') = (index (dmanager st))(dec_fp x \<mapsto> e\<lparr>ref_cnt := ref_cnt e - 1\<rparr>))"
proof -
  have origin: "map_of (fp_table_origin (dmanager st)) (dec_fp x) = Some e"
    using e deleter_index_origin [OF ok] by simp
  obtain m1 where m1: "decRefCnt (dmanager st) (dec_fp x) = Inr (ref_cnt e - 1, m1)"
    "index m1 = (index (dmanager st))(dec_fp x \<mapsto> e\<lparr>ref_cnt := ref_cnt e - 1\<rparr>)"
    using decRefCnt_spec [OF deleter_okD(1) [OF ok] origin] n by auto
  have "ref_cnt e - 1 \<noteq> 0" using n by auto
  then show ?thesis
    using m1 e getEntry_spec [OF origin] by (simp add: delete_chunk_def delete_chunk_calls_def dedupLookup_index Let_def)
qed

lemma delete_chunk_freed:
  assumes ok: "deleter_ok sha1 st" and e: "index (dmanager st) (dec_fp x) = Some e" and n: "\<not> 1 < ref_cnt e"
  shows "(\<exists>d\<in>set (delete_chunk_calls st x). map_of d (container_name (uint (container_number e))) = None) \<and>
    (\<exists>st'. delete_chunk st x = Inr st' \<and> index (dmanager st') = drop_entry (dec_fp x) e (index (dmanager st)))"
proof -
  have origin: "map_of (fp_table_origin (dmanager st)) (dec_fp x) = Some e"
    using e deleter_index_origin [OF ok] by simp
  obtain m1 where m1: "decRefCnt (dmanager st) (dec_fp x) = Inr (0, m1)" "mm_ok m1" "fp_table_added m1 = []"
    "index m1 = (index (dmanager st))(dec_fp x := None)"
    using decRefCnt_spec [OF deleter_okD(1) [OF ok] origin] deleter_okD(2) [OF ok] n by auto
  have num: "uint (container_number e) < 2 ^ 31" using deleter_okD(5) [OF ok e] by blast
  obtain st' where st': "container_del_chunk (sint (container_number e)) (dec_fp x) (offset e) (chunk_length e)
      (st\<lparr>dmanager := m1\<rparr>) = Inr st'" "index (dmanager st') = drop_entry (dec_fp x) e (index (dmanager st))"
    using container_del_chunk_spec [of sha1 "st\<lparr>dmanager := m1\<rparr>" "index (dmanager st)" "dec_fp x" e]
      deleter_okD(3,4) [OF ok] e num m1(2-4) by auto
  have look: "dedupLookup (dmanager st) (dec_fp x) = Dedup" "getEntry (dmanager st) (dec_fp x) = (e, dmanager st)"
    using e getEntry_spec [OF origin] by (simp_all add: dedupLookup_index)
  show ?thesis
    using container_del_chunk_removes [OF st'(1)] st' look m1(1) sint_uint_small [OF num]
    by (simp add: delete_chunk_def delete_chunk_calls_def Let_def)
qed

section \<open>The chunks of a recipe\<close>

lemma deleter_refs:
  "deleter_ok sha1 st \<Longrightarrow> index (dmanager st) fp = Some e \<Longrightarrow> refs (deleter_contents st) fp = unat (ref_cnt e)"
  unfolding deleter_contents_def by (rule refs_index [OF deleter_okD(3)])

lemma deleter_entry:
  assumes "0 < refs (deleter_contents st) fp"
  obtains e where "index (dmanager st) fp = Some e"
  using assms by (auto simp: refs_def deleter_contents_def contents_def split: option.splits)

text \<open>Without the last reference to any chunk, no container changes.\<close>

lemma delete_chunks_kept:
  assumes "deleter_ok sha1 st" and "\<forall>fp\<in>set (map dec_fp xs). count_list (map dec_fp xs) fp < refs (deleter_contents st) fp"
  shows "delete_chunks_calls st xs = [] \<and> (\<exists>st'. foldE delete_chunk st xs = Inr st' \<and> ddir st' = ddir st)"
  using assms
proof (induction xs arbitrary: st)
  case (Cons x xs)
  have many: "1 < refs (deleter_contents st) (dec_fp x)"
    using Cons.prems(2) by (auto dest: bspec [of _ _ "dec_fp x"])
  then have "0 < refs (deleter_contents st) (dec_fp x)" by simp
  then obtain e where e: "index (dmanager st) (dec_fp x) = Some e" by (rule deleter_entry)
  then have n: "1 < ref_cnt e" using many deleter_refs [OF Cons.prems(1) e] by (simp add: word_less_nat_alt)
  obtain st1 where st1: "delete_chunk_calls st x = []" "delete_chunk st x = Inr st1" "ddir st1 = ddir st"
    using delete_chunk_kept [OF Cons.prems(1) e n] by blast
  obtain c k where "deleter_contents st (dec_fp x) = Some (c, k)"
    using many by (auto simp: refs_def split: option.splits)
  from delete_chunk_spec [OF Cons.prems(1) this] st1(2) have
    ok: "deleter_ok sha1 st1" "deleter_contents st1 = drop_chunk (dec_fp x) (deleter_contents st)" by auto
  have "\<forall>fp\<in>set (map dec_fp xs). count_list (map dec_fp xs) fp < refs (deleter_contents st1) fp"
    using Cons.prems(2) by (auto simp: ok(2) refs_drop)
  from Cons.IH [OF ok(1) this] st1 show ?case by auto
qed simp

text \<open>With it, the container of the chunk is missing at some time.\<close>

lemma delete_chunks_freed:
  assumes "deleter_ok sha1 st" and "\<forall>fp. count_list (map dec_fp xs) fp \<le> refs (deleter_contents st) fp"
    and "index (dmanager st) fp = Some e" and "count_list (map dec_fp xs) fp = refs (deleter_contents st) fp"
  shows "\<exists>d\<in>set (delete_chunks_calls st xs). map_of d (container_name (uint (container_number e))) = None"
  using assms
proof (induction xs arbitrary: st e)
  case Nil
  then show ?case using deleter_refs [OF Nil.prems(1,3)] deleter_okD(5) [OF Nil.prems(1,3)]
    by (auto simp: word_gt_0 unat_eq_zero)
next
  case (Cons x xs)
  have "0 < refs (deleter_contents st) (dec_fp x)" using Cons.prems(2) by (auto dest: spec [of _ "dec_fp x"])
  then obtain c k where some: "deleter_contents st (dec_fp x) = Some (c, k)" by (auto simp: refs_def split: option.splits)
  obtain ex where ex: "index (dmanager st) (dec_fp x) = Some ex"
    using \<open>0 < refs (deleter_contents st) (dec_fp x)\<close> by (rule deleter_entry)
  from delete_chunk_spec [OF Cons.prems(1) some] obtain st1 where st1: "delete_chunk st x = Inr st1"
    "deleter_ok sha1 st1" "deleter_contents st1 = drop_chunk (dec_fp x) (deleter_contents st)" by blast
  have left: "\<forall>fp. count_list (map dec_fp xs) fp \<le> refs (deleter_contents st1) fp"
  proof
    fix fp
    show "count_list (map dec_fp xs) fp \<le> refs (deleter_contents st1) fp"
      using Cons.prems(2) [rule_format, of fp] by (auto simp: st1(3) refs_drop)
  qed
  have same: "count_list (map dec_fp xs) fp = refs (deleter_contents st1) fp"
    using Cons.prems(4) by (auto simp: st1(3) refs_drop split: if_splits)
  have later: ?case if "index (dmanager st1) fp = Some e1" "container_number e1 = container_number e" for e1
    using Cons.IH [OF st1(2) left that(1) same] that(2) st1(1) by auto
  show ?case
  proof (cases "1 < ref_cnt ex")
    case True
    then have "index (dmanager st1) = (index (dmanager st))(dec_fp x \<mapsto> ex\<lparr>ref_cnt := ref_cnt ex - 1\<rparr>)"
      using delete_chunk_kept [OF Cons.prems(1) ex] st1(1) by auto
    then show ?thesis using later Cons.prems(3) ex by (cases "dec_fp x = fp") auto
  next
    case False
    note freed = delete_chunk_freed [OF Cons.prems(1) ex False]
    show ?thesis
    proof (cases "container_number ex = container_number e")
      case True
      then show ?thesis using freed by auto
    next
      case other: False
      then have "dec_fp x \<noteq> fp" using ex Cons.prems(3) by auto
      then have "index (dmanager st1) fp = Some (pull_back ex e)"
        using freed st1(1) Cons.prems(3) by (auto simp: drop_entry_def)
      then show ?thesis using later by simp
    qed
  qed
qed

section \<open>Restoring with the container cache\<close>

text \<open>A cached container has been read from its file.\<close>

definition cached_exist :: "(string \<rightharpoonup> bytes) \<Rightarrow> ContainerCache \<Rightarrow> bool" where
  "cached_exist D s \<longleftrightarrow> (\<forall>i\<in>container_index_set s. D (container_name i) \<noteq> None)"

lemma container_getChunkData_exists:
  assumes "container_getChunkData D s ev = Inr (c, s')" and "cached_exist D s"
  shows "D (container_name (sint (container_number ev))) \<noteq> None \<and> cached_exist D s'"
  using assms
  by (auto simp: container_getChunkData_def cached_exist_def Let_def and_then_eq_Inr evictContainerFIFO_def
      cc_loadContainer_def split: if_splits list.splits option.splits)

lemma restored_chunks_exist:
  assumes "foldE (restore_chunk (container_getChunkData D)) (r, s) xs = Inr (r', s')"
    and "cached_exist D s" and "rmanager r = m" "fp_table_added m = []"
    and "x \<in> set xs" "index m (dec_fp x) = Some e"
  shows "D (container_name (sint (container_number e))) \<noteq> None"
  using assms
proof (induction xs arbitrary: r s)
  case (Cons y ys)
  obtain r1 s1 where step: "restore_chunk (container_getChunkData D) (r, s) y = Inr (r1, s1)"
    "foldE (restore_chunk (container_getChunkData D)) (r1, s1) ys = Inr (r', s')"
    using Cons.prems(1) by (auto simp: and_then_eq_Inr)
  have origin: "index m = map_of (fp_table_origin m)"
    using Cons.prems(4) by (auto simp: index_def fun_eq_iff split: option.split)
  have "index m (dec_fp y) \<noteq> None"
    using step(1) Cons.prems(3) by (auto simp: restore_chunk_def Let_def dedupLookup_index split: if_splits)
  then obtain ey where ey: "index m (dec_fp y) = Some ey" by auto
  then have look: "dedupLookup m (dec_fp y) = Dedup" "getEntry m (dec_fp y) = (ey, m)"
    using getEntry_spec [of m "dec_fp y" ey] by (simp_all add: dedupLookup_index origin)
  obtain c where get: "container_getChunkData D s ey = Inr (c, s1)" and same: "rmanager r1 = m"
    using step(1) Cons.prems(3)
    by (auto simp: restore_chunk_def Let_def look and_then_eq_Inr flush_full_def split: if_splits)
  note exist = container_getChunkData_exists [OF get Cons.prems(2)]
  show ?case
  proof (cases "x = y")
    case True
    then show ?thesis using exist ey Cons.prems(6) by simp
  next
    case False
    then show ?thesis using Cons.IH [OF step(2) conjunct2 [OF exist] same] Cons.prems(4-6) by simp
  qed
qed simp

lemma container_missing_restore:
  assumes m: "load_index r = Inr m" "fp_table_added m = []" and v: "version_fps r v = Some fps" "0 \<le> v" "v < 256"
    and e: "fp \<in> set fps" "index m fp = Some e" "stored r (container_name (sint (container_number e))) = None"
  shows "task_restore CONTAINER_CACHE buf r v output \<noteq> Inr out"
proof
  assume run: "task_restore CONTAINER_CACHE buf r v output = Inr out"
  have name: "getRecipeNameFromVersion (of_int v) = recipe_name v"
    using v by (simp add: getRecipeNameFromVersion_def uint_word_of_int)
  obtain f where f: "map_of (entries (recipes_dir r)) (recipe_name v) = Some f" "fps = file_fps f"
    using v(1) by (auto simp: version_fps_def)
  obtain x where x: "x \<in> set (read_recipe (replicate SHA1_LENGTH 0) f)" "dec_fp x = fp"
    using e(1) f(2) by (auto simp: file_fps_def)
  obtain r' s' where "foldE (restore_chunk (container_getChunkData (stored r))) (restorer_start m, container_cache_new 128)
      (read_recipe (replicate SHA1_LENGTH 0) f) = Inr (r', s')"
    using run f(1) by (auto simp: task_restore_def m(1) fileRecipeExist_def getFileRecipe_def name and_then_eq_Inr
        restore_bytes_def restore_with_cache_def stored_def)
  from restored_chunks_exist [OF this _ _ m(2) x(1)] e(2,3) show False
    by (simp add: x(2) cached_exist_def container_cache_new_def restorer_start_def)
qed

section \<open>The two phases\<close>

lemma deletion_starts:
  assumes ok: "repo_ok sha1 r" and m: "load_index r = Inr m" and v: "version_fps r v = Some fps" "0 \<le> v" "v < 256"
    and recipe: "getFileRecipe (of_int v) (entries (recipes_dir r)) = Inr recipe"
  shows "deleter_ok sha1 (deleter_start m (entries (containers_dir r)))"
    and "deleter_contents (deleter_start m (entries (containers_dir r))) = repo_contents r"
    and "map dec_fp recipe = fps" and "getRecipeNameFromVersion (of_int v) = recipe_name v"
    and "count_list fps fp \<le> refs (repo_contents r) fp"
    and "repo_index r = index m" "fp_table_added m = []"
    and "index (dmanager (deleter_start m d)) = index m"
proof -
  from ok obtain d rd where r: "containers_dir r = Some d" "recipes_dir r = Some rd" "mm_ok m" "fp_table_added m = []"
    "repo_index r = index m" using m by (elim repo_okD) auto
  note parts = repo_ok_parts [OF ok]
  have D: "stored r = map_of d" by (simp add: stored_def r(1) entries_def)
  show name: "getRecipeNameFromVersion (of_int v) = recipe_name v"
    using v by (simp add: getRecipeNameFromVersion_def uint_word_of_int)
  obtain f where f: "map_of rd (recipe_name v) = Some f" "fps = file_fps f"
    using v by (auto simp: version_fps_def r(2) entries_def)
  show fps: "map dec_fp recipe = fps"
    using recipe f by (simp add: getFileRecipe_def name r(2) entries_def file_fps_def)
  show "deleter_ok sha1 (deleter_start m (entries (containers_dir r)))"
    using parts(1,2,3) r(3,4) by (auto simp: deleter_ok_def deleter_start_def D r(1,5) index_ok_def entries_def)
  show "deleter_contents (deleter_start m (entries (containers_dir r))) = repo_contents r"
    by (simp add: deleter_contents_def deleter_start_def repo_contents_def stored_def r(5))
  have "distinct (map fst rd)" using parts(4) by (simp add: recipes_ok_def r(2) entries_def)
  then show "count_list fps fp \<le> refs (repo_contents r) fp"
    using uses_delete [of rd "recipe_name v" f fp] parts(5) [of fp] f by (simp add: r(2) entries_def)
  show "repo_index r = index m" "fp_table_added m = []" using r by simp_all
qed (simp add: deleter_start_def)

lemma delete_phases_result:
  assumes "load_index r = Inr m" and "fileRecipeExist (of_int v) (entries (recipes_dir r))"
    and "getFileRecipe (of_int v) (entries (recipes_dir r)) = Inr recipe" and "task_delete r v = Inr r'"
  shows "delete_index_phase r v m recipe \<noteq> [] \<and> last (delete_index_phase r v m recipe) = r'"
  using assms save_calls_ne
  by (auto simp: task_delete_def delete_index_phase_def and_then_eq_Inr last_map last_save_calls)

text \<open>A repository with the same index, another recipe and the old containers restores.\<close>

lemma deletion_without_cuts:
  assumes ok: "repo_ok sha1 r" and m: "load_index r = Inr m" and v: "version_fps r v = Some fps" "0 \<le> v" "v < 256"
    and recipe: "getFileRecipe (of_int v) (entries (recipes_dir r)) = Inr recipe"
    and kept: "\<forall>fp\<in>set fps. count_list fps fp < refs (repo_contents r) fp"
    and r1: "r1 \<in> set (delete_data_phase r v m recipe)"
    and v': "v' \<noteq> v" "version_data r v' = Some x" "0 \<le> v'" "v' < 256" and alg: "supported alg"
  shows "task_restore alg buf r1 v' None = Inr (Some x)"
proof -
  note start = deletion_starts [OF ok m v recipe]
  from ok obtain d rd where r: "containers_dir r = Some d" "recipes_dir r = Some rd" by (rule repo_okD)
  let ?st0 = "deleter_start m (entries (containers_dir r))"
  have "\<forall>fp\<in>set (map dec_fp recipe). count_list (map dec_fp recipe) fp < refs (deleter_contents ?st0) fp"
    using kept unfolding start(2,3) .
  from delete_chunks_kept [OF start(1) this] obtain st where
    st: "delete_chunks_calls ?st0 recipe = []" "foldE delete_chunk ?st0 recipe = Inr st" "ddir st = entries (containers_dir r)"
    by (auto simp: deleter_start_def)
  have r1: "r1 = r\<lparr>containers_dir := Some d, recipes_dir := Some (remove_file (recipe_name v) rd)\<rparr>"
    using r1 st start(4) by (simp add: delete_data_phase_def Let_def r entries_def)
  have other: "map_of (remove_file (recipe_name v) rd) (recipe_name v') = map_of rd (recipe_name v')"
    using v'(1) by (simp add: map_of_remove_file)
  have "map_of rd (recipe_name v') \<noteq> None" using v'(2) by (auto simp: version_data_def version_fps_def r(2) entries_def)
  then have ne: "remove_file (recipe_name v) rd \<noteq> []" "rd \<noteq> []" using other by auto
  have "load_index r1 = load_index r" using ne by (simp add: r1 load_index_def getFilesNum_def r(2))
  moreover have "map_of (entries (recipes_dir r1)) (recipe_name v') = map_of (entries (recipes_dir r)) (recipe_name v')"
    using other by (simp add: r1 entries_def r(2))
  moreover have "stored r1 = stored r" by (simp add: r1 stored_def r(1))
  ultimately have "task_restore alg buf r1 v' None = Inr (Some (overlay [] 0 x))"
    using restore_version_ext [OF ok v'(2-4) alg, of r1 buf None] by simp
  then show ?thesis by (simp add: overlay_def)
qed

lemma load_index_containers: "load_index (r\<lparr>containers_dir := x\<rparr>) = load_index r"
  by (cases "recipes_dir r") (simp_all add: load_index_def getFilesNum_def)

lemma deletion_with_cut:
  assumes ok: "repo_ok sha1 r" and m: "load_index r = Inr m" and v: "version_fps r v = Some fps" "0 \<le> v" "v < 256"
    and recipe: "getFileRecipe (of_int v) (entries (recipes_dir r)) = Inr recipe"
    and freed: "repo_index r fp = Some e" "count_list fps fp = refs (repo_contents r) fp"
    and v': "version_fps r v' = Some fps'" "0 \<le> v'" "v' < 256"
    and fp': "fp' \<in> set fps'" "repo_index r fp' = Some e'" "container_number e' = container_number e"
  shows "\<exists>r1\<in>set (delete_data_phase r v m recipe). \<forall>out. task_restore CONTAINER_CACHE buf r1 v' None \<noteq> Inr out"
proof -
  note start = deletion_starts [OF ok m v recipe]
  let ?st0 = "deleter_start m (entries (containers_dir r))"
  have "\<forall>fp. count_list (map dec_fp recipe) fp \<le> refs (deleter_contents ?st0) fp"
    using start(5) unfolding start(2,3) by blast
  from delete_chunks_freed [OF start(1) this, of fp e] obtain d where
    d: "d \<in> set (delete_chunks_calls ?st0 recipe)" "map_of d (container_name (uint (container_number e))) = None"
    using freed unfolding start(2,3,6,8) by blast
  let ?r1 = "r\<lparr>containers_dir := Some d\<rparr>"
  have num: "uint (container_number e') < 2 ^ 31" using repo_ok_parts(3) [OF ok] fp'(2) by (auto simp: index_ok_def)
  have "load_index ?r1 = Inr m" "version_fps ?r1 v' = Some fps'"
    using m v'(1) by (simp_all add: load_index_containers version_fps_def)
  moreover have "index m fp' = Some e'" using fp'(2) start(6) by simp
  moreover have "stored ?r1 (container_name (sint (container_number e'))) = None"
    using d(2) fp'(3) sint_uint_small [OF num] by (simp add: stored_def entries_def)
  ultimately have "\<forall>out. task_restore CONTAINER_CACHE buf ?r1 v' None \<noteq> Inr out"
    using container_missing_restore [OF _ start(7)] v'(2,3) fp'(1) by blast
  moreover have "?r1 \<in> set (delete_data_phase r v m recipe)" using d(1) by (simp add: delete_data_phase_def Let_def)
  ultimately show ?thesis by blast
qed

text \<open>
  C12. A deletion that is interrupted before it rewrites the index: when other versions use every
  chunk of the deleted one, too, they are restored byte for byte from the files as they are after
  any system call. But when the deletion takes the last reference of a chunk, its container is
  missing at one of these times, while it is replaced by its copy without the chunk; then no
  version that has a chunk in it can be restored through the container cache.
\<close>

theorem interrupted_delete:
  assumes "repo_ok sha1 r" and "load_index r = Inr m" and "version_fps r v = Some fps" "0 \<le> v" "v < 256"
    and "getFileRecipe (of_int v) (entries (recipes_dir r)) = Inr recipe"
  shows "((\<forall>fp\<in>set fps. count_list fps fp < refs (repo_contents r) fp) \<longrightarrow>
      (\<forall>r1\<in>set (delete_data_phase r v m recipe). \<forall>v' x alg. v' \<noteq> v \<longrightarrow> version_data r v' = Some x \<longrightarrow>
         0 \<le> v' \<longrightarrow> v' < 256 \<longrightarrow> supported alg \<longrightarrow> task_restore alg buf r1 v' None = Inr (Some x))) \<and>
    (\<forall>fp e v' fps' fp' e'. repo_index r fp = Some e \<longrightarrow> count_list fps fp = refs (repo_contents r) fp \<longrightarrow>
      version_fps r v' = Some fps' \<longrightarrow> 0 \<le> v' \<longrightarrow> v' < 256 \<longrightarrow> fp' \<in> set fps' \<longrightarrow> repo_index r fp' = Some e' \<longrightarrow>
      container_number e' = container_number e \<longrightarrow>
      (\<exists>r1\<in>set (delete_data_phase r v m recipe). \<forall>out. task_restore CONTAINER_CACHE buf r1 v' None \<noteq> Inr out))"
  using deletion_without_cuts [OF assms] deletion_with_cut [OF assms] by blast

theorem interrupted_delete_witness:
  "\<exists>m recipe r1. r1 \<in> set (delete_data_phase sample_repo 0 m recipe) \<and>
     (\<forall>out. task_restore CONTAINER_CACHE [] r1 0 None \<noteq> Inr out)"
proof -
  obtain m where m: "load_index sample_repo = Inr m" using sample_load by blast
  have v: "version_fps sample_repo 0 = Some [sample_fp]" by (simp add: sample_repo_spec(4))
  obtain recipe where recipe: "getFileRecipe (of_int 0) (entries (recipes_dir sample_repo)) = Inr recipe"
    using v by (auto simp: version_fps_def getFileRecipe_def getRecipeNameFromVersion_def split: option.splits)
  obtain e c where e: "repo_index sample_repo sample_fp = Some e" "chunk_at (stored sample_repo) e = Some c"
    by (rule version_resolves [OF sample_repo_spec(1) v, of sample_fp]) auto
  have "count_list [sample_fp] sample_fp = refs (repo_contents sample_repo) sample_fp"
    by (simp add: sample_repo_spec(3) refs_def)
  with conjunct2 [OF interrupted_delete [OF sample_repo_spec(1) m v _ _ recipe, of "[]"]] v e(1) have
    "\<exists>r1\<in>set (delete_data_phase sample_repo 0 m recipe). \<forall>out. task_restore CONTAINER_CACHE [] r1 0 None \<noteq> Inr out"
    by simp
  then show ?thesis by blast
qed

text \<open>
  Between the cut of a container and the end of the deletion the index has the old places of the
  chunks behind the one that was cut out. Here version 0 is the chunks 1 and 2 and version 1 is
  the chunk 2, both in container 0. When the deletion of version 0 is interrupted after the cut,
  the forward assembly area restores other bytes for version 1, and reports success.
\<close>

definition one_byte_entry :: "u32 \<Rightarrow> u32 \<Rightarrow> ENTRY_VALUE" where
  "one_byte_entry k n =
     \<lparr>container_number = 0, offset = k, chunk_length = 1, container_inner_index = ucast k, ref_cnt = n\<rparr>"

definition two_versions :: repo where
  "two_versions =
     (let a = sample_sha1 [1]; b = sample_sha1 [2] in
      \<lparr>containers_dir = Some [(container_name 0, [1, 2]), (rev_name 0, enc_u32 2 @ a @ b)],
       recipes_dir = Some [(recipe_name 0, a @ b), (recipe_name 1, b)],
       fingerprints_file = Some
         (concat (map enc_item [(dec_fp a, one_byte_entry 0 1), (dec_fp b, one_byte_entry 1 2)]))\<rparr>)"

definition two_manager :: MetadataManager where
  "two_manager =
     \<lparr>fp_table_origin = [(dec_fp (sample_sha1 [1]), one_byte_entry 0 1), (dec_fp (sample_sha1 [2]), one_byte_entry 1 2)],
      fp_table_added = []\<rparr>"

lemma two_fps [simp]: "dec_fp (sample_sha1 [1]) \<noteq> dec_fp (sample_sha1 [2])" "dec_fp (sample_sha1 [2]) \<noteq> dec_fp (sample_sha1 [1])"
  using sample_sha1_inject [of "[1]" "[2]"] by (simp_all add: fp_of_def array_prefix_def)

lemma two_versions_load:
  assumes "recipes_dir r = recipes_dir two_versions" "fingerprints_file r = fingerprints_file two_versions"
  shows "load_index r = Inr two_manager"
proof -
  let ?xs = "fp_table_origin two_manager"
  let ?f = "concat (map enc_item ?xs)"
  have "length ?f = 2 * META_DATA_SIZE" using item_codec.length_table [of ?xs] by (simp add: two_manager_def)
  then have "take FILE_CACHE ?f = ?f @ []" by (simp add: FILE_CACHE_def META_DATA_SIZE_def)
  then have "fp_table_origin (load (Some ?f) mm_new) = ?xs"
    by (rule load_table) (simp_all add: META_DATA_SIZE_def two_manager_def)
  then have "load (Some ?f) mm_new = two_manager" by (simp add: load_def Let_def mm_new_def two_manager_def)
  then show ?thesis
    using assms by (simp add: load_index_def getFilesNum_def two_versions_def Let_def two_manager_def)
qed

text \<open>Restoring version 1 from any container 0.\<close>

lemma two_versions_restore:
  assumes "recipes_dir r = recipes_dir two_versions" "fingerprints_file r = fingerprints_file two_versions"
    and "stored r (container_name 0) = Some f" "length f \<le> CONTAINER_SIZE"
  shows "task_restore FAA_FIXED buf r 1 None = Inr (Some (array_prefix 1 (drop 1 f)))"
proof -
  let ?b = "sample_sha1 [2]" and ?e = "one_byte_entry 1 2"
  have len: "length ?b = 20" by (simp add: sample_sha1_def array_prefix_def)
  have get: "getEntry two_manager (dec_fp ?b) = (?e, two_manager)" by (simp add: getEntry_def two_manager_def)
  have fill: "faa_fill two_manager 0 0 [?b] = ([recipe_entry ?e 0], 1, [], two_manager)"
    by (simp add: get one_byte_entry_def FILE_CACHE_def)
  have entry: "recipe_entry ?e 0 = \<lparr>CID = 0, length_of = 1, container_offset = 1, faa_start = 0, used = False\<rparr>"
    by (simp add: recipe_entry_def one_byte_entry_def)
  have "take CONTAINER_SIZE f = f" using assms(4) by simp
  then have "faa_assemble (stored r) [] [recipe_entry ?e 0] = Inr (array_prefix 1 (drop 1 f), [0])"
    using assms(3)
    by (subst faa_assemble.simps)
      (simp add: entry unused_def faa_loadContainer_def CONTAINER_SIZE_def FILE_CACHE_def overlay_def array_prefix_def
        faa_assemble.simps [where xs = "[\<lparr>CID = 0, length_of = Suc 0, container_offset = 1, faa_start = 0, used = True\<rparr>]"])
  then have "restore_with_faa (stored r) two_manager [?b] = Inr (array_prefix 1 (drop 1 f))"
    by (simp add: restore_with_faa_def faa_segments.simps fill flushAssemblingBuffer_def del: faa_fill.simps)
      (simp add: array_prefix_def)
  moreover have "read_recipe (replicate SHA1_LENGTH 0) ?b = [?b]"
    using read_recipe_concat [of "replicate SHA1_LENGTH 0" "[?b]"] len by (simp add: SHA1_LENGTH_def)
  ultimately show ?thesis
    using assms(1) by (simp add: task_restore_def two_versions_load [OF assms(1,2)] fileRecipeExist_def getFileRecipe_def
        getRecipeNameFromVersion_def two_versions_def Let_def entries_def restore_bytes_def stored_def overlay_def)
qed

theorem interrupted_delete_changes_bytes:
  "task_restore FAA_FIXED buf two_versions 1 None = Inr (Some [2]) \<and>
   (\<exists>r1\<in>set (delete_data_phase two_versions 0 two_manager [sample_sha1 [1], sample_sha1 [2]]).
      task_restore FAA_FIXED buf r1 1 None = Inr (Some [0]))"
proof
  let ?d = "entries (containers_dir two_versions)"
  have f: "map_of ?d (container_name 0) = Some [1, 2]" by (simp add: two_versions_def Let_def entries_def)
  show "task_restore FAA_FIXED buf two_versions 1 None = Inr (Some [2])"
    using two_versions_restore [of two_versions "[1, 2]" buf] f by (simp add: stored_def CONTAINER_SIZE_def array_prefix_def)
  let ?m1 = "two_manager\<lparr>fp_table_origin := [(dec_fp (sample_sha1 [2]), one_byte_entry 1 2)]\<rparr>"
  let ?st = "deleter_start two_manager ?d"
  let ?st1 = "?st\<lparr>dmanager := ?m1\<rparr>"
  have tmp: "map_of (ddir ?st1) (container_name 0 @ ''tmp'') = None"
    by (simp add: deleter_start_def two_versions_def Let_def entries_def)
  have f1: "map_of (ddir ?st1) (container_name 0) = Some [1, 2]" using f by (simp add: deleter_start_def)
  obtain d b where d: "del_seg (container_name 0) (int 0) 1 ?st1 = Inr (?st1\<lparr>ddir := d, tmp_buf := b\<rparr>)"
    "map_of d (container_name 0) = Some [2]"
    using del_seg_spec [OF f1 tmp, of 0 1] by (auto simp: CONTAINER_SIZE_def cut_def)
  have "d \<in> set (del_seg_calls (container_name 0) (int 0) 1 ?st1)"
    using del_seg_last [OF d(1)] last_in_set by fastforce
  then have "d \<in> set (container_del_chunk_calls 0 (dec_fp (sample_sha1 [1])) 0 1 ?st1)"
    by (simp add: container_del_chunk_calls_def)
  moreover have "decRefCnt two_manager (dec_fp (sample_sha1 [1])) = Inr (0, ?m1)"
    by (simp add: decRefCnt_def two_manager_def one_byte_entry_def)
  ultimately have "d \<in> set (delete_chunk_calls ?st (sample_sha1 [1]))"
    by (simp add: delete_chunk_calls_def dedupLookup_def getEntry_def deleter_start_def two_manager_def one_byte_entry_def)
  then have "two_versions\<lparr>containers_dir := Some d\<rparr> \<in>
      set (delete_data_phase two_versions 0 two_manager [sample_sha1 [1], sample_sha1 [2]])"
    by (simp add: delete_data_phase_def Let_def)
  moreover have "task_restore FAA_FIXED buf (two_versions\<lparr>containers_dir := Some d\<rparr>) 1 None = Inr (Some [0])"
    using two_versions_restore [of "two_versions\<lparr>containers_dir := Some d\<rparr>" "[2]" buf] d(2)
    by (simp add: stored_def entries_def CONTAINER_SIZE_def array_prefix_def)
  ultimately show "\<exists>r1\<in>set (delete_data_phase two_versions 0 two_manager [sample_sha1 [1], sample_sha1 [2]]).
      task_restore FAA_FIXED buf r1 1 None = Inr (Some [0])" by blast
qed

end
