(* ===== verification/Queue.thy ===== *)
theory Queue
  imports Prelude
begin

text \<open>
  \<open>src/queue.cpp\<close>: a singly linked list in the heap with a pointer to its last node and a
  counter, every operation on it, and the interface \<open>fifo\<close> it provides. The heap maps
  the addresses in use to nodes; \<open>malloc\<close> is a parameter that gives a free address or
  none. The counter is not negative and bounded by the memory, so it is a \<open>nat\<close>.
\<close>

section \<open>Data\<close>

type_synonym addr = nat

record 'a queue_ele =
  next_ele :: "addr option"
  ele_data :: 'a

type_synonym 'a heap = "addr \<rightharpoonup> 'a queue_ele"

record 'a Queue =
  heap :: "'a heap"
  first :: "addr option"
  last_ele :: "addr option"
  elem_num :: nat

section \<open>Operations\<close>

definition queue_new :: "'a heap \<Rightarrow> 'a Queue" where
  "queue_new h = \<lparr>heap = h, first = None, last_ele = None, elem_num = 0\<rparr>"

definition queue_init :: "'a Queue \<Rightarrow> 'a Queue" where
  "queue_init q = q\<lparr>first := None, last_ele := None, elem_num := 0\<rparr>"

text \<open>\<open>p->next = v\<close>; a null or dangling pointer faults.\<close>

definition set_next :: "'a heap \<Rightarrow> addr option \<Rightarrow> addr option \<Rightarrow> 'a heap result" where
  "set_next h p v =
     (case p of None \<Rightarrow> Inl MemoryFault
      | Some a \<Rightarrow> (case h a of None \<Rightarrow> Inl MemoryFault | Some n \<Rightarrow> Inr (h(a \<mapsto> n\<lparr>next_ele := v\<rparr>))))"

definition load_ele :: "'a heap \<Rightarrow> addr option \<Rightarrow> 'a queue_ele result" where
  "load_ele h p =
     (case p of None \<Rightarrow> Inl MemoryFault
      | Some a \<Rightarrow> (case h a of None \<Rightarrow> Inl MemoryFault | Some n \<Rightarrow> Inr n))"

text \<open>Without memory the element is dropped and the queue stays as it is.\<close>

definition queue_push :: "('a heap \<Rightarrow> addr option) \<Rightarrow> 'a Queue \<Rightarrow> 'a \<Rightarrow> 'a Queue result" where
  "queue_push malloc q element =
     (case malloc (heap q) of
        None \<Rightarrow> Inr q
      | Some item \<Rightarrow>
          let h = (heap q)(item \<mapsto> \<lparr>next_ele = None, ele_data = element\<rparr>) in
          and_then (if first q = None then Inr (q\<lparr>heap := h, first := Some item\<rparr>)
                    else and_then (set_next h (last_ele q) (Some item)) (\<lambda>h'. Inr (q\<lparr>heap := h'\<rparr>)))
            (\<lambda>q'. Inr (q'\<lparr>last_ele := Some item, elem_num := elem_num q' + 1\<rparr>)))"

definition queue_pop :: "'a Queue \<Rightarrow> ('a option \<times> 'a Queue) result" where
  "queue_pop q =
     (if elem_num q = 0 then Inr (None, q)
      else and_then (load_ele (heap q) (first q)) (\<lambda>item.
        Inr (Some (ele_data item),
             q\<lparr>heap := (heap q)(the (first q) := None), first := next_ele item,
               last_ele := (if last_ele q = first q then None else last_ele q),
               elem_num := elem_num q - 1\<rparr>)))"

definition queue_top :: "'a Queue \<Rightarrow> 'a option result" where
  "queue_top q =
     (if elem_num q = 0 then Inr None
      else and_then (load_ele (heap q) (first q)) (\<lambda>item. Inr (Some (ele_data item))))"

definition queue_size :: "'a Queue \<Rightarrow> nat" where
  "queue_size q = elem_num q"

text \<open>The data handed to \<open>free_data\<close>, in order.\<close>

lemma queue_pop_smaller: "queue_pop q = Inr (x, q') \<Longrightarrow> elem_num q \<noteq> 0 \<Longrightarrow> elem_num q' < elem_num q"
  by (auto simp: queue_pop_def and_then_eq_Inr)

function queue_empty :: "'a Queue \<Rightarrow> ('a list \<times> 'a Queue) result" where
  "queue_empty q =
     (if elem_num q = 0 then Inr ([], q)
      else case queue_pop q of
        Inl e \<Rightarrow> Inl e
      | Inr r \<Rightarrow> and_then (queue_empty (snd r)) (\<lambda>(freed, q'). Inr (the (fst r) # freed, q')))"
  by pat_completeness auto
termination
  by (relation "measure elem_num") (auto dest: queue_pop_smaller)

declare queue_empty.simps [simp del]

definition queue_free :: "'a Queue \<Rightarrow> ('a list \<times> 'a heap) result" where
  "queue_free q = and_then (queue_empty q) (\<lambda>(freed, q'). Inr (freed, heap q'))"

text \<open>
  The loops that follow the \<open>next\<close> pointers to the null pointer: \<open>None\<close> for a cyclic
  list. \<open>func\<close> acts on the caller's state through \<open>user_data\<close>.
\<close>

partial_function (option) foreach_from ::
    "('a \<Rightarrow> 'u \<Rightarrow> 'u) \<Rightarrow> 'a heap \<Rightarrow> addr option \<Rightarrow> 'u \<Rightarrow> 'u result option" where
  "foreach_from func h item u =
     (if item = None then Some (Inr u)
      else case load_ele h item of
        Inl e \<Rightarrow> Some (Inl e)
      | Inr n \<Rightarrow> foreach_from func h (next_ele n) (func (ele_data n) u))"

definition queue_foreach :: "'a Queue \<Rightarrow> ('a \<Rightarrow> 'u \<Rightarrow> 'u) \<Rightarrow> 'u \<Rightarrow> 'u result option" where
  "queue_foreach q func user_data =
     (if elem_num q = 0 then Some (Inr user_data)
      else foreach_from func (heap q) (first q) user_data)"

fun get_from :: "'a heap \<Rightarrow> addr option \<Rightarrow> nat \<Rightarrow> 'a result" where
  "get_from h item 0 = and_then (load_ele h item) (\<lambda>n. Inr (ele_data n))"
| "get_from h item (Suc i) = and_then (load_ele h item) (\<lambda>n. get_from h (next_ele n) i)"

text \<open>The index is an \<open>int\<close>; a negative one gives the first element.\<close>

definition queue_get_n :: "'a Queue \<Rightarrow> int \<Rightarrow> 'a option result" where
  "queue_get_n q n =
     (if int (queue_size q) \<le> n then Inr None
      else and_then (get_from (heap q) (first q) (nat n)) (\<lambda>x. Inr (Some x)))"

partial_function (option) find_from ::
    "('a \<Rightarrow> bool) \<Rightarrow> 'a heap \<Rightarrow> addr option \<Rightarrow> 'a option result option" where
  "find_from hit h item =
     (case load_ele h item of
        Inl e \<Rightarrow> Some (Inl e)
      | Inr n \<Rightarrow>
          if hit (ele_data n) then Some (Inr (Some (ele_data n)))
          else if next_ele n = None then Some (Inr None)
          else find_from hit h (next_ele n))"

definition queue_find :: "'a Queue \<Rightarrow> ('a \<Rightarrow> bool) \<Rightarrow> 'a option result option" where
  "queue_find q hit =
     (if elem_num q = 0 then Some (Inr None) else find_from hit (heap q) (first q))"

section \<open>The list in the heap\<close>

fun chain :: "'a heap \<Rightarrow> addr option \<Rightarrow> addr list \<Rightarrow> 'a list \<Rightarrow> bool" where
  "chain h p [] xs \<longleftrightarrow> p = None \<and> xs = []"
| "chain h p (a # as) xs \<longleftrightarrow>
     p = Some a \<and> (\<exists>n ys. h a = Some n \<and> xs = ele_data n # ys \<and> chain h (next_ele n) as ys)"

definition queue_rel :: "'a Queue \<Rightarrow> 'a list \<Rightarrow> bool" where
  "queue_rel q xs \<longleftrightarrow>
     (\<exists>as. chain (heap q) (first q) as xs \<and> distinct as \<and>
        last_ele q = (if as = [] then None else Some (last as)) \<and> elem_num q = length xs)"

lemma chain_length: "chain h p as xs \<Longrightarrow> length xs = length as"
  by (induction h p as xs rule: chain.induct) auto

lemma chain_other: "a \<notin> set as \<Longrightarrow> chain (h(a := v)) p as xs = chain h p as xs"
proof (induction as arbitrary: p xs)
  case (Cons b as)
  then show ?case by auto
qed simp

lemma chain_dom: "chain h p as xs \<Longrightarrow> a \<in> set as \<Longrightarrow> h a \<noteq> None"
  by (induction h p as xs rule: chain.induct) auto

lemma chain_snoc:
  assumes "chain h p as xs" and "as \<noteq> []" and "distinct as" and "b \<notin> set as"
    and "h (last as) = Some n" and "h b = Some \<lparr>next_ele = None, ele_data = x\<rparr>"
  shows "chain (h(last as \<mapsto> n\<lparr>next_ele := Some b\<rparr>)) p (as @ [b]) (xs @ [x])"
  using assms
proof (induction as arbitrary: p xs)
  case (Cons a as)
  obtain m ys where m: "p = Some a" "h a = Some m" "xs = ele_data m # ys" "chain h (next_ele m) as ys"
    using Cons.prems(1) by auto
  show ?case
  proof (cases "as = []")
    case True
    then show ?thesis using m Cons.prems by (auto simp: fun_upd_apply)
  next
    case False
    then have "last as \<noteq> a" using Cons.prems(3) by auto
    then show ?thesis using m False Cons.IH [OF m(4) False] Cons.prems by auto
  qed
qed simp

text \<open>What \<open>malloc\<close> promises.\<close>

locale allocator =
  fixes malloc :: "'a heap \<Rightarrow> addr option"
  assumes fresh: "malloc h = Some a \<Longrightarrow> h a = None"

text \<open>A first-in first-out queue that may refuse an element when it has no memory.\<close>

locale fifo =
  fixes rel :: "'q \<Rightarrow> 'a list \<Rightarrow> bool"
    and no_memory :: "'q \<Rightarrow> bool"
    and push :: "'q \<Rightarrow> 'a \<Rightarrow> 'q result"
    and pop :: "'q \<Rightarrow> ('a option \<times> 'q) result"
    and size_of :: "'q \<Rightarrow> nat"
  assumes push: "rel q xs \<Longrightarrow> \<exists>q'. push q x = Inr q' \<and> (if no_memory q then q' = q else rel q' (xs @ [x]))"
    and pop_empty: "rel q [] \<Longrightarrow> pop q = Inr (None, q)"
    and pop: "rel q (x # xs) \<Longrightarrow> \<exists>q'. pop q = Inr (Some x, q') \<and> rel q' xs"
    and size_of: "rel q xs \<Longrightarrow> size_of q = length xs"
begin

lemma rel_unique_length: "rel q xs \<Longrightarrow> rel q ys \<Longrightarrow> length xs = length ys"
  using size_of by metis

text \<open>Elements come out in the order in which they went in.\<close>

lemma push_all:
  assumes "rel q xs" and "\<And>q. \<not> no_memory q"
  shows "\<exists>q'. foldE push q ys = Inr q' \<and> rel q' (xs @ ys)"
  using assms(1)
proof (induction ys arbitrary: q xs)
  case (Cons y ys)
  obtain q1 where "push q y = Inr q1" "rel q1 (xs @ [y])"
    using push [OF Cons.prems, of y] assms(2) by auto
  with Cons.IH [of q1 "xs @ [y]"] show ?case by simp
qed simp

end

context allocator
begin

lemma queue_push_rel:
  assumes "queue_rel q xs"
  shows "\<exists>q'. queue_push malloc q x = Inr q' \<and>
    (if malloc (heap q) = None then q' = q else queue_rel q' (xs @ [x]))"
proof (cases "malloc (heap q)")
  case None
  then show ?thesis by (simp add: queue_push_def)
next
  case (Some b)
  from assms obtain as where as: "chain (heap q) (first q) as xs" "distinct as"
    "last_ele q = (if as = [] then None else Some (last as))" "elem_num q = length xs"
    by (auto simp: queue_rel_def)
  have b: "b \<notin> set as" using chain_dom [OF as(1), of b] fresh [OF Some] by auto
  let ?h = "(heap q)(b \<mapsto> \<lparr>next_ele = None, ele_data = x\<rparr>)"
  show ?thesis
  proof (cases "as = []")
    case True
    then have "first q = None" "xs = []" using as(1) by auto
    then show ?thesis using True Some as(4)
      by (auto simp: queue_push_def queue_rel_def Let_def intro!: exI [of _ "[b]"])
  next
    case False
    then have first: "first q \<noteq> None" using as(1) by (cases as) auto
    have "last as \<in> set as" using False by simp
    then obtain n where n: "heap q (last as) = Some n" "last as \<noteq> b"
      using chain_dom [OF as(1)] b by fastforce
    have "chain (?h(last as \<mapsto> n\<lparr>next_ele := Some b\<rparr>)) (first q) (as @ [b]) (xs @ [x])"
      using as(1,2) b False n by (intro chain_snoc) (auto simp: chain_other)
    then show ?thesis
      using Some False first n as(2,3,4) b
      by (auto simp: queue_push_def queue_rel_def set_next_def Let_def intro!: exI [of _ "as @ [b]"])
  qed
qed

end

lemma queue_relE:
  assumes "queue_rel q (x # xs)"
  obtains a as n where "first q = Some a" and "heap q a = Some n" and "ele_data n = x"
    and "chain (heap q) (next_ele n) as xs" and "a \<notin> set as" and "distinct as"
    and "last_ele q = Some (last (a # as))" and "elem_num q = Suc (length xs)"
proof -
  from assms obtain cs where "chain (heap q) (first q) cs (x # xs)" "distinct cs"
    "last_ele q = (if cs = [] then None else Some (last cs))" "elem_num q = length (x # xs)"
    by (auto simp: queue_rel_def)
  with that show thesis by (cases cs) auto
qed

lemma queue_pop_rel: "queue_rel q (x # xs) \<Longrightarrow> \<exists>q'. queue_pop q = Inr (Some x, q') \<and> queue_rel q' xs"
proof (erule queue_relE)
  fix a as n
  assume q: "first q = Some a" "heap q a = Some n" "ele_data n = x" "chain (heap q) (next_ele n) as xs"
    "a \<notin> set as" "distinct as" "last_ele q = Some (last (a # as))" "elem_num q = Suc (length xs)"
  let ?q = "q\<lparr>heap := (heap q)(a := None), first := next_ele n,
    last_ele := (if last_ele q = first q then None else last_ele q), elem_num := length xs\<rparr>"
  have "queue_pop q = Inr (Some x, ?q)" using q by (simp add: queue_pop_def load_ele_def)
  moreover have "last_ele ?q = (if as = [] then None else Some (last as))"
    using q(1,5,7) by (auto dest: last_in_set)
  then have "queue_rel ?q xs"
    using q by (auto simp: queue_rel_def chain_other intro!: exI [of _ as])
  ultimately show ?thesis by blast
qed

lemma queue_rel_Nil: "queue_rel q [] \<longleftrightarrow> first q = None \<and> last_ele q = None \<and> elem_num q = 0"
proof
  assume "queue_rel q []"
  then obtain as where "chain (heap q) (first q) as []" "last_ele q = (if as = [] then None else Some (last as))"
    "elem_num q = 0" by (auto simp: queue_rel_def)
  then show "first q = None \<and> last_ele q = None \<and> elem_num q = 0" by (cases as) auto
qed (auto simp: queue_rel_def intro: exI [of _ "[]"])

lemma queue_size_rel: "queue_rel q xs \<Longrightarrow> queue_size q = length xs"
  by (auto simp: queue_rel_def queue_size_def)

lemma queue_pop_empty: "queue_rel q [] \<Longrightarrow> queue_pop q = Inr (None, q)"
  by (simp add: queue_rel_Nil queue_pop_def)

sublocale allocator \<subseteq> linked: fifo queue_rel "\<lambda>q. malloc (heap q) = None" "queue_push malloc" queue_pop queue_size
  by unfold_locales (rule queue_push_rel queue_pop_rel queue_pop_empty queue_size_rel, assumption)+

text \<open>An allocator over \<open>n\<close> addresses.\<close>

definition pool_malloc :: "nat \<Rightarrow> 'a heap \<Rightarrow> addr option" where
  "pool_malloc n h = find (\<lambda>a. h a = None) [0..<n]"

interpretation pool: allocator "pool_malloc n" for n
  by unfold_locales (auto simp: pool_malloc_def find_Some_iff)

section \<open>The loops over the list\<close>

lemma queue_top_rel: "queue_rel q xs \<Longrightarrow> queue_top q = Inr (case xs of [] \<Rightarrow> None | x # _ \<Rightarrow> Some x)"
proof (cases xs)
  case Nil
  moreover assume "queue_rel q xs"
  ultimately show ?thesis by (simp add: queue_rel_Nil queue_top_def)
next
  case (Cons x ys)
  moreover assume "queue_rel q xs"
  ultimately show ?thesis by (auto simp: queue_top_def load_ele_def elim!: queue_relE)
qed

lemma foreach_chain: "chain h p as xs \<Longrightarrow> foreach_from func h p u = Some (Inr (fold func xs u))"
proof (induction as arbitrary: p xs u)
  case Nil
  then show ?case by (subst foreach_from.simps) simp
next
  case (Cons a as)
  then show ?case by (subst foreach_from.simps) (auto simp: load_ele_def)
qed

lemma queue_foreach_rel: "queue_rel q xs \<Longrightarrow> queue_foreach q func u = Some (Inr (fold func xs u))"
  by (auto simp: queue_foreach_def queue_rel_def foreach_chain)

lemma get_chain: "chain h p as xs \<Longrightarrow> i < length xs \<Longrightarrow> get_from h p i = Inr (xs ! i)"
proof (induction h p i arbitrary: as xs rule: get_from.induct)
  case (1 h p)
  then show ?case by (cases as) (auto simp: load_ele_def)
next
  case (2 h p i)
  then show ?case by (cases as) (auto simp: load_ele_def)
qed

lemma queue_get_n_rel:
  "queue_rel q xs \<Longrightarrow> 0 \<le> n \<Longrightarrow>
     queue_get_n q n = Inr (if n < int (length xs) then Some (xs ! nat n) else None)"
  using get_chain by (fastforce simp: queue_get_n_def queue_rel_def queue_size_def)

lemma find_chain: "chain h p as xs \<Longrightarrow> xs \<noteq> [] \<Longrightarrow> find_from hit h p = Some (Inr (find hit xs))"
proof (induction as arbitrary: p xs)
  case (Cons a as)
  then obtain n ys where n: "p = Some a" "h a = Some n" "xs = ele_data n # ys" "chain h (next_ele n) as ys"
    by auto
  have "next_ele n = None \<longleftrightarrow> ys = []" using n(4) by (cases as) auto
  then show ?case
    using Cons.IH [OF n(4)] n by (subst find_from.simps) (auto simp: load_ele_def)
qed simp

lemma queue_find_rel: "queue_rel q xs \<Longrightarrow> queue_find q hit = Some (Inr (find hit xs))"
  using find_chain by (fastforce simp: queue_find_def queue_rel_def)

lemma queue_empty_rel:
  "queue_rel q xs \<Longrightarrow> \<exists>q'. queue_empty q = Inr (xs, q') \<and> queue_rel q' []"
proof (induction xs arbitrary: q)
  case Nil
  then show ?case by (subst queue_empty.simps) (auto simp: queue_rel_Nil)
next
  case (Cons x xs)
  from queue_pop_rel [OF Cons.prems] obtain q1 where q1: "queue_pop q = Inr (Some x, q1)" "queue_rel q1 xs"
    by blast
  from Cons.IH [OF q1(2)] obtain q' where "queue_empty q1 = Inr (xs, q')" "queue_rel q' []" by blast
  moreover have "elem_num q \<noteq> 0" using queue_size_rel [OF Cons.prems] by (simp add: queue_size_def)
  ultimately show ?case using q1(1) by (subst queue_empty.simps) simp
qed

section \<open>Properties\<close>

definition sample_queue :: "nat Queue" where
  "sample_queue =
     \<lparr>heap = [0 \<mapsto> \<lparr>next_ele = Some 3, ele_data = 7\<rparr>, 3 \<mapsto> \<lparr>next_ele = None, ele_data = 8\<rparr>],
      first = Some 0, last_ele = Some 3, elem_num = 2\<rparr>"

lemma sample_queue_rel: "queue_rel sample_queue [7, 8]"
  unfolding queue_rel_def by (rule exI [of _ "[0, 3]"]) (simp add: sample_queue_def)

text \<open>
  C24. The linked queue is a first-in first-out list: whenever its nodes represent the list
  \<open>xs\<close>, a push with any \<open>malloc\<close> that gives free addresses appends the element (or, without
  memory, changes nothing), a pop takes the head off and repairs the pointer to the last
  node when the list becomes empty, and no operation follows a null or dangling pointer.
\<close>

theorem queue_refines_list:
  assumes "\<forall>h a. malloc h = Some a \<longrightarrow> h a = None" and "queue_rel q xs"
  shows "(\<exists>q'. queue_push malloc q x = Inr q' \<and>
      (if malloc (heap q) = None then q' = q else queue_rel q' (xs @ [x]))) \<and>
    (\<exists>q'. queue_pop q = Inr (case xs of [] \<Rightarrow> None | y # _ \<Rightarrow> Some y, q') \<and> queue_rel q' (tl xs))"
proof (rule conjI)
  have "allocator malloc" using assms(1) by (simp add: allocator_def)
  from allocator.queue_push_rel [OF this assms(2)]
  show "\<exists>q'. queue_push malloc q x = Inr q' \<and>
      (if malloc (heap q) = None then q' = q else queue_rel q' (xs @ [x]))" .
  show "\<exists>q'. queue_pop q = Inr (case xs of [] \<Rightarrow> None | y # _ \<Rightarrow> Some y, q') \<and> queue_rel q' (tl xs)"
  proof (cases xs)
    case Nil
    then show ?thesis using queue_pop_empty [of q] assms(2) by (auto intro: exI [of _ q])
  next
    case (Cons y ys)
    show ?thesis unfolding Cons list.case list.sel
      by (rule queue_pop_rel) (use assms(2) Cons in simp)
  qed
qed

theorem queue_refines_list_witness:
  "\<exists>q'. queue_push (pool_malloc 9) sample_queue 5 = Inr q' \<and> queue_rel q' [7, 8, 5]"
proof -
  have fresh: "\<forall>(h :: nat heap) a. pool_malloc 9 h = Some a \<longrightarrow> h a = None"
    by (intro allI impI) (rule pool.fresh)
  have "pool_malloc 9 (heap sample_queue) \<noteq> None"
    unfolding pool_malloc_def find_None_iff
    by (simp add: sample_queue_def) (rule exI [of _ 1], simp)
  then show ?thesis
    using conjunct1 [OF queue_refines_list [OF fresh sample_queue_rel, of 5]]
    by (simp only: if_False append.simps)
qed

text \<open>
  The loops over the queue end and see every element once, in order: \<open>queue_foreach\<close> is
  a fold, \<open>queue_find\<close> gives the first hit, \<open>queue_get_n\<close> the element at a position (none
  behind the end), \<open>queue_top\<close> the head, \<open>queue_size\<close> the length, and \<open>queue_empty\<close> frees all
  elements in order and leaves an empty queue.
\<close>

theorem queue_traversals:
  assumes "queue_rel q xs"
  shows "queue_foreach q func u = Some (Inr (fold func xs u)) \<and>
    queue_find q hit = Some (Inr (find hit xs)) \<and>
    queue_top q = Inr (case xs of [] \<Rightarrow> None | x # _ \<Rightarrow> Some x) \<and> queue_size q = length xs \<and>
    (0 \<le> n \<longrightarrow> queue_get_n q n = Inr (if n < int (length xs) then Some (xs ! nat n) else None)) \<and>
    (\<exists>q'. queue_empty q = Inr (xs, q') \<and> queue_rel q' [])"
  by (intro conjI impI queue_foreach_rel queue_find_rel queue_top_rel queue_size_rel
      queue_get_n_rel queue_empty_rel assms)

theorem queue_traversals_witness:
  "queue_foreach sample_queue (\<lambda>x s. s + x) 0 = Some (Inr 15) \<and>
   queue_find sample_queue (\<lambda>x. 7 < x) = Some (Inr (Some 8)) \<and> queue_get_n sample_queue 1 = Inr (Some 8)"
  using queue_traversals [OF sample_queue_rel, of "\<lambda>x s. s + x" 0 "\<lambda>x. 7 < x" 1] by simp

end
