(* ===== verification/Sync_Queue.thy ===== *)
theory Sync_Queue
  imports Queue
begin

text \<open>
  \<open>src/sync_queue.cpp\<close>: the queue that two phases of the pipeline share. An operation is a
  sequence of steps of its thread: it takes the mutex, tests the flag and the size, waits on
  a condition variable (which gives the mutex back) or changes the queue and broadcasts, and
  gives the mutex back. Threads interleave between these steps in any order, a waiting
  thread may wake up without a broadcast, and \<open>pthread_mutex_lock\<close> may fail.
\<close>

section \<open>Data\<close>

text \<open>The mutex and the waiting threads are part of the system state below.\<close>

record 'a SyncQueue =
  terminated :: int
  max_size :: int
  queue :: "'a Queue"

datatype cond = Max_work | Min_work

definition sync_queue_new :: "'a heap \<Rightarrow> int \<Rightarrow> 'a SyncQueue" where
  "sync_queue_new h n = \<lparr>terminated = 0, max_size = n, queue = queue_new h\<rparr>"

definition sync_queue_free :: "'a SyncQueue \<Rightarrow> ('a list \<times> 'a heap) result" where
  "sync_queue_free s_queue = queue_free (queue s_queue)"

definition sync_queue_size :: "'a SyncQueue \<Rightarrow> nat" where
  "sync_queue_size s_queue = queue_size (queue s_queue)"

section \<open>What an operation does while it holds the mutex\<close>

text \<open>
  One pass from the loop test on: wait on a condition variable, or finish with a result after
  a broadcast. The outer \<open>option\<close> is \<open>None\<close> when a loop over the queue does not end.
\<close>

datatype 'a outcome = Wait cond | Finish "cond option" "'a option"

definition is_full :: "'a SyncQueue \<Rightarrow> bool" where
  "is_full s_queue \<longleftrightarrow> max_size s_queue > 0 \<and> int (queue_size (queue s_queue)) \<ge> max_size s_queue"

definition sync_queue_push ::
    "('a heap \<Rightarrow> addr option) \<Rightarrow> 'a SyncQueue \<Rightarrow> 'a \<Rightarrow> ('a outcome \<times> 'a SyncQueue) result" where
  "sync_queue_push malloc s_queue item =
     (if is_full s_queue then Inr (Wait Max_work, s_queue)
      else and_then (queue_push malloc (queue s_queue) item) (\<lambda>q.
        Inr (Finish (Some Min_work) None, s_queue\<lparr>queue := q\<rparr>)))"

definition sync_queue_pop :: "'a SyncQueue \<Rightarrow> ('a outcome \<times> 'a SyncQueue) result" where
  "sync_queue_pop s_queue =
     (if queue_size (queue s_queue) = 0 then
        Inr (if terminated s_queue = 1 then Finish None None else Wait Min_work, s_queue)
      else and_then (queue_pop (queue s_queue)) (\<lambda>(item, q).
        Inr (Finish (Some Max_work) item, s_queue\<lparr>queue := q\<rparr>)))"

definition sync_queue_term :: "'a SyncQueue \<Rightarrow> ('a outcome \<times> 'a SyncQueue) result" where
  "sync_queue_term s_queue = Inr (Finish (Some Min_work) None, s_queue\<lparr>terminated := 1\<rparr>)"

definition sync_queue_find ::
    "'a SyncQueue \<Rightarrow> ('a \<Rightarrow> bool) \<Rightarrow> ('a \<Rightarrow> 'a) option \<Rightarrow> ('a outcome \<times> 'a SyncQueue) result option" where
  "sync_queue_find s_queue hit dup =
     map_option (\<lambda>r. and_then r (\<lambda>ret.
         Inr (Finish None (case dup of None \<Rightarrow> ret | Some d \<Rightarrow> map_option d ret), s_queue)))
       (queue_find (queue s_queue) hit)"

definition sync_queue_get_top :: "'a SyncQueue \<Rightarrow> ('a outcome \<times> 'a SyncQueue) result" where
  "sync_queue_get_top s_queue =
     (if queue_size (queue s_queue) = 0 then
        Inr (if terminated s_queue = 1 then Finish None None else Wait Min_work, s_queue)
      else and_then (queue_top (queue s_queue)) (\<lambda>item. Inr (Finish None item, s_queue)))"

datatype 'a operation = Push 'a | Pop | Term | Find "'a \<Rightarrow> bool" "('a \<Rightarrow> 'a) option" | Get_top

fun critical ::
    "('a heap \<Rightarrow> addr option) \<Rightarrow> 'a SyncQueue \<Rightarrow> 'a operation \<Rightarrow> ('a outcome \<times> 'a SyncQueue) result option" where
  "critical malloc sq (Push x) = Some (sync_queue_push malloc sq x)"
| "critical malloc sq Pop = Some (sync_queue_pop sq)"
| "critical malloc sq Term = Some (sync_queue_term sq)"
| "critical malloc sq (Find hit dup) = sync_queue_find sq hit dup"
| "critical malloc sq Get_top = Some (sync_queue_get_top sq)"

text \<open>\<open>sync_queue_push\<close> gives up when the queue is terminated; it tests this only once.\<close>

fun gives_up :: "'a SyncQueue \<Rightarrow> 'a operation \<Rightarrow> bool" where
  "gives_up sq (Push x) \<longleftrightarrow> terminated sq = 1"
| "gives_up sq _ \<longleftrightarrow> False"

section \<open>Threads\<close>

type_synonym tid = nat

text \<open>
  Where a thread is: before the lock, behind it, at the loop test, in
  \<open>pthread_cond_wait\<close>, woken up and competing for the mutex, before the unlock, and back in
  the caller. \<open>accepted\<close> and \<open>removed\<close> record what has entered and left the queue.
\<close>

datatype 'a pc =
    Enter "'a operation" | Locked "'a operation" | Testing "'a operation"
  | Sleeping cond "'a operation" | Woken "'a operation" | Leaving "'a option" | Returned "'a option"

record 'a sync_state =
  shared :: "'a SyncQueue"
  holder :: "tid option"
  pcs :: "tid \<Rightarrow> 'a pc"
  accepted :: "'a list"
  removed :: "'a list"

fun wake :: "cond \<Rightarrow> 'a pc \<Rightarrow> 'a pc" where
  "wake c (Sleeping d op) = (if c = d then Woken op else Sleeping d op)"
| "wake c p = p"

definition broadcast :: "cond option \<Rightarrow> (tid \<Rightarrow> 'a pc) \<Rightarrow> tid \<Rightarrow> 'a pc" where
  "broadcast c p t = (case c of None \<Rightarrow> p t | Some c \<Rightarrow> wake c (p t))"

text \<open>The record of what an operation puts in and takes out.\<close>

fun entered :: "('a heap \<Rightarrow> addr option) \<Rightarrow> 'a SyncQueue \<Rightarrow> 'a operation \<Rightarrow> 'a list" where
  "entered malloc s (Push x) = (if malloc (heap (queue s)) = None then [] else [x])"
| "entered malloc s _ = []"

fun left :: "'a operation \<Rightarrow> 'a option \<Rightarrow> 'a list" where
  "left Pop (Some x) = [x]"
| "left _ _ = []"

inductive sync_step :: "('a heap \<Rightarrow> addr option) \<Rightarrow> tid \<Rightarrow> 'a sync_state \<Rightarrow> 'a sync_state \<Rightarrow> bool"
  for malloc where
  lock: "pcs s t = Enter op \<Longrightarrow> holder s = None \<Longrightarrow>
    sync_step malloc t s (s\<lparr>holder := Some t, pcs := (pcs s)(t := Locked op)\<rparr>)"
| lock_fails: "pcs s t = Enter op \<Longrightarrow> sync_step malloc t s (s\<lparr>pcs := (pcs s)(t := Returned None)\<rparr>)"
| give_up: "pcs s t = Locked op \<Longrightarrow> gives_up (shared s) op \<Longrightarrow>
    sync_step malloc t s (s\<lparr>pcs := (pcs s)(t := Leaving None)\<rparr>)"
| go_on: "pcs s t = Locked op \<Longrightarrow> \<not> gives_up (shared s) op \<Longrightarrow>
    sync_step malloc t s (s\<lparr>pcs := (pcs s)(t := Testing op)\<rparr>)"
| wait: "pcs s t = Testing op \<Longrightarrow> critical malloc (shared s) op = Some (Inr (Wait c, sq')) \<Longrightarrow>
    sync_step malloc t s (s\<lparr>shared := sq', holder := None, pcs := (pcs s)(t := Sleeping c op)\<rparr>)"
| finish: "pcs s t = Testing op \<Longrightarrow> critical malloc (shared s) op = Some (Inr (Finish c r, sq')) \<Longrightarrow>
    sync_step malloc t s
      (s\<lparr>shared := sq', pcs := (broadcast c (pcs s))(t := Leaving r),
         accepted := accepted s @ entered malloc (shared s) op, removed := removed s @ left op r\<rparr>)"
| relock: "pcs s t = Woken op \<Longrightarrow> holder s = None \<Longrightarrow>
    sync_step malloc t s (s\<lparr>holder := Some t, pcs := (pcs s)(t := Testing op)\<rparr>)"
| unlock: "pcs s t = Leaving r \<Longrightarrow>
    sync_step malloc t s (s\<lparr>holder := None, pcs := (pcs s)(t := Returned r)\<rparr>)"

text \<open>A return from \<open>pthread_cond_wait\<close> without a broadcast.\<close>

inductive spurious :: "tid \<Rightarrow> 'a sync_state \<Rightarrow> 'a sync_state \<Rightarrow> bool" where
  "pcs s t = Sleeping c op \<Longrightarrow> spurious t s (s\<lparr>pcs := (pcs s)(t := Woken op)\<rparr>)"

text \<open>A thread that is back in its caller may call the next operation.\<close>

inductive call :: "tid \<Rightarrow> 'a sync_state \<Rightarrow> 'a sync_state \<Rightarrow> bool" where
  "pcs s t = Returned r \<Longrightarrow> call t s (s\<lparr>pcs := (pcs s)(t := Enter op)\<rparr>)"

definition sync_next :: "('a heap \<Rightarrow> addr option) \<Rightarrow> 'a sync_state \<Rightarrow> 'a sync_state \<Rightarrow> bool" where
  "sync_next malloc s s' \<longleftrightarrow> (\<exists>t. sync_step malloc t s s' \<or> spurious t s s' \<or> call t s s')"

definition sync_start :: "'a heap \<Rightarrow> int \<Rightarrow> 'a sync_state" where
  "sync_start h n =
     \<lparr>shared = sync_queue_new h n, holder = None, pcs = (\<lambda>_. Returned None), accepted = [], removed = []\<rparr>"

inductive_cases sync_stepE: "sync_step malloc t s s'"
inductive_cases spuriousE: "spurious t s s'"
inductive_cases callE: "call t s s'"

section \<open>What the critical sections do to the list\<close>

text \<open>The reason why a thread waits.\<close>

fun waits :: "'a SyncQueue \<Rightarrow> cond \<Rightarrow> 'a operation \<Rightarrow> bool" where
  "waits sq Max_work (Push x) \<longleftrightarrow> is_full sq"
| "waits sq Min_work Pop \<longleftrightarrow> queue_size (queue sq) = 0 \<and> terminated sq \<noteq> 1"
| "waits sq Min_work Get_top \<longleftrightarrow> queue_size (queue sq) = 0 \<and> terminated sq \<noteq> 1"
| "waits sq _ _ \<longleftrightarrow> False"

fun_cases waitsE: "waits sq c op"

lemma critical_wait: "critical malloc sq op = Some (Inr (Wait c, sq')) \<Longrightarrow> sq' = sq \<and> waits sq c op"
  by (cases op)
    (auto simp: sync_queue_push_def sync_queue_pop_def sync_queue_term_def sync_queue_find_def
      sync_queue_get_top_def and_then_eq_Inr split: if_splits)

definition bounded :: "'a SyncQueue \<Rightarrow> 'a list \<Rightarrow> bool" where
  "bounded sq xs \<longleftrightarrow> (max_size sq > 0 \<longrightarrow> int (length xs) \<le> max_size sq)"

text \<open>What a finished critical section has done, on the list that the queue holds.\<close>

definition section_effect ::
    "('a heap \<Rightarrow> addr option) \<Rightarrow> 'a operation \<Rightarrow> cond option \<Rightarrow> 'a option \<Rightarrow> 'a SyncQueue \<Rightarrow> 'a list \<Rightarrow>
     'a SyncQueue \<Rightarrow> 'a list \<Rightarrow> bool" where
  "section_effect malloc op c r sq xs sq' xs' \<longleftrightarrow>
     queue_rel (queue sq') xs' \<and> xs @ entered malloc sq op = left op r @ xs' \<and>
     (bounded sq xs \<longrightarrow> bounded sq' xs') \<and> max_size sq' = max_size sq \<and> terminated sq' = (if op = Term then 1 else terminated sq) \<and>
     (\<forall>d op'. waits sq d op' \<longrightarrow> c \<noteq> Some d \<longrightarrow> waits sq' d op')"

context allocator
begin

lemma push_total:
  assumes "queue_rel (queue sq) xs"
  shows "\<exists>out sq'. sync_queue_push malloc sq x = Inr (out, sq')"
  using linked.push [OF assms, of x] by (auto simp: sync_queue_push_def)

lemma pop_total:
  fixes sq :: "'a SyncQueue"
  assumes "queue_rel (queue sq) xs"
  shows "\<exists>out sq'. sync_queue_pop sq = Inr (out, sq')"
proof (cases xs)
  case Nil
  then show ?thesis using assms by (auto simp: sync_queue_pop_def queue_size_rel)
next
  case (Cons y ys)
  then show ?thesis using linked.pop [of "queue sq" y ys] assms by (auto simp: sync_queue_pop_def)
qed

lemma critical_total:
  assumes "queue_rel (queue sq) xs"
  shows "\<exists>out sq'. critical malloc sq op = Some (Inr (out, sq'))"
proof (cases op)
  case (Find hit dup)
  then show ?thesis using queue_find_rel [OF assms, of hit] by (simp add: sync_queue_find_def)
qed (use push_total [OF assms] pop_total [OF assms] queue_top_rel [OF assms] in
    \<open>auto simp: sync_queue_term_def sync_queue_get_top_def\<close>)

lemma push_effect:
  assumes "queue_rel (queue sq) xs" and "sync_queue_push malloc sq x = Inr (Finish c r, sq')"
  shows "\<exists>xs'. section_effect malloc (Push x) c r sq xs sq' xs'"
proof -
  obtain q where q: "queue_push malloc (queue sq) x = Inr q" and rest: "\<not> is_full sq" "c = Some Min_work" "r = None"
    "sq' = sq\<lparr>queue := q\<rparr>"
    using assms(2) by (auto simp: sync_queue_push_def split: if_splits)
  have rel: "queue_rel q (xs @ entered malloc sq (Push x))"
    using linked.push [OF assms(1), of x] q assms(1) by (auto split: if_splits)
  have "waits sq' d op'" if "waits sq d op'" "c \<noteq> Some d" for d op'
    using that rest by (cases d; cases op') auto
  moreover have "bounded sq' (xs @ entered malloc sq (Push x))"
    using rest queue_size_rel [OF assms(1)] by (auto simp: bounded_def is_full_def)
  ultimately show ?thesis using rel rest by (auto simp: section_effect_def)
qed

lemma pop_effect:
  assumes "queue_rel (queue sq) xs" and "sync_queue_pop sq = Inr (Finish c r, sq')"
  shows "\<exists>xs'. section_effect malloc Pop c r sq xs sq' xs'"
proof (cases xs)
  case Nil
  then show ?thesis using assms
    by (auto simp: sync_queue_pop_def queue_size_rel section_effect_def split: if_splits)
next
  case (Cons y ys)
  then obtain q where q: "queue_pop (queue sq) = Inr (Some y, q)" "queue_rel q ys"
    using linked.pop [of "queue sq" y ys] assms(1) by auto
  have size: "queue_size (queue sq) \<noteq> 0" using assms(1) Cons by (simp add: queue_size_rel)
  have sq': "sq' = sq\<lparr>queue := q\<rparr>" "c = Some Max_work" "r = Some y"
    using assms(2) q size by (auto simp: sync_queue_pop_def)
  have "waits sq' d op'" if "waits sq d op'" "c \<noteq> Some d" for d op'
    using that sq' size by (cases d; cases op') auto
  with q Cons sq' show ?thesis by (auto simp: section_effect_def bounded_def)
qed

lemma critical_finish:
  assumes "queue_rel (queue sq) xs" and "critical malloc sq op = Some (Inr (Finish c r, sq'))"
  shows "\<exists>xs'. section_effect malloc op c r sq xs sq' xs'"
proof (cases op)
  case (Push x)
  then show ?thesis using push_effect [OF assms(1)] assms(2) by simp
next
  case Pop
  then show ?thesis using pop_effect [OF assms(1)] assms(2) by simp
next
  case Term
  have "waits sq' d op'" if "waits sq d op'" "c \<noteq> Some d" for d op'
    using that assms(2) Term by (cases d; cases op') (auto simp: sync_queue_term_def is_full_def)
  then show ?thesis using assms Term by (auto simp: sync_queue_term_def section_effect_def bounded_def)
next
  case (Find hit dup)
  then have "sq' = sq" using assms(2) by (auto simp: sync_queue_find_def and_then_eq_Inr)
  then show ?thesis using assms Find by (auto simp: section_effect_def)
next
  case Get_top
  then have "sq' = sq" using assms(2) by (auto simp: sync_queue_get_top_def and_then_eq_Inr split: if_splits)
  then show ?thesis using assms Get_top by (auto simp: section_effect_def)
qed

end

section \<open>The invariant of the threads\<close>

fun in_section :: "'a pc \<Rightarrow> bool" where
  "in_section (Locked op) \<longleftrightarrow> True"
| "in_section (Testing op) \<longleftrightarrow> True"
| "in_section (Leaving r) \<longleftrightarrow> True"
| "in_section _ \<longleftrightarrow> False"

definition exclusive :: "'a sync_state \<Rightarrow> bool" where
  "exclusive s \<longleftrightarrow> (\<forall>t. in_section (pcs s t) \<longleftrightarrow> holder s = Some t)"

definition sleepers_ok :: "'a sync_state \<Rightarrow> bool" where
  "sleepers_ok s \<longleftrightarrow> (\<forall>t c op. pcs s t = Sleeping c op \<longrightarrow> waits (shared s) c op)"

definition holds :: "'a sync_state \<Rightarrow> 'a list \<Rightarrow> bool" where
  "holds s xs \<longleftrightarrow>
     queue_rel (queue (shared s)) xs \<and> bounded (shared s) xs \<and> accepted s = removed s @ xs"

definition sync_ok :: "'a sync_state \<Rightarrow> bool" where
  "sync_ok s \<longleftrightarrow> exclusive s \<and> sleepers_ok s \<and> (\<exists>xs. holds s xs)"

lemma in_section_wake [simp]: "in_section (wake c p) = in_section p"
  by (cases "(c, p)" rule: wake.cases) auto

lemma in_section_broadcast [simp]: "in_section (broadcast c p t) = in_section (p t)"
  by (simp add: broadcast_def split: option.splits)

lemma broadcast_Sleeping:
  "broadcast c p t = Sleeping d op \<longleftrightarrow> p t = Sleeping d op \<and> c \<noteq> Some d"
proof -
  have "wake e (p t) = Sleeping d op \<longleftrightarrow> p t = Sleeping d op \<and> e \<noteq> d" for e
    by (cases "p t") auto
  then show ?thesis by (auto simp: broadcast_def split: option.splits)
qed

lemma exclusive_step: "sync_step malloc t s s' \<Longrightarrow> exclusive s \<Longrightarrow> exclusive s'"
  by (erule sync_stepE; simp add: exclusive_def; (metis in_section.simps option.distinct(1) option.inject)?)

lemma exclusive_other: "spurious t s s' \<or> call t s s' \<Longrightarrow> exclusive s \<Longrightarrow> exclusive s'"
  by (auto simp: exclusive_def elim!: spuriousE callE) (metis in_section.simps)+

lemma sleepers_step:
  assumes "sync_step malloc t s s'" and "sleepers_ok s"
    and "\<And>op c r sq'. critical malloc (shared s) op = Some (Inr (Finish c r, sq')) \<Longrightarrow>
      \<forall>d op'. waits (shared s) d op' \<longrightarrow> c \<noteq> Some d \<longrightarrow> waits sq' d op'"
  shows "sleepers_ok s'"
  using assms(1)
proof (cases rule: sync_step.cases)
  case (finish op c r sq')
  then show ?thesis using assms(2) assms(3) [OF finish(3)]
    by (auto simp: sleepers_ok_def broadcast_Sleeping split: if_splits)
next
  case (wait op c sq')
  then show ?thesis using assms(2) critical_wait [OF wait(3)] by (simp add: sleepers_ok_def)
qed (use assms(2) in \<open>simp_all add: sleepers_ok_def\<close>)

section \<open>The channel that the queue implements\<close>

record 'a channel =
  items :: "'a list"
  closed :: bool
  capacity :: int

inductive channel_step :: "'a channel \<Rightarrow> 'a channel \<Rightarrow> bool" where
  send: "capacity c > 0 \<longrightarrow> int (length (items c)) < capacity c \<Longrightarrow>
    channel_step c (c\<lparr>items := items c @ [x]\<rparr>)"
| receive: "items c = x # xs \<Longrightarrow> channel_step c (c\<lparr>items := xs\<rparr>)"
| close: "channel_step c (c\<lparr>closed := True\<rparr>)"

definition channel_of :: "'a SyncQueue \<Rightarrow> 'a list \<Rightarrow> 'a channel" where
  "channel_of sq xs = \<lparr>items = xs, closed = (terminated sq = 1), capacity = max_size sq\<rparr>"

lemma finish_channel:
  assumes "critical malloc sq op = Some (Inr (Finish c r, sq'))" and "queue_rel (queue sq) xs"
    and "section_effect malloc op c r sq xs sq' xs'"
  shows "channel_of sq' xs' = channel_of sq xs \<or> channel_step (channel_of sq xs) (channel_of sq' xs')"
proof (cases op)
  case (Push x)
  with assms(1) have "\<not> is_full sq" by (auto simp: sync_queue_push_def split: if_splits)
  then have room: "max_size sq > 0 \<longrightarrow> int (length xs) < max_size sq"
    using queue_size_rel [OF assms(2)] by (auto simp: is_full_def)
  have "channel_of sq' xs' = (channel_of sq xs)\<lparr>items := xs @ entered malloc sq op\<rparr>"
    using assms(3) Push by (simp add: section_effect_def channel_of_def)
  then show ?thesis
    using channel_step.send [of "channel_of sq xs" x] room Push by (auto simp: channel_of_def)
next
  case Pop
  show ?thesis
  proof (cases r)
    case None
    then show ?thesis using assms(3) Pop by (simp add: section_effect_def channel_of_def)
  next
    case (Some x)
    then have "xs = x # xs'" "channel_of sq' xs' = (channel_of sq xs)\<lparr>items := xs'\<rparr>"
      using assms(3) Pop by (auto simp: section_effect_def channel_of_def)
    then show ?thesis using channel_step.receive [of "channel_of sq xs"] by (simp add: channel_of_def)
  qed
next
  case Term
  then have "channel_of sq' xs' = (channel_of sq xs)\<lparr>closed := True\<rparr>"
    using assms(3) by (simp add: section_effect_def channel_of_def)
  then show ?thesis using channel_step.close by metis
qed (use assms(3) in \<open>simp_all add: section_effect_def channel_of_def\<close>)

context allocator
begin

lemma step_holds:
  assumes "sync_step malloc t s s'" and "holds s xs"
  shows "\<exists>xs'. holds s' xs' \<and> (channel_of (shared s') xs' = channel_of (shared s) xs \<or>
    channel_step (channel_of (shared s) xs) (channel_of (shared s') xs'))"
  using assms(1)
proof (cases rule: sync_step.cases)
  case (wait op c sq')
  then show ?thesis using assms(2) critical_wait [OF wait(3)] by (auto simp: holds_def)
next
  case (finish op c r sq')
  have rel: "queue_rel (queue (shared s)) xs" using assms(2) by (simp add: holds_def)
  from critical_finish [OF rel finish(3)] obtain xs'
    where e: "section_effect malloc op c r (shared s) xs sq' xs'" by blast
  then have "holds s' xs'" using assms(2) finish(1) by (simp add: holds_def section_effect_def)
  with finish_channel [OF finish(3) rel e] finish(1) show ?thesis by auto
qed (use assms(2) in \<open>auto simp: holds_def\<close>)

lemma sync_ok_next:
  assumes "sync_next malloc s s'" and "sync_ok s"
  shows "sync_ok s'"
proof -
  from assms(2) obtain xs where ok: "exclusive s" "sleepers_ok s" "holds s xs"
    by (auto simp: sync_ok_def)
  then have rel: "queue_rel (queue (shared s)) xs" by (simp add: holds_def)
  from assms(1) obtain t where "sync_step malloc t s s' \<or> spurious t s s' \<or> call t s s'"
    by (auto simp: sync_next_def)
  then show ?thesis
  proof
    assume step: "sync_step malloc t s s'"
    have "sleepers_ok s'"
      by (rule sleepers_step [OF step ok(2)])
        (use critical_finish [OF rel] in \<open>fastforce simp: section_effect_def\<close>)
    with exclusive_step [OF step ok(1)] step_holds [OF step ok(3)] show ?thesis
      by (auto simp: sync_ok_def)
  next
    assume other: "spurious t s s' \<or> call t s s'"
    then have "holds s' xs" "sleepers_ok s'"
      using ok(2,3) by (auto simp: holds_def sleepers_ok_def elim!: spuriousE callE split: if_splits)
    with exclusive_other [OF other ok(1)] show ?thesis by (auto simp: sync_ok_def)
  qed
qed

end

definition sync_reachable :: "('a heap \<Rightarrow> addr option) \<Rightarrow> 'a heap \<Rightarrow> int \<Rightarrow> 'a sync_state \<Rightarrow> bool" where
  "sync_reachable malloc h n s \<longleftrightarrow> (sync_next malloc)\<^sup>*\<^sup>* (sync_start h n) s"

lemma sync_ok_start: "sync_ok (sync_start h n)"
  by (auto simp: sync_ok_def exclusive_def sleepers_ok_def holds_def bounded_def sync_start_def
      sync_queue_new_def queue_new_def queue_rel_Nil intro!: exI [of _ "[]"])

context allocator
begin

lemma sync_ok_reachable: "sync_reachable malloc h n s \<Longrightarrow> sync_ok s"
  unfolding sync_reachable_def by (induction rule: rtranclp_induct) (auto simp: sync_ok_start sync_ok_next)

text \<open>A thread at work can go on, or the holder of the mutex can.\<close>

lemma holder_can_step:
  assumes "sync_ok s" and "holder s = Some t"
  shows "\<exists>s'. sync_step malloc t s s'"
proof -
  from assms obtain xs where xs: "queue_rel (queue (shared s)) xs" and t: "in_section (pcs s t)"
    by (auto simp: sync_ok_def holds_def exclusive_def)
  show ?thesis
  proof (cases "pcs s t")
    case (Locked op)
    then show ?thesis using sync_step.give_up sync_step.go_on by metis
  next
    case (Testing op)
    from critical_total [OF xs] obtain out sq' where out: "critical malloc (shared s) op = Some (Inr (out, sq'))"
      by blast
    then show ?thesis
      using Testing sync_step.wait sync_step.finish by (cases out) blast+
  next
    case (Leaving r)
    then show ?thesis using sync_step.unlock by metis
  qed (use t in simp_all)
qed

lemma no_deadlock:
  assumes "sync_ok s" and "\<And>t' s'. \<not> sync_step malloc t' s s'"
  shows "(\<exists>r. pcs s t = Returned r) \<or> (\<exists>c op. pcs s t = Sleeping c op \<and> waits (shared s) c op)"
proof -
  have free: "holder s = None" using holder_can_step [OF assms(1)] assms(2) by (cases "holder s") auto
  then have "\<not> in_section (pcs s t)" using assms(1) by (simp add: sync_ok_def exclusive_def)
  then show ?thesis
    using assms free sync_step.lock [of s t _ malloc] sync_step.relock [of s t _ malloc]
    by (cases "pcs s t") (auto simp: sync_ok_def sleepers_ok_def)
qed

end

section \<open>Running a schedule\<close>

text \<open>A scheduler that never lets the lock fail: it calls an operation or lets a thread go on.\<close>

datatype 'a event = Call tid "'a operation" | Go tid

definition go :: "('a heap \<Rightarrow> addr option) \<Rightarrow> tid \<Rightarrow> 'a sync_state \<Rightarrow> 'a sync_state option" where
  "go malloc t s =
     (case pcs s t of
        Enter op \<Rightarrow> if holder s = None then Some (s\<lparr>holder := Some t, pcs := (pcs s)(t := Locked op)\<rparr>) else None
      | Locked op \<Rightarrow> Some (s\<lparr>pcs := (pcs s)(t := if gives_up (shared s) op then Leaving None else Testing op)\<rparr>)
      | Testing op \<Rightarrow>
          (case critical malloc (shared s) op of
             Some (Inr (Wait c, sq')) \<Rightarrow>
               Some (s\<lparr>shared := sq', holder := None, pcs := (pcs s)(t := Sleeping c op)\<rparr>)
           | Some (Inr (Finish c r, sq')) \<Rightarrow>
               Some (s\<lparr>shared := sq', pcs := (broadcast c (pcs s))(t := Leaving r),
                       accepted := accepted s @ entered malloc (shared s) op,
                       removed := removed s @ left op r\<rparr>)
           | _ \<Rightarrow> None)
      | Woken op \<Rightarrow> if holder s = None then Some (s\<lparr>holder := Some t, pcs := (pcs s)(t := Testing op)\<rparr>) else None
      | Leaving r \<Rightarrow> Some (s\<lparr>holder := None, pcs := (pcs s)(t := Returned r)\<rparr>)
      | _ \<Rightarrow> None)"

fun run_event :: "('a heap \<Rightarrow> addr option) \<Rightarrow> 'a event \<Rightarrow> 'a sync_state \<Rightarrow> 'a sync_state option" where
  "run_event malloc (Go t) s = go malloc t s"
| "run_event malloc (Call t op) s =
     (case pcs s t of Returned r \<Rightarrow> Some (s\<lparr>pcs := (pcs s)(t := Enter op)\<rparr>) | _ \<Rightarrow> None)"

fun schedule :: "('a heap \<Rightarrow> addr option) \<Rightarrow> 'a event list \<Rightarrow> 'a sync_state \<Rightarrow> 'a sync_state option" where
  "schedule malloc [] s = Some s"
| "schedule malloc (e # es) s = Option.bind (run_event malloc e s) (schedule malloc es)"

lemma go_step: "go malloc t s = Some s' \<Longrightarrow> sync_step malloc t s s'"
  by (auto simp: go_def intro: sync_step.intros split: pc.splits if_splits option.splits sum.splits outcome.splits)

lemma run_event_next: "run_event malloc e s = Some s' \<Longrightarrow> sync_next malloc s s'"
  by (cases e) (auto simp: sync_next_def dest: go_step intro: call.intros split: pc.splits)

lemma schedule_reachable:
  "schedule malloc es s = Some s' \<Longrightarrow> (sync_next malloc)\<^sup>*\<^sup>* s s'"
  by (induction es arbitrary: s) (auto simp: bind_eq_Some_conv intro: converse_rtranclp_into_rtranclp run_event_next)

lemma schedule_sync_reachable:
  "schedule malloc es (sync_start h n) = Some s \<Longrightarrow> sync_reachable malloc h n s"
  unfolding sync_reachable_def by (rule schedule_reachable)

context allocator
begin

lemma max_size_next:
  assumes "sync_next malloc s s'" and "sync_ok s"
  shows "max_size (shared s') = max_size (shared s)"
proof -
  from assms(1) obtain t where "sync_step malloc t s s' \<or> spurious t s s' \<or> call t s s'"
    by (auto simp: sync_next_def)
  then show ?thesis
  proof
    assume "sync_step malloc t s s'"
    with assms(2) obtain xs xs' where "channel_of (shared s') xs' = channel_of (shared s) xs \<or>
        channel_step (channel_of (shared s) xs) (channel_of (shared s') xs')"
      using step_holds unfolding sync_ok_def by blast
    then show ?thesis by (auto simp: channel_of_def elim: channel_step.cases)
  qed (auto elim: spuriousE callE)
qed

lemma max_size_reachable:
  "sync_reachable malloc h n s \<Longrightarrow> sync_ok s \<and> max_size (shared s) = n"
  unfolding sync_reachable_def
proof (induction rule: rtranclp_induct)
  case base
  show ?case by (simp add: sync_ok_start) (simp add: sync_start_def sync_queue_new_def)
next
  case (step s s')
  then show ?case using sync_ok_next max_size_next by metis
qed

lemma next_channel:
  assumes "sync_next malloc s s'" and "holds s xs"
  shows "\<exists>xs'. holds s' xs' \<and> (channel_of (shared s') xs' = channel_of (shared s) xs \<or>
    channel_step (channel_of (shared s) xs) (channel_of (shared s') xs'))"
proof -
  from assms(1) obtain t where "sync_step malloc t s s' \<or> spurious t s s' \<or> call t s s'"
    by (auto simp: sync_next_def)
  then show ?thesis
  proof
    assume "spurious t s s' \<or> call t s s'"
    with assms(2) show ?thesis
      by (intro exI [of _ xs]) (auto simp: holds_def elim!: spuriousE callE)
  qed (rule step_holds [OF _ assms(2)])
qed

end

section \<open>Properties\<close>

text \<open>
  C21. For any interleaving of any threads, with spurious wake-ups and failing locks, the shared
  queue is a bounded first-in first-out buffer: what has been accepted is what has been
  removed followed by what the nodes in the heap hold, in order, the bound is kept, and at
  most one thread is inside a critical section.
\<close>

theorem sync_queue_bounded_fifo:
  assumes "\<forall>h a. malloc h = Some a \<longrightarrow> h a = None" and "sync_reachable malloc h n s"
  shows "(\<exists>xs. queue_rel (queue (shared s)) xs \<and> accepted s = removed s @ xs \<and>
      (0 < n \<longrightarrow> int (length xs) \<le> n)) \<and>
    (\<forall>t t'. in_section (pcs s t) \<and> in_section (pcs s t') \<longrightarrow> t = t')"
proof -
  have "allocator malloc" using assms(1) by (simp add: allocator_def)
  from allocator.max_size_reachable [OF this assms(2)]
  have ok: "exclusive s" "\<exists>xs. holds s xs" "max_size (shared s) = n" by (auto simp: sync_ok_def)
  have "\<forall>t t'. in_section (pcs s t) \<and> in_section (pcs s t') \<longrightarrow> t = t'"
    using ok(1) by (auto simp: exclusive_def)
  with ok(2,3) show ?thesis by (auto simp: holds_def bounded_def)
qed

definition sample_schedule :: "nat event list" where
  "sample_schedule =
     [Call 0 (Push 7), Go 0, Go 0, Go 0, Go 0, Call 0 (Push 8), Go 0, Go 0, Go 0]"

definition sample_state :: "nat sync_state" where
  "sample_state = the (schedule (pool_malloc 3) sample_schedule (sync_start Map.empty 1))"

lemma pool_fresh: "\<forall>h a. pool_malloc n h = Some a \<longrightarrow> h a = None"
  by (intro allI impI) (rule pool.fresh)

lemma sample_state_eq:
  "schedule (pool_malloc 3) sample_schedule (sync_start Map.empty 1) = Some sample_state \<and>
   accepted sample_state = [7] \<and> removed sample_state = [] \<and>
   pcs sample_state 0 = Sleeping Max_work (Push 8) \<and> pcs sample_state (Suc t) = Returned None"
  by (simp add: sample_state_def sample_schedule_def sync_start_def sync_queue_new_def queue_new_def
      go_def sync_queue_push_def is_full_def queue_size_def queue_push_def pool_malloc_def upt_rec
      broadcast_def Let_def)

lemma sample_state_reachable: "sync_reachable (pool_malloc 3) Map.empty 1 sample_state"
  using sample_state_eq by (blast intro: schedule_sync_reachable)

theorem sync_queue_bounded_fifo_witness:
  "\<exists>xs. queue_rel (queue (shared sample_state)) xs \<and> [7] = [] @ xs \<and> int (length xs) \<le> 1"
proof -
  have "accepted sample_state = [7]" "removed sample_state = []" using sample_state_eq by blast+
  then show ?thesis
    using conjunct1 [OF sync_queue_bounded_fifo [OF pool_fresh sample_state_reachable]] by simp
qed

text \<open>
  C23. The shared queue refines a channel with atomic send, receive and close: every step of
  every thread leaves the channel as it is or is one step of it.
\<close>

theorem sync_queue_refines_channel:
  assumes "\<forall>h a. malloc h = Some a \<longrightarrow> h a = None" and "sync_reachable malloc h n s"
    and "sync_next malloc s s'"
  shows "\<exists>xs xs'. queue_rel (queue (shared s)) xs \<and> queue_rel (queue (shared s')) xs' \<and>
    (channel_of (shared s') xs' = channel_of (shared s) xs \<or>
     channel_step (channel_of (shared s) xs) (channel_of (shared s') xs'))"
proof -
  have a: "allocator malloc" using assms(1) by (simp add: allocator_def)
  from allocator.sync_ok_reachable [OF a assms(2)] obtain xs where xs: "holds s xs"
    by (auto simp: sync_ok_def)
  from allocator.next_channel [OF a assms(3) xs] xs show ?thesis unfolding holds_def by blast
qed

theorem sync_queue_refines_channel_witness:
  "\<exists>xs xs'. queue_rel (queue (shared (sync_start Map.empty 1 :: nat sync_state))) xs \<and>
    queue_rel (queue (shared (sync_start Map.empty 1\<lparr>pcs := (\<lambda>_. Returned None)(2 := Enter Pop)\<rparr>))) xs' \<and>
    (channel_of (shared (sync_start Map.empty 1\<lparr>pcs := (\<lambda>_. Returned None)(2 := Enter Pop)\<rparr>)) xs' =
       channel_of (shared (sync_start Map.empty 1)) xs \<or>
     channel_step (channel_of (shared (sync_start Map.empty 1)) xs)
       (channel_of (shared (sync_start Map.empty 1\<lparr>pcs := (\<lambda>_. Returned None)(2 := Enter Pop)\<rparr>)) xs'))"
proof (rule sync_queue_refines_channel [OF pool_fresh])
  show "sync_reachable (pool_malloc 3) Map.empty 1 (sync_start Map.empty 1)"
    by (simp add: sync_reachable_def)
  show "sync_next (pool_malloc 3) (sync_start Map.empty 1)
      (sync_start Map.empty 1\<lparr>pcs := (\<lambda>_. Returned None)(2 := Enter Pop)\<rparr>)"
    by (rule run_event_next [of _ "Call 2 Pop"]) (simp add: sync_start_def)
qed

text \<open>
  C22. No wake-up is lost: in every reachable state some thread can take a step, or all
  unfinished threads are producers asleep before a full queue, or all are consumers asleep
  before an empty queue that is not terminated. Producers and consumers are never stuck
  together, and no consumer sleeps through the termination.
\<close>

theorem sync_queue_no_lost_wakeup:
  assumes "\<forall>h a. malloc h = Some a \<longrightarrow> h a = None" and "sync_reachable malloc h n s"
  shows "(\<exists>t s'. sync_step malloc t s s') \<or>
    (is_full (shared s) \<and>
       (\<forall>t. (\<exists>r. pcs s t = Returned r) \<or> (\<exists>x. pcs s t = Sleeping Max_work (Push x)))) \<or>
    (queue_size (queue (shared s)) = 0 \<and> terminated (shared s) \<noteq> 1 \<and>
       (\<forall>t. (\<exists>r. pcs s t = Returned r) \<or> pcs s t \<in> {Sleeping Min_work Pop, Sleeping Min_work Get_top})) \<or>
    (\<forall>t. \<exists>r. pcs s t = Returned r)"
proof (cases "\<exists>t s'. sync_step malloc t s s'")
  case False
  have a: "allocator malloc" using assms(1) by (simp add: allocator_def)
  note stuck = allocator.no_deadlock [OF a allocator.sync_ok_reachable [OF a assms(2)]]
  have kind: "(\<exists>r. pcs s t = Returned r) \<or>
      ((\<exists>x. pcs s t = Sleeping Max_work (Push x)) \<and> is_full (shared s)) \<or>
      (pcs s t \<in> {Sleeping Min_work Pop, Sleeping Min_work Get_top} \<and>
       queue_size (queue (shared s)) = 0 \<and> terminated (shared s) \<noteq> 1)" for t
    using stuck [of t] False by (auto elim: waitsE)
  have "\<not> (is_full (shared s) \<and> queue_size (queue (shared s)) = 0)" by (auto simp: is_full_def)
  with kind show ?thesis by metis
qed blast

theorem sync_queue_no_lost_wakeup_witness: "is_full (shared sample_state)"
proof -
  have pc: "pcs sample_state 0 = Sleeping Max_work (Push 8)" "\<And>t. pcs sample_state (Suc t) = Returned None"
    using sample_state_eq by blast+
  have stuck: "\<not> (\<exists>t s'. sync_step (pool_malloc 3) t sample_state s')"
  proof clarify
    fix t s' assume "sync_step (pool_malloc 3) t sample_state s'"
    then show False using pc by (cases t) (auto elim!: sync_stepE)
  qed
  have no_consumer: "\<not> (\<forall>t. (\<exists>r. pcs sample_state t = Returned r) \<or>
      pcs sample_state t \<in> {Sleeping Min_work Pop, Sleeping Min_work Get_top})"
    using pc(1) by (auto intro!: exI [of _ 0])
  have unfinished: "\<not> (\<forall>t. \<exists>r. pcs sample_state t = Returned r)"
    using pc(1) by (auto intro!: exI [of _ 0])
  from sync_queue_no_lost_wakeup [OF pool_fresh sample_state_reachable] stuck no_consumer unfinished
  show ?thesis by argo
qed

end
