(* ===== verification/Full_File.thy ===== *)
theory Full_File
  imports Store Config
begin

text \<open>
  \<open>include/full_file_deduplicater.h\<close>, \<open>src/full_file_deduplicater.cpp\<close> and their use in
  \<open>main\<close>: deduplication of whole files. A table of 24-byte entries (SHA-1 and a 32-bit
  counter) is scanned for the hash of the input; the position of the entry is the file id
  and names the stored copy. \<open>sha1\<close> is a parameter.
\<close>

section \<open>Data and file operations\<close>

definition FULL_FILE_CACHE :: nat where "FULL_FILE_CACHE = 1024 * 1024 * 1024"
definition FILE_FINGERPRINTS_CACHE :: nat where "FILE_FINGERPRINTS_CACHE = 24 * 100"
definition HASH_LENGTH :: nat where "HASH_LENGTH = 20"
definition COUNT_LENGTH :: nat where "COUNT_LENGTH = 4"
definition ENTRY_LENGTH :: nat where "ENTRY_LENGTH = HASH_LENGTH + COUNT_LENGTH"

lemmas ff_lengths = FULL_FILE_CACHE_def FILE_FINGERPRINTS_CACHE_def HASH_LENGTH_def
  COUNT_LENGTH_def ENTRY_LENGTH_def

record FullFileDeduplicater =
  storage_path :: string
  fingerprint_path :: string
  files_num :: nat
  file_id :: int
  file_exist :: bool

text \<open>The file system by absolute names; directories exist, failures of the kernel are left out.\<close>

type_synonym fs = "string \<rightharpoonup> bytes"

definition uint32not0 :: "bytes \<Rightarrow> bool" where
  "uint32not0 s \<longleftrightarrow> \<not> (s ! 0 = 0 \<and> s ! 1 = 0 \<and> s ! 2 = 0 \<and> s ! 3 = 0)"

definition file_uint32chg :: "bytes \<Rightarrow> nat \<Rightarrow> int \<Rightarrow> u32 \<times> bytes" where
  "file_uint32chg file offs delta =
     (let ut = dec_u32 (segment offs 4 file) + of_int delta
      in (ut, overlay file offs (enc_u32 ut)))"

text \<open>\<open>open\<close> with \<open>O_CREAT\<close>, not truncated, then \<open>sendfile\<close> from a file that may not be there.\<close>

definition send_file :: "fs \<Rightarrow> string \<Rightarrow> string \<Rightarrow> fs" where
  "send_file fs fname_in fname_out =
     (let old = (case fs fname_out of None \<Rightarrow> [] | Some f \<Rightarrow> f);
          fs1 = fs(fname_out \<mapsto> old)
      in case fs1 fname_in of
           None \<Rightarrow> fs1
         | Some f \<Rightarrow> fs1(fname_out \<mapsto> overlay old 0 (take FULL_FILE_CACHE f)))"

section \<open>Operations\<close>

text \<open>The hash covers the first \<open>FILE_CACHE\<close> bytes; it stays as it is when the file cannot be opened.\<close>

definition compute_file_hash :: "(bytes \<Rightarrow> bytes) \<Rightarrow> fs \<Rightarrow> string \<Rightarrow> bytes \<Rightarrow> bytes" where
  "compute_file_hash sha1 fs input_file_path hash =
     (case fs input_file_path of None \<Rightarrow> hash | Some f \<Rightarrow> sha1 (take FILE_CACHE f))"

text \<open>
  The scan of the entries \<open>is\<close> in the zero-initialised array on the stack; reading behind
  its end is \<open>MemoryFault\<close>.
\<close>

definition fingerprints_cache :: "fs \<Rightarrow> string \<Rightarrow> bytes" where
  "fingerprints_cache fs path =
     array_prefix FILE_FINGERPRINTS_CACHE (case fs path of None \<Rightarrow> [] | Some f \<Rightarrow> f)"

primrec scan_hash :: "bytes \<Rightarrow> bytes \<Rightarrow> nat list \<Rightarrow> nat option result" where
  "scan_hash hash cache [] = Inr None"
| "scan_hash hash cache (i # is) =
     (if FILE_FINGERPRINTS_CACHE \<le> i * ENTRY_LENGTH then Inl MemoryFault
      else if segment (i * ENTRY_LENGTH) HASH_LENGTH cache = hash \<and>
              uint32not0 (segment (i * ENTRY_LENGTH + HASH_LENGTH) COUNT_LENGTH cache)
           then Inr (Some i)
      else scan_hash hash cache is)"

definition change_count :: "fs \<Rightarrow> string \<Rightarrow> nat \<Rightarrow> int \<Rightarrow> u32 \<times> fs" where
  "change_count fs path i delta =
     (case fs path of
        None \<Rightarrow> (of_int delta, fs)
      | Some f \<Rightarrow>
          let (ft, f') = file_uint32chg f (i * ENTRY_LENGTH + HASH_LENGTH) delta
          in (ft, fs(path \<mapsto> f')))"

definition insert_hash :: "fs \<Rightarrow> string \<Rightarrow> bytes \<Rightarrow> fs" where
  "insert_hash fs path hash =
     (case fs path of None \<Rightarrow> fs | Some f \<Rightarrow> fs(path \<mapsto> f @ take HASH_LENGTH hash @ enc_u32 1))"

definition scan_and_insert_hash ::
    "FullFileDeduplicater \<Rightarrow> fs \<Rightarrow> bytes \<Rightarrow> (u32 \<times> FullFileDeduplicater \<times> fs) result" where
  "scan_and_insert_hash ffd fs hash =
     and_then (scan_hash hash (fingerprints_cache fs (fingerprint_path ffd)) [0..<files_num ffd]) (\<lambda>found.
       case found of
         Some i \<Rightarrow>
           let (ft, fs') = change_count fs (fingerprint_path ffd) i 1
           in Inr (ft, ffd\<lparr>file_id := int i, file_exist := True\<rparr>, fs')
       | None \<Rightarrow>
           Inr (1, ffd\<lparr>file_id := int (files_num ffd), file_exist := False\<rparr>,
                insert_hash fs (fingerprint_path ffd) hash))"

definition scan_and_delete_hash :: "FullFileDeduplicater \<Rightarrow> fs \<Rightarrow> bytes \<Rightarrow> (u32 \<times> fs) result" where
  "scan_and_delete_hash ffd fs hash =
     and_then (scan_hash hash (fingerprints_cache fs (fingerprint_path ffd)) [0..<files_num ffd]) (\<lambda>found.
       case found of
         Some i \<Rightarrow> Inr (change_count fs (fingerprint_path ffd) i (- 1))
       | None \<Rightarrow> Inr (0, fs))"

text \<open>The constructor; without the fingerprint file the size that \<open>fstat\<close> leaves is not initialised.\<close>

definition init_files_num :: "fs \<Rightarrow> string \<Rightarrow> nat result" where
  "init_files_num fs path =
     (case fs path of None \<Rightarrow> Inl MemoryFault | Some f \<Rightarrow> Inr (length f div ENTRY_LENGTH))"

definition ffd_new :: "fs \<Rightarrow> string \<Rightarrow> string \<Rightarrow> FullFileDeduplicater result" where
  "ffd_new fs sp fp =
     and_then (init_files_num fs fp) (\<lambda>n.
       Inr \<lparr>storage_path = sp, fingerprint_path = fp, files_num = n, file_id = - 1, file_exist = False\<rparr>)"

text \<open>
  The name of a stored file. Behind a path that ends in a slash the code appends the member
  \<open>file_id\<close>, not its argument.
\<close>

definition generate_abs_file_name_from_file_id ::
    "FullFileDeduplicater \<Rightarrow> string \<Rightarrow> int \<Rightarrow> string result" where
  "generate_abs_file_name_from_file_id ffd storage i =
     (if storage = [] then Inl MemoryFault
      else if last storage = CHR ''/'' then Inr (storage @ to_string (file_id ffd))
      else Inr (storage @ ''/'' @ to_string i))"

definition restoreFile :: "FullFileDeduplicater \<Rightarrow> fs \<Rightarrow> int \<Rightarrow> string \<Rightarrow> fs result" where
  "restoreFile ffd fs i to =
     and_then (generate_abs_file_name_from_file_id ffd (storage_path ffd) i) (\<lambda>saved.
       Inr (send_file fs saved to))"

definition save_file :: "FullFileDeduplicater \<Rightarrow> fs \<Rightarrow> string \<Rightarrow> fs result" where
  "save_file ffd fs input_file_path =
     and_then (generate_abs_file_name_from_file_id ffd (storage_path ffd) (file_id ffd)) (\<lambda>saved.
       Inr (send_file fs input_file_path saved))"

definition writeFile ::
    "(bytes \<Rightarrow> bytes) \<Rightarrow> FullFileDeduplicater \<Rightarrow> fs \<Rightarrow> string \<Rightarrow> (FullFileDeduplicater \<times> fs) result" where
  "writeFile sha1 ffd fs input_file_path =
     (let hash = compute_file_hash sha1 fs input_file_path (replicate HASH_LENGTH 0)
      in and_then (scan_and_insert_hash ffd fs hash) (\<lambda>(ft, ffd', fs').
           if file_exist ffd' then Inr (ffd', fs')
           else and_then (save_file ffd' fs' input_file_path) (\<lambda>fs''. Inr (ffd', fs''))))"

definition deleteFile :: "(bytes \<Rightarrow> bytes) \<Rightarrow> FullFileDeduplicater \<Rightarrow> fs \<Rightarrow> int \<Rightarrow> fs result" where
  "deleteFile sha1 ffd fs i =
     and_then (generate_abs_file_name_from_file_id ffd (storage_path ffd) i) (\<lambda>saved.
       let hash = compute_file_hash sha1 fs saved (replicate HASH_LENGTH 0)
       in and_then (scan_and_delete_hash ffd fs hash) (\<lambda>(ft, fs').
            Inr (if ft = 0 then fs'(saved := None) else fs')))"

text \<open>The branch of \<open>main\<close> for \<open>FULL_FILE\<close>, which prints the id of a written file.\<close>

definition main_full_file :: "(bytes \<Rightarrow> bytes) \<Rightarrow> Config \<Rightarrow> fs \<Rightarrow> (int option \<times> fs) result" where
  "main_full_file sha1 conf fs =
     and_then (ffd_new fs (full_file_storage_path conf) (full_file_fingerprints_path conf)) (\<lambda>ffd.
       case tt conf of
         TASK_WRITE \<Rightarrow> and_then (writeFile sha1 ffd fs (input_path conf)) (\<lambda>(ffd', fs').
           Inr (Some (file_id ffd'), fs'))
       | TASK_RESTORE \<Rightarrow> and_then (restoreFile ffd fs (restore_id conf) (restore_path conf)) (\<lambda>fs'. Inr (None, fs'))
       | TASK_DELETE \<Rightarrow> and_then (deleteFile sha1 ffd fs (delete_id conf)) (\<lambda>fs'. Inr (None, fs'))
       | _ \<Rightarrow> Inr (None, fs))"

section \<open>The table of entries\<close>

type_synonym ff_table = "(SHA1FP \<times> u32) list"

definition enc_ff :: "SHA1FP \<times> u32 \<Rightarrow> bytes" where
  "enc_ff e = enc_fp (fst e) @ enc_u32 (snd e)"

definition dec_ff :: "bytes \<Rightarrow> SHA1FP \<times> u32" where
  "dec_ff bs = (dec_fp (take 20 bs), dec_u32 (drop 20 bs))"

interpretation ff_codec: fixed_codec enc_ff dec_ff ENTRY_LENGTH
  by unfold_locales
    (simp_all add: enc_ff_def dec_ff_def ff_lengths fp_codec.width u32_codec.width
      fp_codec.dec_enc u32_codec.dec_enc)

lemma uint32not0_enc: "uint32not0 (enc_u32 c) \<longleftrightarrow> c \<noteq> 0"
proof -
  have all_zero: "bs = replicate 4 0 \<longleftrightarrow> \<not> uint32not0 bs" if "length bs = 4" for bs :: bytes
    using that unfolding uint32not0_def
    by (auto simp: list_eq_iff_nth_eq less_Suc_eq numeral_eq_Suc)
  have "enc_u32 0 = replicate 4 0" by (simp add: enc_u32_def numeral_eq_Suc)
  then show ?thesis
    using all_zero [OF u32_codec.width [of c]] u32_codec.enc_inject [of c 0] by auto
qed

lemma entry_parts:
  assumes "i < length es"
  shows "segment (i * ENTRY_LENGTH) HASH_LENGTH (concat (map enc_ff es) @ ys) = enc_fp (fst (es ! i))"
    and "segment (i * ENTRY_LENGTH + HASH_LENGTH) COUNT_LENGTH (concat (map enc_ff es) @ ys) =
      enc_u32 (snd (es ! i))"
proof -
  let ?t = "concat (map enc_ff es) @ ys"
  have "segment (i * ENTRY_LENGTH) (HASH_LENGTH + COUNT_LENGTH) ?t = enc_ff (es ! i)"
    using ff_codec.segment_table [OF assms] by (simp add: ENTRY_LENGTH_def)
  then have parts: "segment (i * ENTRY_LENGTH) HASH_LENGTH ?t @
      segment (i * ENTRY_LENGTH + HASH_LENGTH) COUNT_LENGTH ?t =
      enc_fp (fst (es ! i)) @ enc_u32 (snd (es ! i))"
    by (simp add: segment_add enc_ff_def)
  have "length ?t \<ge> i * ENTRY_LENGTH + HASH_LENGTH"
    using assms by (simp add: ff_codec.length_table ff_lengths)
  then have "length (segment (i * ENTRY_LENGTH) HASH_LENGTH ?t) = length (enc_fp (fst (es ! i)))"
    by (simp add: length_segment fp_codec.width ff_lengths)
  then show "segment (i * ENTRY_LENGTH) HASH_LENGTH ?t = enc_fp (fst (es ! i))"
    and "segment (i * ENTRY_LENGTH + HASH_LENGTH) COUNT_LENGTH ?t = enc_u32 (snd (es ! i))"
    using parts by simp_all
qed

definition hit :: "ff_table \<Rightarrow> bytes \<Rightarrow> nat \<Rightarrow> bool" where
  "hit es hash i \<longleftrightarrow> enc_fp (fst (es ! i)) = hash \<and> snd (es ! i) \<noteq> 0"

lemma scan_table:
  assumes "length es \<le> 100" and "\<forall>i \<in> set is. i < length es"
  shows "scan_hash hash (array_prefix FILE_FINGERPRINTS_CACHE (concat (map enc_ff es))) is =
    Inr (find (hit es hash) is)"
proof -
  have "length (concat (map enc_ff es)) \<le> FILE_FINGERPRINTS_CACHE"
    using assms(1) by (simp add: ff_codec.length_table ff_lengths)
  then have cache: "\<exists>ys. array_prefix FILE_FINGERPRINTS_CACHE (concat (map enc_ff es)) =
      concat (map enc_ff es) @ ys"
    by (simp add: array_prefix_def)
  then obtain ys where ys: "array_prefix FILE_FINGERPRINTS_CACHE (concat (map enc_ff es)) =
      concat (map enc_ff es) @ ys" by blast
  show ?thesis using assms(2)
  proof (induction "is")
    case (Cons i "is")
    then have "i < length es" by simp
    moreover from this have "\<not> FILE_FINGERPRINTS_CACHE \<le> i * ENTRY_LENGTH"
      using assms(1) by (simp add: ff_lengths)
    ultimately show ?case
      using Cons by (simp add: ys entry_parts hit_def uint32not0_enc)
  qed simp
qed

lemma change_count_table:
  assumes "fs path = Some (concat (map enc_ff es))" and "i < length es"
  shows "change_count fs path i delta =
    (snd (es ! i) + of_int delta,
     fs(path \<mapsto> concat (map enc_ff (es[i := (fst (es ! i), snd (es ! i) + of_int delta)]))))"
proof -
  let ?A = "concat (map enc_ff (take i es))" and ?B = "concat (map enc_ff (drop (Suc i) es))"
  let ?h = "fst (es ! i)" and ?c = "snd (es ! i)"
  have split: "concat (map enc_ff es) = (?A @ enc_fp ?h) @ enc_u32 ?c @ ?B"
    using id_take_nth_drop [OF assms(2)]
    by (metis append.assoc concat.simps(2) concat_append enc_ff_def list.simps(9) map_append)
  have len: "length (?A @ enc_fp ?h) = i * ENTRY_LENGTH + HASH_LENGTH"
    using assms(2) by (simp add: ff_codec.length_table fp_codec.width ff_lengths)
  have "overlay ((?A @ enc_fp ?h) @ enc_u32 ?c @ ?B) (length (?A @ enc_fp ?h)) (enc_u32 v) =
      (?A @ enc_fp ?h) @ enc_u32 v @ ?B" for v
    by (simp add: overlay_def u32_codec.width)
  moreover have "concat (map enc_ff (es[i := (?h, v)])) = (?A @ enc_fp ?h) @ enc_u32 v @ ?B" for v
    using assms(2) by (simp add: upd_conv_take_nth_drop enc_ff_def)
  moreover have "segment (i * ENTRY_LENGTH + HASH_LENGTH) 4 (concat (map enc_ff es)) = enc_u32 ?c"
    using entry_parts(2) [OF assms(2), of "[]"] by (simp add: COUNT_LENGTH_def)
  ultimately show ?thesis
    using assms(1) len split
    by (simp add: change_count_def file_uint32chg_def u32_codec.dec_enc Let_def)
qed

section \<open>What the table and the stored files promise\<close>

definition saved_name :: "string \<Rightarrow> nat \<Rightarrow> string" where
  "saved_name sp i = sp @ ''/'' @ to_string (int i)"

definition live :: "ff_table \<Rightarrow> nat \<Rightarrow> bool" where
  "live es i \<longleftrightarrow> i < length es \<and> snd (es ! i) \<noteq> 0"

text \<open>
  The entries that count at least one reference have different hashes and a stored file of
  that hash each, no file has an id that has not been given away.
\<close>

definition ff_ok :: "(bytes \<Rightarrow> bytes) \<Rightarrow> string \<Rightarrow> string \<Rightarrow> fs \<Rightarrow> ff_table \<Rightarrow> bool" where
  "ff_ok sha1 sp fp fs es \<longleftrightarrow>
     sp \<noteq> [] \<and> last sp \<noteq> CHR ''/'' \<and> (\<forall>i. saved_name sp i \<noteq> fp) \<and>
     fs fp = Some (concat (map enc_ff es)) \<and> length es \<le> 100 \<and>
     (\<forall>i j. live es i \<longrightarrow> live es j \<longrightarrow> fst (es ! i) = fst (es ! j) \<longrightarrow> i = j) \<and>
     (\<forall>i. live es i \<longrightarrow> (\<exists>d. fs (saved_name sp i) = Some d \<and>
        dec_fp (sha1 (take FILE_CACHE d)) = fst (es ! i))) \<and>
     (\<forall>i \<ge> length es. fs (saved_name sp i) = None)"

lemma saved_name_inject [simp]: "saved_name sp i = saved_name sp j \<longleftrightarrow> i = j"
  by (simp add: saved_name_def)

lemma hit_live: "length hash = 20 \<Longrightarrow> i < length es \<Longrightarrow> hit es hash i \<longleftrightarrow> live es i \<and> fst (es ! i) = dec_fp hash"
  using fp_codec.enc_dec fp_codec.dec_enc by (auto simp: hit_def live_def)

text \<open>The position the scan finds.\<close>

definition position :: "ff_table \<Rightarrow> SHA1FP \<Rightarrow> nat option" where
  "position es h = find (\<lambda>i. live es i \<and> fst (es ! i) = h) [0..<length es]"

lemma position_hit: "length hash = 20 \<Longrightarrow> find (hit es hash) [0..<length es] = position es (dec_fp hash)"
  unfolding position_def by (rule find_cong) (auto simp: hit_live)

lemma position_Some:
  "position es h = Some i \<Longrightarrow> live es i \<and> i < length es \<and> fst (es ! i) = h"
  by (auto simp: position_def find_Some_iff)

lemma position_None: "position es h = None \<Longrightarrow> live es i \<Longrightarrow> fst (es ! i) \<noteq> h"
  by (auto simp: position_def find_None_iff live_def)

lemma position_live:
  assumes "ff_ok sha1 sp fp fs es" and "live es i"
  shows "position es (fst (es ! i)) = Some i"
proof (cases "position es (fst (es ! i))")
  case None
  then show ?thesis using position_None [OF None assms(2)] by simp
next
  case (Some j)
  then show ?thesis using position_Some [OF Some] assms by (auto simp: ff_ok_def)
qed

lemma ffd_new_ok:
  assumes "ff_ok sha1 sp fp fs es"
  shows "ffd_new fs sp fp = Inr \<lparr>storage_path = sp, fingerprint_path = fp, files_num = length es,
    file_id = - 1, file_exist = False\<rparr>"
  using assms by (simp add: ffd_new_def init_files_num_def ff_ok_def ff_codec.length_table ENTRY_LENGTH_def
      HASH_LENGTH_def)

lemma name_ok:
  "ff_ok sha1 sp fp fs es \<Longrightarrow> generate_abs_file_name_from_file_id ffd sp (int i) = Inr (saved_name sp i)"
  by (simp add: ff_ok_def generate_abs_file_name_from_file_id_def saved_name_def)

lemma scan_ok:
  assumes "ff_ok sha1 sp fp fs es" and "length hash = 20"
  shows "scan_hash hash (fingerprints_cache fs fp) [0..<length es] = Inr (position es (dec_fp hash))"
  using assms position_hit [OF assms(2)]
  by (simp add: fingerprints_cache_def ff_ok_def scan_table)

text \<open>Abstract write and delete on the table.\<close>

definition count_file :: "ff_table \<Rightarrow> SHA1FP \<Rightarrow> nat \<times> ff_table" where
  "count_file es h =
     (case position es h of
        Some i \<Rightarrow> (i, es[i := (h, snd (es ! i) + 1)])
      | None \<Rightarrow> (length es, es @ [(h, 1)]))"

definition uncount_file :: "ff_table \<Rightarrow> nat \<Rightarrow> ff_table" where
  "uncount_file es i = es[i := (fst (es ! i), snd (es ! i) - 1)]"

lemma live_update: "live (es[i := e]) j \<longleftrightarrow> (if j = i then i < length es \<and> snd e \<noteq> 0 else live es j)"
  by (auto simp: live_def)

lemma ff_ok_update:
  assumes "ff_ok sha1 sp fp fs es" and "live es i"
  shows "ff_ok sha1 sp fp (fs(fp \<mapsto> concat (map enc_ff (es[i := (fst (es ! i), c)])))) (es[i := (fst (es ! i), c)])"
proof -
  have "fst (es[i := (fst (es ! i), c)] ! j) = fst (es ! j)" for j
    using assms(2) by (cases "j = i") (simp_all add: live_def)
  moreover have "live (es[i := (fst (es ! i), c)]) j \<Longrightarrow> live es j" for j
    using assms(2) by (auto simp: live_update split: if_splits)
  ultimately show ?thesis using assms(1) unfolding ff_ok_def by (auto simp: fun_upd_apply)
qed

lemma ff_ok_remove:
  assumes "ff_ok sha1 sp fp fs es" and "\<not> live es i"
  shows "ff_ok sha1 sp fp (fs(saved_name sp i := None)) es"
  using assms unfolding ff_ok_def by (auto simp: fun_upd_apply)

definition fresh_ffd :: "string \<Rightarrow> string \<Rightarrow> ff_table \<Rightarrow> FullFileDeduplicater" where
  "fresh_ffd sp fp es = \<lparr>storage_path = sp, fingerprint_path = fp, files_num = length es,
     file_id = - 1, file_exist = False\<rparr>"

text \<open>A path that is neither the table nor a stored file.\<close>

definition outside :: "string \<Rightarrow> string \<Rightarrow> string \<Rightarrow> bool" where
  "outside sp fp path \<longleftrightarrow> path \<noteq> fp \<and> (\<forall>i. path \<noteq> saved_name sp i)"

lemma ff_ok_snoc:
  assumes ok: "ff_ok sha1 sp fp fs es" and none: "position es h = None" and room: "length es < 100"
    and h: "dec_fp (sha1 (take FILE_CACHE d)) = h"
  shows "ff_ok sha1 sp fp (fs(fp \<mapsto> concat (map enc_ff (es @ [(h, 1)])),
    saved_name sp (length es) \<mapsto> d)) (es @ [(h, 1)])"
proof -
  have live': "live (es @ [(h, 1)]) i \<longleftrightarrow> live es i \<or> i = length es" for i
    by (auto simp: live_def nth_append)
  have fst': "live es i \<Longrightarrow> fst ((es @ [(h, 1)]) ! i) = fst (es ! i)" for i
    by (simp add: live_def nth_append)
  have less: "live es i \<Longrightarrow> i \<noteq> length es" for i by (simp add: live_def)
  have new: "live es i \<Longrightarrow> fst (es ! i) \<noteq> h" for i by (rule position_None [OF none])
  have unique: "\<forall>i j. live (es @ [(h, 1)]) i \<longrightarrow> live (es @ [(h, 1)]) j \<longrightarrow>
      fst ((es @ [(h, 1)]) ! i) = fst ((es @ [(h, 1)]) ! j) \<longrightarrow> i = j"
  proof (intro allI impI)
    fix i j
    assume "live (es @ [(h, 1)]) i" "live (es @ [(h, 1)]) j"
      "fst ((es @ [(h, 1)]) ! i) = fst ((es @ [(h, 1)]) ! j)"
    then show "i = j" using ok new [of i] new [of j] fst' [of i] fst' [of j]
      unfolding live' ff_ok_def by auto
  qed
  show ?thesis
    unfolding ff_ok_def
    using ok room h unique live' fst' less by (auto simp: ff_ok_def fun_upd_apply)
qed

lemma writeFile_ok:
  assumes ok: "ff_ok sha1 sp fp fs es" and sha: "\<And>x. length (sha1 x) = 20"
    and input: "fs path = Some d" "outside sp fp path"
    and room: "position es (dec_fp (sha1 (take FILE_CACHE d))) = None \<Longrightarrow> length es < 100"
  defines "h \<equiv> dec_fp (sha1 (take FILE_CACHE d))"
  shows "\<exists>ffd' fs'. writeFile sha1 (fresh_ffd sp fp es) fs path = Inr (ffd', fs') \<and>
    file_id ffd' = int (fst (count_file es h)) \<and> ff_ok sha1 sp fp fs' (snd (count_file es h)) \<and>
    (file_exist ffd' \<longleftrightarrow> position es h \<noteq> None) \<and>
    fs' (saved_name sp (fst (count_file es h))) =
      (if position es h = None then Some (take FULL_FILE_CACHE d)
       else fs (saved_name sp (fst (count_file es h)))) \<and>
    (\<forall>x. x \<noteq> fp \<longrightarrow> x \<noteq> saved_name sp (fst (count_file es h)) \<longrightarrow> fs' x = fs x)"
proof -
  let ?hash = "sha1 (take FILE_CACHE d)"
  have fpfile: "fs fp = Some (concat (map enc_ff es))" and names: "\<forall>i. saved_name sp i \<noteq> fp"
    using ok by (simp_all add: ff_ok_def)
  note scan = scan_ok [OF ok sha [of "take FILE_CACHE d"]]
  show ?thesis
  proof (cases "position es h")
    case (Some i)
    then have i: "live es i" "i < length es" "fst (es ! i) = h" using position_Some by blast+
    show ?thesis
      using Some i names scan ff_ok_update [OF ok i(1), of "snd (es ! i) + 1"]
        change_count_table [of fs fp es i 1, OF fpfile i(2)] input(1)
      by (simp add: writeFile_def scan_and_insert_hash_def fresh_ffd_def compute_file_hash_def
          count_file_def h_def)
  next
    case None
    have none: "fs (saved_name sp (length es)) = None" using ok by (simp add: ff_ok_def)
    have "take FILE_CACHE (take FULL_FILE_CACHE d) = take FILE_CACHE d"
      by (simp add: FILE_CACHE_def FULL_FILE_CACHE_def min_def)
    then have ok': "ff_ok sha1 sp fp (fs(fp \<mapsto> concat (map enc_ff (es @ [(h, 1)])),
        saved_name sp (length es) \<mapsto> take FULL_FILE_CACHE d)) (es @ [(h, 1)])"
      using None room by (intro ff_ok_snoc [OF ok]) (simp_all add: h_def)
    have "insert_hash fs fp ?hash = fs(fp \<mapsto> concat (map enc_ff (es @ [(h, 1)])))"
      using fpfile sha fp_codec.enc_dec [OF sha [of "take FILE_CACHE d"]]
      by (simp add: insert_hash_def enc_ff_def h_def ff_lengths)
    then show ?thesis
      using None none names scan input ok' name_ok [OF ok]
      by (simp add: writeFile_def scan_and_insert_hash_def fresh_ffd_def compute_file_hash_def
          count_file_def h_def save_file_def send_file_def outside_def buf_simps Let_def)
  qed
qed

lemma deleteFile_ok:
  assumes ok: "ff_ok sha1 sp fp fs es" and sha: "\<And>x. length (sha1 x) = 20" and i: "live es i"
  shows "\<exists>fs'. deleteFile sha1 (fresh_ffd sp fp es) fs (int i) = Inr fs' \<and>
    ff_ok sha1 sp fp fs' (uncount_file es i) \<and>
    fs' (saved_name sp i) = (if snd (es ! i) = 1 then None else fs (saved_name sp i)) \<and>
    (\<forall>x. x \<noteq> fp \<longrightarrow> x \<noteq> saved_name sp i \<longrightarrow> fs' x = fs x)"
proof -
  have fpfile: "fs fp = Some (concat (map enc_ff es))" and names: "\<forall>i. saved_name sp i \<noteq> fp"
    and less: "i < length es"
    using ok i by (simp_all add: ff_ok_def live_def)
  obtain d where d: "fs (saved_name sp i) = Some d" "dec_fp (sha1 (take FILE_CACHE d)) = fst (es ! i)"
    using ok i unfolding ff_ok_def by blast
  have scan: "scan_hash (sha1 (take FILE_CACHE d)) (fingerprints_cache fs fp) [0..<length es] = Inr (Some i)"
    using scan_ok [OF ok sha [of "take FILE_CACHE d"]] position_live [OF ok i] d(2) by simp
  let ?fs = "fs(fp \<mapsto> concat (map enc_ff (uncount_file es i)))"
  have ok': "ff_ok sha1 sp fp ?fs (uncount_file es i)"
    using ff_ok_update [OF ok i, of "snd (es ! i) - 1"] by (simp add: uncount_file_def)
  have "deleteFile sha1 (fresh_ffd sp fp es) fs (int i) =
      Inr (if snd (es ! i) = 1 then ?fs(saved_name sp i := None) else ?fs)"
    using scan change_count_table [of fs fp es i "- 1", OF fpfile less] d name_ok [OF ok]
    by (simp add: deleteFile_def scan_and_delete_hash_def fresh_ffd_def compute_file_hash_def
        uncount_file_def eq_diff_eq)
  moreover have "snd (es ! i) = 1 \<Longrightarrow> \<not> live (uncount_file es i) i"
    using less by (simp add: uncount_file_def live_update)
  ultimately show ?thesis using ok' ff_ok_remove [OF ok'] names by auto
qed

section \<open>Properties\<close>

lemma main_full_file_write:
  assumes "ff_ok sha1 sp fp fs es" and "writeFile sha1 (fresh_ffd sp fp es) fs path = Inr (ffd', fs')"
  shows "main_full_file sha1 (conf\<lparr>tt := TASK_WRITE, input_path := path, full_file_storage_path := sp,
    full_file_fingerprints_path := fp\<rparr>) fs = Inr (Some (file_id ffd'), fs')"
  using assms ffd_new_ok [OF assms(1)] by (simp add: main_full_file_def fresh_ffd_def)

lemma main_full_file_restore:
  assumes ok: "ff_ok sha1 sp fp fs es" and "fs (saved_name sp i) = Some d" and "fs out = None"
    and "length d \<le> FULL_FILE_CACHE" and "outside sp fp out"
  shows "main_full_file sha1 (conf\<lparr>tt := TASK_RESTORE, restore_id := int i, restore_path := out,
      full_file_storage_path := sp, full_file_fingerprints_path := fp\<rparr>) fs = Inr (None, fs(out \<mapsto> d))"
  using assms ffd_new_ok [OF ok] name_ok [OF ok]
  by (simp add: main_full_file_def restoreFile_def send_file_def outside_def buf_simps Let_def) metis

text \<open>
  C25. Writing a file of at most 1 GiB in full-file mode and restoring the id that the write
  prints gives the file back, whether it was stored or found, as long as the hash of its
  first 256 MiB collides with no different stored file and the table has room.
\<close>

theorem full_file_round_trip:
  assumes "ff_ok sha1 sp fp fs es" and "\<forall>x. length (sha1 x) = 20"
    and "fs path = Some d" and "length d \<le> FULL_FILE_CACHE" and "length es < 100"
    and "outside sp fp path" and "outside sp fp out" and "fs out = None"
    and "\<forall>i d'. live es i \<longrightarrow> fs (saved_name sp i) = Some d' \<longrightarrow>
      sha1 (take FILE_CACHE d') = sha1 (take FILE_CACHE d) \<longrightarrow> d' = d"
  shows "\<exists>i fs1 fs2.
    main_full_file sha1 (conf\<lparr>tt := TASK_WRITE, input_path := path, full_file_storage_path := sp,
      full_file_fingerprints_path := fp\<rparr>) fs = Inr (Some (int i), fs1) \<and>
    main_full_file sha1 (conf\<lparr>tt := TASK_RESTORE, restore_id := int i, restore_path := out,
      full_file_storage_path := sp, full_file_fingerprints_path := fp\<rparr>) fs1 = Inr (None, fs2) \<and>
    fs2 out = Some d"
proof -
  let ?h = "dec_fp (sha1 (take FILE_CACHE d))"
  let ?i = "fst (count_file es ?h)"
  from writeFile_ok [OF assms(1) _ assms(3,6)] assms(2,5) obtain ffd' fs'
    where w: "writeFile sha1 (fresh_ffd sp fp es) fs path = Inr (ffd', fs')" "file_id ffd' = int ?i"
      "ff_ok sha1 sp fp fs' (snd (count_file es ?h))"
      "fs' (saved_name sp ?i) = (if position es ?h = None then Some (take FULL_FILE_CACHE d)
         else fs (saved_name sp ?i))"
      "\<And>x. x \<noteq> fp \<Longrightarrow> x \<noteq> saved_name sp ?i \<Longrightarrow> fs' x = fs x"
    by blast
  have "fs' (saved_name sp ?i) = Some d"
  proof (cases "position es ?h")
    case None
    then show ?thesis using w(4) assms(4) by simp
  next
    case (Some j)
    then have j: "?i = j" "live es j" "fst (es ! j) = ?h"
      using position_Some [OF Some] by (auto simp: count_file_def)
    then obtain d' where d': "fs (saved_name sp j) = Some d'" "dec_fp (sha1 (take FILE_CACHE d')) = ?h"
      using assms(1) unfolding ff_ok_def by metis
    then have "sha1 (take FILE_CACHE d') = sha1 (take FILE_CACHE d)"
      using assms(2) fp_codec.dec_inject by blast
    with assms(9) j d' w(4) Some show ?thesis by auto
  qed
  moreover have "fs' out = None"
    using w(5) [of out] assms(7,8) by (auto simp: outside_def)
  ultimately show ?thesis
    using main_full_file_write [OF assms(1) w(1)] w(2)
      main_full_file_restore [OF w(3) _ _ assms(4,7)] by fastforce
qed

definition sample_digest :: "bytes \<Rightarrow> bytes" where
  "sample_digest x = take 20 (x @ replicate 20 0)"

definition sample_fs :: fs where
  "sample_fs = [''f'' \<mapsto> enc_ff (dec_fp (sample_digest [4, 5]), 1), ''s/0'' \<mapsto> [4, 5], ''in'' \<mapsto> [1, 2, 3]]"

definition sample_entries :: ff_table where
  "sample_entries = [(dec_fp (sample_digest [4, 5]), 1)]"

lemma sample_digest_length: "length (sample_digest x) = 20"
  by (simp add: sample_digest_def)

lemma sample_outside: "CHR ''/'' \<notin> set path \<Longrightarrow> path \<noteq> ''f'' \<Longrightarrow> outside ''s'' ''f'' path"
  by (auto simp: outside_def saved_name_def)

lemma sample_saved_name: "saved_name ''s'' i = ''s/0'' \<longleftrightarrow> i = 0"
proof -
  have "saved_name ''s'' 0 = ''s/0''" by (simp add: saved_name_def to_string_def nat_digits.simps digit_def char_of_def bit_Suc_0_iff)
  then show ?thesis by (metis saved_name_inject)
qed

lemma sample_ff_ok: "ff_ok sample_digest ''s'' ''f'' sample_fs sample_entries"
proof -
  have "saved_name ''s'' i \<noteq> ''f''" "saved_name ''s'' i \<noteq> ''in''" for i by (simp_all add: saved_name_def)
  then show ?thesis
    by (auto simp: ff_ok_def sample_fs_def sample_entries_def live_def sample_saved_name FILE_CACHE_def)
qed

theorem full_file_round_trip_witness:
  "\<exists>i fs1 fs2.
    main_full_file sample_digest (config_init\<lparr>tt := TASK_WRITE, input_path := ''in'',
      full_file_storage_path := ''s'', full_file_fingerprints_path := ''f''\<rparr>) sample_fs = Inr (Some (int i), fs1) \<and>
    main_full_file sample_digest (config_init\<lparr>tt := TASK_RESTORE, restore_id := int i, restore_path := ''out'',
      full_file_storage_path := ''s'', full_file_fingerprints_path := ''f''\<rparr>) fs1 = Inr (None, fs2) \<and>
    fs2 ''out'' = Some [1, 2, 3]"
  by (rule full_file_round_trip [OF sample_ff_ok])
    (auto simp: sample_digest_length sample_fs_def sample_entries_def FULL_FILE_CACHE_def
      FILE_CACHE_def live_def sample_saved_name sample_digest_def intro!: sample_outside)

text \<open>
  C26. In full-file mode a write counts one reference on the table (on the entry that is there,
  or on a new one), a delete takes one away and removes the stored file with the last one;
  both keep the invariant of table and files and leave every other file alone.
\<close>

theorem full_file_refines_table:
  assumes "ff_ok sha1 sp fp fs es" and "\<forall>x. length (sha1 x) = 20"
  shows "(fs path = Some d \<and> outside sp fp path \<and> length es < 100 \<longrightarrow>
      (\<exists>i fs' es'. main_full_file sha1 (conf\<lparr>tt := TASK_WRITE, input_path := path, full_file_storage_path := sp,
          full_file_fingerprints_path := fp\<rparr>) fs = Inr (Some (int i), fs') \<and>
        (i, es') = count_file es (dec_fp (sha1 (take FILE_CACHE d))) \<and> ff_ok sha1 sp fp fs' es' \<and>
        (\<forall>x. x \<noteq> fp \<longrightarrow> x \<noteq> saved_name sp i \<longrightarrow> fs' x = fs x))) \<and>
    (live es k \<longrightarrow>
      (\<exists>fs'. main_full_file sha1 (conf\<lparr>tt := TASK_DELETE, delete_id := int k, full_file_storage_path := sp,
          full_file_fingerprints_path := fp\<rparr>) fs = Inr (None, fs') \<and>
        ff_ok sha1 sp fp fs' (uncount_file es k) \<and>
        fs' (saved_name sp k) = (if snd (es ! k) = 1 then None else fs (saved_name sp k)) \<and>
        (\<forall>x. x \<noteq> fp \<longrightarrow> x \<noteq> saved_name sp k \<longrightarrow> fs' x = fs x)))"
proof (intro conjI impI)
  assume a: "fs path = Some d \<and> outside sp fp path \<and> length es < 100"
  let ?h = "dec_fp (sha1 (take FILE_CACHE d))"
  from writeFile_ok [OF assms(1), of path d] a assms(2) obtain ffd' fs'
    where w: "writeFile sha1 (fresh_ffd sp fp es) fs path = Inr (ffd', fs')"
      "file_id ffd' = int (fst (count_file es ?h))" "ff_ok sha1 sp fp fs' (snd (count_file es ?h))"
      "\<forall>x. x \<noteq> fp \<longrightarrow> x \<noteq> saved_name sp (fst (count_file es ?h)) \<longrightarrow> fs' x = fs x"
    by blast
  then show "\<exists>i fs' es'. main_full_file sha1 (conf\<lparr>tt := TASK_WRITE, input_path := path, full_file_storage_path := sp,
          full_file_fingerprints_path := fp\<rparr>) fs = Inr (Some (int i), fs') \<and>
        (i, es') = count_file es ?h \<and> ff_ok sha1 sp fp fs' es' \<and>
        (\<forall>x. x \<noteq> fp \<longrightarrow> x \<noteq> saved_name sp i \<longrightarrow> fs' x = fs x)"
    using main_full_file_write [OF assms(1) w(1), of conf]
    by (intro exI [of _ "fst (count_file es ?h)"] exI [of _ fs'] exI [of _ "snd (count_file es ?h)"]) simp
next
  assume k: "live es k"
  from deleteFile_ok [OF assms(1) _ k] assms(2) obtain fs'
    where del: "deleteFile sha1 (fresh_ffd sp fp es) fs (int k) = Inr fs'"
      and rest: "ff_ok sha1 sp fp fs' (uncount_file es k)"
      "fs' (saved_name sp k) = (if snd (es ! k) = 1 then None else fs (saved_name sp k))"
      "\<forall>x. x \<noteq> fp \<longrightarrow> x \<noteq> saved_name sp k \<longrightarrow> fs' x = fs x"
    by blast
  have "main_full_file sha1 (conf\<lparr>tt := TASK_DELETE, delete_id := int k, full_file_storage_path := sp,
          full_file_fingerprints_path := fp\<rparr>) fs = Inr (None, fs')"
    using del ffd_new_ok [OF assms(1)] by (simp add: main_full_file_def fresh_ffd_def)
  with rest show "\<exists>fs'. main_full_file sha1 (conf\<lparr>tt := TASK_DELETE, delete_id := int k, full_file_storage_path := sp,
          full_file_fingerprints_path := fp\<rparr>) fs = Inr (None, fs') \<and>
        ff_ok sha1 sp fp fs' (uncount_file es k) \<and>
        fs' (saved_name sp k) = (if snd (es ! k) = 1 then None else fs (saved_name sp k)) \<and>
        (\<forall>x. x \<noteq> fp \<longrightarrow> x \<noteq> saved_name sp k \<longrightarrow> fs' x = fs x)" by blast
qed

theorem full_file_refines_table_witness:
  "\<exists>fs'. main_full_file sample_digest (config_init\<lparr>tt := TASK_DELETE, delete_id := int 0,
      full_file_storage_path := ''s'', full_file_fingerprints_path := ''f''\<rparr>) sample_fs = Inr (None, fs') \<and>
    ff_ok sample_digest ''s'' ''f'' fs' (uncount_file sample_entries 0) \<and>
    fs' (saved_name ''s'' 0) = None \<and> (\<forall>x. x \<noteq> ''f'' \<longrightarrow> x \<noteq> saved_name ''s'' 0 \<longrightarrow> fs' x = sample_fs x)"
proof -
  have "live sample_entries 0" "snd (sample_entries ! 0) = 1" by (simp_all add: live_def sample_entries_def)
  moreover have "\<forall>x. length (sample_digest x) = 20" by (simp add: sample_digest_length)
  ultimately show ?thesis
    using conjunct2 [OF full_file_refines_table [OF sample_ff_ok, where k = 0 and conf = config_init]] by simp
qed

lemma scan_hash_append:
  "scan_hash hash cache (is @ js) =
     and_then (scan_hash hash cache is) (\<lambda>r. case r of Some i \<Rightarrow> Inr (Some i) | None \<Rightarrow> scan_hash hash cache js)"
  by (induction "is") auto

text \<open>
  C27. The scan reads the table into an array for 100 entries: with more entries in the file, a
  write of a file that is not among the first 100 reads behind the array.
\<close>

theorem full_file_scan_overflow:
  assumes "fs fp = Some (concat (map enc_ff es))" and "100 < length es" and "fs path = Some d"
    and "length (sha1 (take FILE_CACHE d)) = 20"
    and "\<forall>i < 100. fst (es ! i) \<noteq> dec_fp (sha1 (take FILE_CACHE d))"
  shows "main_full_file sha1 (conf\<lparr>tt := TASK_WRITE, input_path := path, full_file_storage_path := sp,
    full_file_fingerprints_path := fp\<rparr>) fs = Inl MemoryFault"
proof -
  let ?hash = "sha1 (take FILE_CACHE d)"
  have "concat (map enc_ff es) = concat (map enc_ff (take 100 es)) @ concat (map enc_ff (drop 100 es))"
    by (metis append_take_drop_id concat_append map_append)
  moreover have len: "length (concat (map enc_ff (take 100 es))) = FILE_FINGERPRINTS_CACHE"
    using assms(2) unfolding ff_codec.length_table by (simp add: ff_lengths)
  ultimately have "fingerprints_cache fs fp =
      array_prefix FILE_FINGERPRINTS_CACHE (concat (map enc_ff (take 100 es)))"
    using assms(1) by (simp add: fingerprints_cache_def array_prefix_def)
  moreover have "find (hit (take 100 es) ?hash) [0..<100] = None"
    using assms(2,4,5) by (auto simp: find_None_iff hit_def fp_codec.dec_enc simp flip: assms(4))
      (metis fp_codec.dec_enc)
  ultimately have none: "scan_hash ?hash (fingerprints_cache fs fp) [0..<100] = Inr None"
    using scan_table [of "take 100 es" "[0..<100]" ?hash] assms(2) by simp
  have "[0..<length es] = [0..<100] @ 100 # [101..<length es]"
    using assms(2) upt_add_eq_append [of 0 100 "length es - 100"] by (simp add: upt_conv_Cons)
  then have "scan_hash ?hash (fingerprints_cache fs fp) [0..<length es] = Inl MemoryFault"
    using none by (simp add: scan_hash_append ff_lengths)
  then show ?thesis
    using assms(1,3) ff_codec.length_table [of es]
    by (simp add: main_full_file_def ffd_new_def init_files_num_def writeFile_def compute_file_hash_def
        scan_and_insert_hash_def ENTRY_LENGTH_def HASH_LENGTH_def COUNT_LENGTH_def)
qed

definition many_entries :: ff_table where
  "many_entries = replicate 101 (dec_fp (sample_digest [4, 5]), 1)"

theorem full_file_scan_overflow_witness:
  "main_full_file sample_digest (config_init\<lparr>tt := TASK_WRITE, input_path := ''in'', full_file_storage_path := ''s'',
    full_file_fingerprints_path := ''f''\<rparr>) [''f'' \<mapsto> concat (map enc_ff many_entries), ''in'' \<mapsto> [1]] =
   Inl MemoryFault"
proof (rule full_file_scan_overflow)
  have "dec_fp (sample_digest [4, 5]) \<noteq> dec_fp (sample_digest [1])"
    using fp_codec.dec_inject [of "sample_digest [4, 5]" "sample_digest [1]"] by (simp add: sample_digest_def)
  then show "\<forall>i < 100. fst (many_entries ! i) \<noteq> dec_fp (sample_digest (take FILE_CACHE [1]))"
    by (simp add: many_entries_def FILE_CACHE_def)
qed (simp_all add: many_entries_def sample_digest_length)

text \<open>
  With a storage path that ends in a slash, restoring does not depend on the id that is
  asked for: the name is built from the member \<open>file_id\<close>, which is -1 then.
\<close>

theorem full_file_slash_ignores_id:
  assumes "sp \<noteq> []" and "last sp = CHR ''/''" and "fs fp = Some t"
  shows "main_full_file sha1 (conf\<lparr>tt := TASK_RESTORE, restore_id := i, restore_path := out,
      full_file_storage_path := sp, full_file_fingerprints_path := fp\<rparr>) fs =
    Inr (None, send_file fs (sp @ ''-1'') out)"
proof -
  have "to_string (- 1) = ''-1''"
    by (simp add: to_string_def nat_digits.simps digit_def char_of_def bit_Suc_0_iff)
  then show ?thesis using assms
    by (simp add: main_full_file_def ffd_new_def init_files_num_def restoreFile_def
        generate_abs_file_name_from_file_id_def)
qed

theorem full_file_slash_ignores_id_witness:
  "main_full_file sample_digest (config_init\<lparr>tt := TASK_RESTORE, restore_id := 0, restore_path := ''out'',
      full_file_storage_path := ''s/'', full_file_fingerprints_path := ''f''\<rparr>) sample_fs =
    Inr (None, send_file sample_fs ''s/-1'' ''out'')"
  using full_file_slash_ignores_id [of "''s/''" sample_fs "''f''" "enc_ff (dec_fp (sample_digest [4, 5]), 1)"]
  by (simp add: sample_fs_def)

end
