(* ===== verification/Merkle.thy ===== *)
theory Merkle
  imports Write Full_File
begin

text \<open>
  \<open>include/merkle_tree.h\<close>, \<open>src/merkle_tree.cpp\<close> and the Merkle branch of the write task
  in \<open>main.cpp\<close>. A pointer to a node is its position in the row below its parent: row 0 is
  the vector of chunks, row \<open>p\<close> is \<open>tree[p - 1]\<close>. \<open>sha1\<close> is the digest; \<open>again\<close> is
  what \<open>SHA1_Final\<close> gives on a context that has been finalised before, of which the
  library promises nothing. The paths of the tables point to strings that the caller has
  destroyed, so which files they name is a parameter too.
\<close>

section \<open>Data\<close>

record LP_node =
  level :: nat
  found :: bool
  SHA1_hash :: bytes
  children :: "nat list"

record L0_node = LP_node +
  file_offset :: u32
  l0_length :: u16

record MerkleTree =
  max_level :: nat
  cur_level :: nat
  group_size :: nat
  meta_path :: "string list"
  tree :: "LP_node list list"
  base :: "L0_node list"
  metas :: fs

definition mk_LP :: "bytes \<Rightarrow> nat \<Rightarrow> nat list \<Rightarrow> LP_node" where
  "mk_LP hash lv cs = \<lparr>level = lv, found = True, SHA1_hash = hash, children = cs\<rparr>"

definition mk_L0 :: "u32 \<Rightarrow> u16 \<Rightarrow> bytes \<Rightarrow> L0_node" where
  "mk_L0 fo cl hash =
     \<lparr>level = 0, found = True, SHA1_hash = hash, children = [], file_offset = fo, l0_length = cl\<rparr>"

definition mk_tree :: "string list \<Rightarrow> nat \<Rightarrow> nat \<Rightarrow> L0_node list \<Rightarrow> fs \<Rightarrow> MerkleTree" where
  "mk_tree paths gs ml nodes fs =
     \<lparr>max_level = ml, cur_level = 0, group_size = gs, meta_path = paths,
      tree = replicate ml [], base = nodes, metas = fs\<rparr>"

section \<open>Building the rows\<close>

text \<open>
  The state of the loop: \<open>num\<close>, the hash context (what it has been fed since
  \<open>SHA1_Init\<close>, whether it has been finalised) and the new row. \<open>SHA1_Init\<close> stands
  inside the loop.
\<close>

type_synonym sha_ctx = "bytes \<times> bool"

definition sha_final :: "(bytes \<Rightarrow> bytes) \<Rightarrow> (bytes \<Rightarrow> bytes) \<Rightarrow> sha_ctx \<Rightarrow> bytes" where
  "sha_final sha1 again c = (if snd c then again (fst c) else sha1 (fst c))"

definition group_step ::
    "(bytes \<Rightarrow> bytes) \<Rightarrow> nat \<Rightarrow> nat \<Rightarrow> bytes list \<Rightarrow> nat \<Rightarrow> nat \<times> sha_ctx \<times> LP_node list \<Rightarrow>
     nat \<times> sha_ctx \<times> LP_node list" where
  "group_step sha1 gs p hashes i st =
     (let num = fst st + 1; d = take 20 (hashes ! i) in
      if num mod gs = 0 then (0, (d, True), snd (snd st) @ [mk_LP (sha1 d) p [i + 1 - gs..<i + 1]])
      else (num, (d, False), snd (snd st)))"

definition group_loop ::
    "(bytes \<Rightarrow> bytes) \<Rightarrow> nat \<Rightarrow> nat \<Rightarrow> bytes list \<Rightarrow> nat \<times> sha_ctx \<times> LP_node list" where
  "group_loop sha1 gs p hashes =
     fold (group_step sha1 gs p hashes) [0..<length hashes] (0, ([], False), [])"

text \<open>The node behind the loop, over the children that are left.\<close>

definition last_group ::
    "(bytes \<Rightarrow> bytes) \<Rightarrow> (bytes \<Rightarrow> bytes) \<Rightarrow> nat \<Rightarrow> nat \<Rightarrow> nat \<times> sha_ctx \<times> LP_node list \<Rightarrow> LP_node list" where
  "last_group sha1 again p n st =
     snd (snd st) @ [mk_LP (sha_final sha1 again (fst (snd st))) p [n - fst st..<n]]"

definition buildLevel1 ::
    "(bytes \<Rightarrow> bytes) \<Rightarrow> (bytes \<Rightarrow> bytes) \<Rightarrow> MerkleTree \<Rightarrow> MerkleTree result" where
  "buildLevel1 sha1 again mt =
     (if base mt = [] then Inl MemoryFault
      else Inr (mt\<lparr>tree := (tree mt)[0 := last_group sha1 again 1 (length (base mt))
             (group_loop sha1 (group_size mt) 1 (map SHA1_hash (base mt)))]\<rparr>))"

definition buildLevelx ::
    "(bytes \<Rightarrow> bytes) \<Rightarrow> (bytes \<Rightarrow> bytes) \<Rightarrow> nat \<Rightarrow> MerkleTree \<Rightarrow> (bool \<times> MerkleTree) result" where
  "buildLevelx sha1 again p mt =
     (let row = tree mt ! (p - 2);
          st = group_loop sha1 (group_size mt) p (map SHA1_hash row) in
      if length row = 1 then Inr (False, mt)
      else if row = [] then Inl MemoryFault
      else if fst st = 0 then Inr (True, mt\<lparr>tree := (tree mt)[p - 1 := snd (snd st)]\<rparr>)
      else Inr (True, mt\<lparr>tree := (tree mt)[p - 1 := last_group sha1 again p (length row) st]\<rparr>))"

primrec build_levels ::
    "(bytes \<Rightarrow> bytes) \<Rightarrow> (bytes \<Rightarrow> bytes) \<Rightarrow> nat list \<Rightarrow> MerkleTree \<Rightarrow> MerkleTree result" where
  "build_levels sha1 again [] mt = Inr mt"
| "build_levels sha1 again (i # is) mt =
     (if i = 1 then and_then (buildLevel1 sha1 again mt) (build_levels sha1 again is)
      else and_then (buildLevelx sha1 again i mt) (\<lambda>(more, mt').
             if more then build_levels sha1 again is mt' else Inr mt'))"

definition buildTree ::
    "(bytes \<Rightarrow> bytes) \<Rightarrow> (bytes \<Rightarrow> bytes) \<Rightarrow> MerkleTree \<Rightarrow> MerkleTree result" where
  "buildTree sha1 again mt = build_levels sha1 again [1..<max_level mt + 1] mt"

section \<open>Marking the nodes that are new\<close>

definition L0_META_DATA_SIZE :: nat where "L0_META_DATA_SIZE = 30"

text \<open>One \<open>read\<close> of the table, then a comparison of 20 bytes at every multiple of the stride.\<close>

definition table_has :: "nat \<Rightarrow> bytes option \<Rightarrow> bytes \<Rightarrow> bool" where
  "table_has stride table hash \<longleftrightarrow>
     (let cache = take (stride * 1024 * 1024) (case table of None \<Rightarrow> [] | Some f \<Rightarrow> f)
      in list_ex (\<lambda>i. segment (i * stride) 20 cache = take 20 hash) [0..<length cache div stride])"

definition lookupL0 :: "MerkleTree \<Rightarrow> bytes \<Rightarrow> bool" where
  "lookupL0 mt hash = table_has L0_META_DATA_SIZE (metas mt (meta_path mt ! 0)) hash"

definition lookupLP :: "MerkleTree \<Rightarrow> bytes \<Rightarrow> nat \<Rightarrow> bool" where
  "lookupLP mt hash P = table_has SHA1_LENGTH (metas mt (meta_path mt ! P)) hash"

definition insertLP :: "MerkleTree \<Rightarrow> bytes \<Rightarrow> nat \<Rightarrow> MerkleTree" where
  "insertLP mt hash lv =
     (case metas mt (meta_path mt ! lv) of
        None \<Rightarrow> mt
      | Some f \<Rightarrow> mt\<lparr>metas := (metas mt)(meta_path mt ! lv \<mapsto> f @ take 20 hash)\<rparr>)"

definition set_lost :: "nat \<Rightarrow> nat \<Rightarrow> MerkleTree \<Rightarrow> MerkleTree" where
  "set_lost p i mt =
     mt\<lparr>tree := (tree mt)[p := (tree mt ! p)[i := (tree mt ! p ! i)\<lparr>found := False\<rparr>]]\<rparr>"

text \<open>
  \<open>walk\<close> from a node of row \<open>p\<close>. A node without children wraps the bound of the loop
  around and reads outside of the empty vector.
\<close>

primrec walk :: "nat \<Rightarrow> nat \<Rightarrow> MerkleTree \<Rightarrow> MerkleTree result" where
  "walk 0 i mt =
     (if lookupL0 mt (SHA1_hash (base mt ! i)) then Inr mt
      else Inr (mt\<lparr>base := (base mt)[i := (base mt ! i)\<lparr>found := False\<rparr>]\<rparr>))"
| "walk (Suc p) i mt =
     (let root = tree mt ! p ! i in
      if lookupLP mt (SHA1_hash root) (level root) then Inr mt
      else if children root = [] then Inl MemoryFault
      else foldE (\<lambda>mt c. walk p c mt) (insertLP (set_lost p i mt) (SHA1_hash root) (level root))
             (children root))"

primrec walk_root :: "nat list \<Rightarrow> MerkleTree \<Rightarrow> MerkleTree result" where
  "walk_root [] mt = Inr mt"
| "walk_root (i # is) mt =
     (if length (tree mt ! i) = 1 then walk (Suc i) 0 mt else walk_root is mt)"

definition markNonDuplicateNodes :: "MerkleTree \<Rightarrow> MerkleTree result" where
  "markNonDuplicateNodes mt =
     (if 1 < length (last (tree mt)) then Inl ExitFailure
      else walk_root (rev [0..<max_level mt]) mt)"

section \<open>The Merkle branch of the write task\<close>

fun l0_nodes :: "(bytes \<Rightarrow> bytes) \<Rightarrow> u32 \<Rightarrow> bytes list \<Rightarrow> L0_node list" where
  "l0_nodes sha1 fo [] = []"
| "l0_nodes sha1 fo (d # ds) =
     mk_L0 fo (of_nat (length d)) (sha1 d) # l0_nodes sha1 (fo + of_nat (length d)) ds"

text \<open>No counter of the container is advanced here, and no index entry is made.\<close>

definition store_node :: "bytes \<Rightarrow> writer \<Rightarrow> L0_node \<Rightarrow> writer result" where
  "store_node file_cache w x =
     (let w' = w\<lparr>sum_chunks := sum_chunks w + 1, sum_size := sum_size w + uint (l0_length x)\<rparr> in
      if \<not> found x then
        saveChunkToContainer w' (segment (unat (file_offset x)) (unat (l0_length x)) file_cache) (SHA1_hash x)
      else Inr (w'\<lparr>dedup_chunks := dedup_chunks w' + 1, dedup_size := dedup_size w' + uint (l0_length x)\<rparr>))"

definition merkle_write ::
    "(bytes \<Rightarrow> bytes) \<Rightarrow> (bytes \<Rightarrow> bytes) \<Rightarrow> string list \<Rightarrow> fs \<Rightarrow> writer \<Rightarrow> bytes \<Rightarrow> bytes list \<Rightarrow>
     (writer \<times> MerkleTree) result" where
  "merkle_write sha1 again paths fs w file_cache ds =
     and_then (buildTree sha1 again (mk_tree paths 10 6 (l0_nodes sha1 0 ds) fs)) (\<lambda>mt.
     and_then (markNonDuplicateNodes mt) (\<lambda>mt'.
     and_then (foldE (store_node file_cache) (w\<lparr>file_recipe := map sha1 ds\<rparr>) (base mt')) (\<lambda>w'.
       Inr (w', mt'))))"

definition task_write_merkle ::
    "(bytes \<Rightarrow> bytes) \<Rightarrow> (bytes \<Rightarrow> bytes) \<Rightarrow> ('c \<Rightarrow> bytes \<Rightarrow> (nat \<times> 'c) result) \<Rightarrow> 'c \<Rightarrow> string list \<Rightarrow>
     fs \<Rightarrow> repo \<Rightarrow> bytes option \<Rightarrow> (repo \<times> fs) result option" where
  "task_write_merkle sha1 again ck c paths fs r input =
     (case load_index r of
        Inl e \<Rightarrow> Some (Inl e)
      | Inr m \<Rightarrow>
          (case input of
             None \<Rightarrow> Some (Inl ExitFailure)
           | Some f \<Rightarrow>
               (case containers_dir r of
                  None \<Rightarrow> Some (Inl ExitFailure)
                | Some d \<Rightarrow>
                    map_option (\<lambda>res. and_then res (\<lambda>(ds, c').
                        and_then (merkle_write sha1 again paths fs (writer_start m d) (take FILE_CACHE f) ds)
                          (\<lambda>(w, mt). and_then (write_end w (recipes_dir r)) (\<lambda>r'. Inr (r', metas mt)))))
                      (split_chunks ck c (take FILE_CACHE f)))))"

end
