(* ===== verification/Merkle_Correct.thy ===== *)
theory Merkle_Correct
  imports Merkle Repository
begin

text \<open>
  What the Merkle tree of \<open>src/merkle_tree.cpp\<close> is and what the Merkle branch of the write
  task does: the closed form of the rows, their sizes, and the consequences of the places in
  which the code departs from a Merkle tree.
\<close>

section \<open>The rows\<close>

text \<open>The node over the \<open>k\<close>-th full group: its hash is that of the last child only.\<close>

definition full_node :: "(bytes \<Rightarrow> bytes) \<Rightarrow> nat \<Rightarrow> nat \<Rightarrow> bytes list \<Rightarrow> nat \<Rightarrow> LP_node" where
  "full_node sha1 gs p hashes k =
     mk_LP (sha1 (take 20 (hashes ! (k * gs + gs - 1)))) p [k * gs..<k * gs + gs]"

lemma group_step_full:
  assumes "Suc (n mod gs) = gs"
  shows "group_step sha1 gs p hashes n (n mod gs, c, out) =
    (0, (take 20 (hashes ! n), True), out @ [full_node sha1 gs p hashes (n div gs)])"
proof -
  have n: "n div gs * gs + gs - 1 = n" "n div gs * gs + gs = n + 1" "n + 1 - gs = n div gs * gs"
    using assms div_mult_mod_eq [of n gs] by linarith+
  have "(fst (n mod gs, c, out) + 1) mod gs = 0" using assms by simp
  then show ?thesis unfolding group_step_def full_node_def n by (simp add: Let_def n(3))
qed

lemma group_step_part:
  assumes "Suc (n mod gs) < gs"
  shows "group_step sha1 gs p hashes n (n mod gs, c, out) =
    (Suc (n mod gs), (take 20 (hashes ! n), False), out)"
  using assms by (simp add: group_step_def Let_def)

lemma group_steps:
  assumes "0 < gs" and "n \<le> length hashes"
  shows "fold (group_step sha1 gs p hashes) [0..<n] (0, ([], False), []) =
    (n mod gs, (if n = 0 then ([], False) else (take 20 (hashes ! (n - 1)), n mod gs = 0)),
     map (full_node sha1 gs p hashes) [0..<n div gs])"
  using assms(2)
proof (induction n)
  case (Suc n)
  then have IH: "fold (group_step sha1 gs p hashes) [0..<n] (0, ([], False), []) =
    (n mod gs, (if n = 0 then ([], False) else (take 20 (hashes ! (n - 1)), n mod gs = 0)),
     map (full_node sha1 gs p hashes) [0..<n div gs])" by simp
  show ?case
  proof (cases "Suc (n mod gs) = gs")
    case True
    then show ?thesis by (simp add: IH group_step_full mod_Suc div_Suc)
  next
    case False
    then have "Suc (n mod gs) < gs" using assms(1) by (simp add: Suc_lessI)
    then show ?thesis by (simp add: IH group_step_part mod_Suc div_Suc)
  qed
qed simp

lemma group_loop_eq:
  "0 < gs \<Longrightarrow> hashes \<noteq> [] \<Longrightarrow> group_loop sha1 gs p hashes =
    (length hashes mod gs, (take 20 (last hashes), length hashes mod gs = 0),
     map (full_node sha1 gs p hashes) [0..<length hashes div gs])"
  by (simp add: group_loop_def group_steps last_conv_nth)

text \<open>The row above the chunks and the rows above that.\<close>

definition first_row :: "(bytes \<Rightarrow> bytes) \<Rightarrow> (bytes \<Rightarrow> bytes) \<Rightarrow> nat \<Rightarrow> bytes list \<Rightarrow> LP_node list" where
  "first_row sha1 again gs hashes = last_group sha1 again 1 (length hashes) (group_loop sha1 gs 1 hashes)"

definition upper_row :: "(bytes \<Rightarrow> bytes) \<Rightarrow> (bytes \<Rightarrow> bytes) \<Rightarrow> nat \<Rightarrow> nat \<Rightarrow> bytes list \<Rightarrow> LP_node list" where
  "upper_row sha1 again gs p hashes =
     (if length hashes mod gs = 0 then snd (snd (group_loop sha1 gs p hashes))
      else last_group sha1 again p (length hashes) (group_loop sha1 gs p hashes))"

lemma length_first_row:
  "0 < gs \<Longrightarrow> hashes \<noteq> [] \<Longrightarrow> length (first_row sha1 again gs hashes) = length hashes div gs + 1"
  by (simp add: first_row_def last_group_def group_loop_eq)

lemma length_upper_row:
  "0 < gs \<Longrightarrow> hashes \<noteq> [] \<Longrightarrow> length (upper_row sha1 again gs p hashes) =
     length hashes div gs + (if length hashes mod gs = 0 then 0 else 1)"
  by (simp add: upper_row_def last_group_def group_loop_eq)

lemma buildLevel1_eq:
  "base mt \<noteq> [] \<Longrightarrow> buildLevel1 sha1 again mt =
     Inr (mt\<lparr>tree := (tree mt)[0 := first_row sha1 again (group_size mt) (map SHA1_hash (base mt))]\<rparr>)"
  by (simp add: buildLevel1_def first_row_def)

lemma buildLevelx_eq:
  "0 < group_size mt \<Longrightarrow> tree mt ! (p - 2) \<noteq> [] \<Longrightarrow> buildLevelx sha1 again p mt =
     (if length (tree mt ! (p - 2)) = 1 then Inr (False, mt)
      else Inr (True, mt\<lparr>tree := (tree mt)[p - 1 :=
             upper_row sha1 again (group_size mt) p (map SHA1_hash (tree mt ! (p - 2)))]\<rparr>))"
  by (simp add: buildLevelx_def upper_row_def group_loop_eq Let_def)

text \<open>A node of row \<open>p\<close> has that level and a digest for a hash.\<close>

definition node_ok :: "(bytes \<Rightarrow> bytes) \<Rightarrow> (bytes \<Rightarrow> bytes) \<Rightarrow> nat \<Rightarrow> LP_node \<Rightarrow> bool" where
  "node_ok sha1 again p x \<longleftrightarrow> level x = p \<and> SHA1_hash x \<in> range sha1 \<union> range again"

lemma node_rows:
  "x \<in> set (first_row sha1 again gs hashes) \<Longrightarrow> 0 < gs \<Longrightarrow> hashes \<noteq> [] \<Longrightarrow> node_ok sha1 again 1 x"
  "x \<in> set (upper_row sha1 again gs p hashes) \<Longrightarrow> 0 < gs \<Longrightarrow> hashes \<noteq> [] \<Longrightarrow> node_ok sha1 again p x"
  by (auto simp: first_row_def upper_row_def last_group_def group_loop_eq full_node_def mk_LP_def
      node_ok_def sha_final_def split: if_splits)

text \<open>The first row does not look at the chunks inside of a group.\<close>

lemma first_row_cong:
  assumes "0 < gs" and "hashes \<noteq> []" and "length hashes' = length hashes"
    and "\<And>i. i < length hashes \<Longrightarrow> Suc (i mod gs) = gs \<or> Suc i = length hashes \<Longrightarrow> hashes' ! i = hashes ! i"
  shows "first_row sha1 again gs hashes' = first_row sha1 again gs hashes"
proof -
  have nodes: "map (full_node sha1 gs 1 hashes') [0..<length hashes div gs] =
      map (full_node sha1 gs 1 hashes) [0..<length hashes div gs]"
  proof (rule map_cong [OF refl])
    fix k assume "k \<in> set [0..<length hashes div gs]"
    then have "Suc k * gs \<le> length hashes"
      using less_eq_div_iff_mult_less_eq [OF assms(1), of "Suc k" "length hashes"] by (simp add: Suc_le_eq)
    then have less: "k * gs + gs - 1 < length hashes" using assms(1) by simp
    have "k * gs + gs - 1 = (gs - 1) + k * gs" using assms(1) by simp
    then have "Suc ((k * gs + gs - 1) mod gs) = gs" using assms(1) by (simp only: mod_mult_self1) simp
    with less show "full_node sha1 gs 1 hashes' k = full_node sha1 gs 1 hashes k"
      using assms(4) by (simp add: full_node_def)
  qed
  have "hashes' \<noteq> []" using assms(2,3) by auto
  moreover from this have "last hashes' = last hashes"
    using assms(2,3,4) by (simp add: last_conv_nth)
  ultimately show ?thesis
    using assms(1-3) nodes by (simp add: first_row_def group_loop_eq last_group_def sha_final_def)
qed

section \<open>Building the whole tree\<close>

lemma build_levels_base:
  assumes "1 \<notin> set ks"
  shows "build_levels sha1 again ks (mt\<lparr>base := b, metas := f\<rparr>) =
    and_then (build_levels sha1 again ks mt) (\<lambda>m. Inr (m\<lparr>base := b, metas := f\<rparr>))"
  using assms
proof (induction "ks" arbitrary: mt)
  case (Cons i "ks")
  obtain r where r: "buildLevelx sha1 again i mt = r" by blast
  have step: "buildLevelx sha1 again i (mt\<lparr>base := b, metas := f\<rparr>) =
      and_then (buildLevelx sha1 again i mt) (\<lambda>(more, m). Inr (more, m\<lparr>base := b, metas := f\<rparr>))"
    by (simp add: buildLevelx_def Let_def)
  show ?case
  proof (cases "buildLevelx sha1 again i mt")
    case (Inr mm)
    then show ?thesis using Cons step by (cases mm) auto
  qed (use Cons.prems step in auto)
qed simp

text \<open>What building keeps, and the node at the top.\<close>

definition tree_ok :: "(bytes \<Rightarrow> bytes) \<Rightarrow> (bytes \<Rightarrow> bytes) \<Rightarrow> MerkleTree \<Rightarrow> bool" where
  "tree_ok sha1 again mt \<longleftrightarrow>
     (\<forall>j < length (tree mt). \<forall>x \<in> set (tree mt ! j). node_ok sha1 again (Suc j) x)"

definition topped :: "MerkleTree \<Rightarrow> nat \<Rightarrow> bool" where
  "topped mt t \<longleftrightarrow> t < length (tree mt) \<and> length (tree mt ! t) = 1 \<and>
     (\<forall>j. t < j \<longrightarrow> j < length (tree mt) \<longrightarrow> tree mt ! j = [])"

definition same_frame :: "MerkleTree \<Rightarrow> MerkleTree \<Rightarrow> bool" where
  "same_frame mt mt' \<longleftrightarrow> base mt' = base mt \<and> metas mt' = metas mt \<and> meta_path mt' = meta_path mt \<and>
     max_level mt' = max_level mt \<and> group_size mt' = group_size mt \<and> length (tree mt') = length (tree mt)"

lemma groups_bound:
  assumes "0 < gs" and "0 < (m::nat)"
  shows "0 < m div gs + (if m mod gs = 0 then 0 else 1)"
    and "m div gs + (if m mod gs = 0 then 0 else 1) \<le> k \<longleftrightarrow> m \<le> gs * k"
proof -
  have m: "m = gs * (m div gs) + m mod gs" by simp
  show "0 < m div gs + (if m mod gs = 0 then 0 else 1)"
    using assms by (metis add_gr_0 div_greater_zero_iff less_numeral_extra(1) mod_less not_le)
  show "m div gs + (if m mod gs = 0 then 0 else 1) \<le> k \<longleftrightarrow> m \<le> gs * k"
  proof (cases "m mod gs = 0")
    case True
    then have "m \<le> gs * k \<longleftrightarrow> gs * (m div gs) \<le> gs * k" using m by simp
    then show ?thesis using True assms by simp
  next
    case False
    have "m div gs < k \<longleftrightarrow> m < k * gs" using assms(1) by (simp add: div_less_iff_less_mult)
    moreover have "m \<noteq> k * gs" using False by auto
    ultimately show ?thesis using False by (auto simp: mult.commute)
  qed
qed

lemma build_upper:
  assumes "0 < group_size mt" and "2 \<le> p" and "length (tree mt) = p - 1 + n"
    and "tree mt ! (p - 2) \<noteq> []" and "\<forall>j. p - 1 \<le> j \<longrightarrow> j < length (tree mt) \<longrightarrow> tree mt ! j = []"
    and "tree_ok sha1 again mt"
  shows "\<exists>mt'. build_levels sha1 again [p..<p + n] mt = Inr mt' \<and> same_frame mt mt' \<and> tree_ok sha1 again mt' \<and>
    (if length (tree mt ! (p - 2)) \<le> group_size mt ^ n then \<exists>t. topped mt' t
     else 1 < length (last (tree mt')))"
  using assms
proof (induction n arbitrary: p mt)
  case 0
  then have "last (tree mt) = tree mt ! (p - 2)" by (simp add: last_conv_nth numeral_2_eq_2 flip: length_greater_0_conv)
  moreover have "0 < length (tree mt ! (p - 2))" using 0 by simp
  moreover from this have "topped mt (p - 2)" if "length (tree mt ! (p - 2)) \<le> 1"
    using that 0(2,3) unfolding topped_def by (intro conjI allI impI) linarith+
  ultimately show ?case using 0 by (auto simp: same_frame_def)
next
  case (Suc n)
  let ?row = "tree mt ! (p - 2)" and ?gs = "group_size mt"
  have seq: "[p..<p + Suc n] = p # [Suc p..<Suc p + n]" by (simp add: upt_conv_Cons)
  have pos: "0 < length ?row" using Suc.prems(4) by simp
  show ?case
  proof (cases "length ?row = 1")
    case True
    have "1 \<le> ?gs ^ Suc n" using Suc.prems(1) by simp
    then show ?thesis
      using True Suc.prems unfolding seq
      by (auto simp: buildLevelx_eq same_frame_def topped_def intro!: exI [of _ "p - 2"])
  next
    case False
    let ?new = "upper_row sha1 again ?gs p (map SHA1_hash ?row)"
    let ?mt = "mt\<lparr>tree := (tree mt)[p - 1 := ?new]\<rparr>"
    have len: "length ?new = length ?row div ?gs + (if length ?row mod ?gs = 0 then 0 else 1)"
      using Suc.prems(1,4) by (simp add: length_upper_row)
    have step: "buildLevelx sha1 again p mt = Inr (True, ?mt)"
      using False Suc.prems(1,4) by (simp add: buildLevelx_eq)
    have idx: "p - 1 < length (tree mt)" "Suc p - 2 = p - 1" using Suc.prems(2,3) by simp_all
    have new: "tree ?mt ! (Suc p - 2) = ?new" using idx by simp
    have ne: "?new \<noteq> []"
      using groups_bound(1) [OF Suc.prems(1) pos] len by (metis list.size(3) less_numeral_extra(3))
    have ok: "tree_ok sha1 again ?mt"
      using Suc.prems(1,2,4,6) idx(1)
      by (auto simp: tree_ok_def nth_list_update node_rows(2) split: if_splits)
    have rest: "\<forall>j. Suc p - 1 \<le> j \<longrightarrow> j < length (tree ?mt) \<longrightarrow> tree ?mt ! j = []"
      using Suc.prems(2,5) by (auto simp: nth_list_update)
    have size: "length ?new \<le> ?gs ^ n \<longleftrightarrow> length ?row \<le> ?gs ^ Suc n"
      using groups_bound(2) [OF Suc.prems(1) pos, of "?gs ^ n"] len by simp
    have "\<exists>mt'. build_levels sha1 again [Suc p..<Suc p + n] ?mt = Inr mt' \<and> same_frame ?mt mt' \<and>
      tree_ok sha1 again mt' \<and> (if length (tree ?mt ! (Suc p - 2)) \<le> group_size ?mt ^ n then \<exists>t. topped mt' t
        else 1 < length (last (tree mt')))"
      using Suc.prems(1-3) new ne ok rest by (intro Suc.IH) auto
    then show ?thesis
      using Suc.prems(2) step size idx new unfolding seq by (auto simp: same_frame_def)
  qed
qed

definition with_first_row ::
    "(bytes \<Rightarrow> bytes) \<Rightarrow> (bytes \<Rightarrow> bytes) \<Rightarrow> string list \<Rightarrow> L0_node list \<Rightarrow> fs \<Rightarrow> MerkleTree" where
  "with_first_row sha1 again paths nodes fs =
     (mk_tree paths 10 6 nodes fs)\<lparr>tree := first_row sha1 again 10 (map SHA1_hash nodes) # replicate 5 []\<rparr>"

lemma buildTree_levels:
  assumes "nodes \<noteq> []"
  shows "buildTree sha1 again (mk_tree paths 10 6 nodes fs) =
    build_levels sha1 again [2..<2 + 5] (with_first_row sha1 again paths nodes fs)"
proof -
  have "[1..<6 + 1] = 1 # [2..<2 + 5]" by (simp add: upt_conv_Cons)
  then show ?thesis
    using assms
    by (simp add: buildTree_def mk_tree_def buildLevel1_eq with_first_row_def numeral_eq_Suc)
qed

lemma buildTree_shape:
  assumes "nodes \<noteq> []"
  shows "\<exists>mt. buildTree sha1 again (mk_tree paths 10 6 nodes fs) = Inr mt \<and>
    same_frame (mk_tree paths 10 6 nodes fs) mt \<and> tree_ok sha1 again mt \<and>
    (if length nodes < 10 ^ 6 then \<exists>t. topped mt t else 1 < length (last (tree mt)))"
proof -
  let ?mt = "with_first_row sha1 again paths nodes fs"
  have row: "tree ?mt ! (2 - 2) = first_row sha1 again 10 (map SHA1_hash nodes)"
    by (simp add: with_first_row_def)
  have len: "length (tree ?mt ! (2 - 2)) = length nodes div 10 + 1"
    unfolding row using assms by (simp add: length_first_row)
  have "length nodes div 10 + 1 \<le> 10 ^ 5 \<longleftrightarrow> length nodes < 10 ^ 6"
    by (simp add: Suc_le_eq div_less_iff_less_mult)
  moreover have "tree_ok sha1 again ?mt"
    using assms node_rows(1) [of _ sha1 again 10 "map SHA1_hash nodes"]
    by (auto simp: tree_ok_def with_first_row_def nth_Cons split: nat.splits)
  moreover have "tree ?mt ! (2 - 2) \<noteq> []" using len by auto
  moreover have "\<forall>j. 2 - 1 \<le> j \<longrightarrow> j < length (tree ?mt) \<longrightarrow> tree ?mt ! j = []"
    by (auto simp: with_first_row_def nth_Cons split: nat.splits)
  moreover have "group_size ?mt = 10" "length (tree ?mt) = 2 - 1 + 5"
    by (simp_all add: with_first_row_def mk_tree_def)
  moreover have "same_frame (mk_tree paths 10 6 nodes fs) mt'" if "same_frame ?mt mt'" for mt'
    using that by (simp add: same_frame_def with_first_row_def mk_tree_def)
  ultimately show ?thesis
    using build_upper [of ?mt 2 5 sha1 again] len buildTree_levels [OF assms] by fastforce
qed

lemma buildTree_cong:
  assumes "nodes \<noteq> []" and "length nodes' = length nodes"
    and "\<And>i. i < length nodes \<Longrightarrow> i mod 10 = 9 \<or> Suc i = length nodes \<Longrightarrow>
      SHA1_hash (nodes' ! i) = SHA1_hash (nodes ! i)"
    and "buildTree sha1 again (mk_tree paths 10 6 nodes fs) = Inr mt"
  shows "buildTree sha1 again (mk_tree paths 10 6 nodes' fs') = Inr (mt\<lparr>base := nodes', metas := fs'\<rparr>)"
proof -
  have ne: "nodes' \<noteq> []" using assms(1,2) by auto
  have "first_row sha1 again 10 (map SHA1_hash nodes') = first_row sha1 again 10 (map SHA1_hash nodes)"
    using assms(1-3) by (intro first_row_cong) auto
  then have "with_first_row sha1 again paths nodes' fs' =
      (with_first_row sha1 again paths nodes fs)\<lparr>base := nodes', metas := fs'\<rparr>"
    by (simp add: with_first_row_def mk_tree_def)
  then show ?thesis
    using assms(4) build_levels_base [where ks = "[2..<2 + 5]" and mt = "with_first_row sha1 again paths nodes fs"]
    by (simp add: buildTree_levels [OF assms(1)] buildTree_levels [OF ne])
qed

section \<open>Walking the tree\<close>

lemma table_has_append:
  assumes "table_has stride (Some f) hash" and "0 < stride" and "20 \<le> stride"
  shows "table_has stride (Some (f @ g)) hash"
proof -
  let ?c = "take (stride * 1024 * 1024) f" and ?d = "take (stride * 1024 * 1024) (f @ g)"
  from assms(1) obtain i where i: "i < length ?c div stride" "segment (i * stride) 20 ?c = take 20 hash"
    by (auto simp: table_has_def list_ex_iff Let_def)
  have d: "?d = ?c @ take (stride * 1024 * 1024 - length f) g" by simp
  have "Suc i * stride \<le> length ?c"
    using i(1) less_eq_div_iff_mult_less_eq [OF assms(2), of "Suc i" "length ?c"] by (simp add: Suc_le_eq)
  then have "i * stride + 20 \<le> length ?c" using assms(3) unfolding mult_Suc by linarith
  then have "segment (i * stride) 20 ?d = take 20 hash"
    unfolding d using i(2) by (simp only: segment_append1)
  moreover have "length ?c div stride \<le> length ?d div stride" unfolding d by (intro div_le_mono) simp
  then have "i < length ?d div stride" using i(1) by simp
  ultimately show ?thesis by (auto simp: table_has_def list_ex_iff Let_def)
qed

lemma table_has_inserted:
  assumes "20 dvd length f" and "length f + 20 \<le> 20 * 1024 * 1024" and "length hash = 20"
  shows "table_has 20 (Some (f @ take 20 hash)) hash"
proof -
  obtain k where k: "length f = k * 20" using assms(1) by (auto elim: dvdE simp: mult.commute)
  have "take (20 * 1024 * 1024) (f @ hash) = f @ hash" using assms(2,3) by simp
  moreover have "segment (k * 20) 20 (f @ hash) = hash" using assms(3) k by (simp add: segment_def)
  moreover have "k < length (f @ hash) div 20" using assms(3) k by simp
  ultimately show ?thesis using assms(3) by (auto simp: table_has_def list_ex_iff Let_def)
qed

text \<open>The tables only grow, and the shape of the tree stays.\<close>

definition grown :: "MerkleTree \<Rightarrow> MerkleTree \<Rightarrow> bool" where
  "grown mt mt' \<longleftrightarrow> meta_path mt' = meta_path mt \<and>
     (\<forall>x f. metas mt x = Some f \<longrightarrow> (\<exists>g. metas mt' x = Some (f @ g)))"

lemma grown_refl [simp]: "grown mt mt"
  by (auto simp: grown_def intro: exI [of _ "[]"])

lemma grown_trans: "grown a b \<Longrightarrow> grown b c \<Longrightarrow> grown a c"
  unfolding grown_def by (metis append.assoc)

lemma grown_insert: "grown mt (insertLP mt hash lv)"
  by (auto simp: grown_def insertLP_def split: option.splits intro: exI [of _ "[]"])

lemma grown_set_lost: "grown mt (set_lost p i mt)"
  by (auto simp: grown_def set_lost_def intro: exI [of _ "[]"])

lemma walk_grown: "walk p i mt = Inr mt' \<Longrightarrow> grown mt mt'"
proof (induction p arbitrary: i mt mt')
  case 0
  then show ?case by (auto simp: grown_def split: if_splits intro: exI [of _ "[]"])
next
  case (Suc p)
  let ?root = "tree mt ! p ! i"
  let ?start = "insertLP (set_lost p i mt) (SHA1_hash ?root) (level ?root)"
  show ?case
  proof (cases "lookupLP mt (SHA1_hash ?root) (level ?root)")
    case True
    then show ?thesis using Suc.prems by (simp add: Let_def)
  next
    case False
    then have run: "foldE (\<lambda>mt c. walk p c mt) ?start (children ?root) = Inr mt'"
      using Suc.prems by (simp add: Let_def split: if_splits)
    have start: "grown mt ?start" by (rule grown_trans [OF grown_set_lost grown_insert])
    show ?thesis
      by (rule foldE_invariant [where I = "grown mt", OF run start]) (metis Suc.IH grown_trans)
  qed
qed

lemma walk_root_skip:
  "\<forall>j \<in> set js. length (tree mt ! j) \<noteq> 1 \<Longrightarrow> walk_root (js @ ks) mt = walk_root ks mt"
  by (induction js) auto

lemma mark_topped:
  assumes "topped mt t" and "max_level mt = length (tree mt)"
  shows "markNonDuplicateNodes mt = walk (Suc t) 0 mt"
proof -
  have t: "t < length (tree mt)" "length (tree mt ! t) = 1" using assms(1) by (simp_all add: topped_def)
  have "rev [0..<length (tree mt)] = rev [Suc t..<length (tree mt)] @ t # rev [0..<t]"
    using t(1) upt_add_eq_append [of 0 t "length (tree mt) - t"] by (simp add: upt_conv_Cons)
  moreover have "\<forall>j \<in> set (rev [Suc t..<length (tree mt)]). length (tree mt ! j) \<noteq> 1"
    using assms(1) by (simp add: topped_def)
  ultimately have "walk_root (rev [0..<max_level mt]) mt = walk (Suc t) 0 mt"
    using t(2) walk_root_skip [of "rev [Suc t..<length (tree mt)]" mt] assms(2) by simp
  moreover have "length (last (tree mt)) \<le> 1"
  proof (cases "Suc t = length (tree mt)")
    case True
    then have "last (tree mt) = tree mt ! t" by (metis diff_Suc_1 last_conv_nth length_0_conv nat.distinct(1))
    then show ?thesis using t(2) by simp
  next
    case False
    then have "tree mt ! (length (tree mt) - 1) = []" using assms(1) t(1) by (simp add: topped_def)
    moreover have "tree mt \<noteq> []" using t(1) by auto
    ultimately show ?thesis by (simp add: last_conv_nth)
  qed
  ultimately show ?thesis by (simp add: markNonDuplicateNodes_def)
qed

text \<open>After the walk the table of its level holds the root.\<close>

lemma walked_root:
  assumes "walk (Suc t) 0 mt = Inr mt'" and "root = tree mt ! t ! 0" and "length (SHA1_hash root) = 20"
    and "metas mt (meta_path mt ! level root) = Some f" and "20 dvd length f"
    and "length f + 20 \<le> 20 * 1024 * 1024"
  shows "lookupLP mt' (SHA1_hash root) (level root)"
proof -
  have persists: "lookupLP b (SHA1_hash root) (level root)"
    if "grown a b" "metas a (meta_path a ! level root) = Some g" "lookupLP a (SHA1_hash root) (level root)"
    for a b g
    using that table_has_append [of SHA1_LENGTH] by (fastforce simp: lookupLP_def grown_def SHA1_LENGTH_def)
  show ?thesis
  proof (cases "lookupLP mt (SHA1_hash root) (level root)")
    case True
    then show ?thesis using assms(1,2,4) persists [of mt mt'] by (simp add: Let_def)
  next
    case False
    let ?start = "insertLP (set_lost t 0 mt) (SHA1_hash root) (level root)"
    have run: "foldE (\<lambda>mt c. walk t c mt) ?start (children root) = Inr mt'"
      using assms(1,2) False by (simp add: Let_def split: if_splits)
    have "grown ?start mt'"
      by (rule foldE_invariant [where I = "grown ?start", OF run grown_refl]) (metis walk_grown grown_trans)
    moreover have start: "metas ?start (meta_path ?start ! level root) = Some (f @ take 20 (SHA1_hash root))"
      using assms(4) by (simp add: insertLP_def set_lost_def)
    moreover from start have "lookupLP ?start (SHA1_hash root) (level root)"
      using table_has_inserted [OF assms(5,6,3)] by (simp add: lookupLP_def SHA1_LENGTH_def)
    ultimately show ?thesis by (rule persists)
  qed
qed

section \<open>What the Merkle branch stores\<close>

lemma store_node_keeps:
  assumes "store_node p w x = Inr w'" and "container_buf_pointer w = 0"
  shows "container_buf_pointer w' = 0 \<and> cdir w' = cdir w \<and> manager w' = manager w \<and>
    file_recipe w' = file_recipe w"
proof -
  have "length (segment (unat (file_offset x)) (unat (l0_length x)) p) < 65536"
    using unsigned_less [of "l0_length x", where 'a = nat] by (simp add: length_segment)
  then show ?thesis using assms
    by (auto simp: store_node_def saveChunkToContainer_def copy_chunk_def CONTAINER_SIZE_def Let_def
        unat_of_nat split: if_splits)
qed

lemma store_node_total:
  assumes "container_buf_pointer w = 0" and "rev_container_cnt w = 0"
  shows "\<exists>w'. store_node p w x = Inr w' \<and> sum_chunks w' = sum_chunks w + 1"
proof -
  have "length (segment (unat (file_offset x)) (unat (l0_length x)) p) < 65536"
    using unsigned_less [of "l0_length x", where 'a = nat] by (simp add: length_segment)
  then show ?thesis using assms
    by (simp add: store_node_def saveChunkToContainer_def copy_chunk_def CONTAINER_SIZE_def Let_def unat_of_nat)
qed

lemma store_nodes_keep:
  assumes "foldE (store_node p) w xs = Inr w'" and "container_buf_pointer w = 0"
  shows "container_buf_pointer w' = 0 \<and> cdir w' = cdir w \<and> manager w' = manager w \<and>
    file_recipe w' = file_recipe w"
  by (rule foldE_invariant [OF assms(1)]) (use assms(2) store_node_keeps in auto)

lemma l0_nodes_length: "length (l0_nodes sha1 fo ds) = length ds"
  by (induction sha1 fo ds rule: l0_nodes.induct) auto

lemma merkle_written:
  assumes "task_write_merkle sha1 again ck c paths fs r (Some f) = Some (Inr (r', fs'))"
  obtains m d ds where "load_index r = Inr m" and "containers_dir r' = containers_dir r"
    and "fingerprints_file r' = Some (save m)" and "ds \<noteq> []"
    and "saveFileRecipe (map sha1 ds) (recipes_dir r) = Inr (recipes_dir r')"
proof -
  from assms obtain m d ds c' w mt where run: "load_index r = Inr m" "containers_dir r = Some d"
    "merkle_write sha1 again paths fs (writer_start m d) (take FILE_CACHE f) ds = Inr (w, mt)"
    "write_end w (recipes_dir r) = Inr r'"
    by (auto simp: task_write_merkle_def and_then_eq_Inr split: sum.splits option.splits)
  then obtain mt0 where mt: "buildTree sha1 again (mk_tree paths 10 6 (l0_nodes sha1 0 ds) fs) = Inr mt0"
    "foldE (store_node (take FILE_CACHE f)) (writer_start m d\<lparr>file_recipe := map sha1 ds\<rparr>) (base mt) = Inr w"
    by (auto simp: merkle_write_def and_then_eq_Inr)
  from store_nodes_keep [OF mt(2)] have w: "container_buf_pointer w = 0" "cdir w = d" "manager w = m"
    "file_recipe w = map sha1 ds" by (simp_all add: writer_start_def)
  have "ds \<noteq> []"
  proof
    assume "ds = []"
    then have "base (mk_tree paths 10 6 (l0_nodes sha1 0 ds) fs) = []" by (simp add: mk_tree_def)
    moreover have "[1..<max_level (mk_tree paths 10 6 (l0_nodes sha1 0 ds) fs) + 1] = 1 # [2..<7]"
      by (simp add: mk_tree_def upt_conv_Cons)
    ultimately show False using mt(1) by (simp add: buildTree_def buildLevel1_def)
  qed
  then show thesis
    using that run(1,2,4) w by (auto simp: write_end_cases Let_def and_then_eq_Inr split: if_splits)
qed

section \<open>Properties\<close>

text \<open>
  C28. What the tree can hold. For a list of chunks that is not empty the tree is built: below a
  million chunks six rows are enough for a single node at the top, from a million chunks on
  the process ends with an error when it marks the nodes. For an empty list, which an empty file
  gives, building reads outside of the vector: the bound \<open>nodes.size()-1\<close> of the loop wraps around.
\<close>

theorem merkle_tree_capacity:
  "if nodes = [] then buildTree sha1 again (mk_tree paths 10 6 nodes fs) = Inl MemoryFault
   else \<exists>mt. buildTree sha1 again (mk_tree paths 10 6 nodes fs) = Inr mt \<and>
    (if length nodes < 1000000
     then \<exists>t < 6. length (tree mt ! t) = 1 \<and> (\<forall>j. t < j \<longrightarrow> j < 6 \<longrightarrow> tree mt ! j = [])
     else markNonDuplicateNodes mt = Inl ExitFailure)"
proof (cases "nodes = []")
  case True
  have "[1..<max_level (mk_tree paths 10 6 nodes fs) + 1] = 1 # [2..<7]"
    by (simp add: mk_tree_def upt_conv_Cons)
  then show ?thesis using True by (simp add: buildTree_def buildLevel1_def) (simp add: mk_tree_def)
next
  case False
  from buildTree_shape [OF this, of sha1 again paths fs] obtain mt
    where mt: "buildTree sha1 again (mk_tree paths 10 6 nodes fs) = Inr mt"
      "same_frame (mk_tree paths 10 6 nodes fs) mt"
      "if length nodes < 10 ^ 6 then \<exists>t. topped mt t else 1 < length (last (tree mt))"
    by blast
  have "length (tree mt) = 6" using mt(2) by (simp add: same_frame_def mk_tree_def)
  then show ?thesis using mt(1,3) False
    by (auto simp: topped_def markNonDuplicateNodes_def split: if_splits)
qed

definition sample_nodes :: "L0_node list" where
  "sample_nodes = [mk_L0 0 3 (sample_sha1 [1, 2, 3]), mk_L0 3 2 (sample_sha1 [4, 5])]"

theorem merkle_tree_capacity_witness:
  "\<exists>mt. buildTree sample_sha1 sample_sha1 (mk_tree [] 10 6 sample_nodes Map.empty) = Inr mt \<and>
    (\<exists>t < 6. length (tree mt ! t) = 1 \<and> (\<forall>j. t < j \<longrightarrow> j < 6 \<longrightarrow> tree mt ! j = []))"
proof -
  have "sample_nodes \<noteq> []" "length sample_nodes < 1000000" by (simp_all add: sample_nodes_def)
  with merkle_tree_capacity [of sample_nodes sample_sha1 sample_sha1 "[]" Map.empty] show ?thesis by simp
qed

text \<open>
  C29. \<open>SHA1_Init\<close> inside of the loop makes the hash of a node that of its last child alone.
  So a file is taken for a duplicate of one that was written before as soon as every tenth
  chunk and the last one agree: nothing of it is marked as new, whatever the other chunks
  are.
\<close>

theorem merkle_change_unnoticed:
  assumes "\<forall>x. length (sha1 x) = 20" and "\<forall>x. length (again x) = 20"
    and "nodes \<noteq> []" and "length nodes < 1000000"
    and "\<forall>P \<in> {1..6}. \<exists>f. fs (paths ! P) = Some f \<and> 20 dvd length f \<and> length f + 20 \<le> 20 * 1024 * 1024"
    and "buildTree sha1 again (mk_tree paths 10 6 nodes fs) = Inr mt"
    and "markNonDuplicateNodes mt = Inr mt1"
    and "length nodes' = length nodes"
    and "\<forall>i < length nodes. i mod 10 = 9 \<or> Suc i = length nodes \<longrightarrow>
      SHA1_hash (nodes' ! i) = SHA1_hash (nodes ! i)"
  shows "\<exists>mt2. buildTree sha1 again (mk_tree paths 10 6 nodes' (metas mt1)) = Inr mt2 \<and>
    markNonDuplicateNodes mt2 = Inr mt2 \<and> base mt2 = nodes'"
proof -
  from buildTree_shape [OF assms(3), of sha1 again paths fs] assms(4,6) obtain t
    where frame: "same_frame (mk_tree paths 10 6 nodes fs) mt" and ok: "tree_ok sha1 again mt" and t: "topped mt t"
    by auto
  have sizes: "max_level mt = 6" "length (tree mt) = 6" "metas mt = fs" "meta_path mt = paths"
    using frame by (simp_all add: same_frame_def mk_tree_def)
  let ?root = "tree mt ! t ! 0"
  have "t < 6" "?root \<in> set (tree mt ! t)" using t sizes by (auto simp: topped_def)
  then have "node_ok sha1 again (Suc t) ?root" using ok sizes by (simp add: tree_ok_def)
  then have root: "level ?root = Suc t" "length (SHA1_hash ?root) = 20"
    using assms(1,2) by (auto simp: node_ok_def)
  obtain f where f: "metas mt (meta_path mt ! level ?root) = Some f" "20 dvd length f"
    "length f + 20 \<le> 20 * 1024 * 1024"
    using bspec [OF assms(5), of "Suc t"] root(1) sizes \<open>t < 6\<close> by auto
  have walk: "walk (Suc t) 0 mt = Inr mt1" using mark_topped [OF t] assms(7) sizes by simp
  from walked_root [OF walk refl root(2) f] have "lookupLP mt1 (SHA1_hash ?root) (level ?root)" .
  moreover have "meta_path mt1 = paths" using walk_grown [OF walk] sizes by (simp add: grown_def)
  ultimately have found: "table_has SHA1_LENGTH (metas mt1 (paths ! level ?root)) (SHA1_hash ?root)"
    by (simp add: lookupLP_def)
  let ?mt2 = "mt\<lparr>base := nodes', metas := metas mt1\<rparr>"
  have "buildTree sha1 again (mk_tree paths 10 6 nodes' (metas mt1)) = Inr ?mt2"
    using assms(9) by (intro buildTree_cong [OF assms(3,8) _ assms(6)]) blast
  moreover have "topped ?mt2 t" using t by (simp add: topped_def)
  then have "markNonDuplicateNodes ?mt2 = walk (Suc t) 0 ?mt2" using sizes by (intro mark_topped) simp_all
  then have "markNonDuplicateNodes ?mt2 = Inr ?mt2"
    using found sizes by (simp add: lookupLP_def Let_def)
  ultimately show ?thesis by (intro exI [of _ ?mt2]) simp
qed

definition sample_paths :: "string list" where
  "sample_paths = [''a'', ''b'', ''c'', ''d'', ''e'', ''f'', ''g'']"

definition sample_metas :: fs where
  "sample_metas = (\<lambda>x. if x \<in> set sample_paths then Some [] else None)"

definition sample_root :: LP_node where
  "sample_root = mk_LP (sample_sha1 (sample_sha1 [4, 5])) 1 [0, 1]"

definition sample_tree :: MerkleTree where
  "sample_tree = (mk_tree sample_paths 10 6 sample_nodes sample_metas)\<lparr>tree := [sample_root] # replicate 5 []\<rparr>"

lemma sample_sha1_length: "length (sample_sha1 x) = 20"
  by (simp add: sample_sha1_def)

lemma sample_tree_built:
  "buildTree sample_sha1 again (mk_tree sample_paths 10 6 sample_nodes sample_metas) = Inr sample_tree"
proof -
  have ne: "sample_nodes \<noteq> []" by (simp add: sample_nodes_def)
  have "group_loop sample_sha1 10 1 (map SHA1_hash sample_nodes) = (2, (sample_sha1 [4, 5], False), [])"
    by (simp add: group_loop_eq ne) (simp add: sample_nodes_def mk_L0_def sample_sha1_length)
  then have "with_first_row sample_sha1 again sample_paths sample_nodes sample_metas = sample_tree"
    by (simp add: with_first_row_def first_row_def last_group_def sample_tree_def sample_root_def
        sha_final_def sample_nodes_def numeral_2_eq_2)
  moreover have "[2..<2 + 5] = 2 # [3..<7]" by (simp add: upt_conv_Cons)
  moreover have "buildLevelx sample_sha1 again 2 sample_tree = Inr (False, sample_tree)"
    by (simp add: buildLevelx_def sample_tree_def mk_tree_def)
  ultimately show ?thesis unfolding buildTree_levels [OF ne] by simp
qed

lemma sample_tree_marked:
  "\<exists>mt1. markNonDuplicateNodes sample_tree = Inr mt1"
proof -
  have t: "topped sample_tree 0"
    by (auto simp: topped_def sample_tree_def mk_tree_def nth_Cons split: nat.splits)
  have none: "\<not> table_has n (sample_metas p) h" if "p \<in> set sample_paths" for n p h
    using that by (simp add: table_has_def sample_metas_def)
  have "length (tree sample_tree) = 6" "max_level sample_tree = 6" by (simp_all add: sample_tree_def mk_tree_def)
  then have "markNonDuplicateNodes sample_tree = walk (Suc 0) 0 sample_tree"
    by (intro mark_topped [OF t]) simp
  moreover have "\<not> lookupLP sample_tree (SHA1_hash sample_root) (level sample_root)"
    using none [of "sample_paths ! 1"]
    by (simp add: lookupLP_def sample_root_def mk_LP_def sample_tree_def mk_tree_def sample_paths_def)
  ultimately show ?thesis
    by (simp add: Let_def sample_tree_def mk_tree_def sample_root_def mk_LP_def)
qed

theorem merkle_change_unnoticed_witness:
  "\<exists>mt1 mt2. markNonDuplicateNodes sample_tree = Inr mt1 \<and>
    buildTree sample_sha1 sample_sha1
      (mk_tree sample_paths 10 6 [mk_L0 0 3 (sample_sha1 [9, 9, 9]), mk_L0 3 2 (sample_sha1 [4, 5])] (metas mt1)) = Inr mt2 \<and>
    markNonDuplicateNodes mt2 = Inr mt2"
proof -
  obtain mt1 where mt1: "markNonDuplicateNodes sample_tree = Inr mt1" using sample_tree_marked by blast
  have "\<forall>P \<in> {1..6}. \<exists>f. sample_metas (sample_paths ! P) = Some f \<and> 20 dvd length f \<and>
      length f + 20 \<le> 20 * 1024 * 1024"
  proof
    fix P :: nat assume "P \<in> {1..6}"
    then have "sample_paths ! P \<in> set sample_paths" by (intro nth_mem) (simp add: sample_paths_def)
    then show "\<exists>f. sample_metas (sample_paths ! P) = Some f \<and> 20 dvd length f \<and>
      length f + 20 \<le> 20 * 1024 * 1024" by (simp add: sample_metas_def)
  qed
  moreover have "\<forall>i < length sample_nodes. i mod 10 = 9 \<or> Suc i = length sample_nodes \<longrightarrow>
      SHA1_hash ([mk_L0 0 3 (sample_sha1 [9, 9, 9]), mk_L0 3 2 (sample_sha1 [4, 5])] ! i) = SHA1_hash (sample_nodes ! i)"
    by (auto simp: sample_nodes_def less_Suc_eq)
  moreover have "sample_nodes \<noteq> []" "length sample_nodes < 1000000"
    "length [mk_L0 0 3 (sample_sha1 [9, 9, 9]), mk_L0 3 2 (sample_sha1 [4, 5])] = length sample_nodes"
    by (simp_all add: sample_nodes_def)
  ultimately have "\<exists>mt2. buildTree sample_sha1 sample_sha1
      (mk_tree sample_paths 10 6 [mk_L0 0 3 (sample_sha1 [9, 9, 9]), mk_L0 3 2 (sample_sha1 [4, 5])] (metas mt1)) = Inr mt2 \<and>
    markNonDuplicateNodes mt2 = Inr mt2 \<and>
    base mt2 = [mk_L0 0 3 (sample_sha1 [9, 9, 9]), mk_L0 3 2 (sample_sha1 [4, 5])]"
    by (intro merkle_change_unnoticed [OF _ _ _ _ _ sample_tree_built mt1]) (simp_all add: sample_sha1_length)
  with mt1 show ?thesis by blast
qed

lemma sample_merkle_run:
  "\<exists>r' fs'. task_write_merkle sample_sha1 sample_sha1 (chunking Fn_FSC_512) cdc_zero sample_paths sample_metas
     empty_repo (Some [1, 2, 3]) = Some (Inr (r', fs'))"
proof -
  let ?f = "[1, 2, 3] :: bytes"
  let ?nodes = "l0_nodes sample_sha1 0 [?f]"
  let ?h = "sample_sha1 (sample_sha1 ?f)"
  have nil: "split_chunks (chunking Fn_FSC_512) cdc_zero [] = Some (Inr ([], cdc_zero))"
    by (subst split_chunks.simps) simp
  have "unat (FSC_512 ?f (of_nat (length ?f))) = 3" using fsc_length(1) [of ?f] by simp
  then have split: "split_chunks (chunking Fn_FSC_512) cdc_zero ?f = Some (Inr ([?f], cdc_zero))"
    using nil by (subst split_chunks.simps) (simp add: chunking_def Let_def)
  have nodes: "?nodes = [mk_L0 0 3 (sample_sha1 ?f)]" by simp
  define mt where "mt = (mk_tree sample_paths 10 6 ?nodes sample_metas)
      \<lparr>tree := [mk_LP ?h 1 [0]] # replicate 5 []\<rparr>"
  have "group_loop sample_sha1 10 1 (map SHA1_hash ?nodes) = (1, (sample_sha1 ?f, False), [])"
    by (simp add: group_loop_eq) (simp add: mk_L0_def sample_sha1_length)
  then have row: "with_first_row sample_sha1 sample_sha1 sample_paths ?nodes sample_metas = mt"
    by (simp add: with_first_row_def first_row_def last_group_def sha_final_def mt_def)
  have seq: "[2..<2 + 5] = 2 # [3..<7]" by (simp add: upt_conv_Cons)
  have "buildLevelx sample_sha1 sample_sha1 2 mt = Inr (False, mt)"
    by (simp add: buildLevelx_def mt_def mk_tree_def)
  then have "build_levels sample_sha1 sample_sha1 [2..<2 + 5] mt = Inr mt" unfolding seq by simp
  then have built: "buildTree sample_sha1 sample_sha1 (mk_tree sample_paths 10 6 ?nodes sample_metas) = Inr mt"
    unfolding row [symmetric] by (subst buildTree_levels) simp_all
  have t: "topped mt 0" by (auto simp: topped_def mt_def mk_tree_def nth_Cons split: nat.splits)
  have none: "\<not> table_has n (sample_metas p) h" for n p h
    by (simp add: table_has_def sample_metas_def)
  have "markNonDuplicateNodes mt = walk (Suc 0) 0 mt"
    by (rule mark_topped [OF t]) (simp add: mt_def mk_tree_def)
  moreover have "\<not> lookupLP mt h p" for h p by (simp add: lookupLP_def mt_def mk_tree_def none)
  moreover have "SHA1_hash (tree mt ! 0 ! 0) = ?h" "level (tree mt ! 0 ! 0) = 1" "children (tree mt ! 0 ! 0) = [0]"
    by (simp_all add: mt_def mk_LP_def)
  moreover have "foldE (\<lambda>mt c. walk 0 c mt) m [0] = Inr m1 \<Longrightarrow> length (base m1) = length (base m)" for m m1
    by (auto split: if_splits)
  ultimately obtain mt1 where marked: "markNonDuplicateNodes mt = Inr mt1" "length (base mt1) = 1"
    by (auto simp: Let_def insertLP_def set_lost_def mt_def mk_tree_def split: option.splits if_splits)
  obtain x where x: "base mt1 = [x]" using marked(2) by (auto simp: length_Suc_conv)
  let ?w = "writer_start mm_new []\<lparr>file_recipe := [sample_sha1 ?f]\<rparr>"
  obtain w' where w': "store_node ?f ?w x = Inr w'" "sum_chunks w' = 1"
    using store_node_total [of ?w ?f x] by (auto simp: writer_start_def)
  moreover have "containers_dir empty_repo = Some []" "recipes_dir empty_repo = Some []"
    by (simp_all add: empty_repo_def)
  ultimately show ?thesis
    using split built marked(1) x
    by (simp add: task_write_merkle_def empty_repo_parts(1) merkle_write_def FILE_CACHE_def write_end_cases
        saveFileRecipe_def getFilesNum_def Let_def)
qed

text \<open>
  A Merkle write never stores anything: it advances no position in the container buffer,
  so at the end nothing is flushed, and it makes no index entry. Containers and index are
  afterwards what they were.
\<close>

theorem merkle_write_stores_no_data:
  assumes "task_write_merkle sha1 again ck c paths fs r (Some f) = Some (Inr (r', fs'))"
  shows "containers_dir r' = containers_dir r \<and>
    (\<exists>m. load_index r = Inr m \<and> fingerprints_file r' = Some (save m))"
  using assms by (rule merkle_written) simp

theorem merkle_write_stores_no_data_witness:
  "\<exists>r' fs'. task_write_merkle sample_sha1 sample_sha1 (chunking Fn_FSC_512) cdc_zero sample_paths sample_metas
     empty_repo (Some [1, 2, 3]) = Some (Inr (r', fs')) \<and> containers_dir r' = Some []"
proof -
  obtain r' fs' where run: "task_write_merkle sample_sha1 sample_sha1 (chunking Fn_FSC_512) cdc_zero sample_paths
     sample_metas empty_repo (Some [1, 2, 3]) = Some (Inr (r', fs'))" using sample_merkle_run by blast
  with merkle_write_stores_no_data [OF run] show ?thesis by (simp add: empty_repo_def)
qed

text \<open>
  C30. So the first version of a repository cannot be restored when it is written this way. The
  restores with a cache find no index entry for the first fingerprint of the recipe and end with
  the fatal error. The forward assembly area does not notice: it reports success and leaves the
  output file as it was, or empty when it did not exist.
\<close>

theorem merkle_version_is_lost:
  assumes "task_write_merkle sha1 again ck c paths fs r (Some f) = Some (Inr (r', fs'))"
    and "recipes_dir r = Some []" and "\<forall>x. length (sha1 x) = 20"
  shows "task_restore CONTAINER_CACHE buf r' 0 out = Inl ExitFailure \<and>
    task_restore CHUNK_CACHE buf r' 0 out = Inl ExitFailure \<and>
    task_restore FAA_FIXED buf r' 0 out = Inr (Some (case out of None \<Rightarrow> [] | Some g \<Rightarrow> g))"
  using assms(1)
proof (rule merkle_written)
  fix m ds
  assume run: "load_index r = Inr m" "fingerprints_file r' = Some (save m)" "ds \<noteq> []"
    "saveFileRecipe (map sha1 ds) (recipes_dir r) = Inr (recipes_dir r')"
  have m: "m = mm_new" using run(1) assms(2) by (simp add: load_index_def getFilesNum_def)
  have sha: "map (take SHA1_LENGTH) (map sha1 ds) = map sha1 ds"
    using assms(3) by (simp add: SHA1_LENGTH_def)
  have rd: "recipes_dir r' = Some [(recipe_name 0, concat (map sha1 ds))]"
    using run(4) unfolding assms(2) saveFileRecipe_def sha
    by (auto simp: getFilesNum_def entries_def put_file_def buf_simps)
  obtain x xs where "ds = x # xs" using run(3) by (cases ds) auto
  then have "concat (map sha1 ds) \<noteq> []" using assms(3) by (metis concat.simps(2) append_is_Nil_conv
        list.map(2) list.size(3) zero_neq_numeral)
  moreover have "load (Some (save mm_new)) mm_new = mm_new" by (simp add: load_def save_def mm_new_def)
  then have "load_index r' = Inr mm_new"
    using run(2) m rd by (simp add: load_index_def getFilesNum_def)
  moreover have "map_of (entries (recipes_dir r')) (recipe_name 0) = Some (concat (map sha1 ds))"
    by (simp add: rd entries_def)
  ultimately show ?thesis using empty_index_restore [of r' 0] by simp
qed

theorem merkle_version_is_lost_witness:
  "\<exists>r' fs'. task_write_merkle sample_sha1 sample_sha1 (chunking Fn_FSC_512) cdc_zero sample_paths sample_metas
     empty_repo (Some [1, 2, 3]) = Some (Inr (r', fs')) \<and>
     task_restore CHUNK_CACHE [] r' 0 None = Inl ExitFailure \<and> task_restore FAA_FIXED [] r' 0 None = Inr (Some [])"
proof -
  obtain r' fs' where run: "task_write_merkle sample_sha1 sample_sha1 (chunking Fn_FSC_512) cdc_zero sample_paths
     sample_metas empty_repo (Some [1, 2, 3]) = Some (Inr (r', fs'))" using sample_merkle_run by blast
  have "recipes_dir empty_repo = Some []" by (simp add: empty_repo_def)
  from merkle_version_is_lost [OF run this, of "[]" None] run show ?thesis
    by (simp add: sample_sha1_length)
qed

lemma table_has_empty [simp]: "\<not> table_has n (Some []) h"
  by (simp add: table_has_def)

lemma table_has_one:
  assumes "length h = 20" and "length h' = 20"
  shows "table_has 20 (Some h) h' \<longleftrightarrow> h' = h"
  using assms by (auto simp: table_has_def list_ex_iff segment_def)

lemma walk_chunks:
  assumes "\<forall>c \<in> set cs. c < n"
  shows "\<exists>b. foldE (\<lambda>mt c. walk 0 c mt) mt cs = Inr (mt\<lparr>base := b\<rparr>)"
proof -
  have "\<exists>b. mt = mt\<lparr>base := b\<rparr>" by (intro exI [of _ "base mt"]) simp
  then have "\<exists>mt'. foldE (\<lambda>mt c. walk 0 c mt) mt cs = Inr mt' \<and> (\<exists>b. mt' = mt\<lparr>base := b\<rparr>)"
    by (intro foldE_total) auto
  then show ?thesis by blast
qed

text \<open>
  A first file with exactly ten chunks crashes the process: the row above the chunks gets a
  second node without children, whose hash comes from a finalised context, and the walk
  reads the first of its children.
\<close>

theorem merkle_ten_chunks_fault:
  assumes "length nodes = 10" and "\<forall>x. length (sha1 x) = 20" and "\<forall>x. length (again x) = 20"
    and "fs (paths ! 1) = Some []" and "fs (paths ! 2) = Some []" and "paths ! 1 \<noteq> paths ! 2"
    and "again (take 20 (SHA1_hash (last nodes))) \<noteq> sha1 (take 20 (SHA1_hash (last nodes)))"
  shows "and_then (buildTree sha1 again (mk_tree paths 10 6 nodes fs)) markNonDuplicateNodes = Inl MemoryFault"
proof -
  have ne: "nodes \<noteq> []" using assms(1) by auto
  let ?h = "take 20 (SHA1_hash (last nodes))"
  define a where "a = mk_LP (sha1 ?h) 1 [0..<10]"
  define b where "b = mk_LP (again ?h) 1 []"
  define r where "r = mk_LP (sha1 (again ?h)) 2 [0..<2]"
  let ?mt = "mk_tree paths 10 6 nodes fs"
  have "map SHA1_hash nodes ! 9 = SHA1_hash (last nodes)" using assms(1) ne by (simp add: last_conv_nth)
  then have "group_loop sha1 10 1 (map SHA1_hash nodes) = (0, (?h, True), [a])"
    using assms(1) ne by (simp add: group_loop_eq last_map full_node_def a_def)
  then have row1: "with_first_row sha1 again paths nodes fs = ?mt\<lparr>tree := [a, b] # replicate 5 []\<rparr>"
    using assms(1) by (simp add: with_first_row_def first_row_def last_group_def b_def sha_final_def)
  have "group_loop sha1 10 2 (map SHA1_hash [a, b]) = (2, (again ?h, False), [])"
    using assms(3) by (simp add: group_loop_eq b_def mk_LP_def)
  then have row2: "buildLevelx sha1 again 2 (?mt\<lparr>tree := [a, b] # replicate 5 []\<rparr>) =
      Inr (True, ?mt\<lparr>tree := [a, b] # [r] # replicate 4 []\<rparr>)"
    by (simp add: buildLevelx_def mk_tree_def last_group_def sha_final_def r_def numeral_eq_Suc)
  have row3: "buildLevelx sha1 again 3 (?mt\<lparr>tree := [a, b] # [r] # replicate 4 []\<rparr>) =
      Inr (False, ?mt\<lparr>tree := [a, b] # [r] # replicate 4 []\<rparr>)"
    by (simp add: buildLevelx_def)
  have seq: "[2..<2 + 5] = 2 # 3 # [4..<7]" by (simp add: upt_conv_Cons)
  let ?t = "?mt\<lparr>tree := [a, b] # [r] # replicate 4 []\<rparr>"
  have built: "buildTree sha1 again ?mt = Inr ?t"
    unfolding buildTree_levels [OF ne] row1 seq using row2 row3 by simp
  have "topped ?t 1" by (auto simp: topped_def mk_tree_def nth_Cons split: nat.splits)
  then have mark: "markNonDuplicateNodes ?t = walk 2 0 ?t"
    by (subst mark_topped) (auto simp: mk_tree_def numeral_2_eq_2)
  let ?t1 = "insertLP (set_lost 1 0 ?t) (SHA1_hash r) 2"
  let ?t2 = "insertLP (set_lost 0 0 ?t1) (SHA1_hash a) 1"
  have "walk 1 0 ?t1 = foldE (\<lambda>mt c. walk 0 c mt) ?t2 [0..<10]"
    using assms(4-6) by (simp add: insertLP_def set_lost_def mk_tree_def lookupLP_def a_def mk_LP_def Let_def)
  then obtain bs where first_child: "walk 1 0 ?t1 = Inr (?t2\<lparr>base := bs\<rparr>)"
    using walk_chunks [of "[0..<10]" 10 ?t2] by auto
  have "metas (?t2\<lparr>base := bs\<rparr>) (paths ! 1) = Some (sha1 ?h)"
    using assms(2,4,5,6) by (simp add: insertLP_def set_lost_def mk_tree_def a_def mk_LP_def)
  moreover have "tree (?t2\<lparr>base := bs\<rparr>) ! 0 ! 1 = b" "meta_path (?t2\<lparr>base := bs\<rparr>) = paths"
    by (simp_all add: insertLP_def set_lost_def mk_tree_def split: option.splits)
  ultimately have second: "walk 1 1 (?t2\<lparr>base := bs\<rparr>) = Inl MemoryFault"
    using assms(2,3,7) by (simp add: lookupLP_def SHA1_LENGTH_def table_has_one b_def mk_LP_def Let_def)
  have "walk 2 0 ?t = foldE (\<lambda>mt c. walk 1 c mt) ?t1 [0, 1]"
    using assms(5) by (simp add: numeral_2_eq_2 lookupLP_def mk_tree_def r_def mk_LP_def Let_def)
  then show ?thesis using first_child second built mark by simp
qed

theorem merkle_ten_chunks_fault_witness:
  "and_then (buildTree sample_sha1 (\<lambda>_. replicate 20 7)
      (mk_tree sample_paths 10 6 (replicate 10 (mk_L0 0 1 (sample_sha1 [1]))) sample_metas))
    markNonDuplicateNodes = Inl MemoryFault"
proof (rule merkle_ten_chunks_fault)
  let ?d = "sample_sha1 (take 20 (SHA1_hash (last (replicate 10 (mk_L0 0 1 (sample_sha1 [1]))))))"
  have "?d ! 19 = 0" by (simp add: mk_L0_def sample_sha1_def array_prefix_def nth_append)
  moreover have "replicate 20 (7 :: byte) ! 19 = 7" by simp
  ultimately show "replicate 20 7 \<noteq> ?d" by force
qed (simp_all add: sample_sha1_length sample_metas_def sample_paths_def)

end
