(* ===== verification/Pipeline.thy ===== *)
theory Pipeline
  imports Sync_Queue Write
begin

text \<open>
  The write pipeline: \<open>src/pipeline.cpp\<close>, \<open>src/pipeline_read.cpp\<close>,
  \<open>src/pipeline_chunk.cpp\<close>, \<open>src/pipeline_hash.cpp\<close>, \<open>src/pipeline_dedup.cpp\<close> and the job
  control record of \<open>src/jcr.cpp\<close>. Each thread is a state machine that stops at its
  operations on the shared queues; what it computes in between is a function. The queues are
  the channels that \<open>sync_queue_refines_channel\<close> speaks of, with memory for every element.
  \<open>sha1_thread\<close> flows off its end after the termination of its output queue, which the
  model treats as a return.
\<close>

section \<open>Chunks\<close>

definition CHUNK_UNIQUE :: u32 where "CHUNK_UNIQUE = 0x0000"
definition CHUNK_DUPLICATE :: u32 where "CHUNK_DUPLICATE = 0x0100"
definition TEMPORARY_ID :: int where "TEMPORARY_ID = - 1"
definition CHUNK_FILE_START :: u32 where "CHUNK_FILE_START = 0x0001"
definition CHUNK_FILE_END :: u32 where "CHUNK_FILE_END = 0x0002"
definition DEFAULT_BLOCK_SIZE :: nat where "DEFAULT_BLOCK_SIZE = 1024 * 1024 * 1"

text \<open>The bytes of the buffer that have been written; \<open>None\<close> is the null pointer.\<close>

record chunk =
  csize :: nat
  cflag :: u32
  cid :: int
  cfp :: bytes
  cdata :: "bytes option"

definition SET_CHUNK :: "chunk \<Rightarrow> u32 \<Rightarrow> chunk" where
  "SET_CHUNK c f = c\<lparr>cflag := cflag c OR f\<rparr>"

definition CHECK_CHUNK :: "chunk \<Rightarrow> u32 \<Rightarrow> bool" where
  "CHECK_CHUNK c f \<longleftrightarrow> cflag c AND f \<noteq> 0"

definition new_chunk :: "nat \<Rightarrow> chunk" where
  "new_chunk n = \<lparr>csize = n, cflag = CHUNK_UNIQUE, cid = TEMPORARY_ID, cfp = replicate 20 0,
     cdata = (if 0 < n then Some [] else None)\<rparr>"

text \<open>\<open>new_chunk\<close> and the \<open>memcpy\<close> that fills it.\<close>

definition data_chunk :: "bytes \<Rightarrow> chunk" where
  "data_chunk d = (new_chunk (length d))\<lparr>cdata := (if d = [] then None else Some d)\<rparr>"

definition chunk_bytes :: "chunk \<Rightarrow> bytes" where
  "chunk_bytes c = (case cdata c of None \<Rightarrow> [] | Some d \<Rightarrow> d)"

definition path_bytes :: "string \<Rightarrow> bytes" where
  "path_bytes path = map of_char path @ [0]"

definition start_chunk :: "string \<Rightarrow> chunk" where
  "start_chunk path = SET_CHUNK (data_chunk (path_bytes path)) CHUNK_FILE_START"

definition end_chunk :: chunk where
  "end_chunk = SET_CHUNK (new_chunk 0) CHUNK_FILE_END"

section \<open>The job control record\<close>

text \<open>The counters are 32 bits wide and wrap here; the times and the path are left out.\<close>

datatype jcr_status = JCR_STATUS_INIT | JCR_STATUS_RUNNING | JCR_STATUS_DONE

record jcr =
  status :: jcr_status
  data_size :: u32
  unique_data_size :: u32
  chunk_num :: u32
  unique_chunk_num :: u32

definition init_jcr :: jcr where
  "init_jcr = \<lparr>status = JCR_STATUS_INIT, data_size = 0, unique_data_size = 0, chunk_num = 0,
     unique_chunk_num = 0\<rparr>"

definition init_backup_jcr :: jcr where
  "init_backup_jcr = init_jcr"

section \<open>Threads\<close>

text \<open>What a thread does next: an operation on its queues, the end, or a failure.\<close>

datatype 's act =
    Send chunk 's | Receive "chunk option \<Rightarrow> 's" | Terminate 's | Halt | Crash failure

subsection \<open>The read phase\<close>

datatype read_pc = R_open | R_read bytes | R_term | R_done

fun read_thread :: "string \<Rightarrow> bytes option \<Rightarrow> read_pc \<Rightarrow> read_pc act" where
  "read_thread path input R_open =
     (case input of None \<Rightarrow> Crash ExitFailure | Some f \<Rightarrow> Send (start_chunk path) (R_read f))"
| "read_thread path input (R_read rest) =
     (if rest = [] then Send end_chunk R_term
      else Send (data_chunk (take DEFAULT_BLOCK_SIZE rest)) (R_read (drop DEFAULT_BLOCK_SIZE rest)))"
| "read_thread path input R_term = Terminate R_done"
| "read_thread path input R_done = Halt"

subsection \<open>The chunk phase\<close>

text \<open>
  \<open>C_loop buf c\<close> holds the bytes of the block buffer that are left and the chunk \<open>c\<close>, which is
  null while more data can be read.
\<close>

datatype 'c chunk_pc =
    C_start 'c | C_header chunk 'c | C_first 'c | C_loop bytes "chunk option" 'c
  | C_term | C_done | C_crash failure

definition fill_block :: "nat \<Rightarrow> bytes \<Rightarrow> 'c \<Rightarrow> chunk option \<Rightarrow> 'c chunk_pc" where
  "fill_block max_chunk_size buf ck x =
     (case x of
        None \<Rightarrow> C_crash MemoryFault
      | Some c \<Rightarrow>
          if CHECK_CHUNK c CHUNK_FILE_END then C_loop buf (Some c) ck
          else if DEFAULT_BLOCK_SIZE + max_chunk_size < length buf + csize c then C_crash MemoryFault
          else C_loop (buf @ chunk_bytes c) None ck)"

fun chunk_thread ::
    "('c \<Rightarrow> bytes \<Rightarrow> (nat \<times> 'c) result) \<Rightarrow> nat \<Rightarrow> 'c chunk_pc \<Rightarrow> 'c chunk_pc act" where
  "chunk_thread cutter max_chunk_size (C_start ck) =
     Receive (\<lambda>x. case x of
         None \<Rightarrow> C_term
       | Some c \<Rightarrow> if CHECK_CHUNK c CHUNK_FILE_START then C_header c ck else C_crash AssertFailure)"
| "chunk_thread cutter max_chunk_size (C_header c ck) = Send c (C_first ck)"
| "chunk_thread cutter max_chunk_size (C_first ck) = Receive (fill_block max_chunk_size [] ck)"
| "chunk_thread cutter max_chunk_size (C_loop buf c ck) =
     (if length buf < max_chunk_size \<and> c = None then Receive (fill_block max_chunk_size buf ck)
      else if buf = [] then
        (case c of None \<Rightarrow> Crash AssertFailure | Some e \<Rightarrow> Send e (C_start ck))
      else
        (case cutter ck buf of
           Inl e \<Rightarrow> Crash e
         | Inr r \<Rightarrow>
             if length buf < fst r then Crash MemoryFault
             else Send (data_chunk (take (fst r) buf)) (C_loop (drop (fst r) buf) c (snd r))))"
| "chunk_thread cutter max_chunk_size C_term = Terminate C_done"
| "chunk_thread cutter max_chunk_size C_done = Halt"
| "chunk_thread cutter max_chunk_size (C_crash e) = Crash e"

subsection \<open>The hash phase\<close>

datatype hash_pc = H_pop | H_push chunk | H_term | H_done

definition hash_chunk :: "(bytes \<Rightarrow> bytes) \<Rightarrow> chunk \<Rightarrow> chunk" where
  "hash_chunk sha1 c =
     (if CHECK_CHUNK c CHUNK_FILE_START \<or> CHECK_CHUNK c CHUNK_FILE_END then c
      else c\<lparr>cfp := sha1 (chunk_bytes c)\<rparr>)"

fun sha1_thread :: "(bytes \<Rightarrow> bytes) \<Rightarrow> hash_pc \<Rightarrow> hash_pc act" where
  "sha1_thread sha1 H_pop =
     Receive (\<lambda>x. case x of None \<Rightarrow> H_term | Some c \<Rightarrow> H_push (hash_chunk sha1 c))"
| "sha1_thread sha1 (H_push c) = Send c H_pop"
| "sha1_thread sha1 H_term = Terminate H_done"
| "sha1_thread sha1 H_done = Halt"

subsection \<open>The deduplication phase\<close>

record deduper =
  pmanager :: MetadataManager
  pdir :: dir
  drecipe :: "bytes list"
  dindex :: u32
  dinner_offset :: u32
  dinner_index :: u16
  dbuf :: bytes
  djcr :: jcr

definition deduper_start :: "MetadataManager \<Rightarrow> dir \<Rightarrow> deduper" where
  "deduper_start m d =
     \<lparr>pmanager = m, pdir = d, drecipe = [], dindex = of_nat (length d), dinner_offset = 0,
      dinner_index = 0, dbuf = [], djcr = init_backup_jcr\<lparr>status := JCR_STATUS_RUNNING\<rparr>\<rparr>"

definition saveContainerBuf :: "deduper \<Rightarrow> deduper" where
  "saveContainerBuf s =
     s\<lparr>pdir := put_file (container_name (uint (dindex s)))
                 (array_prefix (unat (dinner_offset s)) (dbuf s)) (pdir s)\<rparr>"

definition resetContainerBuf :: "deduper \<Rightarrow> deduper" where
  "resetContainerBuf s =
     s\<lparr>dbuf := [], dindex := dindex s + 1, dinner_offset := 0, dinner_index := 0\<rparr>"

definition append_chunk :: "deduper \<Rightarrow> SHA1FP \<Rightarrow> chunk \<Rightarrow> deduper result" where
  "append_chunk s sha1_fp c =
     (if CONTAINER_SIZE < unat (dinner_offset s) + csize c then Inl MemoryFault
      else and_then (addNewEntry (pmanager s) sha1_fp
               \<lparr>container_number = dindex s, offset = dinner_offset s, chunk_length = of_nat (csize c),
                container_inner_index = dinner_index s, ref_cnt = 1\<rparr>) (\<lambda>m.
        Inr (s\<lparr>pmanager := m, dbuf := overlay (dbuf s) (unat (dinner_offset s)) (chunk_bytes c),
               dinner_offset := dinner_offset s + of_nat (csize c), dinner_index := dinner_index s + 1\<rparr>)))"

text \<open>The body of the loop for one chunk of data.\<close>

definition count_job :: "chunk \<Rightarrow> deduper \<Rightarrow> deduper" where
  "count_job c s =
     s\<lparr>djcr := (djcr s)\<lparr>chunk_num := chunk_num (djcr s) + 1,
                          data_size := data_size (djcr s) + of_nat (csize c)\<rparr>\<rparr>"

definition count_unique_job :: "chunk \<Rightarrow> deduper \<Rightarrow> deduper" where
  "count_unique_job c s =
     s\<lparr>djcr := (djcr s)\<lparr>unique_chunk_num := unique_chunk_num (djcr s) + 1,
                          unique_data_size := unique_data_size (djcr s) + of_nat (csize c)\<rparr>\<rparr>"

definition dedup_chunk :: "deduper \<Rightarrow> chunk \<Rightarrow> deduper result" where
  "dedup_chunk s c =
     (let sha1_fp = dec_fp (cfp c);
          s1 = count_job c (s\<lparr>drecipe := drecipe s @ [cfp c]\<rparr>)
      in case dedupLookup (pmanager s1) sha1_fp of
           Unique \<Rightarrow>
             let s2 = count_unique_job c s1 in
             append_chunk
               (if CONTAINER_SIZE \<le> unat (dinner_offset s2 + of_nat (csize c))
                then resetContainerBuf (saveContainerBuf s2) else s2) sha1_fp c
         | Dedup \<Rightarrow>
             and_then (addRefCnt (pmanager s1) sha1_fp) (\<lambda>(_, m). Inr (s1\<lparr>pmanager := m\<rparr>)))"

text \<open>What follows the loop: the last container, the recipe, the index.\<close>

definition dedup_end :: "dir option \<Rightarrow> deduper \<Rightarrow> (repo \<times> jcr) result" where
  "dedup_end recipes s =
     (let s1 = (if 0 < dinner_offset s then saveContainerBuf s else s) in
      and_then (saveFileRecipe (drecipe s1) recipes) (\<lambda>recipes'.
        Inr (\<lparr>containers_dir = Some (pdir s1), recipes_dir = recipes',
              fingerprints_file = Some (save (pmanager s1))\<rparr>, (djcr s1)\<lparr>status := JCR_STATUS_DONE\<rparr>)))"

datatype dedup_pc = D_pop deduper | D_saved repo jcr | D_crash failure

text \<open>The flags of the chunk are tested before the test for the null pointer.\<close>

fun dedup_thread :: "dir option \<Rightarrow> dedup_pc \<Rightarrow> dedup_pc act" where
  "dedup_thread recipes (D_pop s) =
     Receive (\<lambda>x. case x of
         None \<Rightarrow> D_crash MemoryFault
       | Some c \<Rightarrow>
           if CHECK_CHUNK c CHUNK_FILE_START then D_pop s
           else if CHECK_CHUNK c CHUNK_FILE_END then
             (case dedup_end recipes s of Inl e \<Rightarrow> D_crash e | Inr r \<Rightarrow> D_saved (fst r) (snd r))
           else (case dedup_chunk s c of Inl e \<Rightarrow> D_crash e | Inr s' \<Rightarrow> D_pop s'))"
| "dedup_thread recipes (D_saved r j) = Halt"
| "dedup_thread recipes (D_crash e) = Crash e"

section \<open>The threads together\<close>

record 'c pipeline =
  read_t :: read_pc
  chunk_t :: "'c chunk_pc"
  hash_t :: hash_pc
  dedup_t :: dedup_pc
  read_queue :: "chunk channel"
  chunk_queue :: "chunk channel"
  hash_queue :: "chunk channel"

definition new_queue :: "int \<Rightarrow> chunk channel" where
  "new_queue n = \<lparr>items = [], closed = False, capacity = n\<rparr>"

text \<open>A step of a thread between its input and its output queue.\<close>

inductive thread_step ::
    "'s act \<Rightarrow> chunk channel \<Rightarrow> chunk channel \<Rightarrow> 's \<Rightarrow> chunk channel \<Rightarrow> chunk channel \<Rightarrow> bool" where
  send: "capacity out > 0 \<longrightarrow> int (length (items out)) < capacity out \<Longrightarrow>
    thread_step (Send x s) inp out s inp (out\<lparr>items := items out @ [x]\<rparr>)"
| receive: "items inp = x # xs \<Longrightarrow> thread_step (Receive k) inp out (k (Some x)) (inp\<lparr>items := xs\<rparr>) out"
| at_end: "items inp = [] \<Longrightarrow> closed inp \<Longrightarrow> thread_step (Receive k) inp out (k None) inp out"
| terminate: "thread_step (Terminate s) inp out s inp (out\<lparr>closed := True\<rparr>)"

text \<open>The first phase has no input and the last one no output.\<close>

definition no_queue :: "chunk channel" where
  "no_queue = \<lparr>items = [], closed = True, capacity = 0\<rparr>"

record 'c job =
  job_path :: string
  job_input :: "bytes option"
  job_chunking :: "'c \<Rightarrow> bytes \<Rightarrow> (nat \<times> 'c) result"
  job_max :: nat
  job_sha1 :: "bytes \<Rightarrow> bytes"
  job_recipes :: "dir option"

inductive pipe_step :: "'c job \<Rightarrow> 'c pipeline \<Rightarrow> 'c pipeline \<Rightarrow> bool" for j where
  read: "thread_step (read_thread (job_path j) (job_input j) (read_t p)) no_queue (read_queue p) s i q \<Longrightarrow>
    pipe_step j p (p\<lparr>read_t := s, read_queue := q\<rparr>)"
| chunk: "thread_step (chunk_thread (job_chunking j) (job_max j) (chunk_t p)) (read_queue p) (chunk_queue p) s i q \<Longrightarrow>
    pipe_step j p (p\<lparr>chunk_t := s, read_queue := i, chunk_queue := q\<rparr>)"
| hash: "thread_step (sha1_thread (job_sha1 j) (hash_t p)) (chunk_queue p) (hash_queue p) s i q \<Longrightarrow>
    pipe_step j p (p\<lparr>hash_t := s, chunk_queue := i, hash_queue := q\<rparr>)"
| dedup: "thread_step (dedup_thread (job_recipes j) (dedup_t p)) (hash_queue p) no_queue s i q \<Longrightarrow>
    pipe_step j p (p\<lparr>dedup_t := s, hash_queue := i\<rparr>)"

text \<open>The start of the phases in \<open>main\<close>, with the sizes of the three queues.\<close>

definition pipeline_start :: "'c \<Rightarrow> MetadataManager \<Rightarrow> dir \<Rightarrow> 'c pipeline" where
  "pipeline_start c m d =
     \<lparr>read_t = R_open, chunk_t = C_start c, hash_t = H_pop, dedup_t = D_pop (deduper_start m d),
      read_queue = new_queue 20, chunk_queue = new_queue 200, hash_queue = new_queue 200\<rparr>"

text \<open>
  The branch \<open>TASK_WRITE_PIPELINE\<close> of \<open>main\<close> up to the point where the threads run. The
  block buffer has room for \<open>max_chunk_size\<close> bytes, four times the average size.
\<close>

definition start_phases ::
    "(bytes \<Rightarrow> bytes) \<Rightarrow> (bytes \<Rightarrow> bytes) \<Rightarrow> Config \<Rightarrow> cdc \<Rightarrow> repo \<Rightarrow> bytes option \<Rightarrow>
     (cdc job \<times> cdc pipeline) result" where
  "start_phases md5 sha1 cfg c r input =
     and_then (load_index r) (\<lambda>m.
     and_then (chunking_method_prepare md5 cfg c) (\<lambda>(fn, c').
       case containers_dir r of
         None \<Rightarrow> Inl ExitFailure
       | Some d \<Rightarrow>
           Inr (\<lparr>job_path = input_path cfg, job_input = input, job_chunking = chunking fn,
                 job_max = nat (avg_chunk_size cfg * 4), job_sha1 = sha1, job_recipes = recipes_dir r\<rparr>,
                pipeline_start c' m d)))"

end
