(* ===== verification/Pipeline_Correct.thy ===== *)
theory Pipeline_Correct
  imports Pipeline Repository
begin

text \<open>
  The pipeline computes what its threads compute one after the other. \<open>runs\<close> is what a
  thread does on a complete input; a system invariant says that what is still to come of
  the phases composes to the same result at every step. It follows that every schedule has
  the same number of steps, never blocks before all threads have ended and ends with the
  same repository, which is the one of the write task without a pipeline.
\<close>

section \<open>A thread on a complete input\<close>

text \<open>
  \<open>runs act n s xs ys f\<close>: from state \<open>s\<close>, with the input \<open>xs\<close> still to come and then the
  end, the thread sends \<open>ys\<close> and halts in \<open>f\<close> with all input read, after \<open>n\<close> operations.
\<close>

inductive runs :: "('s \<Rightarrow> 's act) \<Rightarrow> nat \<Rightarrow> 's \<Rightarrow> chunk list \<Rightarrow> chunk list \<Rightarrow> 's \<Rightarrow> bool" for act where
  halt: "act s = Halt \<Longrightarrow> runs act 0 s [] [] s"
| send: "act s = Send y s' \<Longrightarrow> runs act n s' xs ys f \<Longrightarrow> runs act (Suc n) s xs (y # ys) f"
| receive: "act s = Receive k \<Longrightarrow> runs act n (k (Some x)) xs ys f \<Longrightarrow> runs act (Suc n) s (x # xs) ys f"
| at_end: "act s = Receive k \<Longrightarrow> runs act n (k None) [] ys f \<Longrightarrow> runs act (Suc n) s [] ys f"
| terminate: "act s = Terminate s' \<Longrightarrow> runs act n s' xs ys f \<Longrightarrow> runs act (Suc n) s xs ys f"

text \<open>A producer ends its output with its last operation.\<close>

locale producer =
  fixes act :: "'s \<Rightarrow> 's act"
  assumes ends: "act s = Terminate s' \<Longrightarrow> act s' = Halt"
    and only_ends: "act s = Send y s' \<Longrightarrow> act s' \<noteq> Halt" "act s = Receive k \<Longrightarrow> act (k x) \<noteq> Halt"
begin

lemma step_closes:
  assumes "thread_step (act s) i q s' i' q'" and "closed q \<longleftrightarrow> act s = Halt"
  shows "closed q' \<longleftrightarrow> act s' = Halt"
  using assms ends only_ends by (cases rule: thread_step.cases) auto

end

lemma halted_runs: "act s = Halt \<Longrightarrow> runs act n s xs ys f \<Longrightarrow> n = 0 \<and> xs = [] \<and> ys = [] \<and> f = s"
  by (auto elim: runs.cases)

text \<open>A step takes one operation off what is to come and keeps what comes out of the phase.\<close>

lemma stage_step:
  assumes "thread_step (act s) i q s' i' q'" and "runs act n s (items i @ xs) ys f"
    and "closed i \<longrightarrow> xs = []"
  shows "\<exists>m zs. n = Suc m \<and> runs act m s' (items i' @ xs) zs f \<and> items q @ ys = items q' @ zs \<and>
    closed i' = closed i \<and> capacity i' = capacity i \<and> capacity q' = capacity q"
  using assms(1)
proof (cases rule: thread_step.cases)
  case (send x)
  from assms(2) show ?thesis by (cases rule: runs.cases) (use send in auto)
next
  case (receive x rest k)
  from assms(2) show ?thesis by (cases rule: runs.cases) (use receive in auto)
next
  case (at_end k)
  have "items i @ xs = []" using at_end assms(3) by simp
  from assms(2)[unfolded this] show ?thesis by (cases rule: runs.cases) (use at_end assms(3) in auto)
next
  case terminate
  from assms(2) show ?thesis by (cases rule: runs.cases) (use terminate in auto)
qed

text \<open>A thread that can neither step nor has ended waits for its queues.\<close>

lemma stage_blocked:
  assumes "runs act n s (items i @ xs) ys f" and "\<And>s' i' q'. \<not> thread_step (act s) i q s' i' q'"
  shows "act s = Halt \<or> (items i = [] \<and> \<not> closed i) \<or> (capacity q > 0 \<and> items q \<noteq> [])"
  using assms(1)
proof (cases rule: runs.cases)
  case (send y s')
  then show ?thesis using assms(2) thread_step.send [of q y s' i] by (cases "items q") auto
next
  case (receive k)
  then show ?thesis
    using assms(2) thread_step.receive [of i _ _ k q] thread_step.at_end [of i k q] by (cases "items i") auto
next
  case (at_end k)
  then show ?thesis using assms(2) thread_step.at_end [of i k q] by auto
next
  case (terminate s')
  then show ?thesis using assms(2) thread_step.terminate [of s' i q] by auto
qed simp

interpretation reader: producer "read_thread path input" for path input
proof
  fix s s' y k x
  show "read_thread path input s = Terminate s' \<Longrightarrow> read_thread path input s' = Halt"
    by (cases s) (auto split: option.splits if_splits)
  show "read_thread path input s = Send y s' \<Longrightarrow> read_thread path input s' \<noteq> Halt"
    by (cases s) (auto split: option.splits if_splits)
  show "read_thread path input s = Receive k \<Longrightarrow> read_thread path input (k x) \<noteq> Halt"
    by (cases s) (auto split: option.splits if_splits)
qed

interpretation chunker_thread: producer "chunk_thread cutter mx" for cutter mx
proof
  fix s s' y k x
  show "chunk_thread cutter mx s = Terminate s' \<Longrightarrow> chunk_thread cutter mx s' = Halt"
    by (cases s) (auto split: option.splits if_splits sum.splits)
  show "chunk_thread cutter mx s = Send y s' \<Longrightarrow> chunk_thread cutter mx s' \<noteq> Halt"
    by (cases s) (auto split: option.splits if_splits sum.splits)
  show "chunk_thread cutter mx s = Receive k \<Longrightarrow> chunk_thread cutter mx (k x) \<noteq> Halt"
    by (cases s) (auto simp: fill_block_def split: option.splits if_splits sum.splits)
qed

interpretation hasher: producer "sha1_thread sha1" for sha1
proof
  fix s s' y k x
  show "sha1_thread sha1 s = Terminate s' \<Longrightarrow> sha1_thread sha1 s' = Halt" by (cases s) auto
  show "sha1_thread sha1 s = Send y s' \<Longrightarrow> sha1_thread sha1 s' \<noteq> Halt" by (cases s) auto
  show "sha1_thread sha1 s = Receive k \<Longrightarrow> sha1_thread sha1 (k x) \<noteq> Halt"
    by (cases s) (auto split: option.splits)
qed

section \<open>The invariant of the system\<close>

text \<open>
  What is still to come of the four phases: \<open>n\<close> operations in all, and the final state \<open>f\<close>
  of the last phase.
\<close>

definition closes :: "('s \<Rightarrow> 's act) \<Rightarrow> 's \<Rightarrow> chunk channel \<Rightarrow> bool" where
  "closes act s q \<longleftrightarrow> (closed q \<longleftrightarrow> act s = Halt)"

definition to_come ::
    "'c job \<Rightarrow> 'c pipeline \<Rightarrow> nat \<Rightarrow> nat \<Rightarrow> nat \<Rightarrow> nat \<Rightarrow> chunk list \<Rightarrow> chunk list \<Rightarrow> chunk list \<Rightarrow> dedup_pc \<Rightarrow> bool" where
  "to_come j p nr nc nh nd yr yc yh f \<longleftrightarrow>
     (\<exists>sr. runs (read_thread (job_path j) (job_input j)) nr (read_t p) [] yr sr) \<and>
     (\<exists>sc. runs (chunk_thread (job_chunking j) (job_max j)) nc (chunk_t p) (items (read_queue p) @ yr) yc sc) \<and>
     (\<exists>sh. runs (sha1_thread (job_sha1 j)) nh (hash_t p) (items (chunk_queue p) @ yc) yh sh) \<and>
     runs (dedup_thread (job_recipes j)) nd (dedup_t p) (items (hash_queue p) @ yh) [] f"

definition all_close :: "'c job \<Rightarrow> 'c pipeline \<Rightarrow> bool" where
  "all_close j p \<longleftrightarrow>
     closes (read_thread (job_path j) (job_input j)) (read_t p) (read_queue p) \<and>
     closes (chunk_thread (job_chunking j) (job_max j)) (chunk_t p) (chunk_queue p) \<and>
     closes (sha1_thread (job_sha1 j)) (hash_t p) (hash_queue p)"

definition pipe_inv :: "'c job \<Rightarrow> nat \<Rightarrow> dedup_pc \<Rightarrow> 'c pipeline \<Rightarrow> bool" where
  "pipe_inv j n f p \<longleftrightarrow> all_close j p \<and>
     (\<exists>nr nc nh nd yr yc yh. n = nr + nc + nh + nd \<and> to_come j p nr nc nh nd yr yc yh f)"

lemma pipe_invI:
  "all_close j p \<Longrightarrow> to_come j p nr nc nh nd yr yc yh f \<Longrightarrow> n = nr + nc + nh + nd \<Longrightarrow> pipe_inv j n f p"
  unfolding pipe_inv_def by blast

lemma closed_nothing:
  assumes "closes act s q" and "runs act n s xs ys f"
  shows "closed q \<longrightarrow> ys = []"
  using assms(1) halted_runs [OF _ assms(2)] by (auto simp: closes_def)

lemma step_empty: "thread_step a i q s' i' q' \<Longrightarrow> items i = [] \<Longrightarrow> items i' = []"
  by (auto elim: thread_step.cases)

lemma pipe_inv_step:
  assumes "pipe_step j p p'" and "pipe_inv j n f p"
  shows "\<exists>m. n = Suc m \<and> pipe_inv j m f p'"
proof -
  from assms(2) obtain nr nc nh nd yr yc yh sr sc sh where n: "n = nr + nc + nh + nd"
    and R: "runs (read_thread (job_path j) (job_input j)) nr (read_t p) [] yr sr"
    and C: "runs (chunk_thread (job_chunking j) (job_max j)) nc (chunk_t p) (items (read_queue p) @ yr) yc sc"
    and H: "runs (sha1_thread (job_sha1 j)) nh (hash_t p) (items (chunk_queue p) @ yc) yh sh"
    and D: "runs (dedup_thread (job_recipes j)) nd (dedup_t p) (items (hash_queue p) @ yh) [] f"
    and cr: "closes (read_thread (job_path j) (job_input j)) (read_t p) (read_queue p)"
    and cc: "closes (chunk_thread (job_chunking j) (job_max j)) (chunk_t p) (chunk_queue p)"
    and chs: "closes (sha1_thread (job_sha1 j)) (hash_t p) (hash_queue p)"
    by (auto simp: pipe_inv_def to_come_def all_close_def)
  show ?thesis using assms(1)
  proof (cases rule: pipe_step.cases)
    case (read s i q)
    have none: "items no_queue = []" by (simp add: no_queue_def)
    with R have R': "runs (read_thread (job_path j) (job_input j)) nr (read_t p) (items no_queue @ []) yr sr"
      by simp
    from stage_step [OF read(2) R'] obtain m zs where
      m: "nr = Suc m" "runs (read_thread (job_path j) (job_input j)) m s [] zs sr"
        "items (read_queue p) @ yr = items q @ zs"
      using step_empty [OF read(2) none] by auto
    then have "to_come j p' m nc nh nd zs yc yh f"
      using C H D read(1) unfolding to_come_def by auto
    moreover have "all_close j p'"
      using reader.step_closes [OF read(2)] cr cc chs read(1) by (auto simp: all_close_def closes_def)
    ultimately have "pipe_inv j (m + nc + nh + nd) f p'" by (intro pipe_invI) simp_all
    then show ?thesis using n m(1) by (intro exI [of _ "m + nc + nh + nd"]) simp
  next
    case (chunk s i q)
    from stage_step [OF chunk(2) C closed_nothing [OF cr R]] obtain m zs where
      m: "nc = Suc m" "runs (chunk_thread (job_chunking j) (job_max j)) m s (items i @ yr) zs sc"
        "items (chunk_queue p) @ yc = items q @ zs" "closed i = closed (read_queue p)"
      by blast
    then have "to_come j p' nr m nh nd yr zs yh f"
      using R H D chunk(1) unfolding to_come_def by auto
    moreover have "all_close j p'"
      using chunker_thread.step_closes [OF chunk(2)] cr cc chs chunk(1) m(4)
      by (auto simp: all_close_def closes_def)
    ultimately have "pipe_inv j (nr + m + nh + nd) f p'" by (intro pipe_invI) simp_all
    then show ?thesis using n m(1) by (intro exI [of _ "nr + m + nh + nd"]) simp
  next
    case (hash s i q)
    from stage_step [OF hash(2) H closed_nothing [OF cc C]] obtain m zs where
      m: "nh = Suc m" "runs (sha1_thread (job_sha1 j)) m s (items i @ yc) zs sh"
        "items (hash_queue p) @ yh = items q @ zs" "closed i = closed (chunk_queue p)"
      by blast
    then have "to_come j p' nr nc m nd yr yc zs f"
      using R C D hash(1) unfolding to_come_def by auto
    moreover have "all_close j p'"
      using hasher.step_closes [OF hash(2)] cr cc chs hash(1) m(4)
      by (auto simp: all_close_def closes_def)
    ultimately have "pipe_inv j (nr + nc + m + nd) f p'" by (intro pipe_invI) simp_all
    then show ?thesis using n m(1) by (intro exI [of _ "nr + nc + m + nd"]) simp
  next
    case (dedup s i q)
    from stage_step [OF dedup(2) D closed_nothing [OF chs H]] obtain m zs where
      m: "nd = Suc m" "runs (dedup_thread (job_recipes j)) m s (items i @ yh) zs f"
        "items no_queue @ [] = items q @ zs" "closed i = closed (hash_queue p)"
      by blast
    then have "to_come j p' nr nc nh m yr yc yh f"
      using R C H dedup(1) unfolding to_come_def by (auto simp: no_queue_def)
    moreover have "all_close j p'"
      using cr cc chs dedup(1) m(4) by (auto simp: all_close_def closes_def)
    ultimately have "pipe_inv j (nr + nc + nh + m) f p'" by (intro pipe_invI) simp_all
    then show ?thesis using n m(1) by (intro exI [of _ "nr + nc + nh + m"]) simp
  qed
qed

lemma pipe_inv_progress:
  assumes "pipe_inv j n f p" and "\<And>p'. \<not> pipe_step j p p'"
  shows "n = 0 \<and> dedup_t p = f"
proof -
  from assms(1) obtain nr nc nh nd yr yc yh sr sc sh where n: "n = nr + nc + nh + nd"
    and R: "runs (read_thread (job_path j) (job_input j)) nr (read_t p) [] yr sr"
    and C: "runs (chunk_thread (job_chunking j) (job_max j)) nc (chunk_t p) (items (read_queue p) @ yr) yc sc"
    and H: "runs (sha1_thread (job_sha1 j)) nh (hash_t p) (items (chunk_queue p) @ yc) yh sh"
    and D: "runs (dedup_thread (job_recipes j)) nd (dedup_t p) (items (hash_queue p) @ yh) [] f"
    and cr: "closes (read_thread (job_path j) (job_input j)) (read_t p) (read_queue p)"
    and cc: "closes (chunk_thread (job_chunking j) (job_max j)) (chunk_t p) (chunk_queue p)"
    and chs: "closes (sha1_thread (job_sha1 j)) (hash_t p) (hash_queue p)"
    by (auto simp: pipe_inv_def to_come_def all_close_def)
  let ?r = "read_thread (job_path j) (job_input j) (read_t p) = Halt"
  let ?c = "chunk_thread (job_chunking j) (job_max j) (chunk_t p) = Halt"
  let ?h = "sha1_thread (job_sha1 j) (hash_t p) = Halt"
  let ?d = "dedup_thread (job_recipes j) (dedup_t p) = Halt"
  have none: "items no_queue = []" "closed no_queue" "\<not> capacity no_queue > 0" by (simp_all add: no_queue_def)
  from R none(1) have R': "runs (read_thread (job_path j) (job_input j)) nr (read_t p) (items no_queue @ []) yr sr"
    by simp
  have r: "?r \<or> items (read_queue p) \<noteq> []"
    using stage_blocked [OF R', of "read_queue p"] assms(2) pipe_step.read none by blast
  have c: "?c \<or> (items (read_queue p) = [] \<and> \<not> closed (read_queue p)) \<or> items (chunk_queue p) \<noteq> []"
    using stage_blocked [OF C, of "chunk_queue p"] assms(2) pipe_step.chunk by blast
  have h: "?h \<or> (items (chunk_queue p) = [] \<and> \<not> closed (chunk_queue p)) \<or> items (hash_queue p) \<noteq> []"
    using stage_blocked [OF H, of "hash_queue p"] assms(2) pipe_step.hash by blast
  have d: "?d \<or> (items (hash_queue p) = [] \<and> \<not> closed (hash_queue p))"
    using stage_blocked [OF D, of no_queue] assms(2) pipe_step.dedup none by blast
  have empty: "?c \<Longrightarrow> items (read_queue p) = []" "?h \<Longrightarrow> items (chunk_queue p) = []"
    "?d \<Longrightarrow> items (hash_queue p) = []"
    using halted_runs [OF _ C] halted_runs [OF _ H] halted_runs [OF _ D] by auto
  have "closed (read_queue p) \<longleftrightarrow> ?r" "closed (chunk_queue p) \<longleftrightarrow> ?c" "closed (hash_queue p) \<longleftrightarrow> ?h"
    using cr cc chs by (simp_all add: closes_def)
  with r c h d empty have ended: "?r" "?c" "?h" "?d" by argo+
  show ?thesis
    using n halted_runs [OF ended(1) R] halted_runs [OF ended(2) C] halted_runs [OF ended(3) H]
      halted_runs [OF ended(4) D] by simp
qed

text \<open>Every schedule has the same length and the same result.\<close>

lemma pipe_runs:
  assumes "pipe_inv j n f p" and "(pipe_step j ^^ k) p p'"
  shows "k \<le> n \<and> pipe_inv j (n - k) f p'"
  using assms(2)
proof (induction k arbitrary: p')
  case (Suc k)
  then obtain q where q: "(pipe_step j ^^ k) p q" "pipe_step j q p'" by auto
  from pipe_inv_step [OF q(2)] Suc.IH [OF q(1)] obtain m where "n - k = Suc m" "pipe_inv j m f p'" by blast
  moreover from this have "m = n - Suc k" "Suc k \<le> n" by simp_all
  ultimately show ?case by simp
qed (use assms(1) in auto)

section \<open>What the phases compute\<close>

named_theorems flag_simps \<open>the flags of the chunks the pipeline makes\<close>

lemma data_chunk_flags [flag_simps]:
  "\<not> CHECK_CHUNK (data_chunk d) CHUNK_FILE_START" "\<not> CHECK_CHUNK (data_chunk d) CHUNK_FILE_END"
  by (simp_all add: data_chunk_def new_chunk_def CHECK_CHUNK_def CHUNK_UNIQUE_def)

lemma start_chunk_flags [flag_simps]:
  "CHECK_CHUNK (start_chunk path) CHUNK_FILE_START" "\<not> CHECK_CHUNK (start_chunk path) CHUNK_FILE_END"
  by (simp_all add: start_chunk_def SET_CHUNK_def data_chunk_def new_chunk_def CHECK_CHUNK_def
      CHUNK_UNIQUE_def CHUNK_FILE_START_def CHUNK_FILE_END_def)

lemma end_chunk_flags [flag_simps]:
  "\<not> CHECK_CHUNK end_chunk CHUNK_FILE_START" "CHECK_CHUNK end_chunk CHUNK_FILE_END"
  by (simp_all add: end_chunk_def SET_CHUNK_def new_chunk_def CHECK_CHUNK_def
      CHUNK_UNIQUE_def CHUNK_FILE_START_def CHUNK_FILE_END_def)

lemma data_chunk_parts [simp]: "csize (data_chunk d) = length d" "chunk_bytes (data_chunk d) = d"
  by (simp_all add: data_chunk_def new_chunk_def chunk_bytes_def)

text \<open>The read phase.\<close>

function file_blocks :: "bytes \<Rightarrow> bytes list" where
  "file_blocks f =
     (if f = [] then [] else take DEFAULT_BLOCK_SIZE f # file_blocks (drop DEFAULT_BLOCK_SIZE f))"
  by pat_completeness auto
termination
  by (relation "measure length") (auto simp: DEFAULT_BLOCK_SIZE_def)

declare file_blocks.simps [simp del]

lemma file_blocks_concat: "concat (file_blocks f) = f"
  by (induction f rule: file_blocks.induct) (subst file_blocks.simps, simp)

lemma file_blocks_sizes: "b \<in> set (file_blocks f) \<Longrightarrow> length b \<le> DEFAULT_BLOCK_SIZE"
proof (induction f rule: file_blocks.induct)
  case (1 f)
  from "1.prems" show ?case by (subst (asm) file_blocks.simps) (use "1.IH" in \<open>auto split: if_splits\<close>)
qed

lemma read_blocks_run:
  "\<exists>n. runs (read_thread path input) n (R_read f) [] (map data_chunk (file_blocks f) @ [end_chunk]) R_done"
proof (induction f rule: file_blocks.induct)
  case (1 f)
  have "runs (read_thread path input) (Suc 0) R_term [] [] R_done"
    by (rule runs.terminate) (auto intro: runs.halt)
  then have last: "runs (read_thread path input) (Suc (Suc 0)) (R_read []) [] [end_chunk] R_done"
    by (rule runs.send [rotated]) simp
  show ?case
  proof (cases "f = []")
    case True
    then show ?thesis using last by (subst file_blocks.simps) auto
  next
    case False
    with 1 obtain n where "runs (read_thread path input) n (R_read (drop DEFAULT_BLOCK_SIZE f)) []
        (map data_chunk (file_blocks (drop DEFAULT_BLOCK_SIZE f)) @ [end_chunk]) R_done" by blast
    then have "runs (read_thread path input) (Suc n) (R_read f) []
        (data_chunk (take DEFAULT_BLOCK_SIZE f) #
          (map data_chunk (file_blocks (drop DEFAULT_BLOCK_SIZE f)) @ [end_chunk])) R_done"
      by (rule runs.send [rotated]) (simp add: False)
    then show ?thesis using False by (subst file_blocks.simps) auto
  qed
qed

lemma read_run:
  "\<exists>n. runs (read_thread path (Some f)) n R_open [] (start_chunk path # map data_chunk (file_blocks f) @ [end_chunk]) R_done"
proof -
  from read_blocks_run obtain n where "runs (read_thread path (Some f)) n (R_read f) []
    (map data_chunk (file_blocks f) @ [end_chunk]) R_done" by blast
  then have "runs (read_thread path (Some f)) (Suc n) R_open []
    (start_chunk path # map data_chunk (file_blocks f) @ [end_chunk]) R_done"
    by (rule runs.send [rotated]) simp
  then show ?thesis by blast
qed

text \<open>The hash phase.\<close>

lemma hash_run: "\<exists>n. runs (sha1_thread sha1) n H_pop xs (map (hash_chunk sha1) xs) H_done"
proof (induction xs)
  case Nil
  have "runs (sha1_thread sha1) 0 H_done [] [] H_done" by (simp add: runs.halt)
  then have "runs (sha1_thread sha1) (Suc 0) H_term [] [] H_done"
    by (rule runs.terminate [rotated]) simp
  then have "runs (sha1_thread sha1) (Suc (Suc 0)) H_pop [] [] H_done"
    by (intro runs.at_end [of _ H_pop "\<lambda>x. case x of None \<Rightarrow> H_term | Some c \<Rightarrow> H_push (hash_chunk sha1 c)"]) simp_all
  then show ?case by auto
next
  case (Cons x xs)
  then obtain n where "runs (sha1_thread sha1) n H_pop xs (map (hash_chunk sha1) xs) H_done" by blast
  then have "runs (sha1_thread sha1) (Suc n) (H_push (hash_chunk sha1 x)) xs
      (hash_chunk sha1 x # map (hash_chunk sha1) xs) H_done"
    by (rule runs.send [rotated]) simp
  then have "runs (sha1_thread sha1) (Suc (Suc n)) H_pop (x # xs) (map (hash_chunk sha1) (x # xs)) H_done"
    by (intro runs.receive [of _ H_pop "\<lambda>x. case x of None \<Rightarrow> H_term | Some c \<Rightarrow> H_push (hash_chunk sha1 c)"]) simp_all
  then show ?case by blast
qed

text \<open>The deduplication phase.\<close>

lemma dedup_chunks_run:
  assumes "foldE dedup_chunk s cs = Inr s'" and "dedup_end recipes s' = Inr (r, jr)"
    and "\<forall>c \<in> set cs. \<not> CHECK_CHUNK c CHUNK_FILE_START \<and> \<not> CHECK_CHUNK c CHUNK_FILE_END"
  shows "\<exists>n. runs (dedup_thread recipes) n (D_pop s) (cs @ [end_chunk]) [] (D_saved r jr)"
  using assms(1,3)
proof (induction cs arbitrary: s)
  case Nil
  have "runs (dedup_thread recipes) 0 (D_saved r jr) [] [] (D_saved r jr)" by (simp add: runs.halt)
  then have "runs (dedup_thread recipes) (Suc 0) (D_pop s) [end_chunk] [] (D_saved r jr)"
    using Nil assms(2)
    by (intro runs.receive [where act = "dedup_thread recipes", OF dedup_thread.simps(1)]) (simp_all add: flag_simps)
  then show ?case by auto
next
  case (Cons c cs)
  then obtain s1 where s1: "dedup_chunk s c = Inr s1" "foldE dedup_chunk s1 cs = Inr s'" by auto
  from Cons.IH [OF s1(2)] Cons.prems(2) obtain n
    where "runs (dedup_thread recipes) n (D_pop s1) (cs @ [end_chunk]) [] (D_saved r jr)" by auto
  then have "runs (dedup_thread recipes) (Suc n) (D_pop s) (c # cs @ [end_chunk]) [] (D_saved r jr)"
    using s1(1) Cons.prems(2)
    by (intro runs.receive [where act = "dedup_thread recipes", OF dedup_thread.simps(1)]) (simp_all add: flag_simps)
  then show ?case by auto
qed

lemma dedup_run:
  assumes "foldE dedup_chunk s cs = Inr s'" and "dedup_end recipes s' = Inr (r, jr)"
    and "\<forall>c \<in> set cs. \<not> CHECK_CHUNK c CHUNK_FILE_START \<and> \<not> CHECK_CHUNK c CHUNK_FILE_END"
    and "CHECK_CHUNK start CHUNK_FILE_START"
  shows "\<exists>n. runs (dedup_thread recipes) n (D_pop s) (start # cs @ [end_chunk]) [] (D_saved r jr)"
proof -
  from dedup_chunks_run [OF assms(1-3)] obtain n
    where "runs (dedup_thread recipes) n (D_pop s) (cs @ [end_chunk]) [] (D_saved r jr)" by blast
  then have "runs (dedup_thread recipes) (Suc n) (D_pop s) (start # cs @ [end_chunk]) [] (D_saved r jr)"
    using assms(4) by (intro runs.receive [where act = "dedup_thread recipes", OF dedup_thread.simps(1)]) simp_all
  then show ?thesis by blast
qed

section \<open>The chunk phase\<close>

text \<open>
  The block buffer never holds the whole file. The phase cuts like a loop over the whole
  file when the chunker does not look behind \<open>max_chunk_size\<close> bytes.
\<close>

locale lookahead_chunker = chunker +
  fixes mx :: nat
  assumes mx_pos: "0 < mx"
    and look: "ok c \<Longrightarrow> mx \<le> length p \<Longrightarrow> length (p @ q) < 2 ^ 31 \<Longrightarrow> ck c (p @ q) = ck c p"
begin

lemma emit:
  assumes "runs (chunk_thread ck mx) n (C_loop (drop k buf) e c1) xs ys f"
    and "buf \<noteq> []" and "mx \<le> length buf \<or> e \<noteq> None" and "ck c buf = Inr (k, c1)" and "k \<le> length buf"
  shows "runs (chunk_thread ck mx) (Suc n) (C_loop buf e c) xs (data_chunk (take k buf) # ys) f"
  by (rule runs.send [OF _ assms(1)]) (use assms(2-5) in auto)

lemma drain:
  assumes "split_chunks ck c buf = Some (Inr (ds, c'))" and "ok c" and "length buf < 2 ^ 31"
  shows "\<exists>n. runs (chunk_thread ck mx) n (C_loop buf (Some end_chunk) c) [] (map data_chunk ds @ [end_chunk]) C_done"
  using assms
proof (induction buf arbitrary: c ds rule: length_induct)
  case (1 buf)
  show ?case
  proof (cases "buf = []")
    case True
    then have ds: "ds = []" "c' = c" using "1.prems"(1) by (simp_all add: split_chunks.simps)
    have "runs (chunk_thread ck mx) 0 C_done [] [] C_done" by (simp add: runs.halt)
    then have "runs (chunk_thread ck mx) (Suc 0) C_term [] [] C_done"
      by (rule runs.terminate [rotated]) simp
    then have "runs (chunk_thread ck mx) (Suc (Suc 0)) (C_start c) [] [] C_done"
      by (intro runs.at_end [where act = "chunk_thread ck mx", OF chunk_thread.simps(1)]) simp
    then have "runs (chunk_thread ck mx) (Suc (Suc (Suc 0))) (C_loop buf (Some end_chunk) c) [] [end_chunk] C_done"
      by (rule runs.send [rotated]) (simp add: True)
    then show ?thesis using ds by auto
  next
    case False
    from split_chunks_Some [OF "1.prems"(1) False] obtain k c1 ds'
      where k: "ck c buf = Inr (k, c1)" "k \<le> length buf" "ds = take k buf # ds'"
        "split_chunks ck c1 (drop k buf) = Some (Inr (ds', c'))" .
    from progress [OF "1.prems"(2) False "1.prems"(3)] k(1) have "0 < k" "ok c1" by auto
    with "1.IH" k False "1.prems"(3) obtain n where
      "runs (chunk_thread ck mx) n (C_loop (drop k buf) (Some end_chunk) c1) [] (map data_chunk ds' @ [end_chunk]) C_done"
      by fastforce
    from emit [OF this False _ k(1,2)] k(3) show ?thesis by auto
  qed
qed

lemma loop_run:
  assumes "split_chunks ck c (buf @ concat bs) = Some (Inr (ds, c'))" and "ok c"
    and "length (buf @ concat bs) < 2 ^ 31" and "\<forall>b \<in> set bs. length b \<le> DEFAULT_BLOCK_SIZE"
  shows "\<exists>n. runs (chunk_thread ck mx) n (C_loop buf None c) (map data_chunk bs @ [end_chunk])
    (map data_chunk ds @ [end_chunk]) C_done"
  using assms
proof (induction "length (buf @ concat bs) + length bs" arbitrary: buf bs c ds rule: less_induct)
  case less
  show ?case
  proof (cases "length buf < mx")
    case short: True
    then have act: "chunk_thread ck mx (C_loop buf None c) = Receive (fill_block mx buf c)" by simp
    show ?thesis
    proof (cases bs)
      case Nil
      with drain [of c buf ds] less.prems obtain n where
        n: "runs (chunk_thread ck mx) n (C_loop buf (Some end_chunk) c) [] (map data_chunk ds @ [end_chunk]) C_done"
        by auto
      have "fill_block mx buf c (Some end_chunk) = C_loop buf (Some end_chunk) c"
        by (simp add: fill_block_def flag_simps)
      with n have "runs (chunk_thread ck mx) (Suc n) (C_loop buf None c) [end_chunk]
          (map data_chunk ds @ [end_chunk]) C_done"
        by (intro runs.receive [where act = "chunk_thread ck mx", OF act]) simp
      then show ?thesis using Nil by auto
    next
      case (Cons b bs')
      have "fill_block mx buf c (Some (data_chunk b)) = C_loop (buf @ b) None c"
        using short less.prems(4) Cons by (simp add: fill_block_def flag_simps)
      moreover have "\<exists>n. runs (chunk_thread ck mx) n (C_loop (buf @ b) None c) (map data_chunk bs' @ [end_chunk])
          (map data_chunk ds @ [end_chunk]) C_done"
        using less.prems Cons by (intro less.hyps) auto
      ultimately obtain n where "runs (chunk_thread ck mx) n (fill_block mx buf c (Some (data_chunk b)))
          (map data_chunk bs' @ [end_chunk]) (map data_chunk ds @ [end_chunk]) C_done" by auto
      then have "runs (chunk_thread ck mx) (Suc n) (C_loop buf None c)
          (data_chunk b # map data_chunk bs' @ [end_chunk]) (map data_chunk ds @ [end_chunk]) C_done"
        by (rule runs.receive [where act = "chunk_thread ck mx", OF act])
      then show ?thesis using Cons by auto
    qed
  next
    case False
    then have ne: "buf \<noteq> []" using mx_pos by auto
    then have ne': "buf @ concat bs \<noteq> []" by simp
    from split_chunks_Some [OF less.prems(1) ne'] obtain k c1 ds'
      where k: "ck c (buf @ concat bs) = Inr (k, c1)" "ds = take k (buf @ concat bs) # ds'"
        "split_chunks ck c1 (drop k (buf @ concat bs)) = Some (Inr (ds', c'))" .
    have ckb: "ck c buf = Inr (k, c1)" using look [OF less.prems(2) _ less.prems(3)] False k(1) by simp
    have "length buf < 2 ^ 31" using less.prems(3) by simp
    from progress [OF less.prems(2) ne this] ckb have kk: "0 < k" "k \<le> length buf" "ok c1" by auto
    have "\<exists>n. runs (chunk_thread ck mx) n (C_loop (drop k buf) None c1) (map data_chunk bs @ [end_chunk])
        (map data_chunk ds' @ [end_chunk]) C_done"
      using less.prems(3,4) k(3) kk ne by (intro less.hyps) auto
    then obtain n where n: "runs (chunk_thread ck mx) n (C_loop (drop k buf) None c1)
        (map data_chunk bs @ [end_chunk]) (map data_chunk ds' @ [end_chunk]) C_done" by blast
    have "ds = take k buf # ds'" using k(2) kk(2) by simp
    with emit [OF n ne _ ckb kk(2)] False show ?thesis by auto
  qed
qed

lemma chunk_run:
  assumes "split_chunks ck c (concat bs) = Some (Inr (ds, c'))" and "ok c" and "length (concat bs) < 2 ^ 31"
    and "\<forall>b \<in> set bs. length b \<le> DEFAULT_BLOCK_SIZE" and "CHECK_CHUNK start CHUNK_FILE_START"
  shows "\<exists>n. runs (chunk_thread ck mx) n (C_start c) (start # map data_chunk bs @ [end_chunk])
    (start # map data_chunk ds @ [end_chunk]) C_done"
proof -
  have first_fill: "\<exists>n. runs (chunk_thread ck mx) n (fill_block mx [] c (Some x)) xs
      (map data_chunk ds @ [end_chunk]) C_done"
    if "map data_chunk bs @ [end_chunk] = x # xs" for x xs
  proof (cases bs)
    case Nil
    then show ?thesis
      using that drain [of c "[]" ds] assms(1,2) by (simp add: fill_block_def flag_simps)
  next
    case (Cons b bs')
    with assms loop_run [of c b bs' ds c'] that show ?thesis by (auto simp: fill_block_def flag_simps)
  qed
  obtain x xs where xs: "map data_chunk bs @ [end_chunk] = x # xs" by (cases bs) auto
  from first_fill [OF xs] obtain n where n: "runs (chunk_thread ck mx) n (fill_block mx [] c (Some x)) xs
      (map data_chunk ds @ [end_chunk]) C_done" by blast
  then have "runs (chunk_thread ck mx) (Suc n) (C_first c) (x # xs) (map data_chunk ds @ [end_chunk]) C_done"
    by (rule runs.receive [where act = "chunk_thread ck mx", OF chunk_thread.simps(3)])
  then have "runs (chunk_thread ck mx) (Suc (Suc n)) (C_header start c) (x # xs)
      (start # map data_chunk ds @ [end_chunk]) C_done"
    by (rule runs.send [rotated]) simp
  then have "runs (chunk_thread ck mx) (Suc (Suc (Suc n))) (C_start c) (start # x # xs)
      (start # map data_chunk ds @ [end_chunk]) C_done"
    using assms(5) by (intro runs.receive [where act = "chunk_thread ck mx", OF chunk_thread.simps(1)]) simp
  then show ?thesis using xs by auto
qed

end

text \<open>The functions of the code do not look behind the longest chunk they can cut.\<close>

lemma cdc_cut_prefix:
  assumes "hi \<le> length p"
  shows "cdc_cut front back lo avg hi (p @ q) = cdc_cut front back lo avg hi p"
proof -
  have "find (\<lambda>i. gear_hash 0 (segment lo (Suc i - lo) (p @ q)) AND (if i < avg then front else back) = 0) [lo..<hi] =
      find (\<lambda>i. gear_hash 0 (segment lo (Suc i - lo) p) AND (if i < avg then front else back) = 0) [lo..<hi]"
    using assms by (intro find_cong) (auto simp: segment_append1)
  then show ?thesis by (simp add: cdc_cut_def)
qed

lemma cdc_cut_long:
  assumes "cdc_ok c" and "unat (MaxSize c) \<le> length p"
  shows "(if length (p @ q) \<le> unat (MinSize c) then length (p @ q)
          else cdc_cut front back (unat (MinSize c)) avg (min (length (p @ q)) (unat (MaxSize c))) (p @ q)) =
         (if length p \<le> unat (MinSize c) then length p
          else cdc_cut front back (unat (MinSize c)) avg (min (length p) (unat (MaxSize c))) p)"
proof -
  let ?M = "unat (MaxSize c)"
  have le: "unat (MinSize c) \<le> ?M" using assms(1) by (auto simp: cdc_ok_def word_le_nat_alt)
  have m: "min (length (p @ q)) ?M = ?M" "min (length p) ?M = ?M" using assms(2) by auto
  have eq: "cdc_cut front back (unat (MinSize c)) avg ?M (p @ q) = cdc_cut front back (unat (MinSize c)) avg ?M p"
    using assms(2) by (rule cdc_cut_prefix)
  have degenerate: "cdc_cut front back ?M avg ?M p' = ?M" for p' by (simp add: cdc_cut_def)
  show ?thesis
  proof (cases "length p \<le> unat (MinSize c)")
    case True
    then have min: "unat (MinSize c) = ?M" "length p = ?M" using le assms(2) by simp_all
    show ?thesis unfolding m min(1) using min(2) by (simp add: degenerate)
  next
    case False
    then show ?thesis using eq unfolding m by simp
  qed
qed

lemma cdc_after_long:
  assumes "cdc_ok c" and "unat (MaxSize c) \<le> n"
  shows "cdc_after c n = c"
proof (cases "n = unat (fastcdc_avg_size c)")
  case True
  then have "c\<lparr>fastcdc_avg_size := of_nat n\<rparr> = c" by simp
  then show ?thesis by (simp add: cdc_after_def)
next
  case False
  have "unat (fastcdc_avg_size c) \<le> unat (MaxSize c)" using assms(1) by (simp add: cdc_ok_def word_le_nat_alt)
  then show ?thesis using assms(2) False by (auto simp: cdc_after_def)
qed

lemma fsc_long:
  assumes "length (p @ q) < 2 ^ 31"
  shows "512 \<le> length p \<Longrightarrow> unat (FSC_512 (p @ q) (of_nat (length (p @ q)))) = unat (FSC_512 p (of_nat (length p)))"
    and "4096 \<le> length p \<Longrightarrow> unat (FSC_4 (p @ q) (of_nat (length (p @ q)))) = unat (FSC_4 p (of_nat (length p)))"
    and "8192 \<le> length p \<Longrightarrow> unat (FSC_8 (p @ q) (of_nat (length (p @ q)))) = unat (FSC_8 p (of_nat (length p)))"
    and "16384 \<le> length p \<Longrightarrow> unat (FSC_16 (p @ q) (of_nat (length (p @ q)))) = unat (FSC_16 p (of_nat (length p)))"
proof -
  have "length p < 2 ^ 31" using assms by simp
  note one = fsc_length [OF this] and two = fsc_length [OF assms]
  show "512 \<le> length p \<Longrightarrow> unat (FSC_512 (p @ q) (of_nat (length (p @ q)))) = unat (FSC_512 p (of_nat (length p)))"
    and "4096 \<le> length p \<Longrightarrow> unat (FSC_4 (p @ q) (of_nat (length (p @ q)))) = unat (FSC_4 p (of_nat (length p)))"
    and "8192 \<le> length p \<Longrightarrow> unat (FSC_8 (p @ q) (of_nat (length (p @ q)))) = unat (FSC_8 p (of_nat (length p)))"
    and "16384 \<le> length p \<Longrightarrow> unat (FSC_16 (p @ q) (of_nat (length (p @ q)))) = unat (FSC_16 p (of_nat (length p)))"
    unfolding one two by simp_all
qed

lemma chunking_long:
  assumes "chunker_ok f c" and "chunk_limit f c \<le> length p" and len: "length (p @ q) < 2 ^ 31"
  shows "chunking f c (p @ q) = chunking f c p"
proof -
  have len': "length p < 2 ^ 31" using len by simp
  show ?thesis
  proof (cases f)
    case Fn_FastCDC_with_NC
    then have c: "cdc_ok c" "unat (MaxSize c) \<le> length p" "unat (MaxSize c) \<le> length (p @ q)"
      using assms by (auto simp: chunker_ok_def chunk_limit_def)
    show ?thesis
      unfolding Fn_FastCDC_with_NC chunking_def Let_def chunking_fn.case FastCDC_with_NC_spec [OF c(1) len]
        FastCDC_with_NC_spec [OF c(1) len'] cdc_after_long [OF c(1,2)] cdc_after_long [OF c(1,3)]
        cdc_cut_long [OF c(1,2)] ..
  next
    case Fn_FastCDC_without_NC
    then have c: "cdc_ok c" "unat (MaxSize c) \<le> length p"
      using assms by (auto simp: chunker_ok_def chunk_limit_def)
    show ?thesis
      unfolding Fn_FastCDC_without_NC chunking_def Let_def chunking_fn.case FastCDC_without_NC_spec [OF c(1) len]
        FastCDC_without_NC_spec [OF c(1) len'] cdc_cut_long [OF c] ..
  qed (use assms fsc_long [OF len] in \<open>simp_all add: chunking_def chunk_limit_def\<close>)
qed

interpretation pipe_fn: lookahead_chunker "chunking f" "\<lambda>c. chunker_ok f c \<and> chunk_limit f c \<le> Suc m" "chunk_limit f" "Suc m"
  for f m
proof
  fix c and p q :: bytes
  assume ok: "chunker_ok f c \<and> chunk_limit f c \<le> Suc m"
  show "p \<noteq> [] \<Longrightarrow> length p < 2 ^ 31 \<Longrightarrow> \<exists>k c'. chunking f c p = Inr (k, c') \<and> 0 < k \<and> k \<le> length p \<and>
      k \<le> chunk_limit f c \<and> (chunker_ok f c' \<and> chunk_limit f c' \<le> Suc m) \<and> chunk_limit f c' = chunk_limit f c"
    using fn.progress [of f c p] ok by fastforce
  show "Suc m \<le> length p \<Longrightarrow> length (p @ q) < 2 ^ 31 \<Longrightarrow> chunking f c (p @ q) = chunking f c p"
    using ok by (intro chunking_long) simp_all
qed simp

section \<open>The pipeline and the write task\<close>

text \<open>Both fill the same containers; the write task also writes the lists of their fingerprints.\<close>

definition same_containers :: "(string \<rightharpoonup> bytes) \<Rightarrow> (string \<rightharpoonup> bytes) \<Rightarrow> bool" where
  "same_containers D D' \<longleftrightarrow> (\<forall>i. D (container_name i) = D' (container_name i))"

definition same_state :: "writer \<Rightarrow> deduper \<Rightarrow> bool" where
  "same_state w s \<longleftrightarrow>
     pmanager s = manager w \<and> drecipe s = file_recipe w \<and> dindex s = container_index w \<and>
     dinner_offset s = container_inner_offset w \<and> container_buf_pointer w = container_inner_offset w \<and>
     dinner_index s = inner_index w \<and> dbuf s = container_buf w \<and>
     same_containers (map_of (cdir w)) (map_of (pdir s))"

lemma same_containers_save:
  assumes "same_containers (map_of d) (map_of d')"
  shows "same_containers (map_of (saveContainer i buf len cnt rev_buf d))
    (map_of (put_file (container_name i) (array_prefix len buf) d'))"
  using assms by (simp add: same_containers_def saveContainer_def map_of_put_file)

lemma same_state_flush:
  assumes "same_state w s" and "uint (container_index w) < 2 ^ 31"
  shows "same_state (flush_container w) (resetContainerBuf (saveContainerBuf s))"
  using assms(1) sint_uint_small [OF assms(2)] same_containers_save
  by (simp add: same_state_def flush_container_def resetContainerBuf_def saveContainerBuf_def)

lemma same_state_count:
  "same_state w s \<Longrightarrow> length (sha1 d) = 20 \<Longrightarrow>
   same_state (w\<lparr>file_recipe := file_recipe w @ [enc_fp (dec_fp (sha1 d))], sum_chunks := n, sum_size := k\<rparr>)
     (count_job c (s\<lparr>drecipe := drecipe s @ [sha1 d]\<rparr>))"
  by (simp add: same_state_def count_job_def fp_codec.enc_dec)

lemma hashed_chunk:
  "hash_chunk sha1 (data_chunk d) = (data_chunk d)\<lparr>cfp := sha1 d\<rparr>"
  by (simp add: hash_chunk_def flag_simps)

lemma index_step:
  assumes "write_chunk sha1 w d = Inr w'"
  shows "uint (container_index w') \<le> uint (container_index w) + 1"
proof -
  have "uint (x + 1) \<le> uint x + 1" for x :: u32
    unfolding uint_word_ariths by (simp add: zmod_le_nonneg_dividend)
  then show ?thesis using assms
    by (auto simp: write_chunk_def saveChunkToContainer_def copy_chunk_def flush_container_def advance_def
        Let_def and_then_eq_Inr split: LookupResult.splits if_splits)
qed

lemma append_same:
  assumes "same_state w s" and "copy_chunk w d fpb = Inr w1"
    and "addNewEntry (manager w1) fp (new_entry w1 (length d)) = Inr m"
  shows "\<exists>s'. append_chunk s fp ((data_chunk d)\<lparr>cfp := h\<rparr>) = Inr s' \<and>
    same_state (advance (w1\<lparr>manager := m\<rparr>) (length d)) s'"
  using assms
  by (auto simp: same_state_def copy_chunk_def append_chunk_def new_entry_def advance_def split: if_splits)
    (simp_all add: chunk_bytes_def data_chunk_def new_chunk_def)

lemma same_step:
  assumes "same_state w s" and "length (sha1 d) = 20" and "write_chunk sha1 w d = Inr w'"
    and "uint (container_index w) < 2 ^ 31"
  shows "\<exists>s'. dedup_chunk s (hash_chunk sha1 (data_chunk d)) = Inr s' \<and> same_state w' s'"
proof -
  let ?c = "(data_chunk d)\<lparr>cfp := sha1 d\<rparr>" and ?fp = "dec_fp (sha1 d)"
  let ?w = "w\<lparr>file_recipe := file_recipe w @ [enc_fp ?fp], sum_chunks := sum_chunks w + 1,
    sum_size := sum_size w + int (length d)\<rparr>"
  let ?s = "count_job ?c (s\<lparr>drecipe := drecipe s @ [sha1 d]\<rparr>)"
  have same: "same_state ?w ?s" using assms(1,2) by (rule same_state_count)
  have size: "csize ?c = length d" "cfp ?c = sha1 d" by simp_all
  show ?thesis
  proof (cases "dedupLookup (manager ?w) ?fp")
    case Dedup
    then have "dedupLookup (pmanager ?s) ?fp = Dedup" "pmanager ?s = manager ?w"
      using same by (simp_all add: same_state_def)
    moreover obtain k m where "addRefCnt (manager ?w) ?fp = Inr (k, m)"
      "w' = ?w\<lparr>manager := m, dedup_chunks := dedup_chunks ?w + 1, dedup_size := dedup_size ?w + int (length d)\<rparr>"
      using assms(3) Dedup by (auto simp: write_chunk_def Let_def and_then_eq_Inr)
    ultimately show ?thesis
      using same by (simp add: hashed_chunk dedup_chunk_def same_state_def Let_def)
  next
    case Unique
    let ?s2 = "count_unique_job ?c ?s"
    have same2: "same_state ?w ?s2" using same by (simp add: same_state_def count_unique_job_def)
    define w0 where "w0 = (if CONTAINER_SIZE \<le> unat (container_buf_pointer ?w + of_nat (length d))
      then flush_container ?w else ?w)"
    define s0 where "s0 = (if CONTAINER_SIZE \<le> unat (dinner_offset ?s2 + of_nat (length d))
      then resetContainerBuf (saveContainerBuf ?s2) else ?s2)"
    have "container_buf_pointer ?w = dinner_offset ?s2" using same2 by (simp add: same_state_def)
    then have "same_state w0 s0"
      using same2 same_state_flush [OF same2] assms(4) by (simp add: w0_def s0_def)
    moreover obtain w1 m where "copy_chunk w0 d (enc_fp ?fp) = Inr w1"
      "addNewEntry (manager w1) ?fp (new_entry w1 (length d)) = Inr m"
      "w' = advance (w1\<lparr>manager := m\<rparr>) (length d)"
      using assms(3) Unique by (auto simp: write_chunk_def Let_def and_then_eq_Inr saveChunkToContainer_def w0_def)
    ultimately obtain s' where "append_chunk s0 ?fp ?c = Inr s'" "same_state w' s'"
      using append_same by blast
    moreover have "dedupLookup (pmanager ?s) ?fp = Unique" using Unique same by (simp add: same_state_def)
    ultimately show ?thesis
      by (simp add: hashed_chunk dedup_chunk_def Let_def s0_def)
  qed
qed

lemma same_fold:
  assumes "foldE (write_chunk sha1) w ds = Inr w'" and "same_state w s" and "\<forall>x. length (sha1 x) = 20"
    and "uint (container_index w) + int (length ds) \<le> 2 ^ 31"
  shows "\<exists>s'. foldE dedup_chunk s (map (\<lambda>d. hash_chunk sha1 (data_chunk d)) ds) = Inr s' \<and> same_state w' s' \<and>
    uint (container_index w') \<le> uint (container_index w) + int (length ds)"
  using assms(1,2,4)
proof (induction ds arbitrary: w s)
  case (Cons d ds)
  then obtain w1 where w1: "write_chunk sha1 w d = Inr w1" "foldE (write_chunk sha1) w1 ds = Inr w'" by auto
  from same_step [OF Cons.prems(2) _ w1(1)] assms(3) Cons.prems(3)
  obtain s1 where s1: "dedup_chunk s (hash_chunk sha1 (data_chunk d)) = Inr s1" "same_state w1 s1" by auto
  from Cons.IH [OF w1(2) s1(2)] index_step [OF w1(1)] Cons.prems(3) s1(1) show ?case by auto
qed simp

section \<open>The whole pipeline\<close>

definition hashed :: "(bytes \<Rightarrow> bytes) \<Rightarrow> bytes list \<Rightarrow> chunk list" where
  "hashed sha1 ds = map (\<lambda>d. hash_chunk sha1 (data_chunk d)) ds"

definition make_job :: "string \<Rightarrow> bytes \<Rightarrow> chunking_fn \<Rightarrow> nat \<Rightarrow> (bytes \<Rightarrow> bytes) \<Rightarrow> dir option \<Rightarrow> cdc job" where
  "make_job path f fn mx sha1 recipes =
     \<lparr>job_path = path, job_input = Some f, job_chunking = chunking fn, job_max = mx, job_sha1 = sha1,
      job_recipes = recipes\<rparr>"

lemma pipeline_inv_start:
  assumes "split_chunks (chunking fn) c f = Some (Inr (ds, c'))" and "chunker_ok fn c"
    and "chunk_limit fn c \<le> mx" and "0 < mx" and "length f < 2 ^ 31"
    and "foldE dedup_chunk (deduper_start m d) (hashed sha1 ds) = Inr s'"
    and "dedup_end recipes s' = Inr (r', jr)"
  shows "\<exists>n. pipe_inv (make_job path f fn mx sha1 recipes) n (D_saved r' jr) (pipeline_start c m d)"
proof -
  obtain mx' where mx: "mx = Suc mx'" using assms(4) by (cases mx) auto
  let ?start = "start_chunk path"
  obtain nr where R: "runs (read_thread path (Some f)) nr R_open []
      (?start # map data_chunk (file_blocks f) @ [end_chunk]) R_done" using read_run by blast
  have "\<exists>nc. runs (chunk_thread (chunking fn) mx) nc (C_start c)
      (?start # map data_chunk (file_blocks f) @ [end_chunk]) (?start # map data_chunk ds @ [end_chunk]) C_done"
    unfolding mx
    by (rule pipe_fn.chunk_run) (use assms(1-3,5) mx file_blocks_sizes in \<open>auto simp: file_blocks_concat flag_simps\<close>)
  then obtain nc where C: "runs (chunk_thread (chunking fn) mx) nc (C_start c)
      (?start # map data_chunk (file_blocks f) @ [end_chunk]) (?start # map data_chunk ds @ [end_chunk]) C_done"
    by blast
  have out: "map (hash_chunk sha1) (?start # map data_chunk ds @ [end_chunk]) = ?start # hashed sha1 ds @ [end_chunk]"
    by (simp add: hashed_def hash_chunk_def flag_simps)
  obtain nh where H: "runs (sha1_thread sha1) nh H_pop (?start # map data_chunk ds @ [end_chunk])
      (?start # hashed sha1 ds @ [end_chunk]) H_done"
    using hash_run [of sha1 "?start # map data_chunk ds @ [end_chunk]"] unfolding out by blast
  have plain: "\<forall>c \<in> set (hashed sha1 ds). \<not> CHECK_CHUNK c CHUNK_FILE_START \<and> \<not> CHECK_CHUNK c CHUNK_FILE_END"
    using data_chunk_flags by (auto simp: hashed_def hash_chunk_def CHECK_CHUNK_def)
  obtain nd where D: "runs (dedup_thread recipes) nd (D_pop (deduper_start m d))
      (?start # hashed sha1 ds @ [end_chunk]) [] (D_saved r' jr)"
    using dedup_run [OF assms(6,7) plain start_chunk_flags(1)] by blast
  let ?j = "make_job path f fn mx sha1 recipes" and ?p = "pipeline_start c m d"
  have "to_come ?j ?p nr nc nh nd (?start # map data_chunk (file_blocks f) @ [end_chunk])
      (?start # map data_chunk ds @ [end_chunk]) (?start # hashed sha1 ds @ [end_chunk]) (D_saved r' jr)"
    using R C H D by (auto simp: to_come_def make_job_def pipeline_start_def new_queue_def)
  moreover have "all_close ?j ?p"
    by (simp add: all_close_def closes_def make_job_def pipeline_start_def new_queue_def)
  ultimately show ?thesis using pipe_invI by blast
qed

text \<open>Every schedule can go on until it has taken the same number of steps and has this result.\<close>

definition pipeline_result :: "'c job \<Rightarrow> 'c pipeline \<Rightarrow> repo \<Rightarrow> jcr \<Rightarrow> bool" where
  "pipeline_result j p0 r jr \<longleftrightarrow>
     (\<exists>n. \<forall>k p. (pipe_step j ^^ k) p0 p \<longrightarrow>
        k \<le> n \<and> (if k < n then \<exists>p'. pipe_step j p p' else dedup_t p = D_saved r jr))"

lemma pipe_inv_result:
  assumes "pipe_inv j n (D_saved r jr) p0"
  shows "pipeline_result j p0 r jr"
  unfolding pipeline_result_def
proof (intro exI [of _ n] allI impI)
  fix k p assume "(pipe_step j ^^ k) p0 p"
  from pipe_runs [OF assms this] have inv: "k \<le> n" "pipe_inv j (n - k) (D_saved r jr) p" by simp_all
  show "k \<le> n \<and> (if k < n then \<exists>p'. pipe_step j p p' else dedup_t p = D_saved r jr)"
  proof (cases "\<exists>p'. pipe_step j p p'")
    case True
    then obtain p' where "pipe_step j p p'" by blast
    from pipe_inv_step [OF this inv(2)] True inv(1) show ?thesis by auto
  next
    case False
    with pipe_inv_progress [OF inv(2)] inv(1) show ?thesis by auto
  qed
qed

lemma dedup_end_same:
  assumes "same_state w s" and "write_end w recipes = Inr r'" and "uint (container_index w) < 2 ^ 31"
  shows "\<exists>r'' jr. dedup_end recipes s = Inr (r'', jr) \<and> recipes_dir r'' = recipes_dir r' \<and>
    fingerprints_file r'' = fingerprints_file r' \<and> same_containers (stored r') (stored r'')"
proof -
  let ?d = "if 0 < container_buf_pointer w
    then saveContainer (sint (container_index w)) (container_buf w) (unat (container_buf_pointer w))
           (rev_container_cnt w) (rev_container_buf w) (cdir w) else cdir w"
  let ?s = "if 0 < dinner_offset s then saveContainerBuf s else s"
  have same: "same_containers (map_of ?d) (map_of (pdir ?s))"
    using assms(1) sint_uint_small [OF assms(3)] same_containers_save
    by (simp add: same_state_def saveContainerBuf_def)
  obtain rec where rec: "saveFileRecipe (file_recipe w) recipes = Inr rec"
    "r' = \<lparr>containers_dir = Some ?d, recipes_dir = rec, fingerprints_file = Some (save (manager w))\<rparr>"
    using assms(2) by (auto simp: write_end_cases Let_def and_then_eq_Inr split: if_splits)
  have "drecipe ?s = file_recipe w" "pmanager ?s = manager w"
    using assms(1) by (simp_all add: same_state_def saveContainerBuf_def)
  then show ?thesis
    using rec same by (simp add: dedup_end_def Let_def stored_def entries_def)
qed

lemma pipeline_write:
  assumes "task_write sha1 (chunking fn) c r (Some f) = Some (Inr r')" and "\<forall>x. length (sha1 x) = 20"
    and "chunker_ok fn c" and "chunk_limit fn c \<le> mx" and "0 < mx"
    and "f \<noteq> []" and "length f \<le> FILE_CACHE" and "load_index r = Inr m" and "containers_dir r = Some d"
    and "length d + length f < 2 ^ 31"
  shows "\<exists>r'' jr. pipeline_result (make_job path f fn mx sha1 (recipes_dir r)) (pipeline_start c m d) r'' jr \<and>
    recipes_dir r'' = recipes_dir r' \<and> fingerprints_file r'' = fingerprints_file r' \<and>
    same_containers (stored r') (stored r'')"
proof -
  have len: "length f < 2 ^ 31" using assms(10) by simp
  from fn.split_total [OF assms(3) len] obtain ds c' where
    ds: "split_chunks (chunking fn) c f = Some (Inr (ds, c'))" "concat ds = f" "\<forall>d \<in> set ds. d \<noteq> []"
    by blast
  have "length xs \<le> length (concat xs)" if "\<forall>d \<in> set xs. d \<noteq> []" for xs :: "bytes list"
    using that by (induction xs) (auto simp: Suc_le_eq add_strict_increasing)
  then have few: "length ds \<le> length f" using ds(2,3) by blast
  have nil: "file_chunks (chunking fn) c' [] = Some (Inr ([], c'))" by (subst file_chunks.simps) simp
  have "file_chunks (chunking fn) c f = Some (Inr (ds, c'))"
    using ds(1) nil assms(6,7) by (subst file_chunks.simps) simp
  from write_blocks_fold [OF this] assms(1,8,9) obtain w where
    w: "foldE (write_chunk sha1) (writer_start m d) ds = Inr w" "write_end w (recipes_dir r) = Inr r'"
    by (auto simp: task_write_def and_then_eq_Inr)
  have start: "same_state (writer_start m d) (deduper_start m d)"
    by (simp add: same_state_def writer_start_def deduper_start_def same_containers_def)
  have "unat (of_nat (length d) :: u32) \<le> length d" by (simp add: unat_of_nat)
  then have "uint (of_nat (length d) :: u32) \<le> int (length d)" by (simp only: uint_nat of_nat_le_iff)
  then have idx: "uint (container_index (writer_start m d)) \<le> int (length d)"
    by (simp add: writer_start_def)
  from same_fold [OF w(1) start assms(2)] idx few assms(10) obtain s' where
    s': "foldE dedup_chunk (deduper_start m d) (hashed sha1 ds) = Inr s'" "same_state w s'"
      "uint (container_index w) < 2 ^ 31"
    unfolding hashed_def by fastforce
  from dedup_end_same [OF s'(2) w(2) s'(3)] obtain r'' jr where
    r'': "dedup_end (recipes_dir r) s' = Inr (r'', jr)" "recipes_dir r'' = recipes_dir r'"
      "fingerprints_file r'' = fingerprints_file r'" "same_containers (stored r') (stored r'')" by blast
  from pipeline_inv_start [OF ds(1) assms(3-5) len s'(1) r''(1)] pipe_inv_result r''(2-4)
  show ?thesis by blast
qed

text \<open>A restore reads containers only.\<close>

lemma same_containers_caches:
  assumes "same_containers D D'"
  shows "container_getChunkData D = container_getChunkData D'"
    and "chunk_getChunkData D = chunk_getChunkData D'" and "faa_loadContainer D = faa_loadContainer D'"
proof -
  have D: "D (container_name i) = D' (container_name i)" for i using assms by (simp add: same_containers_def)
  have cc: "cc_loadContainer D = cc_loadContainer D'" by (intro ext) (simp add: cc_loadContainer_def D)
  show "container_getChunkData D = container_getChunkData D'"
    by (intro ext) (simp only: container_getChunkData_def cc)
  have lc: "loadChunk D = loadChunk D'" by (intro ext) (simp add: loadChunk_def D)
  show "chunk_getChunkData D = chunk_getChunkData D'"
    by (intro ext) (simp only: chunk_getChunkData_def lc)
  show "faa_loadContainer D = faa_loadContainer D'" by (intro ext) (simp add: faa_loadContainer_def D)
qed

lemma same_containers_assemble:
  "same_containers D D' \<Longrightarrow> faa_assemble D abuf xs = faa_assemble D' abuf xs"
proof (induction D abuf xs rule: faa_assemble.induct)
  case (1 D abuf xs)
  note eq = same_containers_caches(3) [OF "1.prems"]
  show ?case
    by (subst (1 2) faa_assemble.simps)
      (use 1 in \<open>auto simp: eq split: list.splits sum.splits\<close>)
qed

lemma same_containers_segments:
  "same_containers D D' \<Longrightarrow> faa_segments D m abuf fd recipe = faa_segments D' m abuf fd recipe"
proof (induction D m abuf fd recipe rule: faa_segments.induct)
  case (1 D m abuf fd xs)
  note eq = same_containers_assemble [OF "1.prems"]
  show ?case
    by (subst (1 2) faa_segments.simps) (use 1 in \<open>auto simp: eq Let_def split: sum.splits\<close>)
qed

lemma same_containers_restore:
  assumes "same_containers (stored r) (stored r')" and "recipes_dir r' = recipes_dir r"
    and "fingerprints_file r' = fingerprints_file r"
  shows "task_restore alg buf r' v out = task_restore alg buf r v out"
proof -
  have "restore_bytes alg (stored r) buf m recipe = restore_bytes alg (stored r') buf m recipe" for m recipe
    using same_containers_caches [OF assms(1)] same_containers_segments [OF assms(1)]
    by (cases alg) (simp_all add: restore_bytes_def restore_with_faa_def)
  moreover have "load_index r' = load_index r" by (simp only: load_index_def assms(2,3))
  ultimately show ?thesis by (simp only: task_restore_def assms(2) stored_def)
qed

section \<open>Properties\<close>

text \<open>
  C19. The pipeline never blocks and its result does not depend on the schedule: whenever the
  loop over the whole file gives the chunks \<open>ds\<close> and the deduplication of their hashes
  succeeds, every interleaving of the four threads over the bounded queues can go on until
  it has taken the same number of steps, and then the index, the containers and the recipe
  are the ones of that deduplication.
\<close>

theorem pipeline_deterministic:
  assumes "split_chunks (chunking fn) c f = Some (Inr (ds, c'))" and "chunker_ok fn c"
    and "chunk_limit fn c \<le> mx" and "0 < mx" and "length f < 2 ^ 31"
    and "foldE dedup_chunk (deduper_start m d) (hashed sha1 ds) = Inr s'"
    and "dedup_end recipes s' = Inr (r', jr)"
  shows "\<exists>n. \<forall>k p.
    (pipe_step (make_job path f fn mx sha1 recipes) ^^ k) (pipeline_start c m d) p \<longrightarrow>
      k \<le> n \<and> (if k < n then \<exists>p'. pipe_step (make_job path f fn mx sha1 recipes) p p'
                else dedup_t p = D_saved r' jr)"
  using pipeline_inv_start [OF assms] pipe_inv_result unfolding pipeline_result_def by blast

theorem pipeline_deterministic_witness:
  "\<exists>r' jr n. \<forall>k p.
    (pipe_step (make_job ''in'' [] Fn_FSC_4 4096 sample_sha1 (Some [])) ^^ k) (pipeline_start cdc_zero mm_new []) p \<longrightarrow>
      k \<le> n \<and> (if k < n then \<exists>p'. pipe_step (make_job ''in'' [] Fn_FSC_4 4096 sample_sha1 (Some [])) p p'
                else dedup_t p = D_saved r' jr)"
proof -
  have nil: "split_chunks (chunking Fn_FSC_4) cdc_zero [] = Some (Inr ([], cdc_zero))"
    by (subst split_chunks.simps) simp
  obtain r' jr where saved: "dedup_end (Some []) (deduper_start mm_new []) = Inr (r', jr)"
    by (auto simp: dedup_end_def deduper_start_def saveFileRecipe_def getFilesNum_def Let_def)
  show ?thesis
    by (rule exI [of _ r'], rule exI [of _ jr], rule pipeline_deterministic [OF nil _ _ _ _ _ saved])
      (simp_all add: chunker_ok_def chunk_limit_def hashed_def)
qed

text \<open>
  C18. The pipeline is equivalent to the write task: for a file of at most 256 MiB and a block
  buffer that holds the longest chunk, every schedule ends with the recipe and the index of
  the write task without a pipeline, and with the same containers; only the lists of
  fingerprints next to the containers are missing.
\<close>

theorem pipeline_equals_write_task:
  assumes "task_write sha1 (chunking fn) c r (Some f) = Some (Inr r')" and "\<forall>x. length (sha1 x) = 20"
    and "chunker_ok fn c" and "chunk_limit fn c \<le> mx" and "0 < mx"
    and "f \<noteq> []" and "length f \<le> FILE_CACHE" and "load_index r = Inr m" and "containers_dir r = Some d"
    and "length d + length f < 2 ^ 31"
  shows "\<exists>r'' jr. pipeline_result (make_job path f fn mx sha1 (recipes_dir r)) (pipeline_start c m d) r'' jr \<and>
    recipes_dir r'' = recipes_dir r' \<and> fingerprints_file r'' = fingerprints_file r' \<and>
    (\<forall>i. map_of (entries (containers_dir r'')) (container_name i) =
         map_of (entries (containers_dir r')) (container_name i))"
  using pipeline_write [OF assms] unfolding same_containers_def stored_def by metis

theorem pipeline_equals_write_task_witness:
  "\<exists>r'' jr. pipeline_result (make_job ''in'' sample_file Fn_FSC_512 4096 sample_sha1 (Some []))
      (pipeline_start cdc_zero mm_new []) r'' jr \<and>
    recipes_dir r'' = recipes_dir sample_repo \<and> fingerprints_file r'' = fingerprints_file sample_repo \<and>
    (\<forall>i. map_of (entries (containers_dir r'')) (container_name i) =
         map_of (entries (containers_dir sample_repo)) (container_name i))"
proof -
  have parts: "recipes_dir empty_repo = Some []" "containers_dir empty_repo = Some []"
    "load_index empty_repo = Inr mm_new"
    by (simp add: empty_repo_def, simp add: empty_repo_def, rule empty_repo_parts(1))
  show ?thesis
    using pipeline_equals_write_task [OF sample_written _ _ _ _ _ _ parts(3,2), of cdc_zero 4096 "''in''"]
    by (simp add: chunker_ok_def chunk_limit_def sample_file_def FILE_CACHE_def sample_sha1_def parts(1))
qed

lemma prepare_limit:
  assumes "chunking_method_prepare md5 cfg c0 = Inr (fn, c)" and "0 < avg_chunk_size cfg"
  shows "chunk_limit fn c \<le> nat (avg_chunk_size cfg * 4)"
proof -
  have "uint (word_of_int (avg_chunk_size cfg * 4) :: u32) \<le> avg_chunk_size cfg * 4"
    using assms(2) unfolding uint_word_of_int by (intro zmod_le_nonneg_dividend) simp
  then have "unat (word_of_int (avg_chunk_size cfg * 4) :: u32) \<le> nat (avg_chunk_size cfg * 4)"
    by (simp only: nat_mono flip: nat_uint_eq)
  then show ?thesis using assms(1)
    by (auto simp: chunking_method_prepare_def chunk_limit_def fastCDC_init_def Let_def split: if_splits)
qed

text \<open>
  C20. A version that the pipeline has written is restored to the bytes of the file, with any
  of the three algorithms and whatever the schedule was. The file has at most 256 MiB, and the
  write finds the repository as \<open>can_write\<close> demands (the next numbers free, room, a nonempty file
  in chunks below 64 KiB); there are fewer than 256 versions, container numbers fit an \<open>int\<close>, and
  no two different chunks have the same SHA-1.
\<close>

theorem pipeline_version_restores:
  assumes "start_phases md5 sha1 cfg c0 r (Some f) = Inr (j, p0)"
    and "chunking_method_prepare md5 cfg c0 = Inr (fn, c)" and "0 < avg_chunk_size cfg"
    and "can_write sha1 fn c r f ds" and "collision_free sha1 (repo_contents r) ds" and "supported alg"
    and "length (entries (recipes_dir r)) < 256" and "\<forall>x. length (sha1 x) = 20"
    and "length f \<le> FILE_CACHE" and "length (entries (containers_dir r)) + length f < 2 ^ 31"
  shows "\<exists>r'' jr. pipeline_result j p0 r'' jr \<and>
    task_restore alg buf r'' (int (length (entries (recipes_dir r)))) None = Inr (Some f)"
proof -
  from assms(4) obtain r' where w: "task_write sha1 (chunking fn) c r (Some f) = Some (Inr r')"
    "repo_ok sha1 r'" "repo_contents r' = fold (put_chunk sha1) ds (repo_contents r)"
    "version_fps r' = (version_fps r)(int (length (entries (recipes_dir r))) \<mapsto> map (fp_of sha1) ds)"
    by (rule can_write_task)
  have "version_data r' (int (length (entries (recipes_dir r)))) = Some (concat ds)"
    using version_written [OF assms(5) w(3)] w(4) by simp
  from restore_version_spec [OF w(2) this _ _ assms(6), of buf None] assms(7)
  have restored: "task_restore alg buf r' (int (length (entries (recipes_dir r)))) None = Inr (Some f)"
    by (simp add: can_write_chunks(1) [OF assms(4)] buf_simps)
  have c: "chunker_ok fn c" "f \<noteq> []" using assms(4) by (simp_all add: can_write_def)
  let ?mx = "nat (avg_chunk_size cfg * 4)"
  from assms(1,2) obtain m d where md: "load_index r = Inr m" "containers_dir r = Some d"
    "j = make_job (input_path cfg) f fn ?mx sha1 (recipes_dir r)" "p0 = pipeline_start c m d"
    by (auto simp: start_phases_def make_job_def and_then_eq_Inr split: option.splits)
  have "length d + length f < 2 ^ 31" using assms(10) md(2) by (simp add: entries_def)
  moreover have "0 < ?mx" using assms(3) by simp
  ultimately obtain r'' jr where
    "pipeline_result j p0 r'' jr"
    "recipes_dir r'' = recipes_dir r'" "fingerprints_file r'' = fingerprints_file r'"
    "same_containers (stored r') (stored r'')"
    using pipeline_write [OF w(1) assms(8) c(1) prepare_limit [OF assms(2,3)] _ c(2) assms(9) md(1,2)]
    unfolding md(3,4) by blast
  with same_containers_restore [of r' r'' alg buf] restored show ?thesis by auto
qed

lemma one_chunk_4:
  assumes "f \<noteq> []" and "length f \<le> 20"
  shows "can_write sample_sha1 Fn_FSC_4 c empty_repo f [f]"
proof -
  have n: "unat (FSC_4 f (of_nat (length f))) = length f" using fsc_length(2) [of f] assms(2) by simp
  have nil: "split_chunks (chunking Fn_FSC_4) c [] = Some (Inr ([], c))" "file_chunks (chunking Fn_FSC_4) c [] = Some (Inr ([], c))"
    by (subst split_chunks.simps, simp) (subst file_chunks.simps, simp)
  have "split_chunks (chunking Fn_FSC_4) c f = Some (Inr ([f], c))"
    using assms(1) n nil(1) by (subst split_chunks.simps) (simp add: chunking_def Let_def)
  then have "file_chunks (chunking Fn_FSC_4) c f = Some (Inr ([f], c))"
    using assms nil(2) by (subst file_chunks.simps) (simp add: FILE_CACHE_def)
  then show ?thesis
    using assms empty_repo_ok empty_repo_numbered
    by (simp add: can_write_def chunker_ok_def chunk_limit_def write_room_def empty_repo_parts refs_def
        short_chunks_def FILE_CACHE_def META_DATA_SIZE_def)
qed

definition sample_config :: Config where
  "sample_config = config_init\<lparr>cm := FSC, avg_chunk_size := 4096, input_path := ''in''\<rparr>"

theorem pipeline_version_restores_witness:
  "\<exists>j p0 r'' jr. start_phases (\<lambda>x. x) sample_sha1 sample_config cdc_zero empty_repo (Some [1, 2, 3]) = Inr (j, p0) \<and>
    pipeline_result j p0 r'' jr \<and> task_restore CHUNK_CACHE [] r'' 0 None = Inr (Some [1, 2, 3])"
proof -
  have prepare: "chunking_method_prepare (\<lambda>x. x) sample_config cdc_zero = Inr (Fn_FSC_4, cdc_zero)"
    by (simp add: chunking_method_prepare_def sample_config_def)
  then obtain j p0 where start: "start_phases (\<lambda>x. x) sample_sha1 sample_config cdc_zero empty_repo (Some [1, 2, 3]) =
      Inr (j, p0)"
    by (simp add: start_phases_def empty_repo_parts(1)) (simp add: empty_repo_def)
  have w: "can_write sample_sha1 Fn_FSC_4 cdc_zero empty_repo [1, 2, 3] [[1, 2, 3]]"
    by (rule one_chunk_4) simp_all
  have free: "collision_free sample_sha1 (repo_contents empty_repo) [[1, 2, 3]]"
    by (simp add: empty_repo_parts collision_free_def)
  have alg: "supported CHUNK_CACHE" by (simp add: supported_def)
  have "\<exists>r'' jr. pipeline_result j p0 r'' jr \<and>
      task_restore CHUNK_CACHE [] r'' (int (length (entries (recipes_dir empty_repo)))) None = Inr (Some [1, 2, 3])"
    by (rule pipeline_version_restores [OF start prepare _ w free alg])
      (simp_all add: sample_config_def FILE_CACHE_def sample_sha1_def empty_repo_parts)
  then show ?thesis using start by (auto simp: empty_repo_parts)
qed

end
