(* ===== verification/Double.thy ===== *)
theory Double
  imports Prelude Complex_Main
begin

text \<open>
  The \<open>double\<close> of the code (IEEE 754 binary64, rounding to nearest with ties to even) and
  what the JSON code uses of the C library on it: arithmetic, comparisons, the conversions
  from and to \<open>int\<close>, \<open>strtod\<close> on decimal numbers, and the formats \<open>%d\<close>
  and \<open>%1.<p>g\<close> of \<open>sprintf\<close>. A finite double is its exact rational value; the sign of a
  zero is not kept, nothing in the code depends on it.
\<close>

section \<open>Values and rounding\<close>

datatype double = Finite rat | PosInf | NegInf | NaN

function len_in :: "int \<Rightarrow> int \<Rightarrow> nat" where
  "len_in b n = (if n \<le> 0 \<or> b < 2 then 0 else Suc (len_in b (n div b)))"
  by pat_completeness auto

termination
  by (relation "measure (\<lambda>(b, n). nat n)") (auto intro: int_div_less_self)

declare len_in.simps [simp del]

definition scaled :: "int \<Rightarrow> int \<Rightarrow> rat" where
  "scaled b e = (if 0 \<le> e then of_int b ^ nat e else 1 / of_int b ^ nat (- e))"

text \<open>The \<open>e\<close> with \<open>b ^ e \<le> x < b ^ (e + 1)\<close>, for a positive \<open>x\<close>.\<close>

definition exponent_in :: "int \<Rightarrow> rat \<Rightarrow> int" where
  "exponent_in b x =
     (case quotient_of x of (n, d) \<Rightarrow>
        let k = int (len_in b n) - int (len_in b d)
        in if scaled b k \<le> x then k else k - 1)"

definition round_even :: "rat \<Rightarrow> int" where
  "round_even x =
     (let f = \<lfloor>x\<rfloor>; r = x - of_int f
      in if r < 1 / 2 \<or> r = 1 / 2 \<and> even f then f else f + 1)"

definition round_double :: "rat \<Rightarrow> double" where
  "round_double x =
     (if x = 0 then Finite 0
      else let e = max (- 1074) (exponent_in 2 \<bar>x\<bar> - 52);
               y = of_int (round_even (x / scaled 2 e)) * scaled 2 e
           in if \<bar>y\<bar> < 2 ^ 1024 then Finite y else if 0 < y then PosInf else NegInf)"

section \<open>Operations\<close>

definition of_int_double :: "int \<Rightarrow> double" where
  "of_int_double i = round_double (of_int i)"

fun minus_double :: "double \<Rightarrow> double \<Rightarrow> double" where
  "minus_double (Finite a) (Finite b) = round_double (a - b)"
| "minus_double (Finite a) PosInf = NegInf"
| "minus_double (Finite a) NegInf = PosInf"
| "minus_double PosInf (Finite b) = PosInf"
| "minus_double PosInf NegInf = PosInf"
| "minus_double NegInf (Finite b) = NegInf"
| "minus_double NegInf PosInf = NegInf"
| "minus_double _ _ = NaN"

text \<open>A divisor that is zero is a positive zero here: the code divides by converted integers.\<close>

fun divide_double :: "double \<Rightarrow> double \<Rightarrow> double" where
  "divide_double (Finite a) (Finite b) =
     (if b \<noteq> 0 then round_double (a / b) else if a = 0 then NaN else if 0 < a then PosInf else NegInf)"
| "divide_double PosInf (Finite b) = (if 0 \<le> b then PosInf else NegInf)"
| "divide_double NegInf (Finite b) = (if 0 \<le> b then NegInf else PosInf)"
| "divide_double (Finite a) PosInf = Finite 0"
| "divide_double (Finite a) NegInf = Finite 0"
| "divide_double _ _ = NaN"

fun times_double :: "double \<Rightarrow> double \<Rightarrow> double" where
  "times_double (Finite a) (Finite b) = round_double (a * b)"
| "times_double NaN _ = NaN"
| "times_double _ NaN = NaN"
| "times_double a b =
     (let sign = (\<lambda>d. case d of Finite x \<Rightarrow> sgn x | PosInf \<Rightarrow> 1 | _ \<Rightarrow> - 1); s = sign a * sign b
      in if s = 0 then NaN else if 0 < s then PosInf else NegInf)"

fun le_double :: "double \<Rightarrow> double \<Rightarrow> bool" where
  "le_double (Finite a) (Finite b) \<longleftrightarrow> a \<le> b"
| "le_double NaN _ \<longleftrightarrow> False"
| "le_double _ NaN \<longleftrightarrow> False"
| "le_double NegInf _ \<longleftrightarrow> True"
| "le_double _ PosInf \<longleftrightarrow> True"
| "le_double _ _ \<longleftrightarrow> False"

definition eq_double :: "double \<Rightarrow> double \<Rightarrow> bool" where
  "eq_double a b \<longleftrightarrow> a = b \<and> a \<noteq> NaN"

fun fabs :: "double \<Rightarrow> double" where
  "fabs (Finite a) = Finite \<bar>a\<bar>"
| "fabs NegInf = PosInf"
| "fabs d = d"

text \<open>The conversion to \<open>int\<close> truncates; it is used on values in the range of \<open>int\<close> only.\<close>

fun to_int :: "double \<Rightarrow> int" where
  "to_int (Finite a) = (if 0 \<le> a then \<lfloor>a\<rfloor> else \<lceil>a\<rceil>)"
| "to_int _ = 0"

section \<open>\<open>strtod\<close> and \<open>sprintf\<close>\<close>

definition is_digit :: "char \<Rightarrow> bool" where
  "is_digit c \<longleftrightarrow> (48 :: nat) \<le> of_char c \<and> of_char c \<le> (57 :: nat)"

text \<open>
  A sign is skipped, digits are read before and after a point, and an exponent that has no
  digits is not part of the number. The result is the value and the number of characters
  read, 0 when there is no number.
\<close>

definition read_sign :: "string \<Rightarrow> bool \<times> nat" where
  "read_sign s =
     (case s of c # _ \<Rightarrow> (if c = CHR ''-'' then (True, 1) else if c = CHR ''+'' then (False, 1) else (False, 0))
      | [] \<Rightarrow> (False, 0))"

definition read_exponent :: "string \<Rightarrow> int \<times> nat" where
  "read_exponent s =
     (case s of
        c # t \<Rightarrow>
          (if c = CHR ''e'' \<or> c = CHR ''E'' then
             (case read_sign t of (neg, k) \<Rightarrow>
                let ds = takeWhile is_digit (drop k t)
                in if ds = [] then (0, 0)
                   else (if neg then - int (digits_value ds) else int (digits_value ds), 1 + k + length ds))
           else (0, 0))
      | [] \<Rightarrow> (0, 0))"

definition strtod :: "string \<Rightarrow> double \<times> nat" where
  "strtod s =
     (case read_sign s of (neg, k) \<Rightarrow>
        let ip = takeWhile is_digit (drop k s);
            r = drop (k + length ip) s;
            point = (case r of c # _ \<Rightarrow> c = CHR ''.'' | [] \<Rightarrow> False);
            fp = (if point then takeWhile is_digit (tl r) else []);
            n = k + length ip + (if point then 1 + length fp else 0)
        in if ip @ fp = [] then (Finite 0, 0)
           else case read_exponent (drop n s) of (e, m) \<Rightarrow>
             let x = of_nat (digits_value (ip @ fp)) * scaled 10 (e - int (length fp))
             in (round_double (if neg then - x else x), n + m))"

definition format_d :: "int \<Rightarrow> string" where
  "format_d i = to_string i"

text \<open>
  \<open>%1.<p>g\<close>: the value is rounded to \<open>p\<close> significant digits; it is written with an
  exponent of at least two digits when that is below -4 or not below \<open>p\<close>, and the zeros at
  the end of a fraction are removed.
\<close>

definition fraction_text :: "string \<Rightarrow> string" where
  "fraction_text ds =
     (let t = rev (dropWhile (\<lambda>c. c = CHR ''0'') (rev ds)) in if t = [] then [] else CHR ''.'' # t)"

definition exponent_text :: "int \<Rightarrow> string" where
  "exponent_text e =
     CHR ''e'' # (if e < 0 then CHR ''-'' else CHR ''+'') #
       (if \<bar>e\<bar> < 10 then ''0'' else []) @ nat_digits (nat \<bar>e\<bar>)"

definition significant :: "nat \<Rightarrow> rat \<Rightarrow> int \<times> int" where
  "significant p a =
     (let e = exponent_in 10 a; m = round_even (a / scaled 10 (e - int p + 1))
      in if m = 10 ^ p then (m div 10, e + 1) else (m, e))"

definition format_g :: "nat \<Rightarrow> rat \<Rightarrow> string" where
  "format_g p x =
     (if x = 0 then ''0''
      else case significant p \<bar>x\<bar> of (m, e) \<Rightarrow>
        let ds = nat_digits (nat m)
        in (if x < 0 then ''-'' else []) @
           (if e < - 4 \<or> int p \<le> e then take 1 ds @ fraction_text (drop 1 ds) @ exponent_text e
            else if 0 \<le> e then take (nat e + 1) ds @ fraction_text (drop (nat e + 1) ds)
            else ''0'' @ fraction_text (replicate (nat (- e) - 1) (CHR ''0'') @ ds)))"

end
