(* ===== verification/Json.thy ===== *)
theory Json
  imports Double
begin

text \<open>
  \<open>utils/cJSON.c\<close>, as the configuration and the statistics use it: the items, the parser
  with its buffer, the printer, and the replacement of a member of an object. Text is a list
  of characters (the bytes of the C arrays). A parser returns an item or rejects, with the
  buffer as it leaves it; a read outside of the buffer is \<open>MemoryFault\<close>. Allocations succeed,
  and what only frees memory is left out.
\<close>

section \<open>Items\<close>

datatype cJSON_Type =
    cJSON_Invalid | cJSON_False | cJSON_True | cJSON_NULL | cJSON_Number | cJSON_String
  | cJSON_Array | cJSON_Object | cJSON_Raw

text \<open>
  The chain of children is the list \<open>child\<close>; \<open>item_string\<close> is the field \<open>string\<close>, the name
  of a member.
\<close>

datatype cJSON =
  Item (item_type: cJSON_Type) (valuestring: "string option") (valueint: int)
    (valuedouble: double) (item_string: "string option") (child: "cJSON list")

definition cJSON_New_Item :: cJSON where
  "cJSON_New_Item = Item cJSON_Invalid None 0 (Finite 0) None []"

definition INT_MAX :: int where "INT_MAX = 2147483647"
definition INT_MIN :: int where "INT_MIN = - 2147483648"

text \<open>The integer value of a number, with saturation.\<close>

definition saturate :: "double \<Rightarrow> int" where
  "saturate number =
     (if le_double (of_int_double INT_MAX) number then INT_MAX
      else if le_double number (of_int_double INT_MIN) then INT_MIN
      else to_int number)"

definition cJSON_CreateNumber :: "double \<Rightarrow> cJSON" where
  "cJSON_CreateNumber num = Item cJSON_Number None (saturate num) num None []"

section \<open>The parse buffer\<close>

record parse_buffer =
  content :: string
  boffset :: nat
  depth :: nat

type_synonym 'a parsed = "('a option \<times> parse_buffer) result option"

definition accept :: "'a \<Rightarrow> parse_buffer \<Rightarrow> 'a parsed" where
  "accept x b = Some (Inr (Some x, b))"

definition reject :: "parse_buffer \<Rightarrow> 'a parsed" where
  "reject b = Some (Inr (None, b))"

definition parse_then :: "'a parsed \<Rightarrow> ('a \<Rightarrow> parse_buffer \<Rightarrow> 'b parsed) \<Rightarrow> 'b parsed" where
  "parse_then p f =
     Option.bind p (\<lambda>r. case r of
       Inl e \<Rightarrow> Some (Inl e)
     | Inr x \<Rightarrow> (case fst x of None \<Rightarrow> Some (Inr (None, snd x)) | Some y \<Rightarrow> f y (snd x)))"

lemma parse_then_mono [partial_function_mono]:
  assumes "mono_option B" and "\<And>y b. mono_option (\<lambda>f. C y b f)"
  shows "mono_option (\<lambda>f. parse_then (B f) (\<lambda>y b. C y b f))"
proof -
  have "mono_option (\<lambda>f. case r of Inl e \<Rightarrow> Some (Inl e)
      | Inr x \<Rightarrow> (case fst x of None \<Rightarrow> Some (Inr (None, snd x)) | Some y \<Rightarrow> C y (snd x) f))" for r
    using assms(2) by (cases r; cases "fst (projr r)") (simp_all add: monotone_def option.leq_refl)
  then show ?thesis unfolding parse_then_def by (intro bind_mono assms(1))
qed

definition can_read :: "parse_buffer \<Rightarrow> nat \<Rightarrow> bool" where
  "can_read b n \<longleftrightarrow> boffset b + n \<le> length (content b)"

definition can_access_at_index :: "parse_buffer \<Rightarrow> nat \<Rightarrow> bool" where
  "can_access_at_index b i \<longleftrightarrow> boffset b + i < length (content b)"

definition buffer_at :: "parse_buffer \<Rightarrow> nat \<Rightarrow> char" where
  "buffer_at b i = content b ! (boffset b + i)"

definition at_char :: "parse_buffer \<Rightarrow> char \<Rightarrow> bool" where
  "at_char b c \<longleftrightarrow> can_access_at_index b 0 \<and> buffer_at b 0 = c"

definition at_text :: "parse_buffer \<Rightarrow> string \<Rightarrow> bool" where
  "at_text b s \<longleftrightarrow> can_read b (length s) \<and> take (length s) (drop (boffset b) (content b)) = s"

definition move :: "parse_buffer \<Rightarrow> nat \<Rightarrow> parse_buffer" where
  "move b n = b\<lparr>boffset := boffset b + n\<rparr>"

definition step_back :: "parse_buffer \<Rightarrow> parse_buffer" where
  "step_back b = b\<lparr>boffset := boffset b - 1\<rparr>"

definition is_space :: "char \<Rightarrow> bool" where
  "is_space c \<longleftrightarrow> of_char c \<le> (32 :: nat)"

definition buffer_skip_whitespace :: "parse_buffer \<Rightarrow> parse_buffer" where
  "buffer_skip_whitespace b =
     (if \<not> can_access_at_index b 0 then b
      else let n = boffset b + length (takeWhile is_space (drop (boffset b) (content b)))
           in b\<lparr>boffset := if n = length (content b) then n - 1 else n\<rparr>)"

definition skip_utf8_bom :: "parse_buffer \<Rightarrow> parse_buffer" where
  "skip_utf8_bom b =
     (if can_access_at_index b 4 \<and>
         take 3 (drop (boffset b) (content b)) = [CHR 0xEF, CHR 0xBB, CHR 0xBF]
      then move b 3 else b)"

section \<open>Numbers\<close>

definition is_number_char :: "char \<Rightarrow> bool" where
  "is_number_char c \<longleftrightarrow> is_digit c \<or> c \<in> set ''+-eE.''"

definition parse_number :: "cJSON \<Rightarrow> parse_buffer \<Rightarrow> cJSON parsed" where
  "parse_number it b =
     (let number_c_string = takeWhile is_number_char (take 63 (drop (boffset b) (content b)))
      in case strtod number_c_string of (number, n) \<Rightarrow>
        if n = 0 then reject b
        else accept (Item cJSON_Number (valuestring it) (saturate number) number (item_string it) (child it))
               (move b n))"

section \<open>Strings\<close>

definition hex_digit :: "char \<Rightarrow> nat option" where
  "hex_digit c =
     (let n = of_char c
      in if 48 \<le> n \<and> n \<le> 57 then Some (n - 48)
         else if 65 \<le> n \<and> n \<le> 70 then Some (10 + n - 65)
         else if 97 \<le> n \<and> n \<le> 102 then Some (10 + n - 97)
         else None)"

primrec hex4_loop :: "u32 \<Rightarrow> string \<Rightarrow> u32" where
  "hex4_loop h [] = h"
| "hex4_loop h (c # cs) =
     (case hex_digit c of
        None \<Rightarrow> 0
      | Some v \<Rightarrow> hex4_loop (let h' = h + of_nat v in if cs = [] then h' else push_bit 4 h') cs)"

definition parse_hex4 :: "string \<Rightarrow> u32" where
  "parse_hex4 input = hex4_loop 0 (take 4 input)"

text \<open>
  The bytes of a code point: those after the first take six bits each, from the last one on;
  the first holds what is left and the mark of the length.
\<close>

primrec utf8_rest :: "nat \<Rightarrow> u64 \<Rightarrow> string \<Rightarrow> u64 \<times> string" where
  "utf8_rest 0 codepoint out = (codepoint, out)"
| "utf8_rest (Suc n) codepoint out =
     utf8_rest n (drop_bit 6 codepoint) (char_of (unat ((codepoint OR 0x80) AND 0xBF)) # out)"

definition utf8_encode :: "u64 \<Rightarrow> string option" where
  "utf8_encode codepoint =
     (let enc = (\<lambda>n first_byte_mark. case utf8_rest n codepoint [] of (c, out) \<Rightarrow>
                   Some (char_of (unat ((c OR first_byte_mark) AND 0xFF)) # out))
      in if codepoint < 0x80 then Some [char_of (unat (codepoint AND 0x7F))]
         else if codepoint < 0x800 then enc 1 0xC0
         else if codepoint < 0x10000 then enc 2 0xE0
         else if codepoint \<le> 0x10FFFF then enc 3 0xF0
         else None)"

text \<open>The text runs from the backslash to the end of the string; the length read is returned.\<close>

definition utf16_literal_to_utf8 :: "string \<Rightarrow> (string \<times> nat) option" where
  "utf16_literal_to_utf8 s =
     (if length s < 6 then None
      else let first_code = parse_hex4 (drop 2 s)
           in if 0xDC00 \<le> first_code \<and> first_code \<le> 0xDFFF then None
              else if 0xD800 \<le> first_code \<and> first_code \<le> 0xDBFF then
                (let second_sequence = drop 6 s
                 in if length second_sequence < 6 then None
                    else if second_sequence ! 0 \<noteq> CHR 0x5C \<or> second_sequence ! 1 \<noteq> CHR ''u'' then None
                    else let second_code = parse_hex4 (drop 2 second_sequence)
                         in if second_code < 0xDC00 \<or> 0xDFFF < second_code then None
                            else map_option (\<lambda>out. (out, 12))
                                   (utf8_encode (0x10000 +
                                      (push_bit 10 (ucast (first_code AND 0x3FF)) OR ucast (second_code AND 0x3FF)))))
              else map_option (\<lambda>out. (out, 6)) (utf8_encode (ucast first_code)))"

text \<open>The length of the text up to the closing quote; an escaped character is passed over.\<close>

fun quoted_length :: "string \<Rightarrow> nat option" where
  "quoted_length [] = None"
| "quoted_length (c # s) =
     (if c = CHR 0x22 then Some 0
      else if c = CHR 0x5C then
        (case s of [] \<Rightarrow> None | _ # t \<Rightarrow> map_option (\<lambda>n. n + 2) (quoted_length t))
      else map_option Suc (quoted_length s))"

text \<open>
  One escape sequence of the text \<open>t\<close> at \<open>p\<close>, in a string that ends at \<open>e\<close>: what it
  stands for and its length.
\<close>

definition escape_sequence :: "string \<Rightarrow> nat \<Rightarrow> nat \<Rightarrow> (string \<times> nat) option" where
  "escape_sequence t p e =
     (let c = t ! (p + 1)
      in if c = CHR ''b'' then Some ([CHR 0x08], 2)
         else if c = CHR ''f'' then Some ([CHR 0x0C], 2)
         else if c = CHR ''n'' then Some ([CHR 0x0A], 2)
         else if c = CHR ''r'' then Some ([CHR 0x0D], 2)
         else if c = CHR ''t'' then Some ([CHR 0x09], 2)
         else if c = CHR 0x22 \<or> c = CHR 0x5C \<or> c = CHR ''/'' then Some ([c], 2)
         else if c = CHR ''u'' then utf16_literal_to_utf8 (take (e - p) (drop p t))
         else None)"

lemma utf16_length:
  assumes "utf16_literal_to_utf8 s = Some (x, n)"
  shows "2 \<le> n"
proof -
  let ?c = "parse_hex4 (drop 2 s)" and ?d = "parse_hex4 (drop 2 (drop 6 s))"
  obtain r6 r12 where "utf16_literal_to_utf8 s = (if length s < 6 then None
      else if 0xDC00 \<le> ?c \<and> ?c \<le> 0xDFFF then None
      else if 0xD800 \<le> ?c \<and> ?c \<le> 0xDBFF then
        (if length (drop 6 s) < 6 then None
         else if drop 6 s ! 0 \<noteq> CHR 0x5C \<or> drop 6 s ! 1 \<noteq> CHR ''u'' then None
         else if ?d < 0xDC00 \<or> 0xDFFF < ?d then None
         else map_option (\<lambda>out. (out, 12)) r12)
      else map_option (\<lambda>out. (out, 6)) r6)"
    unfolding utf16_literal_to_utf8_def Let_def by blast
  with assms show ?thesis by (auto split: if_splits)
qed

lemma escape_sequence_length: "escape_sequence t p e = Some (x, n) \<Longrightarrow> 2 \<le> n"
  by (simp add: escape_sequence_def Let_def split: if_splits) (erule utf16_length)

function unescape :: "string \<Rightarrow> nat \<Rightarrow> nat \<Rightarrow> string \<Rightarrow> string option \<times> nat" where
  "unescape t p e out =
     (if e \<le> p then (Some out, p)
      else if t ! p \<noteq> CHR 0x5C then unescape t (p + 1) e (out @ [t ! p])
      else case escape_sequence t p e of
        None \<Rightarrow> (None, p)
      | Some (x, n) \<Rightarrow> unescape t (p + n) e (out @ x))"
  by pat_completeness auto

termination
  by (relation "measure (\<lambda>(t, p, e, out). e - p)") (auto dest: escape_sequence_length)

declare unescape.simps [simp del]

text \<open>A C string ends at its first zero.\<close>

definition c_string :: "string \<Rightarrow> string" where
  "c_string s = takeWhile (\<lambda>c. c \<noteq> CHR 0x00) s"

definition parse_string :: "cJSON \<Rightarrow> parse_buffer \<Rightarrow> cJSON parsed" where
  "parse_string it b =
     (let p = boffset b + 1
      in if \<not> can_access_at_index b 0 then Some (Inl MemoryFault)
         else if buffer_at b 0 \<noteq> CHR 0x22 then reject (b\<lparr>boffset := p\<rparr>)
         else case quoted_length (drop p (content b)) of
           None \<Rightarrow> reject (b\<lparr>boffset := p\<rparr>)
         | Some n \<Rightarrow>
             (case unescape (content b) p (p + n) [] of
                (None, q) \<Rightarrow> reject (b\<lparr>boffset := q\<rparr>)
              | (Some output, _) \<Rightarrow>
                  accept (Item cJSON_String (Some (c_string output)) (valueint it) (valuedouble it)
                            (item_string it) (child it))
                    (b\<lparr>boffset := p + n + 1\<rparr>)))"

section \<open>Values, arrays and objects\<close>

definition CJSON_NESTING_LIMIT :: nat where "CJSON_NESTING_LIMIT = 1000"

text \<open>
  \<open>parse_value\<close>, \<open>parse_array\<close> and \<open>parse_object\<close> call each other. The loops over the
  elements and members take the parser of a value as an argument; \<open>parse_value\<close> has the
  number of nested calls it may make as fuel, \<open>None\<close> when it is used up.
\<close>

type_synonym value_parser = "cJSON \<Rightarrow> parse_buffer \<Rightarrow> cJSON parsed"

partial_function (option) array_loop ::
    "value_parser \<Rightarrow> cJSON list \<Rightarrow> parse_buffer \<Rightarrow> cJSON list parsed" where
  "array_loop pv items b =
     parse_then (pv cJSON_New_Item (buffer_skip_whitespace (move b 1))) (\<lambda>x b1.
       let b2 = buffer_skip_whitespace b1
       in if at_char b2 (CHR '','') then array_loop pv (items @ [x]) b2
          else accept (items @ [x]) b2)"

definition close_list :: "cJSON_Type \<Rightarrow> cJSON \<Rightarrow> cJSON list \<Rightarrow> parse_buffer \<Rightarrow> cJSON parsed" where
  "close_list t it items b =
     accept (Item t (valuestring it) (valueint it) (valuedouble it) (item_string it) items)
       (b\<lparr>boffset := boffset b + 1, depth := depth b - 1\<rparr>)"

definition parse_array :: "value_parser \<Rightarrow> cJSON \<Rightarrow> parse_buffer \<Rightarrow> cJSON parsed" where
  "parse_array pv it b0 =
     (if CJSON_NESTING_LIMIT \<le> depth b0 then reject b0
      else let b = b0\<lparr>depth := depth b0 + 1\<rparr>
      in if \<not> can_access_at_index b 0 then Some (Inl MemoryFault)
      else if buffer_at b 0 \<noteq> CHR ''['' then reject b
      else let b1 = buffer_skip_whitespace (move b 1)
      in if at_char b1 (CHR '']'') then close_list cJSON_Array it [] b1
      else if \<not> can_access_at_index b1 0 then reject (step_back b1)
      else parse_then (array_loop pv [] (step_back b1)) (\<lambda>items b2.
        if \<not> at_char b2 (CHR '']'') then reject b2 else close_list cJSON_Array it items b2))"

definition set_name :: "cJSON \<Rightarrow> cJSON" where
  "set_name it = Item (item_type it) None (valueint it) (valuedouble it) (valuestring it) (child it)"

partial_function (option) object_loop ::
    "value_parser \<Rightarrow> cJSON list \<Rightarrow> parse_buffer \<Rightarrow> cJSON list parsed" where
  "object_loop pv items b =
     parse_then (parse_string cJSON_New_Item (buffer_skip_whitespace (move b 1))) (\<lambda>x b1.
       let b2 = buffer_skip_whitespace b1
       in if \<not> at_char b2 (CHR '':'') then reject b2
          else parse_then (pv (set_name x) (buffer_skip_whitespace (move b2 1))) (\<lambda>y b3.
            let b4 = buffer_skip_whitespace b3
            in if at_char b4 (CHR '','') then object_loop pv (items @ [y]) b4
               else accept (items @ [y]) b4))"

definition parse_object :: "value_parser \<Rightarrow> cJSON \<Rightarrow> parse_buffer \<Rightarrow> cJSON parsed" where
  "parse_object pv it b0 =
     (if CJSON_NESTING_LIMIT \<le> depth b0 then reject b0
      else let b = b0\<lparr>depth := depth b0 + 1\<rparr>
      in if \<not> at_char b (CHR ''{'') then reject b
      else let b1 = buffer_skip_whitespace (move b 1)
      in if at_char b1 (CHR ''}'') then close_list cJSON_Object it [] b1
      else if \<not> can_access_at_index b1 0 then reject (step_back b1)
      else parse_then (object_loop pv [] (step_back b1)) (\<lambda>items b2.
        if \<not> at_char b2 (CHR ''}'') then reject b2 else close_list cJSON_Object it items b2))"

definition value_step :: "value_parser \<Rightarrow> value_parser" where
  "value_step pv it b =
     (if at_text b ''null'' then
        accept (Item cJSON_NULL (valuestring it) (valueint it) (valuedouble it) (item_string it) (child it)) (move b 4)
      else if at_text b ''false'' then
        accept (Item cJSON_False (valuestring it) (valueint it) (valuedouble it) (item_string it) (child it)) (move b 5)
      else if at_text b ''true'' then
        accept (Item cJSON_True (valuestring it) 1 (valuedouble it) (item_string it) (child it)) (move b 4)
      else if at_char b (CHR 0x22) then parse_string it b
      else if can_access_at_index b 0 \<and> (buffer_at b 0 = CHR ''-'' \<or> is_digit (buffer_at b 0))
        then parse_number it b
      else if at_char b (CHR ''['') then parse_array pv it b
      else if at_char b (CHR ''{'') then parse_object pv it b
      else reject b)"

primrec parse_value :: "nat \<Rightarrow> value_parser" where
  "parse_value 0 = (\<lambda>it b. None)"
| "parse_value (Suc n) = value_step (parse_value n)"

text \<open>
  The whole text. On success the result is the item and the position behind it; on failure
  it is the position of the error. The nesting limit bounds the nested calls.
\<close>

definition cJSON_ParseWithLengthOpts :: "string \<Rightarrow> bool \<Rightarrow> (cJSON option \<times> nat) result option" where
  "cJSON_ParseWithLengthOpts v require_null_terminated =
     (let buffer = \<lparr>content = v, boffset = 0, depth = 0\<rparr>;
          fail = (\<lambda>b. if boffset b < length v then boffset b else length v - 1)
      in if v = [] then Some (Inr (None, 0))
         else map_option (map_sum id (\<lambda>(r, b).
             case r of
               None \<Rightarrow> (None, fail b)
             | Some item \<Rightarrow>
                 (if require_null_terminated then
                    (let b1 = buffer_skip_whitespace b
                     in if length v \<le> boffset b1 \<or> buffer_at b1 0 \<noteq> CHR 0x00 then (None, fail b1)
                        else (Some item, boffset b1))
                  else (Some item, boffset b))))
           (parse_value (CJSON_NESTING_LIMIT + 1) cJSON_New_Item (buffer_skip_whitespace (skip_utf8_bom buffer))))"

text \<open>\<open>value\<close> is an array of characters with a zero in it.\<close>

definition cJSON_ParseWithOpts :: "string \<Rightarrow> bool \<Rightarrow> (cJSON option \<times> nat) result option" where
  "cJSON_ParseWithOpts v require_null_terminated =
     cJSON_ParseWithLengthOpts (c_string v @ [CHR 0x00]) require_null_terminated"

definition cJSON_Parse :: "string \<Rightarrow> cJSON option result option" where
  "cJSON_Parse v = map_option (map_sum id fst) (cJSON_ParseWithOpts v False)"

section \<open>Printing\<close>

definition compare_double :: "double \<Rightarrow> double \<Rightarrow> bool" where
  "compare_double a b =
     (let maxVal = (if \<not> le_double (fabs a) (fabs b) then fabs a else fabs b)
      in le_double (fabs (minus_double a b)) (times_double maxVal (Finite (1 / 2 ^ 52))))"

definition print_number :: "cJSON \<Rightarrow> string option" where
  "print_number it =
     (let number_buffer =
        (case valuedouble it of
           Finite x \<Rightarrow>
             (if Finite x = of_int_double (valueint it) then format_d (valueint it)
              else let s = format_g 15 x
                   in case strtod s of (test, n) \<Rightarrow>
                     if n = 0 \<or> \<not> compare_double test (Finite x) then format_g 17 x else s)
         | _ \<Rightarrow> ''null'')
      in if 25 < length number_buffer then None else Some number_buffer)"

definition hex_char :: "nat \<Rightarrow> char" where
  "hex_char n = char_of (if n < 10 then 48 + n else 87 + n)"

definition escape :: "char \<Rightarrow> string" where
  "escape c =
     (if 31 < (of_char c :: nat) \<and> c \<noteq> CHR 0x22 \<and> c \<noteq> CHR 0x5C then [c]
      else CHR 0x5C #
        (if c = CHR 0x5C then [CHR 0x5C]
         else if c = CHR 0x22 then [CHR 0x22]
         else if c = CHR 0x08 then ''b''
         else if c = CHR 0x0C then ''f''
         else if c = CHR 0x0A then ''n''
         else if c = CHR 0x0D then ''r''
         else if c = CHR 0x09 then ''t''
         else ''u00'' @ [hex_char (of_char c div 16), hex_char (of_char c mod 16)]))"

definition print_string_ptr :: "string option \<Rightarrow> string" where
  "print_string_ptr input =
     [CHR 0x22] @ (case input of None \<Rightarrow> [] | Some s \<Rightarrow> concat (map escape s)) @ [CHR 0x22]"

fun print_value :: "bool \<Rightarrow> nat \<Rightarrow> cJSON \<Rightarrow> string option"
  and print_array :: "bool \<Rightarrow> nat \<Rightarrow> cJSON list \<Rightarrow> string option"
  and print_object :: "bool \<Rightarrow> nat \<Rightarrow> cJSON list \<Rightarrow> string option" where
  "print_value format d (Item t v i x n cs) =
     (case t of
        cJSON_NULL \<Rightarrow> Some ''null''
      | cJSON_False \<Rightarrow> Some ''false''
      | cJSON_True \<Rightarrow> Some ''true''
      | cJSON_Number \<Rightarrow> print_number (Item t v i x n cs)
      | cJSON_Raw \<Rightarrow> v
      | cJSON_String \<Rightarrow> Some (print_string_ptr v)
      | cJSON_Array \<Rightarrow> map_option (\<lambda>s. ''['' @ s @ '']'') (print_array format (d + 1) cs)
      | cJSON_Object \<Rightarrow>
          map_option (\<lambda>s. ''{'' @ (if format then [CHR 0x0A] else []) @ s @
                            (if format then replicate d (CHR 0x09) else []) @ ''}'')
            (print_object format (d + 1) cs)
      | cJSON_Invalid \<Rightarrow> None)"
| "print_array format d [] = Some []"
| "print_array format d (x # xs) =
     Option.bind (print_value format d x) (\<lambda>s.
       map_option (\<lambda>rest. s @ (if xs = [] then [] else if format then '', '' else '','') @ rest)
         (print_array format d xs))"
| "print_object format d [] = Some []"
| "print_object format d (x # xs) =
     Option.bind (print_value format d x) (\<lambda>s.
       map_option (\<lambda>rest.
           (if format then replicate d (CHR 0x09) else []) @ print_string_ptr (item_string x) @
           '':'' @ (if format then [CHR 0x09] else []) @ s @ (if xs = [] then [] else '','') @
           (if format then [CHR 0x0A] else []) @ rest)
         (print_object format d xs))"

definition cJSON_Print :: "cJSON \<Rightarrow> string option" where
  "cJSON_Print it = print_value True 0 it"

section \<open>Members of an object\<close>

definition tolower :: "char \<Rightarrow> char" where
  "tolower c = (if 65 \<le> (of_char c :: nat) \<and> of_char c \<le> (90 :: nat) then char_of (of_char c + (32 :: nat)) else c)"

definition case_insensitive_eq :: "string \<Rightarrow> string \<Rightarrow> bool" where
  "case_insensitive_eq s t \<longleftrightarrow> map tolower s = map tolower t"

text \<open>The index of the member stands for the pointer to it.\<close>

fun get_object_item :: "cJSON list \<Rightarrow> string \<Rightarrow> bool \<Rightarrow> nat option" where
  "get_object_item [] name case_sensitive = None"
| "get_object_item (x # xs) name case_sensitive =
     (case item_string x of
        None \<Rightarrow> (if case_sensitive then None else map_option Suc (get_object_item xs name case_sensitive))
      | Some s \<Rightarrow>
          if (if case_sensitive then name = s else case_insensitive_eq name s) then Some 0
          else map_option Suc (get_object_item xs name case_sensitive))"

text \<open>Whether a member was replaced, and the object.\<close>

definition replace_item_in_object :: "cJSON \<Rightarrow> string \<Rightarrow> cJSON \<Rightarrow> bool \<Rightarrow> bool \<times> cJSON" where
  "replace_item_in_object object name replacement case_sensitive =
     (let r = Item (item_type replacement) (valuestring replacement) (valueint replacement)
                (valuedouble replacement) (Some name) (child replacement)
      in case get_object_item (child object) name case_sensitive of
           None \<Rightarrow> (False, object)
         | Some i \<Rightarrow>
             (True, Item (item_type object) (valuestring object) (valueint object) (valuedouble object)
                      (item_string object) ((child object)[i := r])))"

definition cJSON_ReplaceItemInObject :: "cJSON \<Rightarrow> string \<Rightarrow> cJSON \<Rightarrow> bool \<times> cJSON" where
  "cJSON_ReplaceItemInObject object name newitem = replace_item_in_object object name newitem False"

end
