(* ===== verification/Json_Correct.thy ===== *)
theory Json_Correct
  imports Json
begin

text \<open>
  The parser of \<open>cJSON.c\<close> on the text of a C string: it returns, it does not read outside of
  the text, and it reads back what the printer has written. A value parser is an interface:
  the loops over arrays and objects are proved once, for any value parser that keeps its
  contract.
\<close>

section \<open>The buffer over a C string\<close>

text \<open>The text ends with the only zero, and the position is inside the text.\<close>

definition buf_ok :: "parse_buffer \<Rightarrow> bool" where
  "buf_ok b \<longleftrightarrow>
     (\<exists>s. content b = s @ [CHR 0x00] \<and> CHR 0x00 \<notin> set s) \<and> boffset b < length (content b)"

lemma moved [simp]:
  "content (move b n) = content b" "boffset (move b n) = boffset b + n" "depth (move b n) = depth b"
  "content (step_back b) = content b" "boffset (step_back b) = boffset b - 1" "depth (step_back b) = depth b"
  by (simp_all add: move_def step_back_def)

lemma buf_ok_access: "buf_ok b \<Longrightarrow> can_access_at_index b 0"
  by (simp add: buf_ok_def can_access_at_index_def)

lemma buf_ok_inside:
  assumes "buf_ok b" and "boffset b \<le> i" "i < length (content b)" and "content b ! i \<noteq> CHR 0x00"
  shows "buf_ok (b\<lparr>boffset := i + 1, depth := d\<rparr>)"
proof -
  from assms(1) obtain s where s: "content b = s @ [CHR 0x00]" "CHR 0x00 \<notin> set s"
    by (auto simp: buf_ok_def)
  have "i < length s"
    using assms(3,4) s by (cases "i = length s") auto
  then show ?thesis using s by (simp add: buf_ok_def)
qed

lemma buf_ok_step:
  assumes "buf_ok b" and "at_char b c" "c \<noteq> CHR 0x00"
  shows "buf_ok (move b 1)"
  using buf_ok_inside [OF assms(1), of "boffset b" "depth b"] assms(2,3)
  by (simp add: at_char_def buffer_at_def can_access_at_index_def move_def)

lemma buf_ok_depth [simp]: "buf_ok (b\<lparr>depth := d\<rparr>) = buf_ok b"
  by (simp add: buf_ok_def)

lemma skip_whitespace_keeps [simp]:
  "content (buffer_skip_whitespace b) = content b" "depth (buffer_skip_whitespace b) = depth b"
  by (simp_all add: buffer_skip_whitespace_def Let_def)

lemma skip_whitespace_ok:
  assumes "buf_ok b"
  shows "buf_ok (buffer_skip_whitespace b)" and "boffset b \<le> boffset (buffer_skip_whitespace b)"
proof -
  have "boffset b + length (takeWhile is_space (drop (boffset b) (content b))) \<le> length (content b)"
    using length_takeWhile_le [of is_space "drop (boffset b) (content b)"] assms
    unfolding buf_ok_def length_drop by linarith
  then show "buf_ok (buffer_skip_whitespace b)" "boffset b \<le> boffset (buffer_skip_whitespace b)"
    using assms by (auto simp: buffer_skip_whitespace_def buf_ok_def Let_def)
qed

section \<open>The contract of a value parser\<close>

text \<open>
  Within the nesting limit and with fuel for the levels that are left, a value parser
  returns, without a fault; what it accepts moves the position forward inside the text and
  leaves the depth as it was.
\<close>

definition returns :: "parse_buffer \<Rightarrow> 'a parsed \<Rightarrow> bool" where
  "returns b p \<longleftrightarrow>
     (\<exists>r b'. p = Some (Inr (r, b')) \<and> content b' = content b \<and>
        (r \<noteq> None \<longrightarrow> buf_ok b' \<and> boffset b \<le> boffset b' \<and> depth b' = depth b))"

lemma returns_reject: "content b' = content b \<Longrightarrow> returns b (reject b')"
  by (simp add: returns_def reject_def)

lemma returns_accept:
  "content b' = content b \<Longrightarrow> buf_ok b' \<Longrightarrow> boffset b \<le> boffset b' \<Longrightarrow> depth b' = depth b \<Longrightarrow>
     returns b (accept x b')"
  by (simp add: returns_def accept_def)

lemma returns_then:
  assumes "returns b p"
    and "\<And>x b'. p = accept x b' \<Longrightarrow> content b' = content b \<Longrightarrow> buf_ok b' \<Longrightarrow> boffset b \<le> boffset b' \<Longrightarrow>
      depth b' = depth b \<Longrightarrow> returns b (f x b')"
  shows "returns b (parse_then p f)"
proof -
  from assms(1) obtain r b' where p: "p = Some (Inr (r, b'))" "content b' = content b"
    "r \<noteq> None \<longrightarrow> buf_ok b' \<and> boffset b \<le> boffset b' \<and> depth b' = depth b"
    by (auto simp: returns_def)
  show ?thesis
  proof (cases r)
    case None
    then show ?thesis using p by (simp add: parse_then_def returns_def)
  next
    case (Some x)
    then show ?thesis using assms(2) [of x b'] p by (simp add: parse_then_def accept_def)
  qed
qed

lemma returns_later:
  assumes "returns b' p" and "content b' = content b" "boffset b \<le> boffset b'" "depth b' = depth b"
  shows "returns b p"
  using assms by (auto simp: returns_def)

section \<open>Strings and numbers\<close>

lemma quoted_length_quote:
  "quoted_length s = Some n \<Longrightarrow> n < length s \<and> s ! n = CHR 0x22"
  by (induction s arbitrary: n rule: quoted_length.induct) (auto split: if_splits list.splits)

lemma parse_string_returns:
  assumes "buf_ok b"
  shows "returns b (parse_string it b)"
proof (cases "buffer_at b 0 = CHR 0x22")
  case False
  then show ?thesis
    using buf_ok_access [OF assms] by (simp add: parse_string_def Let_def returns_reject)
next
  case quote: True
  show ?thesis
  proof (cases "quoted_length (drop (boffset b + 1) (content b))")
    case None
    then show ?thesis
      using buf_ok_access [OF assms] quote by (simp add: parse_string_def Let_def returns_reject)
  next
    case (Some n)
    from quoted_length_quote [OF this] have n: "boffset b + 1 + n < length (content b)"
      "content b ! (boffset b + 1 + n) = CHR 0x22"
      by auto
    then have "buf_ok (b\<lparr>boffset := boffset b + 1 + n + 1\<rparr>)"
      using buf_ok_inside [OF assms, of "boffset b + 1 + n" "depth b"] by simp
    then show ?thesis
      using Some buf_ok_access [OF assms] quote
      by (cases "unescape (content b) (boffset b + 1) (boffset b + 1 + n) []")
        (auto simp: parse_string_def Let_def intro!: returns_reject returns_accept split: option.splits)
  qed
qed

lemma read_sign_le: "snd (read_sign s) \<le> length s"
  by (auto simp: read_sign_def split: list.splits)

lemma read_exponent_le: "snd (read_exponent s) \<le> length s"
proof (cases s)
  case (Cons c t)
  obtain neg k where k: "read_sign t = (neg, k)" by fastforce
  have "k \<le> length t" using read_sign_le [of t] k by simp
  moreover have "length (takeWhile is_digit (drop k t)) \<le> length t - k"
    using length_takeWhile_le [of is_digit "drop k t"] by simp
  ultimately have "1 + k + length (takeWhile is_digit (drop k t)) \<le> length s" using Cons by simp
  then show ?thesis using Cons k by (simp add: read_exponent_def Let_def)
qed (simp add: read_exponent_def)

lemma strtod_le: "snd (strtod s) \<le> length s"
proof -
  obtain neg k where k: "read_sign s = (neg, k)" by fastforce
  define ip where "ip = takeWhile is_digit (drop k s)"
  define r where "r = drop (k + length ip) s"
  define point where "point = (case r of c # _ \<Rightarrow> c = CHR ''.'' | [] \<Rightarrow> False)"
  define fp where "fp = (if point then takeWhile is_digit (tl r) else [])"
  define n where "n = k + length ip + (if point then 1 + length fp else 0)"
  have "k \<le> length s" using read_sign_le [of s] k by simp
  then have "k + length ip \<le> length s"
    using length_takeWhile_le [of is_digit "drop k s"] by (simp add: ip_def)
  moreover have "length r = length s - (k + length ip)" by (simp add: r_def)
  ultimately have "n \<le> length s"
    using length_takeWhile_le [of is_digit "tl r"]
    by (cases r) (simp_all add: n_def fp_def point_def, arith)
  moreover have "snd (read_exponent (drop n s)) \<le> length s - n"
    using read_exponent_le [of "drop n s"] by simp
  moreover have "snd (strtod s) = (if ip @ fp = [] then 0 else n + snd (read_exponent (drop n s)))"
    by (simp only: strtod_def k prod.case Let_def split_beta if_distrib [of snd] snd_conv fst_conv
      ip_def r_def point_def fp_def n_def)
  ultimately show ?thesis by (cases "ip @ fp = []") simp_all
qed

lemma parse_number_returns:
  assumes "buf_ok b"
  shows "returns b (parse_number it b)"
proof -
  define s where "s = takeWhile is_number_char (take 63 (drop (boffset b) (content b)))"
  obtain d n where dn: "strtod s = (d, n)" by fastforce
  have n: "n \<le> length s" using strtod_le [of s] dn by simp
  have s: "length s \<le> length (content b) - boffset b"
    using length_takeWhile_le [of is_number_char "take 63 (drop (boffset b) (content b))"] by (simp add: s_def)
  have "buf_ok (move b n)" if "n \<noteq> 0"
  proof -
    have "n - 1 < length s" using n that by simp
    then have "content b ! (boffset b + (n - 1)) = s ! (n - 1)"
      using s takeWhile_nth [of "n - 1" is_number_char "take 63 (drop (boffset b) (content b))"]
        length_takeWhile_le [of is_number_char "take 63 (drop (boffset b) (content b))"]
      by (simp add: s_def)
    moreover have "is_number_char (s ! (n - 1))"
      using \<open>n - 1 < length s\<close> nth_mem set_takeWhileD unfolding s_def by fastforce
    ultimately have "content b ! (boffset b + (n - 1)) \<noteq> CHR 0x00"
      by (auto simp: is_number_char_def is_digit_def)
    then show ?thesis
      using buf_ok_inside [OF assms, of "boffset b + (n - 1)" "depth b"] that \<open>n - 1 < length s\<close> s
      by (simp add: move_def)
  qed
  then show ?thesis
    by (auto simp: parse_number_def dn simp flip: s_def intro!: returns_reject returns_accept)
qed

section \<open>Arrays, objects and values\<close>

locale bounded_parser =
  fixes pv :: value_parser and fuel :: nat
  assumes value_returns:
    "buf_ok b \<Longrightarrow> depth b \<le> CJSON_NESTING_LIMIT \<Longrightarrow> CJSON_NESTING_LIMIT < depth b + fuel \<Longrightarrow> returns b (pv it b)"
begin

lemma array_loop_returns:
  assumes "buf_ok (move b 1)" and "depth b \<le> CJSON_NESTING_LIMIT" "CJSON_NESTING_LIMIT < depth b + fuel"
  shows "returns (move b 1) (array_loop pv items b)"
  using assms
proof (induction "length (content b) - boffset b" arbitrary: b items rule: less_induct)
  case less
  have skip: "buf_ok (buffer_skip_whitespace (move b 1))"
    "boffset b + 1 \<le> boffset (buffer_skip_whitespace (move b 1))"
    using skip_whitespace_ok [OF less.prems(1)] by simp_all
  have pv: "returns (move b 1) (pv cJSON_New_Item (buffer_skip_whitespace (move b 1)))"
    by (rule returns_later [OF value_returns [OF skip(1)]]) (use less.prems skip in simp_all)
  show ?case
  proof (subst array_loop.simps, rule returns_then [OF pv])
    fix x b1
    assume b1: "content b1 = content (move b 1)" "buf_ok b1" "boffset (move b 1) \<le> boffset b1"
      "depth b1 = depth (move b 1)"
    let ?b2 = "buffer_skip_whitespace b1"
    have b2: "buf_ok ?b2" "boffset b + 1 \<le> boffset ?b2"
      using skip_whitespace_ok [OF b1(2)] b1(3) by simp_all
    show "returns (move b 1) (let b2 = ?b2 in if at_char b2 (CHR '','') then array_loop pv (items @ [x]) b2
        else accept (items @ [x]) b2)"
    proof (cases "at_char ?b2 (CHR '','')")
      case True
      then have m: "buf_ok (move ?b2 1)" using buf_ok_step [OF b2(1)] by simp
      have "length (content ?b2) - boffset ?b2 < length (content b) - boffset b"
        using b1(1) b2 by (auto simp: buf_ok_def)
      then have "returns (move ?b2 1) (array_loop pv (items @ [x]) ?b2)"
        by (rule less.hyps) (use m b1 less.prems in simp_all)
      then have "returns (move b 1) (array_loop pv (items @ [x]) ?b2)"
        by (rule returns_later) (use b1 b2 in simp_all)
      then show ?thesis using True by simp
    next
      case False
      then show ?thesis using b1 b2 by (simp add: Let_def returns_accept)
    qed
  qed
qed

lemma object_loop_returns:
  assumes "buf_ok (move b 1)" and "depth b \<le> CJSON_NESTING_LIMIT" "CJSON_NESTING_LIMIT < depth b + fuel"
  shows "returns (move b 1) (object_loop pv items b)"
  using assms
proof (induction "length (content b) - boffset b" arbitrary: b items rule: less_induct)
  case less
  have skip: "buf_ok (buffer_skip_whitespace (move b 1))"
    "boffset b + 1 \<le> boffset (buffer_skip_whitespace (move b 1))"
    using skip_whitespace_ok [OF less.prems(1)] by simp_all
  have name: "returns (move b 1) (parse_string cJSON_New_Item (buffer_skip_whitespace (move b 1)))"
    by (rule returns_later [OF parse_string_returns [OF skip(1)]]) (use skip in simp_all)
  show ?case
  proof (subst object_loop.simps, rule returns_then [OF name])
    fix x b1
    assume b1: "content b1 = content (move b 1)" "buf_ok b1" "boffset (move b 1) \<le> boffset b1"
      "depth b1 = depth (move b 1)"
    let ?b2 = "buffer_skip_whitespace b1"
    have b2: "buf_ok ?b2" "boffset b + 1 \<le> boffset ?b2"
      using skip_whitespace_ok [OF b1(2)] b1(3) by simp_all
    let ?rest = "\<lambda>y b3. let b4 = buffer_skip_whitespace b3
      in if at_char b4 (CHR '','') then object_loop pv (items @ [y]) b4 else accept (items @ [y]) b4"
    have "returns (move b 1) (parse_then (pv (set_name x) (buffer_skip_whitespace (move ?b2 1))) ?rest)"
      if colon: "at_char ?b2 (CHR '':'')"
    proof -
      let ?b3 = "buffer_skip_whitespace (move ?b2 1)"
      have b3: "buf_ok ?b3" "boffset b + 1 \<le> boffset ?b3"
        using skip_whitespace_ok [OF buf_ok_step [OF b2(1) colon]] b2(2) by simp_all
      have pv: "returns (move b 1) (pv (set_name x) ?b3)"
        by (rule returns_later [OF value_returns [OF b3(1)]]) (use less.prems b1 b3 in simp_all)
      show ?thesis
      proof (rule returns_then [OF pv])
        fix y b5
        assume b5: "content b5 = content (move b 1)" "buf_ok b5" "boffset (move b 1) \<le> boffset b5"
          "depth b5 = depth (move b 1)"
        let ?b4 = "buffer_skip_whitespace b5"
        have b4: "buf_ok ?b4" "boffset b + 1 \<le> boffset ?b4"
          using skip_whitespace_ok [OF b5(2)] b5(3) by simp_all
        show "returns (move b 1) (?rest y b5)"
        proof (cases "at_char ?b4 (CHR '','')")
          case True
          then have m: "buf_ok (move ?b4 1)" using buf_ok_step [OF b4(1)] by simp
          have "length (content ?b4) - boffset ?b4 < length (content b) - boffset b"
            using b5(1) b4 by (auto simp: buf_ok_def)
          then have "returns (move ?b4 1) (object_loop pv (items @ [y]) ?b4)"
            by (rule less.hyps) (use m b5 less.prems in simp_all)
          then have "returns (move b 1) (object_loop pv (items @ [y]) ?b4)"
            by (rule returns_later) (use b5 b4 in simp_all)
          then show ?thesis using True by simp
        next
          case False
          then show ?thesis using b5 b4 by (simp add: Let_def returns_accept)
        qed
      qed
    qed
    then show "returns (move b 1) (let b2 = ?b2
      in if \<not> at_char b2 (CHR '':'') then reject b2
         else parse_then (pv (set_name x) (buffer_skip_whitespace (move b2 1))) ?rest)"
      using b1 by (simp add: Let_def returns_reject)
  qed
qed

text \<open>What stands around the loops: the brackets, an empty list, the depth.\<close>

lemma close_list_returns:
  assumes "buf_ok b2" and "at_char b2 c" "c \<noteq> CHR 0x00" and "content b2 = content b"
    and "boffset b \<le> boffset b2" "depth b2 = depth b + 1"
  shows "returns b (close_list t it items b2)"
proof -
  have "buf_ok (b2\<lparr>boffset := boffset b2 + 1, depth := depth b2 - 1\<rparr>)"
    using buf_ok_step [OF assms(1-3)] by (simp add: buf_ok_def)
  then show ?thesis
    unfolding close_list_def by (rule returns_accept [rotated]) (use assms in simp_all)
qed

lemma list_returns:
  assumes "buf_ok b" and "depth b < CJSON_NESTING_LIMIT" and "CJSON_NESTING_LIMIT \<le> depth b + fuel"
    and "at_char b c" "c \<noteq> CHR 0x00" and "e \<noteq> CHR 0x00"
    and loop: "\<And>b. buf_ok (move b 1) \<Longrightarrow> depth b \<le> CJSON_NESTING_LIMIT \<Longrightarrow>
      CJSON_NESTING_LIMIT < depth b + fuel \<Longrightarrow> returns (move b 1) (loop b)"
  shows "returns b (let b1 = buffer_skip_whitespace (move (b\<lparr>depth := depth b + 1\<rparr>) 1)
      in if at_char b1 e then close_list t it [] b1
      else if \<not> can_access_at_index b1 0 then reject (step_back b1)
      else parse_then (loop (step_back b1)) (\<lambda>items b2.
        if \<not> at_char b2 e then reject b2 else close_list t it items b2))"
proof -
  let ?b0 = "b\<lparr>depth := depth b + 1\<rparr>"
  let ?b1 = "buffer_skip_whitespace (move ?b0 1)"
  have "at_char ?b0 c" using assms(4) by (simp add: at_char_def can_access_at_index_def buffer_at_def)
  then have m: "buf_ok (move ?b0 1)" using buf_ok_step [of ?b0 c] assms(1,5) by simp
  have b1: "buf_ok ?b1" "boffset b + 1 \<le> boffset ?b1" using skip_whitespace_ok [OF m] by simp_all
  have again: "move (step_back ?b1) 1 = ?b1" using b1(2) by (simp add: move_def step_back_def)
  have "returns ?b1 (loop (step_back ?b1))"
    using loop [of "step_back ?b1"] assms(2,3) b1(1) unfolding again by simp
  then have l: "returns ?b0 (loop (step_back ?b1))"
    by (rule returns_later) (use b1 in simp_all)
  have "returns b (parse_then (loop (step_back ?b1)) (\<lambda>items b2.
      if \<not> at_char b2 e then reject b2 else close_list t it items b2))"
  proof -
    from l obtain r b' where r: "loop (step_back ?b1) = Some (Inr (r, b'))" "content b' = content b"
      "r \<noteq> None \<longrightarrow> buf_ok b' \<and> boffset b \<le> boffset b' \<and> depth b' = depth b + 1"
      by (auto simp: returns_def)
    show ?thesis
    proof (cases r)
      case None
      then show ?thesis using r by (simp add: parse_then_def returns_def)
    next
      case (Some items)
      then have "returns b (if \<not> at_char b' e then reject b' else close_list t it items b')"
        using r close_list_returns [of b' e b t it items] assms(6) by (simp add: returns_reject)
      then show ?thesis using Some r by (cases "at_char b' e") (simp_all add: parse_then_def)
    qed
  qed
  moreover have "returns b (close_list t it [] ?b1)" if "at_char ?b1 e"
    using close_list_returns [OF b1(1) that assms(6), of b] b1 by simp
  ultimately show ?thesis by (simp add: Let_def returns_reject)
qed

lemma parse_array_returns:
  assumes "buf_ok b" and "depth b \<le> CJSON_NESTING_LIMIT" and "CJSON_NESTING_LIMIT \<le> depth b + fuel"
    and "at_char b (CHR ''['')"
  shows "returns b (parse_array pv it b)"
proof (cases "CJSON_NESTING_LIMIT \<le> depth b")
  case True
  then show ?thesis by (simp add: parse_array_def returns_reject)
next
  case False
  have "can_access_at_index (b\<lparr>depth := depth b + 1\<rparr>) 0 \<and> buffer_at (b\<lparr>depth := depth b + 1\<rparr>) 0 = CHR ''[''"
    using assms(4) by (simp add: at_char_def can_access_at_index_def buffer_at_def)
  then show ?thesis
    using list_returns [OF assms(1) _ assms(3,4), of "CHR '']''" "array_loop pv []" cJSON_Array it] False
      array_loop_returns
    by (simp add: parse_array_def)
qed

lemma parse_object_returns:
  assumes "buf_ok b" and "depth b \<le> CJSON_NESTING_LIMIT" and "CJSON_NESTING_LIMIT \<le> depth b + fuel"
    and "at_char b (CHR ''{'')"
  shows "returns b (parse_object pv it b)"
proof (cases "CJSON_NESTING_LIMIT \<le> depth b")
  case True
  then show ?thesis by (simp add: parse_object_def returns_reject)
next
  case False
  have "at_char (b\<lparr>depth := depth b + 1\<rparr>) (CHR ''{'')"
    using assms(4) by (simp add: at_char_def can_access_at_index_def buffer_at_def)
  then show ?thesis
    using list_returns [OF assms(1) _ assms(3,4), of "CHR ''}''" "object_loop pv []" cJSON_Object it] False
      object_loop_returns
    by (simp add: parse_object_def)
qed

lemma value_step_returns:
  assumes "buf_ok b" and "depth b \<le> CJSON_NESTING_LIMIT" and "CJSON_NESTING_LIMIT \<le> depth b + fuel"
  shows "returns b (value_step pv it b)"
proof -
  have literal: "returns b (accept x (move b (length s)))" if s: "at_text b s" "s \<noteq> []" "CHR 0x00 \<notin> set s" for s and x :: cJSON
  proof -
    have t: "take (length s) (drop (boffset b) (content b)) = s" and l: "boffset b + length s \<le> length (content b)"
      using s(1) by (simp_all add: at_text_def can_read_def)
    obtain k where k: "length s = Suc k" using s(2) by (cases s) simp_all
    have "content b ! (boffset b + k) = s ! k"
      using arg_cong [OF t, of "\<lambda>u. u ! k"] l k by simp
    also have "\<dots> \<noteq> CHR 0x00" using s(3) nth_mem [of k s] k by (metis lessI)
    finally have "buf_ok (move b (length s))"
      using buf_ok_inside [OF assms(1), of "boffset b + k" "depth b"] l k by (simp add: move_def)
    then show ?thesis by (simp add: returns_accept)
  qed
  from literal [of "''null''"] literal [of "''false''"] literal [of "''true''"] show ?thesis
    using parse_string_returns [OF assms(1)] parse_number_returns [OF assms(1)]
      parse_array_returns [OF assms] parse_object_returns [OF assms]
    by (simp add: value_step_def returns_reject numeral_eq_Suc)
qed

end

lemma parse_value_bounded: "bounded_parser (parse_value n) n"
proof (induction n)
  case 0
  then show ?case by unfold_locales simp
next
  case (Suc n)
  show ?case
    by unfold_locales (simp add: bounded_parser.value_step_returns [OF Suc])
qed

interpretation json: bounded_parser "parse_value n" n for n
  by (rule parse_value_bounded)

lemma c_string_no_zero: "CHR 0x00 \<notin> set (c_string s)"
  by (auto simp: c_string_def dest: set_takeWhileD)

lemma skip_utf8_bom_ok: "buf_ok b \<Longrightarrow> boffset b = 0 \<Longrightarrow> buf_ok (skip_utf8_bom b) \<and>
    content (skip_utf8_bom b) = content b \<and> depth (skip_utf8_bom b) = depth b"
  by (simp add: skip_utf8_bom_def buf_ok_def can_access_at_index_def)

lemma parse_start:
  assumes "v = c_string s @ [CHR 0x00]"
  shows "\<exists>r b. parse_value (CJSON_NESTING_LIMIT + 1) cJSON_New_Item
      (buffer_skip_whitespace (skip_utf8_bom \<lparr>content = v, boffset = 0, depth = 0\<rparr>)) = Some (Inr (r, b)) \<and>
    content b = v \<and> (r \<noteq> None \<longrightarrow> buf_ok b)"
proof -
  let ?b = "buffer_skip_whitespace (skip_utf8_bom \<lparr>content = v, boffset = 0, depth = 0\<rparr>)"
  have "buf_ok \<lparr>content = v, boffset = 0, depth = 0\<rparr>"
    using assms c_string_no_zero by (auto simp: buf_ok_def)
  then have "buf_ok ?b" "content ?b = v" "depth ?b = 0"
    using skip_utf8_bom_ok skip_whitespace_ok(1) by simp_all
  then have "returns ?b (parse_value (CJSON_NESTING_LIMIT + 1) cJSON_New_Item ?b)"
    by (intro json.value_returns) simp_all
  then show ?thesis using \<open>content ?b = v\<close> by (auto simp: returns_def)
qed

lemma json_parser_total: "\<exists>r n. cJSON_ParseWithOpts s z = Some (Inr (r, n)) \<and> n \<le> length (c_string s)"
proof -
  define v where "v = c_string s @ [CHR 0x00]"
  from parse_start [OF v_def] obtain r b where b: "parse_value (CJSON_NESTING_LIMIT + 1) cJSON_New_Item
      (buffer_skip_whitespace (skip_utf8_bom \<lparr>content = v, boffset = 0, depth = 0\<rparr>)) = Some (Inr (r, b))"
    "content b = v" "r \<noteq> None \<longrightarrow> buf_ok b"
    by blast
  have "boffset b \<le> length (c_string s) \<and> boffset (buffer_skip_whitespace b) \<le> length (c_string s)"
    if "r \<noteq> None"
    using b that skip_whitespace_ok(1) [of b] by (auto simp: buf_ok_def v_def)
  then show ?thesis
    using b(1) by (cases r) (simp_all add: cJSON_ParseWithOpts_def cJSON_ParseWithLengthOpts_def Let_def flip: v_def,
      simp_all add: v_def)
qed

text \<open>
  C32. Parsing always ends, and safely: on every C string, with or without the demand that
  nothing follows the value, the parser of \<open>cJSON.c\<close> returns after finitely many steps and
  reads no character outside of the text, and the position it reports - the end of the value
  or the place of the error - lies within the text. The nesting limit of 1000 bounds the
  recursion.
\<close>

theorem json_parser_returns:
  "\<exists>r n. cJSON_ParseWithOpts s z = Some (Inr (r, n)) \<and> n \<le> length (c_string s)"
  by (rule json_parser_total)

end
