(* ===== verification/Json_Roundtrip.thy ===== *)
theory Json_Roundtrip
  imports Json_Correct
begin

text \<open>
  What \<open>cJSON_Print\<close> writes, \<open>cJSON_Parse\<close> reads back. A buffer is seen as a cursor: the text
  before the position and the text behind it.
\<close>

section \<open>The buffer as a cursor\<close>

definition cursor :: "string \<Rightarrow> string \<Rightarrow> nat \<Rightarrow> parse_buffer" where
  "cursor pre post d = \<lparr>content = pre @ post, boffset = length pre, depth = d\<rparr>"

lemma move_cursor: "move (cursor pre (x @ post) d) (length x) = cursor (pre @ x) post d"
  by (simp add: cursor_def move_def)

lemma cursor_simps [simp]:
  "move (cursor pre (c # post) d) (Suc 0) = cursor (pre @ [c]) post d"
  "step_back (cursor (pre @ [c]) post d) = cursor pre (c # post) d"
  "at_char (cursor pre (c # post) d) c' \<longleftrightarrow> c = c'"
  "can_access_at_index (cursor pre (c # post) d) 0"
  "buffer_at (cursor pre (c # post) d) 0 = c"
  "(cursor pre post d)\<lparr>depth := e\<rparr> = cursor pre post e"
  "depth (cursor pre post d) = d"
  by (simp_all add: cursor_def move_def step_back_def at_char_def can_access_at_index_def buffer_at_def)

lemma at_text_cursor: "at_text (cursor pre post d) s \<longleftrightarrow> take (length s) post = s"
  by (auto simp: at_text_def can_read_def cursor_def dest: arg_cong [where f = length])

lemma skip_cursor:
  assumes "\<forall>c\<in>set ws. is_space c" and "\<not> is_space c"
  shows "buffer_skip_whitespace (cursor pre (ws @ c # post) d) = cursor (pre @ ws) (c # post) d"
proof -
  have "takeWhile is_space (ws @ c # post) = ws" using assms by (simp add: takeWhile_append2)
  then show ?thesis
    by (simp add: buffer_skip_whitespace_def cursor_def can_access_at_index_def Let_def)
qed

lemma skip_cursor_here: "\<not> is_space c \<Longrightarrow> buffer_skip_whitespace (cursor pre (c # post) d) = cursor pre (c # post) d"
  using skip_cursor [of "[]"] by simp

lemma parse_then_accept [simp]: "parse_then (accept x b) f = f x b"
  by (simp add: parse_then_def accept_def)

section \<open>Strings\<close>

lemma hex_digit_char: "n < 16 \<Longrightarrow> hex_digit (hex_char n) = Some n"
  by (auto simp: hex_digit_def hex_char_def Let_def)

lemma hex_char_plain: "n < 16 \<Longrightarrow> hex_char n \<noteq> CHR 0x22 \<and> hex_char n \<noteq> CHR 0x5C"
  using hex_digit_char [of n] by (auto simp: hex_digit_def)

text \<open>The three forms of a printed character.\<close>

definition short_escapes :: "(char \<times> char) list" where
  "short_escapes =
     [(CHR 0x5C, CHR 0x5C), (CHR 0x22, CHR 0x22), (CHR ''b'', CHR 0x08), (CHR ''f'', CHR 0x0C),
      (CHR ''n'', CHR 0x0A), (CHR ''r'', CHR 0x0D), (CHR ''t'', CHR 0x09)]"

lemma escape_cases:
  obtains (plain) "escape c = [c]" "c \<noteq> CHR 0x22" "c \<noteq> CHR 0x5C"
  | (short) y where "escape c = [CHR 0x5C, y]" "(y, c) \<in> set short_escapes"
  | (hex) "escape c = CHR 0x5C # ''u00'' @ [hex_char (of_char c div 16), hex_char (of_char c mod 16)]"
      "of_char c < (32 :: nat)"
proof (cases "c \<in> snd ` set short_escapes")
  case True
  then show ?thesis
    by (simp add: short_escapes_def, elim disjE)
      (rule short, simp add: escape_def, simp add: short_escapes_def)+
next
  case False
  then have c: "c \<noteq> CHR 0x22" "c \<noteq> CHR 0x5C" "c \<noteq> CHR 0x08" "c \<noteq> CHR 0x0C" "c \<noteq> CHR 0x0A" "c \<noteq> CHR 0x0D"
    "c \<noteq> CHR 0x09"
    by (simp_all add: short_escapes_def)
  show ?thesis
  proof (cases "31 < (of_char c :: nat)")
    case True
    with c show ?thesis by (intro plain) (simp_all add: escape_def)
  next
    case False
    with c show ?thesis by (intro hex) (simp_all add: escape_def)
  qed
qed

lemma escape_ends:
  "quoted_length (escape c @ s) = map_option (\<lambda>n. n + length (escape c)) (quoted_length s)"
proof (cases c rule: escape_cases)
  case hex
  have "hex_char (of_char c mod 16) \<noteq> CHR 0x22 \<and> hex_char (of_char c mod 16) \<noteq> CHR 0x5C"
    by (rule hex_char_plain) simp
  moreover have "hex_char (of_char c div 16) \<noteq> CHR 0x22 \<and> hex_char (of_char c div 16) \<noteq> CHR 0x5C"
    by (rule hex_char_plain) (use hex(2) in simp)
  ultimately show ?thesis unfolding hex(1) by (cases "quoted_length s") simp_all
qed (cases "quoted_length s"; simp)+

lemma escaped_length:
  "quoted_length (concat (map escape s) @ CHR 0x22 # post) = Some (length (concat (map escape s)))"
  by (induction s) (simp_all add: escape_ends)

lemma hex4_small:
  assumes "n < 32"
  shows "parse_hex4 (''00'' @ [hex_char (n div 16), hex_char (n mod 16)] @ rest) = of_nat n"
proof -
  have "of_nat n = (of_nat (n div 16 * 16 + n mod 16) :: u32)" by simp
  also have "\<dots> = of_nat (n div 16) * 16 + of_nat (n mod 16)" by (simp only: of_nat_add of_nat_mult of_nat_numeral)
  finally have n: "of_nat (n div 16) * 16 + of_nat (n mod 16) = (of_nat n :: u32)" by simp
  have "hex_digit (CHR ''0'') = Some 0" by (simp add: hex_digit_def)
  moreover have "hex_digit (hex_char (n div 16)) = Some (n div 16)" using assms by (intro hex_digit_char) simp
  moreover have "hex_digit (hex_char (n mod 16)) = Some (n mod 16)" by (intro hex_digit_char) simp
  ultimately show ?thesis
    by (simp add: parse_hex4_def push_bit_eq_mult n)
qed

lemma utf8_small:
  assumes "n < 32"
  shows "utf8_encode (ucast (of_nat n :: u32)) = Some [char_of n]"
proof -
  have u: "(ucast (of_nat n :: u32) :: u64) = of_nat n"
    using assms by (simp add: unsigned_of_nat take_bit_nat_eq_self)
  have un: "unat (of_nat n :: u64) = n" using assms by (simp add: unat_of_nat)
  then have "(of_nat n :: u64) < 0x80" using assms by (simp add: word_less_nat_alt)
  moreover have "unat ((of_nat n :: u64) AND 0x7F) = n"
  proof -
    have "(of_nat n :: u64) AND 0x7F = take_bit 7 (of_nat n)" by (simp add: take_bit_eq_mask mask_eq_exp_minus_1)
    then have "unat ((of_nat n :: u64) AND 0x7F) = n mod 128"
      by (simp only: unsigned_take_bit_eq un) (simp add: take_bit_eq_mod)
    then show ?thesis using assms by simp
  qed
  ultimately show ?thesis by (simp add: utf8_encode_def u)
qed

lemma u32_small: "n < 32 \<Longrightarrow> \<not> 0xDC00 \<le> (of_nat n :: u32) \<and> \<not> 0xD800 \<le> (of_nat n :: u32)"
  by (simp add: word_le_nat_alt unat_of_nat)

lemma utf16_small:
  assumes "of_char c < (32 :: nat)"
  shows "utf16_literal_to_utf8 (CHR 0x5C # ''u00'' @ [hex_char (of_char c div 16), hex_char (of_char c mod 16)] @ rest) =
    Some ([c], 6)"
proof -
  have "parse_hex4 (drop 2 (CHR 0x5C # ''u00'' @ [hex_char (of_char c div 16), hex_char (of_char c mod 16)] @ rest)) =
    of_nat (of_char c)"
    using hex4_small [OF assms, of rest] by simp
  moreover have "\<not> 0xDC00 \<le> (of_nat (of_char c) :: u32)" "\<not> 0xD800 \<le> (of_nat (of_char c) :: u32)"
    using u32_small [OF assms] by blast+
  ultimately show ?thesis
    using utf8_small [OF assms] by (simp add: utf16_literal_to_utf8_def Let_def)
qed

lemma escape_read:
  assumes "escape c \<noteq> [c]"
  shows "escape c ! 0 = CHR 0x5C"
    and "escape_sequence (pre @ escape c @ post) (length pre) (length pre + length (escape c) + k) =
      Some ([c], length (escape c))"
proof -
  let ?t = "pre @ escape c @ post"
  have rest: "take (length pre + length (escape c) + k - length pre) (drop (length pre) ?t) = escape c @ take k post"
    by simp
  show "escape c ! 0 = CHR 0x5C"
    by (cases c rule: escape_cases) (simp_all add: assms)
  show "escape_sequence ?t (length pre) (length pre + length (escape c) + k) = Some ([c], length (escape c))"
  proof (cases c rule: escape_cases)
    case plain
    then show ?thesis using assms by simp
  next
    case (short y)
    then have "?t ! (length pre + 1) = y" by (simp add: nth_append)
    with short show ?thesis
      unfolding escape_sequence_def by (auto simp: Let_def short_escapes_def)
  next
    case hex
    then have "?t ! (length pre + 1) = CHR ''u''" by (simp add: nth_append)
    then show ?thesis
      unfolding escape_sequence_def rest using utf16_small [OF hex(2), of "take k post"] hex(1)
      by (simp add: Let_def)
  qed
qed

lemma unescape_escaped:
  "unescape (pre @ concat (map escape s) @ CHR 0x22 # post) (length pre)
     (length pre + length (concat (map escape s))) out = (Some (out @ s), length pre + length (concat (map escape s)))"
proof (induction s arbitrary: pre out)
  case Nil
  then show ?case by (simp add: unescape.simps)
next
  case (Cons c s)
  let ?e = "length pre + length (concat (map escape (c # s)))"
  have next': "unescape (pre @ concat (map escape (c # s)) @ CHR 0x22 # post) (length pre + length (escape c)) ?e (out @ [c]) =
    (Some (out @ c # s), ?e)"
    using Cons.IH [of "pre @ escape c" "out @ [c]"] by (simp add: add.assoc)
  have "escape c \<noteq> []" by (cases c rule: escape_cases) simp_all
  then have e: "length pre < ?e"
    and first: "(pre @ concat (map escape (c # s)) @ CHR 0x22 # post) ! length pre = escape c ! 0"
    by (simp_all add: nth_append)
  show ?case
  proof (cases "escape c = [c]")
    case True
    then have "c \<noteq> CHR 0x5C" by (cases c rule: escape_cases) simp_all
    with True next' e first show ?thesis
      by (subst unescape.simps) simp
  next
    case False
    have "escape_sequence (pre @ concat (map escape (c # s)) @ CHR 0x22 # post) (length pre) ?e =
      Some ([c], length (escape c))"
      using escape_read(2) [OF False, of pre "concat (map escape s) @ CHR 0x22 # post" "length (concat (map escape s))"]
      by (simp add: add.assoc)
    with escape_read(1) [OF False] next' e first show ?thesis
      by (subst unescape.simps) simp
  qed
qed

lemma parse_string_printed:
  assumes "CHR 0x00 \<notin> set s"
  shows "parse_string (Item t v i x n cs) (cursor pre (print_string_ptr (Some s) @ post) d) =
    accept (Item cJSON_String (Some s) i x n cs) (cursor (pre @ print_string_ptr (Some s)) post d)"
proof -
  have "c_string s = s"
    unfolding c_string_def using assms by (induction s) auto
  then show ?thesis
    using unescape_escaped [of "pre @ [CHR 0x22]" s post "[]"] escaped_length [of s post]
    by (simp add: parse_string_def print_string_ptr_def cursor_def can_access_at_index_def buffer_at_def)
qed

section \<open>Numbers\<close>

text \<open>What \<open>strtod\<close> reads consists of the characters that \<open>parse_number\<close> copies.\<close>

lemma digit_number_char: "is_digit c \<Longrightarrow> is_number_char c"
  by (simp add: is_number_char_def)

lemma digits_number_chars: "set (takeWhile is_digit s) \<subseteq> Collect is_number_char"
  by (auto dest: set_takeWhileD digit_number_char)

lemma read_sign_chars: "set (take (snd (read_sign s)) s) \<subseteq> Collect is_number_char"
  by (cases s) (auto simp: read_sign_def is_number_char_def)

lemma read_exponent_chars: "set (take (snd (read_exponent s)) s) \<subseteq> Collect is_number_char"
proof (cases s)
  case (Cons c t)
  obtain neg k where k: "read_sign t = (neg, k)" by fastforce
  let ?ds = "takeWhile is_digit (drop k t)"
  have "take (k + length ?ds) t = take k t @ ?ds"
    by (simp add: take_add) (metis takeWhile_eq_take)
  then have "set (take (k + length ?ds) t) \<subseteq> Collect is_number_char"
    using read_sign_chars [of t] digits_number_chars [of "drop k t"] k by simp
  then show ?thesis
    using Cons k by (auto simp: read_exponent_def Let_def is_number_char_def)
qed simp

lemma strtod_chars: "set (take (snd (strtod s)) s) \<subseteq> Collect is_number_char"
proof -
  obtain neg k where k: "read_sign s = (neg, k)" by fastforce
  define ip where "ip = takeWhile is_digit (drop k s)"
  define r where "r = drop (k + length ip) s"
  define point where "point = (case r of c # _ \<Rightarrow> c = CHR ''.'' | [] \<Rightarrow> False)"
  define fp where "fp = (if point then takeWhile is_digit (tl r) else [])"
  define n where "n = k + length ip + (if point then 1 + length fp else 0)"
  have st: "snd (strtod s) = (if ip @ fp = [] then 0 else n + snd (read_exponent (drop n s)))"
    by (simp only: strtod_def k prod.case Let_def split_beta if_distrib [of snd] snd_conv fst_conv
      ip_def r_def point_def fp_def n_def)
  have "take (k + length ip) s = take k s @ ip"
    by (simp add: take_add ip_def) (metis takeWhile_eq_take)
  moreover have "take (if point then 1 + length fp else 0) r = (if point then CHR ''.'' # fp else [])"
    by (cases r) (auto simp: point_def fp_def simp flip: takeWhile_eq_take)
  ultimately have "take n s = take k s @ ip @ (if point then CHR ''.'' # fp else [])"
    unfolding n_def take_add r_def by simp
  moreover have "set ip \<subseteq> Collect is_number_char" "set fp \<subseteq> Collect is_number_char"
    using digits_number_chars by (auto simp: ip_def fp_def)
  moreover have "is_number_char (CHR ''.'')" by (simp add: is_number_char_def)
  ultimately have "set (take n s) \<subseteq> Collect is_number_char"
    using read_sign_chars [of s] k by auto
  then show ?thesis
    using read_exponent_chars [of "drop n s"] by (auto simp: st take_add)
qed

lemma parse_number_printed:
  assumes "strtod s = (x, length s)" and "s \<noteq> []" "length s \<le> 25" and "\<not> is_number_char c"
  shows "parse_number (Item t v i y n cs) (cursor pre (s @ c # post) d) =
    accept (Item cJSON_Number v (saturate x) x n cs) (cursor (pre @ s) (c # post) d)"
proof -
  have "\<forall>a\<in>set s. is_number_char a" using strtod_chars [of s] assms(1) by auto
  then have "takeWhile is_number_char (take 63 (s @ c # post)) = s"
    using assms(3,4) by (simp add: takeWhile_append2 take_Cons')
  then show ?thesis
    using assms(1,2) by (simp add: parse_number_def cursor_def move_def)
qed

text \<open>A printed number begins with a sign or a digit.\<close>

definition starts_number :: "string \<Rightarrow> bool" where
  "starts_number s \<longleftrightarrow> s \<noteq> [] \<and> (hd s = CHR ''-'' \<or> is_digit (hd s))"

lemma nat_digits_digit: "c \<in> set (nat_digits n) \<Longrightarrow> is_digit c"
  using nat_digits_chars [of c n] by (simp add: is_digit_def)

lemma starts_nat_digits: "starts_number (nat_digits n @ s)"
  using nat_digits_digit [of "hd (nat_digits n)" n] by (simp add: starts_number_def)

lemma starts_to_string: "starts_number (format_d i)"
  using starts_nat_digits [of _ "[]"] by (simp add: format_d_def to_string_def) (simp add: starts_number_def)

lemma starts_take: "starts_number s \<Longrightarrow> starts_number (take (Suc k) s @ t)"
  by (cases s) (simp_all add: starts_number_def)

lemma starts_format_g: "starts_number (format_g p x)"
proof -
  have zero: "starts_number (CHR ''0'' # s)" for s by (simp add: starts_number_def is_digit_def)
  obtain m e where m: "significant p \<bar>x\<bar> = (m, e)" by fastforce
  have ds: "starts_number (take (Suc k) (nat_digits (nat m)) @ t)" for k t
    using starts_take [OF starts_nat_digits [of "nat m" "[]"]] by simp
  have minus: "starts_number (CHR ''-'' # s)" for s by (simp add: starts_number_def)
  show ?thesis
    using ds [of 0] ds zero minus by (auto simp: format_g_def m Let_def)
qed

lemma print_number_starts:
  assumes "print_number it = Some s" and "valuedouble it = Finite x"
  shows "starts_number s \<and> length s \<le> 25"
  using assms starts_to_string starts_format_g
  by (auto simp: print_number_def Let_def split: if_splits prod.splits)

section \<open>Values\<close>

text \<open>
  The items that survive printing and parsing, with at most \<open>n\<close> levels of arrays and objects:
  they have the fields that the parser gives them, text without zeros, and numbers whose
  printed form reads as the same double.
\<close>

definition exact_number :: "cJSON \<Rightarrow> bool" where
  "exact_number it \<longleftrightarrow>
     (case (valuedouble it, print_number it) of
        (Finite x, Some s) \<Rightarrow> strtod s = (Finite x, length s)
      | _ \<Rightarrow> False)"

definition is_text :: "string option \<Rightarrow> bool" where
  "is_text v \<longleftrightarrow> (case v of None \<Rightarrow> False | Some s \<Rightarrow> CHR 0x00 \<notin> set s)"

fun survives :: "nat \<Rightarrow> cJSON \<Rightarrow> bool" where
  "survives n (Item t v i x nm cs) \<longleftrightarrow>
     (case t of
        cJSON_NULL \<Rightarrow> v = None \<and> i = 0 \<and> x = Finite 0 \<and> cs = []
      | cJSON_False \<Rightarrow> v = None \<and> i = 0 \<and> x = Finite 0 \<and> cs = []
      | cJSON_True \<Rightarrow> v = None \<and> i = 1 \<and> x = Finite 0 \<and> cs = []
      | cJSON_Number \<Rightarrow> v = None \<and> i = saturate x \<and> exact_number (Item t v i x nm cs) \<and> cs = []
      | cJSON_String \<Rightarrow> is_text v \<and> i = 0 \<and> x = Finite 0 \<and> cs = []
      | cJSON_Array \<Rightarrow>
          v = None \<and> i = 0 \<and> x = Finite 0 \<and> 0 < n \<and> (\<forall>c\<in>set cs. item_string c = None \<and> survives (n - 1) c)
      | cJSON_Object \<Rightarrow>
          v = None \<and> i = 0 \<and> x = Finite 0 \<and> 0 < n \<and> (\<forall>c\<in>set cs. is_text (item_string c) \<and> survives (n - 1) c)
      | _ \<Rightarrow> False)"

text \<open>
  An item of another number is printed too. What is read back then is the number that its text
  denotes, and \<open>null\<close> for a number that is not finite.
\<close>

definition legible :: "cJSON \<Rightarrow> bool" where
  "legible it \<longleftrightarrow>
     (case (valuedouble it, print_number it) of
        (_, None) \<Rightarrow> False
      | (Finite x, Some s) \<Rightarrow> snd (strtod s) = length s
      | (_, Some s) \<Rightarrow> True)"

definition denoted :: "cJSON \<Rightarrow> double" where
  "denoted it = fst (strtod (the (print_number it)))"

fun printable :: "nat \<Rightarrow> cJSON \<Rightarrow> bool" where
  "printable n (Item t v i x nm cs) \<longleftrightarrow>
     (case t of
        cJSON_Number \<Rightarrow> v = None \<and> legible (Item t v i x nm cs) \<and> cs = []
      | cJSON_Array \<Rightarrow>
          v = None \<and> i = 0 \<and> x = Finite 0 \<and> 0 < n \<and> (\<forall>c\<in>set cs. item_string c = None \<and> printable (n - 1) c)
      | cJSON_Object \<Rightarrow>
          v = None \<and> i = 0 \<and> x = Finite 0 \<and> 0 < n \<and> (\<forall>c\<in>set cs. is_text (item_string c) \<and> printable (n - 1) c)
      | _ \<Rightarrow> survives n (Item t v i x nm cs))"

fun read_back :: "cJSON \<Rightarrow> cJSON" where
  "read_back (Item t v i x nm cs) =
     (if t = cJSON_Number then
        (case x of
           Finite _ \<Rightarrow> (let y = denoted (Item t v i x nm cs) in Item cJSON_Number None (saturate y) y nm [])
         | _ \<Rightarrow> Item cJSON_NULL None 0 (Finite 0) nm [])
      else Item t v i x nm (map read_back cs))"

lemma item_string_read_back [simp]: "item_string (read_back it) = item_string it"
  by (cases it) (auto simp: Let_def split: double.split)

lemma survives_printable: "survives n it \<Longrightarrow> printable n it \<and> read_back it = it"
proof (induction n it rule: survives.induct)
  case (1 n t v i x nm cs)
  show ?case
  proof (cases t)
    case cJSON_Number
    then have "exact_number (Item t v i x nm cs)" "v = None" "i = saturate x" "cs = []" using 1 by auto
    then show ?thesis
      using cJSON_Number
      by (auto simp: exact_number_def legible_def denoted_def Let_def split: double.splits option.splits)
  next
    case cJSON_Array
    then show ?thesis using 1 by (auto intro: map_idI)
  next
    case cJSON_Object
    then show ?thesis using 1 by (auto intro: map_idI)
  qed (use 1 in simp_all)
qed

text \<open>
  The parser of the values of one level reads the text \<open>s\<close> of an item, which has no zero, up
  to a character that cannot continue a number. The item it is given may have a name.
\<close>

definition rename :: "string option \<Rightarrow> cJSON \<Rightarrow> cJSON" where
  "rename nm it = Item (item_type it) (valuestring it) (valueint it) (valuedouble it) nm (child it)"

lemma rename_same [simp]: "rename (item_string it) it = it"
  by (cases it) (simp add: rename_def)

definition reads :: "value_parser \<Rightarrow> nat \<Rightarrow> string \<Rightarrow> cJSON \<Rightarrow> bool" where
  "reads pv d s it \<longleftrightarrow>
     CHR 0x00 \<notin> set s \<and>
     (\<forall>t nm pre c post. \<not> is_number_char c \<longrightarrow>
        pv (Item t None 0 (Finite 0) nm []) (cursor pre (s @ c # post) d) =
          accept (rename nm it) (cursor (pre @ s) (c # post) d))"

lemma readsD:
  "reads pv d s it \<Longrightarrow> \<not> is_number_char c \<Longrightarrow>
     pv (Item t None 0 (Finite 0) nm []) (cursor pre (s @ c # post) d) =
       accept (rename nm it) (cursor (pre @ s) (c # post) d)"
  by (simp add: reads_def)

lemma reads_no_zero: "reads pv d s it \<Longrightarrow> CHR 0x00 \<notin> set s"
  by (simp add: reads_def)

lemma readsI:
  "CHR 0x00 \<notin> set s \<Longrightarrow> (\<And>t nm pre c post. \<not> is_number_char c \<Longrightarrow>
      pv (Item t None 0 (Finite 0) nm []) (cursor pre (s @ c # post) d) =
        accept (rename nm it) (cursor (pre @ s) (c # post) d)) \<Longrightarrow> reads pv d s it"
  by (simp add: reads_def)

named_theorems delimiters \<open>characters that end a value\<close>

lemma delimiter_chars [delimiters]:
  "\<not> is_number_char (CHR '','')" "\<not> is_number_char (CHR '']'')" "\<not> is_number_char (CHR ''}'')"
  "\<not> is_number_char (CHR 0x0A)" "\<not> is_number_char (CHR 0x00)"
  "\<not> is_space (CHR '','')" "\<not> is_space (CHR '']'')" "\<not> is_space (CHR ''}'')" "\<not> is_space (CHR '':'')"
  "\<not> is_space (CHR 0x22)" "is_space (CHR 0x0A)" "is_space (CHR 0x09)" "is_space (CHR '' '')"
  by (simp_all add: is_number_char_def is_space_def is_digit_def)

text \<open>
  The text of a value begins neither with white space, nor with a closing bracket, nor like a
  byte order mark.
\<close>

definition starts_value :: "string \<Rightarrow> bool" where
  "starts_value s \<longleftrightarrow> s \<noteq> [] \<and> \<not> is_space (hd s) \<and> hd s \<noteq> CHR '']'' \<and> hd s \<noteq> CHR ''}'' \<and>
     hd s \<noteq> CHR 0xEF"

lemma skip_value:
  assumes "starts_value s" and "\<forall>c\<in>set ws. is_space c"
  shows "buffer_skip_whitespace (cursor pre (ws @ s @ post) d) = cursor (pre @ ws) (s @ post) d"
  using assms skip_cursor [of ws "hd s" pre "tl s @ post" d] by (cases s) (simp_all add: starts_value_def)

subsection \<open>Arrays\<close>

text \<open>
  The texts of the elements of an array, and what the loop makes of them when the parser of
  a value reads each.
\<close>

fun elements_text :: "string list \<Rightarrow> string" where
  "elements_text [] = []"
| "elements_text (s # ss) = s @ (if ss = [] then [] else '', '') @ elements_text ss"

lemma array_loop_reads:
  assumes "list_all2 (\<lambda>s it. reads pv d s it \<and> starts_value s \<and> item_string it = None) ss xs" and "ss \<noteq> []"
    and "\<forall>a\<in>set ws. is_space a"
  shows "array_loop pv items (cursor pre (c # ws @ elements_text ss @ CHR '']'' # post) d) =
    accept (items @ xs) (cursor (pre @ c # ws @ elements_text ss) (CHR '']'' # post) d)"
  using assms
proof (induction ss xs arbitrary: items pre c ws rule: list_all2_induct)
  case Nil
  then show ?case by simp
next
  case (Cons s ss x xs)
  have pv: "pv cJSON_New_Item (cursor (pre @ c # ws) (s @ a # more) d) = accept x (cursor (pre @ c # ws @ s) (a # more) d)"
    if "\<not> is_number_char a" for a more
    using readsD [OF _ that, of pv d s x cJSON_Invalid None "pre @ c # ws" more] Cons.hyps(1)
      rename_same [of x] by (simp add: cJSON_New_Item_def)
  have skip: "buffer_skip_whitespace (cursor (pre @ [c]) (ws @ s @ more) d) = cursor (pre @ c # ws) (s @ more) d" for more
    using skip_value [of s ws "pre @ [c]" more d] Cons.hyps(1) Cons.prems by simp
  show ?case
  proof (cases "ss = []")
    case True
    then have "xs = []" using Cons.hyps(2) by simp
    with True show ?thesis
      by (subst array_loop.simps) (simp add: skip pv delimiters skip_cursor_here)
  next
    case False
    have "array_loop pv (items @ [x]) (cursor (pre @ c # ws @ s) (CHR '','' # '' '' @ elements_text ss @ CHR '']'' # post) d) =
      accept ((items @ [x]) @ xs) (cursor ((pre @ c # ws @ s) @ CHR '','' # '' '' @ elements_text ss) (CHR '']'' # post) d)"
      by (rule Cons.IH) (use False in \<open>simp_all add: delimiters\<close>)
    with False show ?thesis
      by (subst array_loop.simps) (simp add: skip pv delimiters skip_cursor_here)
  qed
qed

subsection \<open>Objects\<close>

fun members_text :: "nat \<Rightarrow> (string \<times> string) list \<Rightarrow> string" where
  "members_text k [] = []"
| "members_text k ((name, s) # ms) =
     replicate k (CHR 0x09) @ print_string_ptr (Some name) @ '':'' @ [CHR 0x09] @ s @
     (if ms = [] then [] else '','') @ [CHR 0x0A] @ members_text k ms"

lemma starts_printed_string: "starts_value (print_string_ptr v)"
  by (simp add: starts_value_def print_string_ptr_def is_space_def)

lemma escape_no_zero: "CHR 0x00 \<notin> set (escape c) \<longleftrightarrow> c \<noteq> CHR 0x00 \<or> escape c \<noteq> [c]"
proof -
  have "hex_char n \<noteq> CHR 0x00" if "n < 16" for n using hex_digit_char [OF that] by (auto simp: hex_digit_def)
  then have "hex_char (of_char c mod 16) \<noteq> CHR 0x00" "of_char c < (32 :: nat) \<Longrightarrow> hex_char (of_char c div 16) \<noteq> CHR 0x00"
    by simp_all
  then show ?thesis by (cases c rule: escape_cases) (auto simp: short_escapes_def)
qed

lemma printed_string_no_zero: "CHR 0x00 \<notin> set (print_string_ptr (Some s))"
proof -
  have "escape c \<noteq> [c] \<or> c \<noteq> CHR 0x00" for c by (auto simp: escape_def)
  then show ?thesis using escape_no_zero by (auto simp: print_string_ptr_def)
qed

lemma object_loop_reads:
  assumes "list_all2 (\<lambda>(name, s) it. reads pv d s it \<and> starts_value s \<and> item_string it = Some name \<and>
      CHR 0x00 \<notin> set name) ms xs" and "ms \<noteq> []"
    and "\<forall>a\<in>set ws. is_space a" and "\<forall>a\<in>set tabs. is_space a"
  shows "object_loop pv items (cursor pre (c # ws @ members_text k ms @ tabs @ CHR ''}'' # post) d) =
    accept (items @ xs) (cursor (pre @ c # ws @ members_text k ms @ tabs) (CHR ''}'' # post) d)"
  using assms(1-3)
proof (induction ms xs arbitrary: items pre c ws rule: list_all2_induct)
  case Nil
  then show ?case by simp
next
  case (Cons m ms x xs)
  obtain name s where m: "m = (name, s)" by fastforce
  have x: "reads pv d s x" "starts_value s" "item_string x = Some name" "CHR 0x00 \<notin> set name"
    using Cons.hyps(1) m by auto
  let ?ws = "ws @ replicate k (CHR 0x09)"
  let ?key = "print_string_ptr (Some name)"
  have spaces: "\<forall>a\<in>set ?ws. is_space a" using Cons.prems(2) by (auto simp: delimiters)
  have skip_key: "buffer_skip_whitespace (cursor (pre @ [c]) (?ws @ ?key @ rest) d) =
    cursor (pre @ c # ?ws) (?key @ rest) d" for rest
    using skip_value [OF starts_printed_string spaces, of "pre @ [c]" "Some name" rest d] by simp
  have key: "parse_string cJSON_New_Item (cursor (pre @ c # ?ws) (?key @ rest) d) =
    accept (Item cJSON_String (Some name) 0 (Finite 0) None []) (cursor (pre @ c # ?ws @ ?key) rest d)" for rest
    using parse_string_printed [OF x(4), of cJSON_Invalid None 0 "Finite 0" None "[]" "pre @ c # ?ws" rest d]
    by (simp add: cJSON_New_Item_def)
  let ?pre = "pre @ c # ?ws @ ?key @ '':''"
  have skip_s: "buffer_skip_whitespace (cursor ?pre (CHR 0x09 # s @ rest) d) =
    cursor (?pre @ [CHR 0x09]) (s @ rest) d" for rest
    using skip_value [OF x(2), of "[CHR 0x09]" ?pre rest d] by (simp add: delimiters)
  have pv: "pv (Item cJSON_String None 0 (Finite 0) (Some name) []) (cursor (?pre @ [CHR 0x09]) (s @ a # rest) d) =
    accept x (cursor (?pre @ CHR 0x09 # s) (a # rest) d)" if "\<not> is_number_char a" for a rest
    using readsD [OF x(1) that, of cJSON_String "Some name" "?pre @ [CHR 0x09]" rest] x(3) rename_same [of x]
    by simp
  show ?case
  proof (cases "ms = []")
    case True
    then have "xs = []" using Cons.hyps(2) by simp
    have "buffer_skip_whitespace (cursor (?pre @ CHR 0x09 # s) (CHR 0x0A # tabs @ CHR ''}'' # post) d) =
      cursor (?pre @ CHR 0x09 # s @ CHR 0x0A # tabs) (CHR ''}'' # post) d"
      using skip_cursor [of "CHR 0x0A # tabs" "CHR ''}''" "?pre @ CHR 0x09 # s" post d] assms(4)
      by (simp add: delimiters)
    with True \<open>xs = []\<close> show ?thesis
      using skip_key key skip_s pv
      by (subst object_loop.simps) (simp add: m delimiters skip_cursor_here set_name_def)
  next
    case False
    have "object_loop pv (items @ [x]) (cursor (?pre @ CHR 0x09 # s)
        (CHR '','' # [CHR 0x0A] @ members_text k ms @ tabs @ CHR ''}'' # post) d) =
      accept ((items @ [x]) @ xs) (cursor ((?pre @ CHR 0x09 # s) @ CHR '','' # [CHR 0x0A] @ members_text k ms @ tabs)
        (CHR ''}'' # post) d)"
      by (rule Cons.IH) (use False in \<open>simp_all add: delimiters\<close>)
    with False show ?thesis
      using skip_key key skip_s pv
      by (subst object_loop.simps) (simp add: m delimiters skip_cursor_here set_name_def)
  qed
qed

subsection \<open>One value\<close>

lemma keyword_reads:
  assumes "it = Item cJSON_NULL None 0 (Finite 0) nm' [] \<and> s = ''null'' \<or>
    it = Item cJSON_False None 0 (Finite 0) nm' [] \<and> s = ''false'' \<or>
    it = Item cJSON_True None 1 (Finite 0) nm' [] \<and> s = ''true''"
  shows "reads (value_step pv) d s it \<and> starts_value s"
proof -
  have "move (cursor pre (s @ post) d) (length s) = cursor (pre @ s) post d" for pre post
    by (rule move_cursor)
  with assms show ?thesis
    by (elim disjE) (auto intro!: readsI [rotated] simp: value_step_def at_text_cursor rename_def starts_value_def is_space_def
      numeral_eq_Suc)
qed

lemma string_reads:
  assumes "CHR 0x00 \<notin> set s"
  shows "reads (value_step pv) d (print_string_ptr (Some s)) (Item cJSON_String (Some s) 0 (Finite 0) nm' [])"
proof (rule readsI [OF printed_string_no_zero])
  fix t nm pre c post
  have "print_string_ptr (Some s) @ c # post = CHR 0x22 # concat (map escape s) @ CHR 0x22 # c # post"
    by (simp add: print_string_ptr_def)
  then have "value_step pv it (cursor pre (print_string_ptr (Some s) @ c # post) d) =
    parse_string it (cursor pre (print_string_ptr (Some s) @ c # post) d)" for it
    by (simp add: value_step_def at_text_cursor)
  then show "value_step pv (Item t None 0 (Finite 0) nm []) (cursor pre (print_string_ptr (Some s) @ c # post) d) =
    accept (rename nm (Item cJSON_String (Some s) 0 (Finite 0) nm' [])) (cursor (pre @ print_string_ptr (Some s)) (c # post) d)"
    using parse_string_printed [OF assms] by (simp add: rename_def)
qed

lemma number_reads:
  assumes "strtod s = (x, length s)" and "starts_number s" "length s \<le> 25"
  shows "reads (value_step pv) d s (Item cJSON_Number None (saturate x) x nm' []) \<and> starts_value s"
proof -
  obtain a s' where s: "s = a # s'" "a = CHR ''-'' \<or> is_digit a"
    using assms(2) by (cases s) (auto simp: starts_number_def)
  have a: "a \<noteq> CHR ''n'' \<and> a \<noteq> CHR ''f'' \<and> a \<noteq> CHR ''t'' \<and> a \<noteq> CHR 0x22 \<and> a \<noteq> CHR '']'' \<and> a \<noteq> CHR ''}'' \<and> a \<noteq> CHR 0xEF \<and> \<not> is_space a"
    using s(2) by (auto simp: is_digit_def is_space_def)
  have "\<forall>a\<in>set s. is_number_char a" using strtod_chars [of s] assms(1) by auto
  then have zero: "CHR 0x00 \<notin> set s" by (auto simp: delimiters)
  have "reads (value_step pv) d s (Item cJSON_Number None (saturate x) x nm' [])"
  proof (rule readsI [OF zero])
    fix t nm pre c post
    assume c: "\<not> is_number_char c"
    have "value_step pv it (cursor pre (s @ c # post) d) = parse_number it (cursor pre (s @ c # post) d)" for it
      using a s by (simp add: value_step_def at_text_cursor)
    then show "value_step pv (Item t None 0 (Finite 0) nm []) (cursor pre (s @ c # post) d) =
      accept (rename nm (Item cJSON_Number None (saturate x) x nm' [])) (cursor (pre @ s) (c # post) d)"
      using parse_number_printed [OF assms(1) _ assms(3) c] s(1) by (simp add: rename_def)
  qed
  then show ?thesis using a s(1) by (simp add: starts_value_def)
qed

lemma elements_start: "list_all2 (\<lambda>s it. starts_value s) ss xs \<Longrightarrow> ss \<noteq> [] \<Longrightarrow> starts_value (elements_text ss)"
  by (cases ss) (auto simp: starts_value_def list_all2_Cons1)

lemma array_reads:
  assumes "list_all2 (\<lambda>s it. reads pv (d + 1) s it \<and> starts_value s \<and> item_string it = None) ss xs"
    and "d < CJSON_NESTING_LIMIT"
  shows "reads (value_step pv) d (''['' @ elements_text ss @ '']'') (Item cJSON_Array None 0 (Finite 0) nm' xs)"
proof (rule readsI)
  have "CHR 0x00 \<notin> set (elements_text ss)"
    using assms(1) by (induction ss xs rule: list_all2_induct) (auto dest: reads_no_zero)
  then show "CHR 0x00 \<notin> set (''['' @ elements_text ss @ '']'')" by simp
next
  fix t nm pre c post
  let ?it = "Item t None 0 (Finite 0) nm []"
  let ?b = "cursor pre (''['' @ elements_text ss @ '']'' @ c # post) d"
  have step: "value_step pv ?it ?b = parse_array pv ?it ?b"
    by (simp add: value_step_def at_text_cursor is_digit_def)
  have "parse_array pv ?it ?b = accept (Item cJSON_Array None 0 (Finite 0) nm xs)
      (cursor (pre @ ''['' @ elements_text ss @ '']'') (c # post) d)"
  proof (cases "ss = []")
    case True
    then have "xs = []" using assms(1) by simp
    with True assms(2) show ?thesis
      by (simp add: parse_array_def delimiters skip_cursor_here close_list_def) (simp add: cursor_def)
  next
    case False
    have st: "starts_value (elements_text ss)"
      by (rule elements_start [OF list_all2_mono [OF assms(1)] False]) simp
    then obtain a u where u: "elements_text ss = a # u" "a \<noteq> CHR '']''"
      by (cases "elements_text ss") (auto simp: starts_value_def)
    have skip: "buffer_skip_whitespace (cursor (pre @ ''['') (elements_text ss @ '']'' @ c # post) (d + 1)) =
      cursor (pre @ ''['') (elements_text ss @ '']'' @ c # post) (d + 1)"
      using skip_value [OF st, of "[]" "pre @ ''[''" "'']'' @ c # post" "d + 1"] by simp
    have "array_loop pv [] (cursor pre (CHR ''['' # [] @ elements_text ss @ CHR '']'' # c # post) (d + 1)) =
      accept ([] @ xs) (cursor (pre @ CHR ''['' # [] @ elements_text ss) (CHR '']'' # c # post) (d + 1))"
      by (rule array_loop_reads [OF assms(1) False]) simp
    with skip assms(2) show ?thesis
      by (simp add: parse_array_def u(1)) (simp add: u(2) close_list_def, simp add: cursor_def)
  qed
  with step show "value_step pv ?it (cursor pre ((''['' @ elements_text ss @ '']'') @ c # post) d) =
    accept (rename nm (Item cJSON_Array None 0 (Finite 0) nm' xs))
      (cursor (pre @ ''['' @ elements_text ss @ '']'') (c # post) d)"
    by (simp add: rename_def)
qed

text \<open>The loop looks at its buffer only from the next character that is no space.\<close>

lemma object_loop_start:
  "buffer_skip_whitespace (move b 1) = buffer_skip_whitespace (move b' 1) \<Longrightarrow>
     object_loop pv items b = object_loop pv items b'"
  by (simp add: object_loop.simps)

lemma object_reads:
  assumes "list_all2 (\<lambda>(name, s) it. reads pv (d + 1) s it \<and> starts_value s \<and> item_string it = Some name \<and>
      CHR 0x00 \<notin> set name) ms xs"
    and "d < CJSON_NESTING_LIMIT"
  shows "reads (value_step pv) d
    (''{'' @ [CHR 0x0A] @ members_text (k + 1) ms @ replicate k (CHR 0x09) @ ''}'')
    (Item cJSON_Object None 0 (Finite 0) nm' xs)"
proof (rule readsI)
  have "CHR 0x00 \<notin> set (members_text (k + 1) ms)"
    using assms(1) by (induction ms xs rule: list_all2_induct) (auto dest!: reads_no_zero simp: printed_string_no_zero split: if_splits)
  then show "CHR 0x00 \<notin> set (''{'' @ [CHR 0x0A] @ members_text (k + 1) ms @ replicate k (CHR 0x09) @ ''}'')" by simp
next
  fix t nm pre c post
  let ?it = "Item t None 0 (Finite 0) nm []"
  let ?tabs = "replicate k (CHR 0x09)"
  let ?text = "''{'' @ [CHR 0x0A] @ members_text (k + 1) ms @ ?tabs @ ''}''"
  let ?b = "cursor pre (''{'' @ [CHR 0x0A] @ members_text (k + 1) ms @ ?tabs @ ''}'' @ c # post) d"
  have step: "value_step pv ?it ?b = parse_object pv ?it ?b"
    by (simp add: value_step_def at_text_cursor is_digit_def)
  have tabs: "\<forall>a\<in>set ?tabs. is_space a" by (simp add: delimiters)
  have "parse_object pv ?it ?b = accept (Item cJSON_Object None 0 (Finite 0) nm xs) (cursor (pre @ ?text) (c # post) d)"
  proof (cases ms)
    case Nil
    have "buffer_skip_whitespace (cursor (pre @ ''{'') (CHR 0x0A # ?tabs @ CHR ''}'' # c # post) (d + 1)) =
      cursor (pre @ ''{'' @ CHR 0x0A # ?tabs) (CHR ''}'' # c # post) (d + 1)"
      using skip_cursor [of "CHR 0x0A # ?tabs" "CHR ''}''" "pre @ ''{''" "c # post" "d + 1"] tabs
      by (simp add: delimiters)
    moreover have "xs = []" using assms(1) Nil by simp
    ultimately show ?thesis
      using assms(2) Nil by (simp add: parse_object_def close_list_def) (simp add: cursor_def)
  next
    case (Cons m ms')
    obtain name s where m: "m = (name, s)" by fastforce
    define W where "W = CHR 0x0A # replicate (k + 1) (CHR 0x09)"
    define R where "R = print_string_ptr (Some name) @ '':'' @ [CHR 0x09] @ s @ (if ms' = [] then [] else '','') @
      [CHR 0x0A] @ members_text (k + 1) ms' @ ?tabs @ ''}'' @ c # post"
    have layout: "CHR 0x0A # members_text (k + 1) ms @ ?tabs @ CHR ''}'' # c # post = W @ R"
      using Cons m by (simp add: W_def R_def)
    have spaces: "\<forall>a\<in>set W. is_space a" by (simp add: delimiters W_def)
    have skip: "buffer_skip_whitespace (cursor (pre @ ''{'') (W @ R) (d + 1)) = cursor (pre @ ''{'' @ W) R (d + 1)"
      using skip_value [OF starts_printed_string spaces, of "pre @ ''{''"] unfolding R_def by simp
    have again: "buffer_skip_whitespace (cursor (pre @ ''{'' @ W) R (d + 1)) = cursor (pre @ ''{'' @ W) R (d + 1)"
      using skip_value [OF starts_printed_string, of "[]" "pre @ ''{'' @ W"] unfolding R_def by simp
    obtain R' where quote: "R = CHR 0x22 # R'" by (simp add: R_def print_string_ptr_def)
    have forth: "move (step_back (cursor (pre @ ''{'' @ W) R (d + 1))) 1 = cursor (pre @ ''{'' @ W) R (d + 1)"
      by (simp add: cursor_def move_def step_back_def)
    have "object_loop pv [] (step_back (cursor (pre @ ''{'' @ W) R (d + 1))) =
      object_loop pv [] (cursor pre (CHR ''{'' # W @ R) (d + 1))"
      by (rule object_loop_start) (use forth again skip in simp)
    also have "\<dots> = object_loop pv []
        (cursor pre (CHR ''{'' # [CHR 0x0A] @ members_text (k + 1) ms @ ?tabs @ CHR ''}'' # c # post) (d + 1))"
      by (simp flip: layout)
    also have "\<dots> = accept ([] @ xs) (cursor (pre @ CHR ''{'' # [CHR 0x0A] @ members_text (k + 1) ms @ ?tabs)
        (CHR ''}'' # c # post) (d + 1))"
      by (rule object_loop_reads [OF assms(1)]) (use Cons tabs in \<open>simp_all add: delimiters\<close>)
    finally have loop: "object_loop pv [] (step_back (cursor (pre @ ''{'' @ W) R (d + 1))) =
      accept xs (cursor (pre @ CHR ''{'' # [CHR 0x0A] @ members_text (k + 1) ms @ ?tabs) (CHR ''}'' # c # post) (d + 1))"
      by simp
    have "?b = cursor pre (CHR ''{'' # W @ R) d" using layout by simp
    then have "parse_object pv ?it ?b =
      parse_then (object_loop pv [] (step_back (cursor (pre @ ''{'' @ W) R (d + 1)))) (\<lambda>items b2.
        if \<not> at_char b2 (CHR ''}'') then reject b2 else close_list cJSON_Object ?it items b2)"
      using assms(2) skip by (simp only: parse_object_def) (simp add: Let_def quote)
    then show ?thesis
      by (simp only: loop) (simp add: close_list_def, simp add: cursor_def)
  qed
  with step show "value_step pv ?it (cursor pre (?text @ c # post) d) =
    accept (rename nm (Item cJSON_Object None 0 (Finite 0) nm' xs)) (cursor (pre @ ?text) (c # post) d)"
    by (simp add: rename_def)
qed

section \<open>Every item\<close>

lemma printed_reads:
  "format \<Longrightarrow> printable n it \<Longrightarrow> d + n \<le> CJSON_NESTING_LIMIT \<Longrightarrow> n < fuel \<Longrightarrow>
     \<exists>s. print_value format k it = Some s \<and> reads (parse_value fuel) d s (read_back it) \<and> starts_value s"
  "format \<Longrightarrow> \<forall>c\<in>set cs. item_string c = None \<and> printable n c \<Longrightarrow> d + n \<le> CJSON_NESTING_LIMIT \<Longrightarrow> n < fuel \<Longrightarrow>
     \<exists>ss. print_array format k cs = Some (elements_text ss) \<and>
       list_all2 (\<lambda>s it. reads (parse_value fuel) d s it \<and> starts_value s \<and> item_string it = None) ss (map read_back cs)"
  "format \<Longrightarrow> \<forall>c\<in>set cs. is_text (item_string c) \<and> printable n c \<Longrightarrow> d + n \<le> CJSON_NESTING_LIMIT \<Longrightarrow> n < fuel \<Longrightarrow>
     \<exists>ms. print_object format k cs = Some (members_text k ms) \<and>
       list_all2 (\<lambda>(name, s) it. reads (parse_value fuel) d s it \<and> starts_value s \<and> item_string it = Some name \<and>
         CHR 0x00 \<notin> set name) ms (map read_back cs)"
proof (induction format k it and format k cs and format k cs arbitrary: n d fuel and n d fuel and n d fuel
    rule: print_value_print_array_print_object.induct)
  case (1 format k t v i x nm cs)
  obtain f where f: "fuel = Suc f" using "1.prems"(4) by (cases fuel) simp_all
  show ?case
  proof (cases t)
    case cJSON_Number
    then obtain s where s: "print_number (Item t v i x nm cs) = Some s"
      "\<And>q. x = Finite q \<Longrightarrow> strtod s = (denoted (Item t v i x nm cs), length s)"
      using "1.prems"(2) by (cases x; cases "print_number (Item t v i x nm cs)")
        (auto simp: legible_def denoted_def prod_eq_iff)
    show ?thesis
    proof (cases x)
      case (Finite q)
      then have "starts_number s \<and> length s \<le> 25" using print_number_starts [OF s(1)] by simp
      then show ?thesis
        using number_reads [OF s(2) [OF Finite], of "parse_value f" d nm] s(1) Finite "1.prems"(2) cJSON_Number f
        by (simp add: Let_def)
    qed (use s(1) cJSON_Number f keyword_reads [of "Item cJSON_NULL None 0 (Finite 0) nm []" nm "''null''" "parse_value f" d]
      in \<open>auto simp: print_number_def\<close>)
  next
    case cJSON_String
    then obtain s where "v = Some s" "CHR 0x00 \<notin> set s"
      using "1.prems"(2) by (auto simp: is_text_def split: option.splits)
    then show ?thesis
      using string_reads [of s "parse_value f" d nm] starts_printed_string "1.prems"(2) cJSON_String f by simp
  next
    case cJSON_Array
    then have n: "0 < n" "\<forall>c\<in>set cs. item_string c = None \<and> printable (n - 1) c" using "1.prems"(2) by simp_all
    have "\<exists>ss. print_array format (k + 1) cs = Some (elements_text ss) \<and>
        list_all2 (\<lambda>s it. reads (parse_value f) (d + 1) s it \<and> starts_value s \<and> item_string it = None) ss (map read_back cs)"
      by (rule "1.IH"(1) [OF cJSON_Array _ n(2)]) (use n(1) "1.prems" f in simp_all)
    then obtain ss where ss: "print_array format (k + 1) cs = Some (elements_text ss)"
      "list_all2 (\<lambda>s it. reads (parse_value f) (d + 1) s it \<and> starts_value s \<and> item_string it = None) ss (map read_back cs)"
      by blast
    then show ?thesis
      using array_reads [OF ss(2), of nm] n(1) "1.prems"(2,3) cJSON_Array f
      by (simp add: starts_value_def is_space_def)
  next
    case cJSON_Object
    then have n: "0 < n" "\<forall>c\<in>set cs. is_text (item_string c) \<and> printable (n - 1) c" using "1.prems"(2) by simp_all
    have "\<exists>ms. print_object format (k + 1) cs = Some (members_text (k + 1) ms) \<and>
        list_all2 (\<lambda>(name, s) it. reads (parse_value f) (d + 1) s it \<and> starts_value s \<and>
          item_string it = Some name \<and> CHR 0x00 \<notin> set name) ms (map read_back cs)"
      by (rule "1.IH"(2) [OF cJSON_Object _ n(2)]) (use n(1) "1.prems" f in simp_all)
    then obtain ms where ms: "print_object format (k + 1) cs = Some (members_text (k + 1) ms)"
      "list_all2 (\<lambda>(name, s) it. reads (parse_value f) (d + 1) s it \<and> starts_value s \<and>
          item_string it = Some name \<and> CHR 0x00 \<notin> set name) ms (map read_back cs)"
      by blast
    then show ?thesis
      using object_reads [OF ms(2), of k nm] n(1) "1.prems"(1-3) cJSON_Object f
      by (simp add: starts_value_def is_space_def)
  qed (use "1.prems" f keyword_reads [of "Item t v i x nm cs" nm _ "parse_value f" d] in auto)
next
  case (2 format k)
  show ?case by (rule exI [of _ "[]"]) simp
next
  case (3 format k x xs)
  obtain s where s: "print_value format k x = Some s" "reads (parse_value fuel) d s (read_back x)" "starts_value s"
    using "3.IH"(1) [of n d fuel] "3.prems" by auto
  moreover obtain ss where ss: "print_array format k xs = Some (elements_text ss)"
    "list_all2 (\<lambda>s it. reads (parse_value fuel) d s it \<and> starts_value s \<and> item_string it = None) ss (map read_back xs)"
    using "3.IH"(2) [of s n d fuel] "3.prems" s(1) by auto
  moreover have "ss = [] \<longleftrightarrow> xs = []" using ss(2) by auto
  ultimately show ?case
    using "3.prems"(1,2) by (intro exI [of _ "s # ss"]) simp
next
  case (4 format k)
  show ?case by (rule exI [of _ "[]"]) simp
next
  case (5 format k x xs)
  obtain s where s: "print_value format k x = Some s" "reads (parse_value fuel) d s (read_back x)" "starts_value s"
    using "5.IH"(1) [of n d fuel] "5.prems" by auto
  moreover obtain ms where ms: "print_object format k xs = Some (members_text k ms)"
    "list_all2 (\<lambda>(name, s) it. reads (parse_value fuel) d s it \<and> starts_value s \<and> item_string it = Some name \<and>
      CHR 0x00 \<notin> set name) ms (map read_back xs)"
    using "5.IH"(2) [of s n d fuel] "5.prems" s(1) by auto
  moreover obtain name where "item_string x = Some name" "CHR 0x00 \<notin> set name"
    using "5.prems"(2) by (auto simp: is_text_def split: option.splits)
  moreover have "ms = [] \<longleftrightarrow> xs = []" using ms(2) by auto
  ultimately show ?case
    using "5.prems"(1) by (intro exI [of _ "(name, s) # ms"]) simp
qed

text \<open>Printed text holds no zero, so that it is a C string as it is.\<close>

lemma reads_text:
  assumes "parse_value fuel cJSON_New_Item (buffer_skip_whitespace (cursor [] (s @ [CHR 0x00]) 0)) =
      accept it b" and "c_string s = s" and "take 3 s \<noteq> [CHR 0xEF, CHR 0xBB, CHR 0xBF]"
    and "fuel = CJSON_NESTING_LIMIT + 1"
  shows "cJSON_Parse s = Some (Inr (Some it))"
proof -
  have "skip_utf8_bom \<lparr>content = s @ [CHR 0x00], boffset = 0, depth = 0\<rparr> = \<lparr>content = s @ [CHR 0x00], boffset = 0, depth = 0\<rparr>"
    using assms(3) by (auto simp: skip_utf8_bom_def can_access_at_index_def)
  then show ?thesis
    using assms(1,2,4)
    by (simp add: cJSON_Parse_def cJSON_ParseWithOpts_def cJSON_ParseWithLengthOpts_def cursor_def accept_def Let_def)
qed

lemma parse_whole:
  assumes "reads (parse_value (CJSON_NESTING_LIMIT + 1)) 0 s it" and "starts_value s"
  shows "cJSON_Parse s = Some (Inr (Some (rename None it)))"
proof -
  have "buffer_skip_whitespace (cursor [] (s @ [CHR 0x00]) 0) = cursor [] (s @ [CHR 0x00]) 0"
    using skip_value [OF assms(2), of "[]" "[]"] by simp
  moreover have "parse_value (CJSON_NESTING_LIMIT + 1) cJSON_New_Item (cursor [] (s @ [CHR 0x00]) 0) =
    accept (rename None it) (cursor s [CHR 0x00] 0)"
    using readsD [OF assms(1), of "CHR 0x00" cJSON_Invalid None "[]" "[]"]
    by (simp add: cJSON_New_Item_def delimiters)
  moreover have "c_string s = s" unfolding c_string_def
    using reads_no_zero [OF assms(1)] by (induction s) auto
  moreover have "take 3 s \<noteq> [CHR 0xEF, CHR 0xBB, CHR 0xBF]" using assms(2) by (cases s) (auto simp: starts_value_def)
  ultimately show ?thesis by (intro reads_text) simp_all
qed

lemma printed_read_back:
  assumes "printable CJSON_NESTING_LIMIT it" and "item_string it = None"
  shows "\<exists>s. cJSON_Print it = Some s \<and> cJSON_Parse s = Some (Inr (Some (read_back it)))"
proof -
  obtain s where s: "print_value True 0 it = Some s"
    "reads (parse_value (CJSON_NESTING_LIMIT + 1)) 0 s (read_back it)" "starts_value s"
    using printed_reads(1) [of True CJSON_NESTING_LIMIT it 0 "CJSON_NESTING_LIMIT + 1" 0] assms(1) by auto
  with parse_whole [OF s(2,3)] assms(2) rename_same [of "read_back it"] show ?thesis by (simp add: cJSON_Print_def)
qed

lemma printed_parses:
  assumes "survives CJSON_NESTING_LIMIT it" and "item_string it = None"
  shows "\<exists>s. cJSON_Print it = Some s \<and> cJSON_Parse s = Some (Inr (Some it))"
  using printed_read_back [of it] survives_printable [OF assms(1)] assms(2) by simp

text \<open>
  C31. What the printer writes, the parser reads back: an item with the fields that parsing
  gives, with texts and names that are C strings (escapes, control characters and any other
  bytes included), with numbers whose printed form denotes the same double, and with at most
  1000 levels of arrays and objects, is printed, and \<open>cJSON_Parse\<close> on the printed text returns
  the same item.
\<close>

theorem json_print_parse:
  assumes "survives CJSON_NESTING_LIMIT it" and "item_string it = None"
  shows "\<exists>s. cJSON_Print it = Some s \<and> cJSON_Parse s = Some (Inr (Some it))"
  by (rule printed_parses [OF assms])

end
