(* ===== verification/Json_Api.thy ===== *)
theory Json_Api
  imports Json_Roundtrip
begin

text \<open>
  The calls of \<open>utils/cJSON.c\<close> on whole items: reading the fields and members of an item,
  creating items, comparing two, the printer without white space and the removal of white space
  from a text. A null pointer is \<open>None\<close>. The operations that change the links between items are
  in \<open>Json_Heap\<close>.
\<close>

section \<open>Reading an item\<close>

text \<open>The eight predicates differ in the constant they compare the type with.\<close>

definition has_type :: "cJSON_Type \<Rightarrow> cJSON option \<Rightarrow> bool" where
  "has_type t it = (case it of None \<Rightarrow> False | Some x \<Rightarrow> item_type x = t)"

definition cJSON_IsInvalid :: "cJSON option \<Rightarrow> bool" where "cJSON_IsInvalid it = has_type cJSON_Invalid it"
definition cJSON_IsFalse :: "cJSON option \<Rightarrow> bool" where "cJSON_IsFalse it = has_type cJSON_False it"
definition cJSON_IsTrue :: "cJSON option \<Rightarrow> bool" where "cJSON_IsTrue it = has_type cJSON_True it"
definition cJSON_IsNull :: "cJSON option \<Rightarrow> bool" where "cJSON_IsNull it = has_type cJSON_NULL it"
definition cJSON_IsNumber :: "cJSON option \<Rightarrow> bool" where "cJSON_IsNumber it = has_type cJSON_Number it"
definition cJSON_IsString :: "cJSON option \<Rightarrow> bool" where "cJSON_IsString it = has_type cJSON_String it"
definition cJSON_IsArray :: "cJSON option \<Rightarrow> bool" where "cJSON_IsArray it = has_type cJSON_Array it"
definition cJSON_IsObject :: "cJSON option \<Rightarrow> bool" where "cJSON_IsObject it = has_type cJSON_Object it"
definition cJSON_IsRaw :: "cJSON option \<Rightarrow> bool" where "cJSON_IsRaw it = has_type cJSON_Raw it"

definition cJSON_IsBool :: "cJSON option \<Rightarrow> bool" where
  "cJSON_IsBool it = (case it of None \<Rightarrow> False | Some x \<Rightarrow> item_type x \<in> {cJSON_True, cJSON_False})"

definition cJSON_GetStringValue :: "cJSON option \<Rightarrow> string option" where
  "cJSON_GetStringValue it = (if \<not> cJSON_IsString it then None else valuestring (the it))"

definition cJSON_GetNumberValue :: "cJSON option \<Rightarrow> double" where
  "cJSON_GetNumberValue it = (if \<not> cJSON_IsNumber it then NaN else valuedouble (the it))"

text \<open>The number of children is a \<open>size_t\<close> that is returned as an \<open>int\<close>.\<close>

definition cJSON_GetArraySize :: "cJSON option \<Rightarrow> int" where
  "cJSON_GetArraySize array =
     (case array of None \<Rightarrow> 0 | Some a \<Rightarrow> signed_take_bit 31 (int (length (child a))))"

definition cJSON_GetArrayItem :: "cJSON option \<Rightarrow> int \<Rightarrow> cJSON option" where
  "cJSON_GetArrayItem array index =
     (case array of
        None \<Rightarrow> None
      | Some a \<Rightarrow>
          if index < 0 then None
          else if nat index < length (child a) then Some (child a ! nat index) else None)"

definition object_item :: "cJSON list \<Rightarrow> string option \<Rightarrow> bool \<Rightarrow> cJSON option" where
  "object_item xs name case_sensitive =
     (case name of None \<Rightarrow> None | Some s \<Rightarrow> map_option (\<lambda>i. xs ! i) (get_object_item xs s case_sensitive))"

definition cJSON_GetObjectItem :: "cJSON option \<Rightarrow> string option \<Rightarrow> cJSON option" where
  "cJSON_GetObjectItem object name = (case object of None \<Rightarrow> None | Some x \<Rightarrow> object_item (child x) name False)"

definition cJSON_GetObjectItemCaseSensitive :: "cJSON option \<Rightarrow> string option \<Rightarrow> cJSON option" where
  "cJSON_GetObjectItemCaseSensitive object name =
     (case object of None \<Rightarrow> None | Some x \<Rightarrow> object_item (child x) name True)"

definition cJSON_HasObjectItem :: "cJSON option \<Rightarrow> string option \<Rightarrow> bool" where
  "cJSON_HasObjectItem object name \<longleftrightarrow> cJSON_GetObjectItem object name \<noteq> None"

section \<open>Changing a value\<close>

definition cJSON_SetNumberHelper :: "cJSON \<Rightarrow> double \<Rightarrow> double \<times> cJSON" where
  "cJSON_SetNumberHelper object number =
     (number, Item (item_type object) (valuestring object) (saturate number) number (item_string object)
        (child object))"

text \<open>
  The new text replaces the old one in place when it is not longer. An item that is a string has
  its own text here: one that refers to a text of somebody else is not represented.
\<close>

definition cJSON_SetValuestring :: "cJSON \<Rightarrow> string \<Rightarrow> (string option \<times> cJSON) result" where
  "cJSON_SetValuestring object v =
     (if item_type object \<noteq> cJSON_String then Inr (None, object)
      else case valuestring object of
             None \<Rightarrow> Inl MemoryFault
           | Some _ \<Rightarrow> Inr (Some v, Item (item_type object) (Some v) (valueint object) (valuedouble object)
                                     (item_string object) (child object)))"

section \<open>Creating items\<close>

definition create_type :: "cJSON_Type \<Rightarrow> string option \<Rightarrow> cJSON list \<Rightarrow> cJSON" where
  "create_type t v cs = Item t v (valueint cJSON_New_Item) (valuedouble cJSON_New_Item) (item_string cJSON_New_Item) cs"

definition cJSON_CreateNull :: cJSON where "cJSON_CreateNull = create_type cJSON_NULL None []"
definition cJSON_CreateTrue :: cJSON where "cJSON_CreateTrue = create_type cJSON_True None []"
definition cJSON_CreateFalse :: cJSON where "cJSON_CreateFalse = create_type cJSON_False None []"

definition cJSON_CreateBool :: "bool \<Rightarrow> cJSON" where
  "cJSON_CreateBool boolean = create_type (if boolean then cJSON_True else cJSON_False) None []"

text \<open>A text of \<open>NULL\<close> cannot be duplicated: no item is created.\<close>

definition cJSON_CreateString :: "string option \<Rightarrow> cJSON option" where
  "cJSON_CreateString s = (case s of None \<Rightarrow> None | Some t \<Rightarrow> Some (create_type cJSON_String (Some t) []))"

definition cJSON_CreateRaw :: "string option \<Rightarrow> cJSON option" where
  "cJSON_CreateRaw raw = (case raw of None \<Rightarrow> None | Some t \<Rightarrow> Some (create_type cJSON_Raw (Some t) []))"

definition cJSON_CreateArray :: cJSON where "cJSON_CreateArray = create_type cJSON_Array None []"
definition cJSON_CreateObject :: cJSON where "cJSON_CreateObject = create_type cJSON_Object None []"

text \<open>
  The loops that create an array of \<open>count\<close> elements: reading behind the array is a
  \<open>MemoryFault\<close>, an element that cannot be created ends the loop without an array.
\<close>

primrec create_elements :: "('a \<Rightarrow> cJSON option) \<Rightarrow> nat \<Rightarrow> 'a list \<Rightarrow> cJSON list option result" where
  "create_elements create 0 xs = Inr (Some [])"
| "create_elements create (Suc n) xs =
     (case xs of
        [] \<Rightarrow> Inl MemoryFault
      | x # ys \<Rightarrow>
          (case create x of
             None \<Rightarrow> Inr None
           | Some it \<Rightarrow>
               and_then (create_elements create n ys) (\<lambda>r. Inr (map_option (\<lambda>its. it # its) r))))"

definition create_array :: "('a \<Rightarrow> cJSON option) \<Rightarrow> 'a list option \<Rightarrow> int \<Rightarrow> cJSON option result" where
  "create_array create xs cnt =
     (case xs of
        None \<Rightarrow> Inr None
      | Some ys \<Rightarrow>
          if cnt < 0 then Inr None
          else and_then (create_elements create (nat cnt) ys) (\<lambda>r.
                 Inr (map_option (create_type cJSON_Array None) r)))"

definition cJSON_CreateIntArray :: "int list option \<Rightarrow> int \<Rightarrow> cJSON option result" where
  "cJSON_CreateIntArray numbers cnt = create_array (\<lambda>n. Some (cJSON_CreateNumber (of_int_double n))) numbers cnt"

definition cJSON_CreateDoubleArray :: "double list option \<Rightarrow> int \<Rightarrow> cJSON option result" where
  "cJSON_CreateDoubleArray numbers cnt = create_array (\<lambda>n. Some (cJSON_CreateNumber n)) numbers cnt"

text \<open>A \<open>float\<close> is a double of fewer digits; converting it is exact.\<close>

definition cJSON_CreateFloatArray :: "double list option \<Rightarrow> int \<Rightarrow> cJSON option result" where
  "cJSON_CreateFloatArray numbers cnt = create_array (\<lambda>n. Some (cJSON_CreateNumber n)) numbers cnt"

definition cJSON_CreateStringArray :: "string option list option \<Rightarrow> int \<Rightarrow> cJSON option result" where
  "cJSON_CreateStringArray strings cnt = create_array cJSON_CreateString strings cnt"

section \<open>Comparing two items\<close>

lemma get_object_item_length: "get_object_item xs s b = Some i \<Longrightarrow> i < length xs"
  by (induction xs s b arbitrary: i rule: get_object_item.induct) (auto split: option.splits if_splits)

lemma object_item_in: "object_item xs name b = Some y \<Longrightarrow> y \<in> set xs"
  by (auto simp: object_item_def dest: get_object_item_length split: option.splits)

lemma child_smaller: "x \<in> set (child a) \<Longrightarrow> size x < size a"
  by (cases a) (simp add: less_Suc_eq_le size_list_estimation' trans_le_add2)

lemma children_smaller:
  assumes "x \<in> set (child a)" and "y \<in> set (child b)"
  shows "size x + size y < size a + size b" and "size y + size x < size a + size b"
  using child_smaller [OF assms(1)] child_smaller [OF assms(2)] by simp_all

text \<open>Of two different items: an item is equal to itself by its address.\<close>

function cJSON_Compare :: "cJSON \<Rightarrow> cJSON \<Rightarrow> bool \<Rightarrow> bool" where
  "cJSON_Compare a b case_sensitive =
     (if item_type a \<noteq> item_type b then False
      else case item_type a of
        cJSON_Invalid \<Rightarrow> False
      | cJSON_False \<Rightarrow> True
      | cJSON_True \<Rightarrow> True
      | cJSON_NULL \<Rightarrow> True
      | cJSON_Number \<Rightarrow> compare_double (valuedouble a) (valuedouble b)
      | cJSON_String \<Rightarrow> valuestring a \<noteq> None \<and> valuestring b \<noteq> None \<and> valuestring a = valuestring b
      | cJSON_Raw \<Rightarrow> valuestring a \<noteq> None \<and> valuestring b \<noteq> None \<and> valuestring a = valuestring b
      | cJSON_Array \<Rightarrow>
          (\<forall>p\<in>set (zip (child a) (child b)). cJSON_Compare (fst p) (snd p) case_sensitive) \<and>
          length (child a) = length (child b)
      | cJSON_Object \<Rightarrow>
          (\<forall>x\<in>set (child a). case object_item (child b) (item_string x) case_sensitive of
             None \<Rightarrow> False | Some y \<Rightarrow> cJSON_Compare x y case_sensitive) \<and>
          (\<forall>y\<in>set (child b). case object_item (child a) (item_string y) case_sensitive of
             None \<Rightarrow> False | Some x \<Rightarrow> cJSON_Compare y x case_sensitive))"
  by pat_completeness auto
termination
  by (relation "measure (\<lambda>(a, b, c). size a + size b)")
    (auto intro: children_smaller children_smaller(1) [OF set_zip_leftD set_zip_rightD] dest: object_item_in)

declare cJSON_Compare.simps [simp del]

section \<open>Removing white space from a text\<close>

text \<open>The text runs to the zero; what is written never passes what has been read.\<close>

fun skip_oneline_comment :: "string \<Rightarrow> string" where
  "skip_oneline_comment [] = []"
| "skip_oneline_comment (c # s) = (if c = CHR 0x0A then s else skip_oneline_comment s)"

fun skip_multiline_comment :: "string \<Rightarrow> string" where
  "skip_multiline_comment [] = []"
| "skip_multiline_comment (c # s) =
     (if c = CHR ''*'' \<and> s \<noteq> [] \<and> hd s = CHR ''/'' then tl s else skip_multiline_comment s)"

text \<open>What is written of a string behind its first quote, and the rest of the text.\<close>

function minify_string :: "string \<Rightarrow> string \<times> string" where
  "minify_string [] = ([], [])"
| "minify_string (c # s) =
     (if c = CHR 0x22 then ([c], s)
      else if c = CHR 0x5C \<and> s \<noteq> [] \<and> hd s = CHR 0x22 then
        (case minify_string (tl s) of (out, rest) \<Rightarrow> (c # CHR 0x22 # out, rest))
      else (case minify_string s of (out, rest) \<Rightarrow> (c # out, rest)))"
  by pat_completeness auto
termination by (relation "measure length") (auto simp: less_Suc_eq_le)

lemma skip_shorter: "length (skip_oneline_comment s) \<le> length s" "length (skip_multiline_comment s) \<le> length s"
  by (induction s) auto

lemma minify_string_shorter: "length (snd (minify_string s)) \<le> length s"
  by (induction s rule: minify_string.induct) (auto split: prod.splits)

definition is_blank :: "char \<Rightarrow> bool" where
  "is_blank c \<longleftrightarrow> c \<in> {CHR '' '', CHR 0x09, CHR 0x0D, CHR 0x0A}"

function minify :: "string \<Rightarrow> string" where
  "minify [] = []"
| "minify (c # s) =
     (if is_blank c then minify s
      else if c = CHR ''/'' then
        (if s \<noteq> [] \<and> hd s = CHR ''/'' then minify (skip_oneline_comment (tl s))
         else if s \<noteq> [] \<and> hd s = CHR ''*'' then minify (skip_multiline_comment (tl s))
         else minify s)
      else if c = CHR 0x22 then c # fst (minify_string s) @ minify (snd (minify_string s))
      else c # minify s)"
  by pat_completeness auto
termination
  by (relation "measure length")
    (auto simp: less_Suc_eq_le minify_string_shorter intro: le_trans [OF skip_shorter(1)] le_trans [OF skip_shorter(2)])

declare minify.simps [simp del]

definition cJSON_Minify :: "string \<Rightarrow> string" where
  "cJSON_Minify json = minify (c_string json)"

definition cJSON_PrintUnformatted :: "cJSON \<Rightarrow> string option" where
  "cJSON_PrintUnformatted it = print_value False 0 it"

definition cJSON_ParseWithLength :: "string \<Rightarrow> cJSON option result option" where
  "cJSON_ParseWithLength v = map_option (map_sum id fst) (cJSON_ParseWithLengthOpts v False)"

end
