(* ===== verification/Json_Numbers.thy ===== *)
theory Json_Numbers
  imports Json_Roundtrip
begin

text \<open>
  Numbers in JSON text: integers are exact, larger ones are saturated when they are read as
  \<open>int\<close>, and the printer's test whether 15 digits are enough lets some doubles change.
\<close>

section \<open>Integers\<close>

lemma len_in_bound: "n < b ^ m \<Longrightarrow> len_in b n \<le> m"
proof (induction b n arbitrary: m rule: len_in.induct)
  case (1 b n)
  show ?case
  proof (cases "n \<le> 0 \<or> b < 2")
    case True
    then show ?thesis by (simp add: len_in.simps)
  next
    case False
    then obtain m' where m: "m = Suc m'" using 1(2) by (cases m) simp_all
    have "n div b < b ^ m'"
    proof (rule ccontr)
      assume "\<not> n div b < b ^ m'"
      then have "b ^ m' * b \<le> n div b * b" using False by (intro mult_right_mono) simp_all
      also have "\<dots> \<le> n" using div_mult_mod_eq [of n b] pos_mod_sign [of b n] False by linarith
      finally show False using 1(2) m by (simp add: mult.commute)
    qed
    from 1(1) [OF False this] show ?thesis using m False by (simp add: len_in.simps [of b n])
  qed
qed

lemma quotient_of_int: "quotient_of (of_int n) = (n, 1)"
  by (simp add: Fract_of_int_eq [symmetric] quotient_of_Fract normalize_def)

lemma round_even_int [simp]: "round_even (of_int i) = i"
  by (simp add: round_even_def)

lemma round_double_int:
  assumes "\<bar>i\<bar> < 2 ^ 53"
  shows "round_double (of_int i) = Finite (of_int i)"
proof (cases "i = 0")
  case True
  then show ?thesis by (simp add: round_double_def)
next
  case False
  define k where "k = exponent_in 2 \<bar>of_int i\<bar>"
  define e where "e = max (- 1074) (k - 52)"
  have "len_in 2 \<bar>i\<bar> \<le> 53" by (rule len_in_bound [OF assms])
  moreover have "len_in 2 1 = 1" by (simp add: len_in.simps)
  ultimately have "k \<le> 52"
    using quotient_of_int [of "\<bar>i\<bar>"] by (simp add: k_def exponent_in_def Let_def)
  then have e: "e \<le> 0" by (simp add: e_def)
  define j where "j = i * 2 ^ nat (- e)"
  have s: "scaled 2 e = 1 / 2 ^ nat (- e)" using e by (cases "e = 0") (simp_all add: scaled_def)
  have "of_int i / scaled 2 e = of_int j" by (simp add: s j_def)
  then have "round_even (of_int i / scaled 2 e) = j" by (simp only: round_even_int)
  moreover have "of_int j * scaled 2 e = (of_int i :: rat)" by (simp add: s j_def)
  moreover have "\<bar>of_int i :: rat\<bar> < 2 ^ 1024"
  proof -
    have "(of_int \<bar>i\<bar> :: rat) < of_int (2 ^ 53)" using assms by (simp only: of_int_less_iff)
    also have "\<dots> < 2 ^ 1024" by simp
    finally show ?thesis by simp
  qed
  ultimately show ?thesis
    using False by (simp add: round_double_def Let_def flip: k_def e_def)
qed

lemma of_int_double_int: "\<bar>i\<bar> < 2 ^ 53 \<Longrightarrow> of_int_double i = Finite (of_int i)"
  by (simp add: of_int_double_def round_double_int)

text \<open>A decimal integer is read as itself.\<close>

lemma strtod_to_string:
  assumes "\<bar>i\<bar> < 2 ^ 53"
  shows "strtod (to_string i) = (Finite (of_int i), length (to_string i))"
proof -
  define ds where "ds = nat_digits (nat \<bar>i\<bar>)"
  have tw: "takeWhile is_digit ds = ds" unfolding ds_def using nat_digits_digit by (simp add: takeWhile_eq_all_conv)
  have "ds \<noteq> []" by (simp add: ds_def)
  moreover have "is_digit (hd ds)"
    using nat_digits_digit [of "hd ds" "nat \<bar>i\<bar>"] by (simp add: ds_def)
  ultimately have sign: "read_sign ds = (False, 0)" by (cases ds) (auto simp: read_sign_def is_digit_def)
  have v: "digits_value ds = nat \<bar>i\<bar>" by (simp add: ds_def digits_value_nat_digits)
  have no_exp: "read_exponent [] = (0, 0)" by (simp add: read_exponent_def)
  have r: "round_double (of_int i) = Finite (of_int i)" by (rule round_double_int [OF assms])
  show ?thesis
  proof (cases "i < 0")
    case True
    then have t: "to_string i = CHR ''-'' # ds" by (simp add: to_string_def ds_def)
    have "read_sign (to_string i) = (True, 1)" by (simp add: t read_sign_def)
    then show ?thesis
      using True r \<open>ds \<noteq> []\<close> by (simp add: strtod_def t tw v no_exp scaled_def of_nat_nat)
  next
    case False
    then have "to_string i = ds" by (simp add: to_string_def ds_def)
    then show ?thesis
      using False r sign \<open>ds \<noteq> []\<close> by (simp add: strtod_def tw v no_exp scaled_def of_nat_nat)
  qed
qed

lemma length_nat_digits: "n < 10 ^ m \<Longrightarrow> 0 < m \<Longrightarrow> length (nat_digits n) \<le> m"
proof (induction n arbitrary: m rule: nat_digits.induct)
  case (1 n)
  show ?case
  proof (cases "n < 10")
    case True
    then show ?thesis using 1(3) by (simp add: nat_digits.simps)
  next
    case False
    then obtain m' where m: "m = Suc m'" "0 < m'" using 1(2) by (cases m; cases "m - 1") simp_all
    then have "n div 10 < 10 ^ m'" using 1(2) by (simp add: less_mult_imp_div_less)
    from 1(1) [OF False this m(2)] show ?thesis using m False by (simp add: nat_digits.simps [of n])
  qed
qed

definition is_int :: "int \<Rightarrow> bool" where
  "is_int i \<longleftrightarrow> INT_MIN \<le> i \<and> i \<le> INT_MAX"

lemma int_small: "is_int i \<Longrightarrow> \<bar>i\<bar> < 2 ^ 53"
  by (auto simp: is_int_def INT_MIN_def INT_MAX_def)

lemma saturate_int:
  assumes "is_int i"
  shows "saturate (of_int_double i) = i"
proof -
  have "of_int_double INT_MAX = Finite (of_int INT_MAX)" "of_int_double INT_MIN = Finite (of_int INT_MIN)"
    by (rule of_int_double_int, simp add: INT_MAX_def INT_MIN_def)+
  then show ?thesis
    using assms of_int_double_int [OF int_small [OF assms]]
    by (simp add: saturate_def is_int_def)
qed

lemma print_int:
  assumes "is_int i"
  shows "print_number (cJSON_CreateNumber (of_int_double i)) = Some (to_string i)"
proof -
  have "nat \<bar>i\<bar> < 10 ^ 10" using assms by (auto simp: is_int_def INT_MAX_def INT_MIN_def)
  then have "length (nat_digits (nat \<bar>i\<bar>)) \<le> 10" by (rule length_nat_digits) simp
  then have "length (to_string i) \<le> 25" by (cases "i < 0") (simp_all add: to_string_def)
  then show ?thesis
    using saturate_int [OF assms] of_int_double_int [OF int_small [OF assms]]
    by (simp add: print_number_def cJSON_CreateNumber_def format_d_def Let_def)
qed

lemma exact_int:
  assumes "is_int i"
  shows "exact_number (cJSON_CreateNumber (of_int_double i))"
  using print_int [OF assms] strtod_to_string [OF int_small [OF assms]] of_int_double_int [OF int_small [OF assms]]
  by (simp add: exact_number_def cJSON_CreateNumber_def)

text \<open>A finite number is close to itself.\<close>

lemma compare_double_refl: "compare_double (Finite x) (Finite x)"
proof -
  have "0 \<le> round_even y" if "0 \<le> y" for y using that by (simp add: round_even_def Let_def)
  moreover have "0 \<le> scaled 2 e" for e by (simp add: scaled_def)
  ultimately have "le_double (Finite 0) (round_double y)" if "0 \<le> y" for y
    using that by (auto simp: round_double_def Let_def not_less dest: order.strict_trans2)
  moreover have "round_double 0 = Finite 0" by (simp add: round_double_def)
  ultimately show ?thesis by (simp add: compare_double_def)
qed

text \<open>The members that the statistics and the configuration have.\<close>

definition int_member :: "string \<Rightarrow> int \<Rightarrow> cJSON" where
  "int_member key i = rename (Some key) (cJSON_CreateNumber (of_int_double i))"

definition string_member :: "string \<Rightarrow> string \<Rightarrow> cJSON" where
  "string_member key s = Item cJSON_String (Some s) 0 (Finite 0) (Some key) []"

definition json_object :: "cJSON list \<Rightarrow> cJSON" where
  "json_object ms = Item cJSON_Object None 0 (Finite 0) None ms"

lemma print_number_rename [simp]: "print_number (rename nm it) = print_number it"
  unfolding print_number_def rename_def cJSON.sel by (rule refl)

lemma print_value_number: "item_type it = cJSON_Number \<Longrightarrow> print_value format k it = print_number it"
  by (cases it) simp

lemma exact_rename [simp]: "exact_number (rename nm it) \<longleftrightarrow> exact_number it"
  unfolding exact_number_def print_number_def rename_def cJSON.sel by (rule refl)

lemma print_int_member:
  assumes "is_int i"
  shows "print_value format k (int_member key i) = Some (to_string i)"
proof -
  have "item_type (int_member key i) = cJSON_Number"
    by (simp add: int_member_def rename_def cJSON_CreateNumber_def)
  then show ?thesis using print_int [OF assms] by (simp add: print_value_number) (simp add: int_member_def)
qed

text \<open>The readers of the files take the first 1001 bytes of the text.\<close>

lemma parsed_of_printed:
  assumes "cJSON_Print it = Some s" and "survives CJSON_NESTING_LIMIT it" and "item_string it = None"
    and "length s \<le> 1001"
  shows "cJSON_Parse (take 1001 s) = Some (Inr (Some it))"
  using printed_parses [OF assms(2,3)] assms(1,4) by simp

lemma survives_int_member: "is_int i \<Longrightarrow> survives n (int_member key i)"
  using exact_int [of i] saturate_int [of i] exact_rename [of "Some key" "cJSON_CreateNumber (of_int_double i)"]
  by (simp add: int_member_def rename_def cJSON_CreateNumber_def)

lemma int_member_fields [simp]:
  "item_string (int_member key i) = Some key"
  "valuestring (int_member key i) = None"
  "is_int i \<Longrightarrow> valueint (int_member key i) = i"
  by (simp_all add: int_member_def rename_def cJSON_CreateNumber_def saturate_int)

lemma survives_string_member: "CHR 0x00 \<notin> set s \<Longrightarrow> survives n (string_member key s)"
  by (simp add: string_member_def is_text_def)

lemma string_member_fields [simp]:
  "item_string (string_member key s) = Some key" "valuestring (string_member key s) = Some s"
  "valueint (string_member key s) = 0"
  by (simp_all add: string_member_def)

lemma survives_json_object:
  "survives CJSON_NESTING_LIMIT (json_object ms) \<longleftrightarrow>
     (\<forall>m\<in>set ms. is_text (item_string m) \<and> survives 999 m)"
  by (simp add: json_object_def CJSON_NESTING_LIMIT_def)

theorem json_print_parse_witness:
  "\<exists>s. cJSON_Print (json_object [string_member ''Task'' [CHR 0x22, CHR 0x0A], int_member ''Size'' 4096]) = Some s \<and>
     cJSON_Parse s = Some (Inr (Some (json_object [string_member ''Task'' [CHR 0x22, CHR 0x0A], int_member ''Size'' 4096])))"
  by (rule json_print_parse)
    (simp add: survives_json_object survives_string_member survives_int_member is_int_def INT_MIN_def INT_MAX_def
      is_text_def, simp add: json_object_def)

lemma parse_integer:
  assumes "\<bar>i\<bar> < 2 ^ 53"
  shows "cJSON_Parse (to_string i) =
    Some (Inr (Some (Item cJSON_Number None (max INT_MIN (min INT_MAX i)) (Finite (of_int i)) None [])))"
proof -
  have "nat \<bar>i\<bar> < 10 ^ 16" using assms by (simp add: nat_less_iff)
  then have "length (nat_digits (nat \<bar>i\<bar>)) \<le> 16" by (rule length_nat_digits) simp
  then have len: "length (to_string i) \<le> 25" by (cases "i < 0") (simp_all add: to_string_def)
  have st: "strtod (to_string i) = (Finite (of_int i), length (to_string i))"
    by (rule strtod_to_string [OF assms])
  have sat: "saturate (Finite (of_int i)) = max INT_MIN (min INT_MAX i)"
  proof -
    have "of_int_double INT_MAX = Finite (of_int INT_MAX)" "of_int_double INT_MIN = Finite (of_int INT_MIN)"
      by (rule of_int_double_int, simp add: INT_MAX_def INT_MIN_def)+
    then show ?thesis by (simp add: saturate_def) (simp add: INT_MAX_def INT_MIN_def)
  qed
  have start: "starts_number (to_string i)" using starts_to_string [of i] by (simp add: format_d_def)
  have r: "reads (parse_value (CJSON_NESTING_LIMIT + 1)) 0 (to_string i)
      (Item cJSON_Number None (saturate (Finite (of_int i))) (Finite (of_int i)) None [])" "starts_value (to_string i)"
    using number_reads [OF st start len] by simp_all
  show ?thesis using parse_whole [OF r] sat by (simp add: rename_def)
qed

text \<open>
  An integer in JSON text keeps its value as a double and is saturated as an \<open>int\<close>: for
  every integer below 2^53 in absolute value, \<open>cJSON_Parse\<close> on its decimal digits gives a number
  whose \<open>valuedouble\<close> is exact and whose \<open>valueint\<close> is the nearest value of type \<open>int\<close>.
\<close>

theorem json_integer_saturates:
  assumes "\<bar>i\<bar> < 2 ^ 53"
  shows "cJSON_Parse (to_string i) =
    Some (Inr (Some (Item cJSON_Number None (max INT_MIN (min INT_MAX i)) (Finite (of_int i)) None [])))"
  by (rule parse_integer [OF assms])

theorem json_integer_saturates_witness:
  "cJSON_Parse (to_string (- 5)) = Some (Inr (Some (Item cJSON_Number None (- 5) (Finite (- 5)) None []))) \<and>
   cJSON_Parse (to_string 5000000000) =
     Some (Inr (Some (Item cJSON_Number None 2147483647 (Finite 5000000000) None [])))"
  using json_integer_saturates [of "- 5"] json_integer_saturates [of 5000000000]
  by (simp add: INT_MAX_def INT_MIN_def)

section \<open>Doubles\<close>

lemma scaled_powi: "scaled b e = of_int b powi e"
  by (simp add: scaled_def power_int_def power_one_over inverse_eq_divide)

lemma len_in_range:
  assumes "2 \<le> b" and "0 < n"
  shows "\<exists>k. len_in b n = Suc k \<and> b ^ k \<le> n \<and> n < b ^ Suc k"
  using assms
proof (induction b n rule: len_in.induct)
  case (1 b n)
  have l: "len_in b n = Suc (len_in b (n div b))" using "1.prems" by (simp add: len_in.simps [of b n])
  show ?case
  proof (cases "n < b")
    case True
    then have "n div b = 0" using "1.prems" by simp
    then show ?thesis using l True "1.prems" by (simp add: len_in.simps [of b 0])
  next
    case False
    then have "0 < n div b" using "1.prems" by (simp add: pos_imp_zdiv_pos_iff)
    with "1.IH" "1.prems" obtain k where k: "len_in b (n div b) = Suc k" "b ^ k \<le> n div b" "n div b < b ^ Suc k"
      by auto
    have "b ^ k * b \<le> n div b * b" using k(2) "1.prems" by (intro mult_right_mono) simp_all
    moreover have "(n div b + 1) * b \<le> b ^ Suc k * b" using k(3) "1.prems" by (intro mult_right_mono) simp_all
    moreover have "n div b * b + n mod b = n" by (rule div_mult_mod_eq)
    moreover have "0 \<le> n mod b" "n mod b < b" using "1.prems" by simp_all
    moreover have "(n div b + 1) * b = n div b * b + b" by (simp add: algebra_simps)
    ultimately have "b ^ k * b \<le> n" "n < b ^ Suc k * b" by linarith+
    then have "b ^ Suc k \<le> n" "n < b ^ Suc (Suc k)" by (simp_all add: mult.commute)
    then show ?thesis using l k(1) by simp
  qed
qed

text \<open>The exponent is the one whose range holds the number.\<close>

lemma powi_less:
  assumes "1 < (B :: rat)" and "B powi i < B powi j"
  shows "i < j"
  using assms power_int_increasing [of j i B] by (meson leD leI less_imp_le)

lemma exponent_in_range:
  assumes "2 \<le> b" and "0 < x"
  shows "scaled b (exponent_in b x) \<le> x" and "x < scaled b (exponent_in b x + 1)"
proof -
  obtain n d where q: "quotient_of x = (n, d)" by fastforce
  have d: "0 < d" and x: "x = of_int n / of_int d" using q quotient_of_denom_pos quotient_of_div by blast+
  have n: "0 < n" using assms(2) d by (simp add: x zero_less_divide_iff)
  define B where "B = (of_int b :: rat)"
  have B: "1 < B" using assms(1) by (simp add: B_def)
  obtain l where l: "len_in b n = Suc l" "b ^ l \<le> n" "n < b ^ Suc l" using len_in_range [OF assms(1) n] by blast
  obtain m where m: "len_in b d = Suc m" "b ^ m \<le> d" "d < b ^ Suc m" using len_in_range [OF assms(1) d] by blast
  define k where "k = int l - int m"
  have bounds: "B ^ l \<le> of_int n" "of_int n < B ^ Suc l" "B ^ m \<le> of_int d" "of_int d < B ^ Suc m"
    using l(2,3) m(2,3) unfolding B_def of_int_power [symmetric] of_int_le_iff of_int_less_iff by simp_all
  have "of_int n * B ^ m < B ^ Suc l * of_int d"
    by (rule order_less_le_trans [OF mult_strict_right_mono [OF bounds(2)] mult_left_mono [OF bounds(3)]])
      (use B in simp_all)
  then have "x < B ^ Suc l / B ^ m" using d B by (simp add: x divide_simps)
  also have "\<dots> = B powi (k + 1)" using B by (simp add: k_def power_int_diff power_int_add)
  finally have upper: "x < B powi (k + 1)" .
  have "B ^ l * of_int d < of_int n * B ^ Suc m"
    by (rule order_le_less_trans [OF mult_right_mono [OF bounds(1)] mult_strict_left_mono [OF bounds(4)]])
      (use n d in simp_all)
  then have "B ^ l / B ^ Suc m < x" using d B by (simp add: x divide_simps mult.commute)
  moreover have "B ^ l / B ^ Suc m = B powi (k - 1)" using B by (simp add: k_def power_int_diff)
  ultimately have lower: "B powi (k - 1) < x" by simp
  have "exponent_in b x = (if B powi k \<le> x then k else k - 1)"
    using l(1) m(1) by (simp add: exponent_in_def q Let_def scaled_powi k_def B_def)
  with upper lower show "scaled b (exponent_in b x) \<le> x" and "x < scaled b (exponent_in b x + 1)"
    by (auto simp: scaled_powi simp flip: B_def)
qed

lemma exponent_inI:
  assumes "2 \<le> b" and "0 < x" and "scaled b e \<le> x" and "x < scaled b (e + 1)"
  shows "exponent_in b x = e"
proof -
  have B: "1 < (of_int b :: rat)" using assms(1) by simp
  note range = exponent_in_range [OF assms(1,2)]
  have "e < exponent_in b x + 1"
    by (rule powi_less [OF B]) (use order_le_less_trans [OF assms(3) range(2)] in \<open>simp add: scaled_powi\<close>)
  moreover have "exponent_in b x < e + 1"
    by (rule powi_less [OF B]) (use order_le_less_trans [OF range(1) assms(4)] in \<open>simp add: scaled_powi\<close>)
  ultimately show ?thesis by simp
qed

lemma round_evenI: "\<bar>x - of_int m\<bar> < 1 / 2 \<Longrightarrow> round_even x = m"
proof -
  assume x: "\<bar>x - of_int m\<bar> < 1 / 2"
  show ?thesis
  proof (cases "of_int m \<le> x")
    case True
    then have "\<lfloor>x\<rfloor> = m" using x by (simp add: floor_eq_iff abs_less_iff)
    then show ?thesis using x True by (simp add: round_even_def)
  next
    case False
    then have "\<lfloor>x\<rfloor> = m - 1" using x by (simp add: floor_eq_iff abs_less_iff)
    then show ?thesis using x False by (simp add: round_even_def Let_def)
  qed
qed

text \<open>The nearest double, from its significand and exponent.\<close>

lemma round_doubleI:
  assumes "scaled 2 (e + 52) \<le> \<bar>x\<bar>" and "\<bar>x\<bar> < scaled 2 (e + 53)" and "- 1074 \<le> e"
    and "\<bar>x / scaled 2 e - of_int m\<bar> < 1 / 2" and "\<bar>of_int m * scaled 2 e\<bar> < 2 ^ 1024"
  shows "round_double x = Finite (of_int m * scaled 2 e)"
proof -
  have "0 < scaled 2 (e + 52)" by (simp add: scaled_def)
  then have "0 < \<bar>x\<bar>" using assms(1) by (rule less_le_trans)
  then have "exponent_in 2 \<bar>x\<bar> = e + 52"
    using assms(1,2) by (intro exponent_inI) (simp_all add: add.assoc)
  then show ?thesis
    using assms(3,5) round_evenI [OF assms(4)] \<open>0 < \<bar>x\<bar>\<close> by (simp add: round_double_def max_def)
qed

text \<open>
  A double can change when it is written and read: the printer writes 15 digits when
  they denote a double that \<open>compare_double\<close> takes for the same, and that allows for a
  difference. The double that \<open>0.30000000000000004\<close> denotes is written as \<open>0.3\<close>, which denotes
  another one.
\<close>

theorem json_double_changes:
  "let d = fst (strtod ''0.30000000000000004'')
   in cJSON_Print (cJSON_CreateNumber d) = Some ''0.3'' \<and> fst (strtod ''0.3'') \<noteq> d \<and>
      \<not> exact_number (cJSON_CreateNumber d)"
proof -
  have "round_double (7500000000000001 / 25000000000000000) = Finite (of_int 5404319552844596 * scaled 2 (- 54))"
    by (rule round_doubleI) (simp_all add: scaled_def)
  moreover have "round_double (3 / 10) = Finite (of_int 5404319552844595 * scaled 2 (- 54))"
    by (rule round_doubleI) (simp_all add: scaled_def)
  moreover have "of_int 5404319552844596 * scaled 2 (- 54) = 1351079888211149 / 4503599627370496"
    "of_int 5404319552844595 * scaled 2 (- 54) = 5404319552844595 / 18014398509481984"
    by (simp_all add: scaled_def)
  ultimately have "round_double (7500000000000001 / 25000000000000000) = Finite (1351079888211149 / 4503599627370496)"
    "round_double (3 / 10) = Finite (5404319552844595 / 18014398509481984)"
    by simp_all
  then have d: "fst (strtod ''0.30000000000000004'') = Finite (1351079888211149 / 4503599627370496)"
    and d': "strtod ''0.3'' = (Finite (5404319552844595 / 18014398509481984), 3)"
    by (simp_all add: strtod_def read_sign_def read_exponent_def is_digit_def digits_value_def scaled_def)
  have "exponent_in 10 (1351079888211149 / 4503599627370496) = - 1"
    by (rule exponent_inI) (simp_all add: scaled_def)
  then have "significant 15 (1351079888211149 / 4503599627370496) = (300000000000000, - 1)"
    using round_evenI [of "1351079888211149 / 4503599627370496 / scaled 10 (- 15)" 300000000000000]
    by (simp add: significant_def scaled_def)
  moreover have "digit 0 = CHR ''0''" "digit 3 = CHR ''3''" by code_simp+
  ultimately have "format_g 15 (1351079888211149 / 4503599627370496) = ''0.3''"
    by (simp add: format_g_def fraction_text_def nat_digits.simps)
  moreover have "saturate (Finite (1351079888211149 / 4503599627370496)) = 0"
  proof -
    have "of_int_double INT_MAX = Finite (of_int INT_MAX)" "of_int_double INT_MIN = Finite (of_int INT_MIN)"
      by (rule of_int_double_int, simp add: INT_MAX_def INT_MIN_def)+
    then show ?thesis by (simp add: saturate_def INT_MAX_def INT_MIN_def floor_eq_iff)
  qed
  moreover have "of_int_double 0 = Finite 0" using of_int_double_int [of 0] by simp
  moreover have "compare_double (Finite (5404319552844595 / 18014398509481984)) (Finite (1351079888211149 / 4503599627370496))"
  proof -
    have "round_double (- 1 / 18014398509481984) = Finite (of_int (- 4503599627370496) * scaled 2 (- 106))"
      by (rule round_doubleI) (simp_all add: scaled_def)
    moreover have "round_double (1351079888211149 / 20282409603651670423947251286016) =
        Finite (of_int 5404319552844596 * scaled 2 (- 106))"
      by (rule round_doubleI) (simp_all add: scaled_def)
    ultimately show ?thesis by (simp add: compare_double_def Let_def scaled_def)
  qed
  ultimately have "print_number (cJSON_CreateNumber (Finite (1351079888211149 / 4503599627370496))) = Some ''0.3''"
    by (simp add: print_number_def cJSON_CreateNumber_def d')
  then show ?thesis
    unfolding d by (simp add: d' exact_number_def cJSON_Print_def cJSON_CreateNumber_def)
qed

end
