(* ===== verification/Json_Api_Correct.thy ===== *)
theory Json_Api_Correct
  imports Json_Api Json_Numbers
begin

text \<open>
  What the calls of \<open>Json_Api\<close> achieve: removing the white space of a printed text, and
  comparing items.
\<close>

section \<open>Removing white space\<close>

text \<open>Characters that \<open>cJSON_Minify\<close> copies.\<close>

definition token_char :: "char \<Rightarrow> bool" where
  "token_char c \<longleftrightarrow> \<not> is_blank c \<and> c \<noteq> CHR ''/'' \<and> c \<noteq> CHR 0x22 \<and> c \<noteq> CHR 0x00"

lemma token_chars [simp]:
  "token_char (CHR ''['')" "token_char (CHR '']'')" "token_char (CHR ''{'')" "token_char (CHR ''}'')"
  "token_char (CHR '','')" "token_char (CHR '':'')" "token_char (CHR ''-'')" "token_char (CHR ''+'')"
  "token_char (CHR ''.'')" "token_char (CHR ''e'')" "token_char (CHR ''0'')"
  by (simp_all add: token_char_def is_blank_def)

lemma minify_token: "token_char c \<Longrightarrow> minify (c # s) = c # minify s"
  by (simp add: token_char_def minify.simps)

lemma minify_tokens: "\<forall>c\<in>set s. token_char c \<Longrightarrow> minify (s @ r) = s @ minify r"
  by (induction s) (simp_all add: minify_token)

lemma minify_blanks: "\<forall>c\<in>set s. is_blank c \<Longrightarrow> minify (s @ r) = minify r"
  by (induction s) (simp_all add: minify.simps)

text \<open>The text of a number consists of such characters.\<close>

lemma digit_token: "is_digit c \<Longrightarrow> token_char c"
  by (auto simp: is_digit_def token_char_def is_blank_def)

lemma nat_digits_tokens: "c \<in> set (nat_digits n) \<Longrightarrow> token_char c"
  by (rule digit_token [OF nat_digits_digit])

lemma fraction_tokens: "(\<And>c. c \<in> set ds \<Longrightarrow> token_char c) \<Longrightarrow> c \<in> set (fraction_text ds) \<Longrightarrow> token_char c"
  by (auto simp: fraction_text_def Let_def split: if_splits dest: set_dropWhileD)

lemma format_g_tokens: "c \<in> set (format_g p x) \<Longrightarrow> token_char c"
  using nat_digits_tokens
  by (auto simp: format_g_def exponent_text_def Let_def in_set_replicate
      dest: in_set_takeD in_set_dropD elim!: fraction_tokens [rotated] split: if_splits prod.splits)

lemma print_number_tokens: "print_number it = Some s \<Longrightarrow> \<forall>c\<in>set s. token_char c"
  using nat_digits_tokens
  by (auto simp: print_number_def Let_def format_d_def to_string_def token_char_def [of "CHR ''n''"]
      token_char_def [of "CHR ''u''"] token_char_def [of "CHR ''l''"] is_blank_def
      dest: format_g_tokens split: double.splits if_splits prod.splits)

text \<open>A printed string is passed over when it does not end in a backslash.\<close>

definition closes :: "string option \<Rightarrow> bool" where
  "closes v \<longleftrightarrow> (case v of None \<Rightarrow> True | Some s \<Rightarrow> s = [] \<or> last s \<noteq> CHR 0x5C)"

lemma escape_forms:
  obtains "escape c = [c]" "c \<noteq> CHR 0x22" "c \<noteq> CHR 0x5C"
  | "c = CHR 0x22" "escape c = [CHR 0x5C, CHR 0x22]"
  | "c = CHR 0x5C" "escape c = [CHR 0x5C, CHR 0x5C]"
  | a t where "escape c = CHR 0x5C # a # t" "\<forall>b\<in>set (a # t). b \<noteq> CHR 0x22 \<and> b \<noteq> CHR 0x5C"
proof (cases "31 < (of_char c :: nat)")
  case True
  then show thesis using that by (auto simp: escape_def)
next
  case False
  then have "hex_char (of_char c div 16) \<noteq> CHR 0x22 \<and> hex_char (of_char c div 16) \<noteq> CHR 0x5C"
    "hex_char (of_char c mod 16) \<noteq> CHR 0x22 \<and> hex_char (of_char c mod 16) \<noteq> CHR 0x5C"
    by (intro hex_char_plain; simp)+
  moreover have "c \<noteq> CHR 0x22" "c \<noteq> CHR 0x5C" using False by auto
  ultimately show thesis
    using False by (intro that(4) [of "hd (tl (escape c))" "tl (tl (escape c))"]) (simp_all add: escape_def)
qed

lemma minify_string_plain:
  "\<forall>b\<in>set t. b \<noteq> CHR 0x22 \<and> b \<noteq> CHR 0x5C \<Longrightarrow>
    minify_string (t @ s) = (t @ fst (minify_string s), snd (minify_string s))"
  by (induction t) (simp_all add: case_prod_beta)

lemma minify_string_text:
  assumes "closes (Some s)"
  shows "minify_string (concat (map escape s) @ CHR 0x22 # r) = (concat (map escape s) @ [CHR 0x22], r)"
  using assms
proof (induction s)
  case (Cons c s)
  let ?rest = "concat (map escape s) @ CHR 0x22 # r"
  have IH: "minify_string ?rest = (concat (map escape s) @ [CHR 0x22], r)"
    using Cons by (auto simp: closes_def split: if_splits)
  have next_char: "hd ?rest \<noteq> CHR 0x22" if "s \<noteq> []"
    using that by (cases s; cases "hd s" rule: escape_forms) auto
  have ne: "?rest \<noteq> []" by simp
  show ?case
  proof (cases c rule: escape_forms)
    case 3
    then have "s \<noteq> []" using Cons.prems by (auto simp: closes_def)
    then show ?thesis using next_char 3 IH by simp
  next
    case (4 a t)
    then show ?thesis using minify_string_plain [of "a # t" ?rest] IH by auto
  qed (use IH in auto)
qed simp

lemma minify_print_string:
  "closes v \<Longrightarrow> minify (print_string_ptr v @ r) = print_string_ptr v @ minify r"
  by (cases v) (simp_all add: print_string_ptr_def minify.simps is_blank_def minify_string_text)

text \<open>Items of which no string and no name ends in a backslash, and no part is raw text.\<close>

fun minifiable :: "cJSON \<Rightarrow> bool" where
  "minifiable (Item t v i x nm cs) \<longleftrightarrow>
     t \<noteq> cJSON_Raw \<and> (t = cJSON_String \<longrightarrow> closes v) \<and> (\<forall>c\<in>set cs. closes (item_string c) \<and> minifiable c)"

definition minifies :: "string \<Rightarrow> string \<Rightarrow> bool" where
  "minifies s s' \<longleftrightarrow> CHR 0x00 \<notin> set s \<and> (\<forall>r. minify (s @ r) = s' @ minify r)"

lemma minifies_append: "minifies s s' \<Longrightarrow> minifies t t' \<Longrightarrow> minifies (s @ t) (s' @ t')"
  by (simp add: minifies_def)

lemma minifies_tokens: "\<forall>c\<in>set s. token_char c \<Longrightarrow> minifies s s"
  by (auto simp: minifies_def minify_tokens token_char_def)

lemma minifies_blanks: "\<forall>c\<in>set s. is_blank c \<Longrightarrow> minifies s []"
  using minify_blanks [of s] by (fastforce simp: minifies_def is_blank_def)

lemma minifies_string: "closes v \<Longrightarrow> minifies (print_string_ptr v) (print_string_ptr v)"
  using printed_string_no_zero
  by (cases v) (simp_all add: minifies_def minify_print_string, simp add: print_string_ptr_def)

lemma minifies_pieces:
  "minifies (replicate n (CHR 0x09)) []" "minifies [CHR 0x0A] []" "minifies [] []"
  "minifies '','' '',''" "minifies '', '' '',''" "minifies '':'' '':''" "minifies ''['' ''[''" "minifies '']'' '']''"
  "minifies ''{'' ''{''" "minifies ''}'' ''}''" "minifies ''null'' ''null''" "minifies ''true'' ''true''"
  "minifies ''false'' ''false''"
proof -
  have "minifies [CHR '' ''] []" by (rule minifies_blanks) (simp add: is_blank_def)
  moreover have comma: "minifies '','' '',''" by (rule minifies_tokens) simp
  ultimately show "minifies '', '' '',''" using minifies_append [of "'',''" "'',''" "[CHR '' '']" "[]"] by simp
  show "minifies '','' '',''" by (fact comma)
qed (rule minifies_tokens minifies_blanks; simp add: token_char_def is_blank_def)+

lemma minifies_print:
  "print_value f d it = Some s \<Longrightarrow> minifiable it \<Longrightarrow> \<exists>s'. (\<forall>d'. print_value False d' it = Some s') \<and> minifies s s'"
  "print_array f d xs = Some s \<Longrightarrow> \<forall>x\<in>set xs. minifiable x \<Longrightarrow>
    \<exists>s'. (\<forall>d'. print_array False d' xs = Some s') \<and> minifies s s'"
  "print_object f d xs = Some s \<Longrightarrow> \<forall>x\<in>set xs. closes (item_string x) \<and> minifiable x \<Longrightarrow>
    \<exists>s'. (\<forall>d'. print_object False d' xs = Some s') \<and> minifies s s'"
proof (induction f d it and f d xs and f d xs arbitrary: s and s and s
    rule: print_value_print_array_print_object.induct)
  case (1 f d t v i x n cs)
  show ?case
  proof (cases t)
    case cJSON_Number
    then have s: "print_number (Item t v i x n cs) = Some s" using 1 by simp
    then show ?thesis using cJSON_Number minifies_tokens [OF print_number_tokens [OF s]] by simp
  next
    case cJSON_Array
    then obtain u where u: "print_array f (d + 1) cs = Some u" "s = ''['' @ u @ '']''" using 1 by auto
    obtain u' where u': "\<forall>d'. print_array False d' cs = Some u'" "minifies u u'"
      using 1 cJSON_Array u(1) by auto
    then show ?thesis
      using cJSON_Array minifies_append [OF minifies_pieces(7) minifies_append [OF u'(2) minifies_pieces(8)]] u(2) by simp
  next
    case cJSON_Object
    then obtain u where u: "print_object f (d + 1) cs = Some u"
      "s = ''{'' @ (if f then [CHR 0x0A] else []) @ u @ (if f then replicate d (CHR 0x09) else []) @ ''}''"
      using 1 by auto
    obtain u' where u': "\<forall>d'. print_object False d' cs = Some u'" "minifies u u'"
      using 1 cJSON_Object u(1) by auto
    have "minifies (if f then [CHR 0x0A] else []) []" "minifies (if f then replicate d (CHR 0x09) else []) []"
      by (simp_all add: minifies_pieces)
    note pieces = minifies_append [OF minifies_pieces(9) minifies_append [OF this(1) minifies_append [OF u'(2)
      minifies_append [OF this(2) minifies_pieces(10)]]]]
    moreover have "\<forall>d'. print_value False d' (Item t v i x n cs) = Some (''{'' @ [] @ u' @ [] @ ''}'')"
      using cJSON_Object u'(1) by simp
    ultimately show ?thesis unfolding u(2) by blast
  qed (use 1 minifies_pieces minifies_string in auto)
next
  case (3 f d x xs)
  then obtain u w where u: "print_value f d x = Some u" "print_array f d xs = Some w"
    "s = u @ (if xs = [] then [] else if f then '', '' else '','') @ w" by (auto simp: bind_eq_Some_conv)
  obtain u' w' where u': "\<forall>d'. print_value False d' x = Some u'" "minifies u u'"
    and w': "\<forall>d'. print_array False d' xs = Some w'" "minifies w w'"
    using 3 u(1,2) by fastforce
  have "minifies (if xs = [] then [] else if f then '', '' else '','') (if xs = [] then [] else '','')"
    by (simp add: minifies_pieces)
  note minifies_append [OF u'(2) minifies_append [OF this w'(2)]]
  moreover have "\<forall>d'. print_array False d' (x # xs) = Some (u' @ (if xs = [] then [] else '','') @ w')"
    using u'(1) w'(1) by simp
  ultimately show ?case unfolding u(3) by blast
next
  case (5 f d x xs)
  then obtain u w where u: "print_value f d x = Some u" "print_object f d xs = Some w"
    "s = (if f then replicate d (CHR 0x09) else []) @ print_string_ptr (item_string x) @ '':'' @
      (if f then [CHR 0x09] else []) @ u @ (if xs = [] then [] else '','') @ (if f then [CHR 0x0A] else []) @ w"
    by (auto simp: bind_eq_Some_conv)
  obtain u' w' where u': "\<forall>d'. print_value False d' x = Some u'" "minifies u u'"
    and w': "\<forall>d'. print_object False d' xs = Some w'" "minifies w w'"
    using 5 u(1,2) by fastforce
  have nm: "minifies (print_string_ptr (item_string x)) (print_string_ptr (item_string x))"
    using 5 minifies_string by simp
  have "minifies (if f then replicate d (CHR 0x09) else []) []" "minifies (if f then [CHR 0x09] else []) []"
    "minifies (if xs = [] then [] else '','') (if xs = [] then [] else '','')" "minifies (if f then [CHR 0x0A] else []) []"
    using minifies_pieces(1) [of 1] by (simp_all add: minifies_pieces)
  note minifies_append [OF this(1) minifies_append [OF nm minifies_append [OF minifies_pieces(6)
    minifies_append [OF this(2) minifies_append [OF u'(2) minifies_append [OF this(3)
    minifies_append [OF this(4) w'(2)]]]]]]]
  moreover have "\<forall>d'. print_object False d' (x # xs) = Some ([] @ print_string_ptr (item_string x) @ '':'' @ [] @ u' @
      (if xs = [] then [] else '','') @ [] @ w')"
    using u'(1) w'(1) by simp
  ultimately show ?case unfolding u(3) by blast
qed (simp_all add: minifies_pieces)

text \<open>
  \<open>cJSON_Minify\<close> on the text that \<open>cJSON_Print\<close> writes gives the text that
  \<open>cJSON_PrintUnformatted\<close> writes, for every item without raw text of which no string and no
  name ends in a backslash.
\<close>

theorem minify_printed:
  assumes "cJSON_Print it = Some s" and "minifiable it"
  shows "cJSON_PrintUnformatted it = Some (cJSON_Minify s)"
proof -
  from minifies_print(1) [OF assms(1) [unfolded cJSON_Print_def] assms(2)] obtain s' where
    s': "\<forall>d'. print_value False d' it = Some s'" "minifies s s'" by blast
  then have "c_string s = s" by (auto simp: minifies_def c_string_def takeWhile_eq_all_conv)
  moreover have "minify (s @ []) = s' @ minify []" using s'(2) unfolding minifies_def by blast
  ultimately show ?thesis using s'(1) by (simp add: cJSON_PrintUnformatted_def cJSON_Minify_def minify.simps)
qed

text \<open>An object with a member whose text has white space and a slash.\<close>

definition sample_object :: cJSON where
  "sample_object = json_object [string_member ''key'' '' / b'']"

theorem minify_printed_witness:
  "cJSON_PrintUnformatted sample_object = Some (cJSON_Minify (the (cJSON_Print sample_object)))"
proof (rule minify_printed)
  show "cJSON_Print sample_object = Some (the (cJSON_Print sample_object))" by code_simp
  show "minifiable sample_object" by code_simp
qed

text \<open>
  The condition is needed: behind a string that ends in a backslash, the closing quote is taken
  for an escaped one, and the white space of the next string is removed.
\<close>

definition two_strings :: "string \<Rightarrow> string \<Rightarrow> cJSON" where
  "two_strings s t =
     create_type cJSON_Array None [create_type cJSON_String (Some s) [], create_type cJSON_String (Some t) []]"

lemma minify_changes_text:
  "cJSON_Minify (the (cJSON_Print (two_strings [CHR 0x5C] '' a''))) =
     the (cJSON_Print (two_strings [CHR 0x5C] ''a''))"
  by code_simp

section \<open>Comparing\<close>

lemma round_even_minus: "round_even (- x) = - round_even x"
proof (cases "x = of_int \<lfloor>x\<rfloor>")
  case True
  then show ?thesis by (metis of_int_minus round_even_int)
next
  case False
  then have fl: "\<lfloor>- x\<rfloor> = - \<lfloor>x\<rfloor> - 1" by (intro floor_unique) linarith+
  then have "even \<lfloor>- x\<rfloor> \<longleftrightarrow> odd \<lfloor>x\<rfloor>" by simp
  moreover have "- x - of_int \<lfloor>- x\<rfloor> = 1 - (x - of_int \<lfloor>x\<rfloor>)" by (simp add: fl)
  ultimately show ?thesis unfolding round_even_def Let_def by (auto simp: fl)
qed

lemma fabs_round_minus: "fabs (round_double (- x)) = fabs (round_double x)"
  by (simp add: round_double_def Let_def round_even_minus)

lemma fabs_minus_commute: "fabs (minus_double a b) = fabs (minus_double b a)"
  using fabs_round_minus [of "x - y" for x y] by (cases a; cases b) simp_all

lemma compare_double_commute: "compare_double a b = compare_double b a"
proof (cases "fabs a = fabs b")
  case True
  then show ?thesis by (simp add: compare_double_def fabs_minus_commute [of a b])
next
  case False
  then have "(\<not> le_double (fabs a) (fabs b)) \<noteq> (\<not> le_double (fabs b) (fabs a)) \<or> a = NaN \<or> b = NaN"
    by (cases a; cases b) auto
  then show ?thesis by (auto simp: compare_double_def fabs_minus_commute [of a b] Let_def)
qed

lemma compare_commute: "cJSON_Compare a b case_sensitive = cJSON_Compare b a case_sensitive"
proof (induction a b case_sensitive rule: cJSON_Compare.induct)
  case (1 a b cs)
  show ?case
  proof (cases "item_type a = item_type b \<and> item_type b = cJSON_Array")
    case True
    have "cJSON_Compare x y cs = cJSON_Compare y x cs" if "(x, y) \<in> set (zip (child a) (child b))" for x y
      using 1(1) [of "(x, y)"] True that by simp
    moreover have "set (zip (child b) (child a)) = prod.swap ` set (zip (child a) (child b))"
      by (auto simp: set_zip image_iff)
    ultimately have "(\<forall>p\<in>set (zip (child a) (child b)). cJSON_Compare (fst p) (snd p) cs) \<longleftrightarrow>
        (\<forall>p\<in>set (zip (child b) (child a)). cJSON_Compare (fst p) (snd p) cs)"
      by fastforce
    then show ?thesis
      using True by (subst (1 2) cJSON_Compare.simps) (simp add: eq_commute [of "length (child a)"])
  next
    case False
    then show ?thesis
      using compare_double_commute by (subst (1 2) cJSON_Compare.simps) (auto split: cJSON_Type.split)
  qed
qed

text \<open>Items that are equal to a copy: finite numbers, texts that are there, and names that differ.\<close>

definition name_key :: "bool \<Rightarrow> string option \<Rightarrow> string option" where
  "name_key case_sensitive nm = (if case_sensitive then nm else map_option (map tolower) nm)"

fun comparable :: "bool \<Rightarrow> cJSON \<Rightarrow> bool" where
  "comparable b (Item t v i x nm cs) \<longleftrightarrow>
     t \<noteq> cJSON_Invalid \<and> (t = cJSON_Number \<longrightarrow> x \<notin> {PosInf, NegInf, NaN}) \<and>
     (t \<in> {cJSON_String, cJSON_Raw} \<longrightarrow> v \<noteq> None) \<and>
     (t = cJSON_Object \<longrightarrow> distinct (map (\<lambda>c. name_key b (item_string c)) cs) \<and> None \<notin> item_string ` set cs) \<and>
     (\<forall>c\<in>set cs. comparable b c)"

lemma get_object_item_nth:
  assumes "distinct (map (\<lambda>c. name_key b (item_string c)) cs)" and "None \<notin> item_string ` set cs"
    and "i < length cs" and "item_string (cs ! i) = Some nm"
  shows "get_object_item cs nm b = Some i"
  using assms
proof (induction cs arbitrary: i)
  case (Cons c cs)
  obtain s where s: "item_string c = Some s" using Cons.prems(2) by (cases "item_string c") auto
  show ?case
  proof (cases i)
    case 0
    then show ?thesis using Cons.prems(4) s by (simp add: case_insensitive_eq_def)
  next
    case (Suc k)
    then have k: "k < length cs" "item_string (cs ! k) = Some nm" using Cons.prems by auto
    then have "name_key b (Some nm) \<in> (\<lambda>c. name_key b (item_string c)) ` set cs"
      by (metis (mono_tags, lifting) imageI nth_mem)
    then have "name_key b (Some nm) \<noteq> name_key b (Some s)" using Cons.prems(1) s by auto
    then show ?thesis
      using Cons.IH [of k] Cons.prems k s Suc by (auto simp: name_key_def case_insensitive_eq_def split: if_splits)
  qed
qed simp

lemma object_item_self:
  assumes "distinct (map (\<lambda>c. name_key b (item_string c)) cs)" and "None \<notin> item_string ` set cs" and "c \<in> set cs"
  shows "object_item cs (item_string c) b = Some c"
proof -
  obtain i where i: "i < length cs" "cs ! i = c" using assms(3) by (auto simp: in_set_conv_nth)
  obtain nm where "item_string c = Some nm" using assms(2,3) by (cases "item_string c") force+
  then show ?thesis using get_object_item_nth [OF assms(1,2) i(1), of nm] i(2) by (simp add: object_item_def)
qed

lemma compare_copy: "comparable b it \<Longrightarrow> cJSON_Compare it it b"
proof (induction b it rule: comparable.induct)
  case (1 b t v i x nm cs)
  have self: "cJSON_Compare c c b" if "c \<in> set cs" for c using 1 that by simp
  show ?case
  proof (cases t)
    case cJSON_Number
    then show ?thesis
      using 1(2) compare_double_refl by (subst cJSON_Compare.simps) (cases x, simp_all)
  next
    case cJSON_Object
    then show ?thesis
      using 1(2) self object_item_self by (subst cJSON_Compare.simps) (auto split: option.splits)
  next
    case cJSON_Array
    then show ?thesis using self by (subst cJSON_Compare.simps) (auto simp: zip_same)
  qed (use 1(2) in \<open>(subst cJSON_Compare.simps, force)+\<close>)
qed

text \<open>
  \<open>cJSON_Compare\<close> is symmetric on all items, whatever they hold, and equal to a copy of
  itself is every item whose numbers are finite, whose texts exist and of which no object has two
  members of one name, up to case when the case does not matter.
\<close>

theorem compare_symmetric_reflexive:
  "cJSON_Compare a b case_sensitive = cJSON_Compare b a case_sensitive \<and>
   (comparable case_sensitive a \<longrightarrow> cJSON_Compare a a case_sensitive)"
  using compare_commute compare_copy by blast

theorem compare_symmetric_reflexive_witness: "cJSON_Compare sample_object sample_object False"
proof -
  have "comparable False sample_object" by code_simp
  then show ?thesis using compare_symmetric_reflexive [of sample_object sample_object False] by simp
qed

text \<open>The condition on names is needed: the second member is compared with the first one.\<close>

lemma compare_repeated_name:
  "\<not> cJSON_Compare (json_object [string_member ''a'' ''x'', string_member ''a'' ''y''])
       (json_object [string_member ''a'' ''x'', string_member ''a'' ''y'']) True"
  by (subst cJSON_Compare.simps, simp add: json_object_def string_member_def object_item_def,
      subst cJSON_Compare.simps, simp)

end
