(* ===== verification/Json_Buffer.thy ===== *)
theory Json_Buffer
  imports Json_Api_Correct
begin

text \<open>
  The printer of \<open>utils/cJSON.c\<close> on its output buffer: an array that grows, or one of a fixed
  size that the caller gives. \<open>ensure\<close> makes room before each piece of text is written; a read or
  a write outside of the array is a \<open>MemoryFault\<close>. What \<open>malloc\<close> and \<open>realloc\<close> answer are
  parameters; what only frees memory is left out. Sizes are natural numbers: no sum exceeds
  twice \<open>INT_MAX\<close> by more than one, which a \<open>size_t\<close> holds. The texts of \<open>Json\<close> are what
  the array holds in front of its zero.
\<close>

section \<open>Hooks\<close>

type_synonym allocator = "nat \<Rightarrow> string option"

type_synonym grower = "string \<Rightarrow> nat \<Rightarrow> string option"

record internal_hooks =
  allocate :: allocator
  reallocate :: "grower option"

text \<open>A function pointer of the caller: that of the standard library, or another one.\<close>

datatype 'f hook = Standard | Custom 'f

record cJSON_Hooks =
  malloc_fn :: "allocator hook option"
  free_fn :: "unit hook option"

definition cJSON_InitHooks :: "allocator \<Rightarrow> grower \<Rightarrow> cJSON_Hooks option \<Rightarrow> internal_hooks" where
  "cJSON_InitHooks malloc realloc hooks =
     (case hooks of
        None \<Rightarrow> \<lparr>allocate = malloc, reallocate = Some realloc\<rparr>
      | Some h \<Rightarrow>
          let a = (case malloc_fn h of None \<Rightarrow> Standard | Some f \<Rightarrow> f);
              d = (case free_fn h of None \<Rightarrow> Standard | Some f \<Rightarrow> f)
          in \<lparr>allocate = (case a of Standard \<Rightarrow> malloc | Custom f \<Rightarrow> f),
              reallocate = (case (a, d) of (Standard, Standard) \<Rightarrow> Some realloc | _ \<Rightarrow> None)\<rparr>)"

section \<open>The buffer\<close>

definition max_size :: nat where "max_size = 2147483647"

record printbuffer =
  out_array :: "string option"
  poffset :: nat
  pdepth :: nat
  noalloc :: bool
  pformat :: bool

text \<open>An array of the new size: without \<open>realloc\<close>, one into which the text and its zero are copied.\<close>

definition grow :: "internal_hooks \<Rightarrow> string \<Rightarrow> nat \<Rightarrow> nat \<Rightarrow> string option result" where
  "grow hooks b offset newsize =
     (case reallocate hooks of
        Some realloc \<Rightarrow> Inr (realloc b newsize)
      | None \<Rightarrow>
          (case allocate hooks newsize of
             None \<Rightarrow> Inr None
           | Some new \<Rightarrow>
               if length b < offset + 1 \<or> length new < offset + 1 then Inl MemoryFault
               else Inr (Some (take (offset + 1) b @ drop (offset + 1) new))))"

text \<open>Whether there is room for \<open>needed\<close> characters and a zero at the offset.\<close>

definition ensure :: "internal_hooks \<Rightarrow> printbuffer \<Rightarrow> nat \<Rightarrow> (bool \<times> printbuffer) result" where
  "ensure hooks p needed =
     (case out_array p of
        None \<Rightarrow> Inr (False, p)
      | Some b \<Rightarrow>
          let n = needed + poffset p + 1 in
          if 0 < length b \<and> length b \<le> poffset p then Inr (False, p)
          else if max_size < needed then Inr (False, p)
          else if n \<le> length b then Inr (True, p)
          else if noalloc p then Inr (False, p)
          else if max_size < n then Inr (False, p)
          else and_then (grow hooks b (poffset p) (if max_size div 2 < n then max_size else n * 2)) (\<lambda>new.
                 Inr (case new of
                        None \<Rightarrow> (False, p\<lparr>out_array := None\<rparr>)
                      | Some b' \<Rightarrow> (True, p\<lparr>out_array := Some b'\<rparr>))))"

definition write_at :: "printbuffer \<Rightarrow> nat \<Rightarrow> string \<Rightarrow> printbuffer result" where
  "write_at p i s =
     (case out_array p of
        None \<Rightarrow> Inl MemoryFault
      | Some b \<Rightarrow>
          if i + length s \<le> length b then Inr (p\<lparr>out_array := Some (take i b @ s @ drop (i + length s) b)\<rparr>)
          else Inl MemoryFault)"

text \<open>The offset moves to the zero; without one, \<open>strlen\<close> leaves the array.\<close>

definition update_offset :: "printbuffer \<Rightarrow> printbuffer result" where
  "update_offset p =
     (case out_array p of
        None \<Rightarrow> Inr p
      | Some b \<Rightarrow>
          if CHR 0x00 \<in> set (drop (poffset p) b)
          then Inr (p\<lparr>poffset := poffset p + length (c_string (drop (poffset p) b))\<rparr>)
          else Inl MemoryFault)"

definition advance_offset :: "nat \<Rightarrow> printbuffer \<Rightarrow> printbuffer" where
  "advance_offset n p = p\<lparr>poffset := poffset p + n\<rparr>"

text \<open>A piece of text is written at the offset when there is room for \<open>needed\<close> characters.\<close>

definition emit :: "internal_hooks \<Rightarrow> printbuffer \<Rightarrow> nat \<Rightarrow> string \<Rightarrow> (printbuffer \<Rightarrow> (bool \<times> printbuffer) result) \<Rightarrow>
    (bool \<times> printbuffer) result" where
  "emit hooks p needed s k =
     and_then (ensure hooks p needed) (\<lambda>(ok, p1).
       if ok then and_then (write_at p1 (poffset p1) s) k else Inr (False, p1))"

definition finish :: "printbuffer \<Rightarrow> (bool \<times> printbuffer) result" where
  "finish p = Inr (True, p)"

section \<open>Printing\<close>

text \<open>The additional characters that escaping needs.\<close>

definition escape_characters :: "string \<Rightarrow> nat" where
  "escape_characters s =
     sum_list (map (\<lambda>c. if c \<in> {CHR 0x22, CHR 0x5C, CHR 0x08, CHR 0x0C, CHR 0x0A, CHR 0x0D, CHR 0x09} then 1
                        else if (of_char c :: nat) < 32 then 5 else 0) s)"

definition buffer_string :: "internal_hooks \<Rightarrow> string option \<Rightarrow> printbuffer \<Rightarrow> (bool \<times> printbuffer) result" where
  "buffer_string hooks input p =
     (case input of
        None \<Rightarrow> emit hooks p 3 [CHR 0x22, CHR 0x22, CHR 0x00] finish
      | Some s \<Rightarrow>
          let output_length = length s + escape_characters s in
          emit hooks p (output_length + 3) (CHR 0x22 # concat (map escape s)) (\<lambda>p1.
            and_then (write_at p1 (poffset p1 + output_length + 1) [CHR 0x22, CHR 0x00]) finish))"

definition buffer_number :: "internal_hooks \<Rightarrow> cJSON \<Rightarrow> printbuffer \<Rightarrow> (bool \<times> printbuffer) result" where
  "buffer_number hooks it p =
     (case print_number it of
        None \<Rightarrow> Inr (False, p)
      | Some s \<Rightarrow> emit hooks p (length s + 1) (s @ [CHR 0x00]) (\<lambda>p1. finish (advance_offset (length s) p1)))"

text \<open>Running a step and going on when it succeeds.\<close>

definition andalso ::
    "(bool \<times> printbuffer) result \<Rightarrow> (printbuffer \<Rightarrow> (bool \<times> printbuffer) result) \<Rightarrow> (bool \<times> printbuffer) result" where
  "andalso r k = and_then r (\<lambda>(ok, p). if ok then k p else Inr (False, p))"

definition change_depth :: "(nat \<Rightarrow> nat) \<Rightarrow> printbuffer \<Rightarrow> printbuffer" where
  "change_depth f p = p\<lparr>pdepth := f (pdepth p)\<rparr>"

text \<open>The steps of the loops of \<open>print_array\<close> and \<open>print_object\<close> around a value.\<close>

definition buffer_element_end :: "internal_hooks \<Rightarrow> bool \<Rightarrow> printbuffer \<Rightarrow> (bool \<times> printbuffer) result" where
  "buffer_element_end hooks is_last p =
     and_then (update_offset p) (\<lambda>p1.
       if is_last then finish p1
       else let len = (if pformat p1 then 2 else 1) in
            emit hooks p1 (len + 1) ('','' @ (if pformat p1 then '' '' else []) @ [CHR 0x00])
              (\<lambda>p2. finish (advance_offset len p2)))"

definition buffer_tabs :: "internal_hooks \<Rightarrow> printbuffer \<Rightarrow> (bool \<times> printbuffer) result" where
  "buffer_tabs hooks p =
     (if pformat p then
        emit hooks p (pdepth p) (replicate (pdepth p) (CHR 0x09)) (\<lambda>p1. finish (advance_offset (pdepth p1) p1))
      else finish p)"

definition buffer_name :: "internal_hooks \<Rightarrow> string option \<Rightarrow> printbuffer \<Rightarrow> (bool \<times> printbuffer) result" where
  "buffer_name hooks name p =
     andalso (buffer_string hooks name p) (\<lambda>p1. and_then (update_offset p1) (\<lambda>p2.
       let len = (if pformat p2 then 2 else 1) in
       emit hooks p2 len ('':'' @ (if pformat p2 then [CHR 0x09] else [])) (\<lambda>p3. finish (advance_offset len p3))))"

definition buffer_member_end :: "internal_hooks \<Rightarrow> bool \<Rightarrow> printbuffer \<Rightarrow> (bool \<times> printbuffer) result" where
  "buffer_member_end hooks is_last p =
     and_then (update_offset p) (\<lambda>p1.
       let len = (if pformat p1 then 1 else 0) + (if is_last then 0 else 1) in
       emit hooks p1 (len + 1)
         ((if is_last then [] else '','') @ (if pformat p1 then [CHR 0x0A] else []) @ [CHR 0x00])
         (\<lambda>p2. finish (advance_offset len p2)))"

fun buffer_value :: "internal_hooks \<Rightarrow> cJSON \<Rightarrow> printbuffer \<Rightarrow> (bool \<times> printbuffer) result"
  and buffer_elements :: "internal_hooks \<Rightarrow> cJSON list \<Rightarrow> printbuffer \<Rightarrow> (bool \<times> printbuffer) result"
  and buffer_members :: "internal_hooks \<Rightarrow> cJSON list \<Rightarrow> printbuffer \<Rightarrow> (bool \<times> printbuffer) result" where
  "buffer_value hooks (Item t v i x nm cs) p =
     (case t of
        cJSON_NULL \<Rightarrow> emit hooks p 5 (''null'' @ [CHR 0x00]) finish
      | cJSON_False \<Rightarrow> emit hooks p 6 (''false'' @ [CHR 0x00]) finish
      | cJSON_True \<Rightarrow> emit hooks p 5 (''true'' @ [CHR 0x00]) finish
      | cJSON_Number \<Rightarrow> buffer_number hooks (Item t v i x nm cs) p
      | cJSON_Raw \<Rightarrow>
          (case v of
             None \<Rightarrow> Inr (False, p)
           | Some s \<Rightarrow> emit hooks p (length s + 1) (s @ [CHR 0x00]) finish)
      | cJSON_String \<Rightarrow> buffer_string hooks v p
      | cJSON_Array \<Rightarrow>
          emit hooks p 1 ''['' (\<lambda>p1.
            andalso (buffer_elements hooks cs (change_depth Suc (advance_offset 1 p1))) (\<lambda>p2.
              emit hooks p2 2 ('']'' @ [CHR 0x00]) (\<lambda>p3. finish (change_depth (\<lambda>d. d - 1) p3))))
      | cJSON_Object \<Rightarrow>
          (let len = (if pformat p then 2 else 1) in
           emit hooks p (len + 1) (''{'' @ (if pformat p then [CHR 0x0A] else [])) (\<lambda>p1.
             andalso (buffer_members hooks cs (advance_offset len (change_depth Suc p1))) (\<lambda>p2.
               emit hooks p2 (if pformat p2 then pdepth p2 + 1 else 2)
                 ((if pformat p2 then replicate (pdepth p2 - 1) (CHR 0x09) else []) @ ''}'' @ [CHR 0x00]) (\<lambda>p3.
                   finish (change_depth (\<lambda>d. d - 1) p3)))))
      | cJSON_Invalid \<Rightarrow> Inr (False, p))"
| "buffer_elements hooks [] p = finish p"
| "buffer_elements hooks (x # xs) p =
     andalso (buffer_value hooks x p) (\<lambda>p1.
     andalso (buffer_element_end hooks (xs = []) p1) (\<lambda>p2. buffer_elements hooks xs p2))"
| "buffer_members hooks [] p = finish p"
| "buffer_members hooks (x # xs) p =
     andalso (buffer_tabs hooks p) (\<lambda>p1.
     andalso (buffer_name hooks (item_string x) p1) (\<lambda>p2.
     andalso (buffer_value hooks x p2) (\<lambda>p3.
     andalso (buffer_member_end hooks (xs = []) p3) (\<lambda>p4. buffer_members hooks xs p4))))"

section \<open>The calls\<close>

text \<open>A text of its own size, in a reallocated array or copied to a new one.\<close>

definition fitted :: "internal_hooks \<Rightarrow> printbuffer \<Rightarrow> string option result" where
  "fitted hooks p =
     (case out_array p of
        None \<Rightarrow> Inl MemoryFault
      | Some b \<Rightarrow>
          (case reallocate hooks of
             Some realloc \<Rightarrow> Inr (realloc b (poffset p + 1))
           | None \<Rightarrow>
               (case allocate hooks (poffset p + 1) of
                  None \<Rightarrow> Inr None
                | Some printed \<Rightarrow>
                    let n = min (length b) (poffset p + 1) in
                    if length printed \<le> poffset p then Inl MemoryFault
                    else Inr (Some ((take n b @ drop n printed)[poffset p := CHR 0x00])))))"

text \<open>\<open>print\<close>: the array that is returned, or the null pointer.\<close>

definition print_to_buffer :: "internal_hooks \<Rightarrow> cJSON \<Rightarrow> bool \<Rightarrow> string option result" where
  "print_to_buffer hooks item format =
     (case allocate hooks 256 of
        None \<Rightarrow> Inr None
      | Some b \<Rightarrow>
          and_then (buffer_value hooks item
              \<lparr>out_array = Some b, poffset = 0, pdepth = 0, noalloc = False, pformat = format\<rparr>) (\<lambda>(ok, p).
            if ok then and_then (update_offset p) (fitted hooks) else Inr None))"

definition cJSON_PrintBuffered :: "internal_hooks \<Rightarrow> cJSON \<Rightarrow> int \<Rightarrow> bool \<Rightarrow> string option result" where
  "cJSON_PrintBuffered hooks item prebuffer fmt =
     (if prebuffer < 0 then Inr None
      else case allocate hooks (nat prebuffer) of
        None \<Rightarrow> Inr None
      | Some b \<Rightarrow>
          and_then (buffer_value hooks item
              \<lparr>out_array = Some b, poffset = 0, pdepth = 0, noalloc = False, pformat = fmt\<rparr>) (\<lambda>(ok, p).
            Inr (if ok then out_array p else None)))"

text \<open>The first \<open>len\<close> characters of the caller's buffer, which has as many; with the answer, the buffer after it.\<close>

definition cJSON_PrintPreallocated ::
    "internal_hooks \<Rightarrow> cJSON \<Rightarrow> string option \<Rightarrow> int \<Rightarrow> bool \<Rightarrow> (bool \<times> string option) result" where
  "cJSON_PrintPreallocated hooks item buffer len format =
     (case buffer of
        None \<Rightarrow> Inr (False, None)
      | Some b \<Rightarrow>
          if len < 0 then Inr (False, Some b)
          else and_then (buffer_value hooks item
              \<lparr>out_array = Some (take (nat len) b), poffset = 0, pdepth = 0, noalloc = True, pformat = format\<rparr>)
            (\<lambda>(ok, p). Inr (ok, map_option (\<lambda>b'. b' @ drop (nat len) b) (out_array p))))"

section \<open>The text in the buffer\<close>

text \<open>
  At the cursor: the text \<open>T\<close> fills the array up to the offset. Complete: behind the text stands
  a zero, with one more character behind it; the offset is somewhere in the text. Wrote: \<open>s\<close>
  stands behind the text, and \<open>needed\<close> characters and one more fit there.
\<close>

definition at_cursor :: "printbuffer \<Rightarrow> string \<Rightarrow> bool" where
  "at_cursor p T \<longleftrightarrow>
     (\<exists>b. out_array p = Some b \<and> length b \<le> max_size \<and> take (length T) b = T \<and> poffset p = length T \<and>
        (length T < length b \<or> b = [] \<and> noalloc p) \<and> CHR 0x00 \<notin> set T)"

definition complete :: "printbuffer \<Rightarrow> string \<Rightarrow> bool" where
  "complete p T \<longleftrightarrow>
     (\<exists>rest. out_array p = Some (T @ CHR 0x00 # rest) \<and> rest \<noteq> [] \<and> length T + length rest < max_size \<and>
        poffset p \<le> length T \<and> CHR 0x00 \<notin> set T)"

definition wrote :: "printbuffer \<Rightarrow> string \<Rightarrow> string \<Rightarrow> nat \<Rightarrow> bool" where
  "wrote p T s needed \<longleftrightarrow>
     (\<exists>rest. out_array p = Some (T @ s @ rest) \<and> length (T @ s @ rest) \<le> max_size \<and> poffset p = length T \<and>
        length T + needed + 1 \<le> length (T @ s @ rest) \<and> CHR 0x00 \<notin> set T)"

definition capacity :: "printbuffer \<Rightarrow> nat" where
  "capacity p = (if noalloc p then length (the (out_array p)) else max_size)"

definition same_mode :: "printbuffer \<Rightarrow> printbuffer \<Rightarrow> bool" where
  "same_mode p p' \<longleftrightarrow> pdepth p' = pdepth p \<and> noalloc p' = noalloc p \<and> pformat p' = pformat p \<and> capacity p' = capacity p"

lemma moving_keeps [simp]:
  "pdepth (advance_offset n p) = pdepth p" "noalloc (advance_offset n p) = noalloc p"
  "pformat (advance_offset n p) = pformat p" "capacity (advance_offset n p) = capacity p"
  "pdepth (change_depth f p) = f (pdepth p)" "noalloc (change_depth f p) = noalloc p"
  "pformat (change_depth f p) = pformat p" "capacity (change_depth f p) = capacity p"
  "at_cursor (change_depth f p) T = at_cursor p T" "complete (change_depth f p) T = complete p T"
  by (simp_all add: advance_offset_def change_depth_def capacity_def at_cursor_def complete_def)

lemma write_behind:
  "out_array p = Some (u @ r) \<Longrightarrow> length s \<le> length r \<Longrightarrow>
     write_at p (length u) s = Inr (p\<lparr>out_array := Some (u @ s @ drop (length s) r)\<rparr>)"
  by (simp add: write_at_def)

lemma wrote_advance:
  assumes "wrote p T (s @ u) needed" "length s \<le> needed" "CHR 0x00 \<notin> set s" "n = length s"
  shows "at_cursor (advance_offset n p) (T @ s)"
  using assms by (auto simp: wrote_def at_cursor_def advance_offset_def)

lemma wrote_complete:
  assumes "wrote p T (s @ [CHR 0x00]) needed" "length s < needed" "CHR 0x00 \<notin> set s"
  shows "complete p (T @ s)" and "complete (advance_offset (length s) p) (T @ s)"
  using assms by (auto simp: wrote_def complete_def advance_offset_def)

text \<open>
  A step ends without leaving the array; when it succeeds, \<open>Q\<close> holds, and under \<open>must\<close> it succeeds.
\<close>

definition delivers :: "(bool \<times> printbuffer) result \<Rightarrow> (printbuffer \<Rightarrow> bool) \<Rightarrow> bool \<Rightarrow> bool" where
  "delivers r Q must \<longleftrightarrow> (\<exists>ok p. r = Inr (ok, p) \<and> (ok \<longrightarrow> Q p) \<and> (must \<longrightarrow> ok))"

lemma delivers_weaken: "delivers r P must' \<Longrightarrow> (\<And>p. P p \<Longrightarrow> Q p) \<Longrightarrow> (must \<Longrightarrow> must') \<Longrightarrow> delivers r Q must"
  by (auto simp: delivers_def)

lemma delivers_finish: "Q p \<Longrightarrow> delivers (finish p) Q must"
  by (auto simp: delivers_def finish_def)

lemma delivers_fails: "\<not> must \<Longrightarrow> delivers (Inr (False, p)) Q must"
  by (auto simp: delivers_def)

lemma delivers_andalso:
  "delivers r P must' \<Longrightarrow> (must \<Longrightarrow> must') \<Longrightarrow> (\<And>p. P p \<Longrightarrow> delivers (k p) Q must) \<Longrightarrow> delivers (andalso r k) Q must"
  by (fastforce simp: delivers_def andalso_def)

lemma update_complete:
  assumes "complete p T"
  shows "update_offset p = Inr (p\<lparr>poffset := length T\<rparr>)"
proof -
  obtain rest where p: "out_array p = Some (T @ CHR 0x00 # rest)" "poffset p \<le> length T" "CHR 0x00 \<notin> set T"
    using assms by (auto simp: complete_def)
  have "c \<noteq> CHR 0x00" if "c \<in> set (drop (poffset p) T)" for c using p(3) in_set_dropD [OF that] by metis
  then have "c_string (drop (poffset p) T @ CHR 0x00 # rest) = drop (poffset p) T"
    unfolding c_string_def by (subst takeWhile_append2) auto
  then show ?thesis using p by (simp add: update_offset_def)
qed

lemma delivers_update:
  assumes "complete p T" and k: "\<And>p'. at_cursor p' T \<Longrightarrow> same_mode p p' \<Longrightarrow> delivers (k p') Q must"
  shows "delivers (and_then (update_offset p) k) Q must"
proof -
  have "at_cursor (p\<lparr>poffset := length T\<rparr>) T" "same_mode p (p\<lparr>poffset := length T\<rparr>)"
    using assms(1) by (auto simp: complete_def at_cursor_def same_mode_def capacity_def)
  then show ?thesis using k by (simp add: update_complete [OF assms(1)])
qed

lemma c_string_front: "CHR 0x00 \<notin> set s \<Longrightarrow> c_string (s @ CHR 0x00 # r) = s"
  unfolding c_string_def by (subst takeWhile_append2) auto

lemma complete_c_string: "complete p T \<Longrightarrow> out_array p = Some b \<Longrightarrow> c_string b = T"
  by (auto simp: complete_def c_string_front)

text \<open>The length of an escaped text, computed beforehand.\<close>

lemma escape_length:
  "length (escape c) = Suc (if c \<in> {CHR 0x22, CHR 0x5C, CHR 0x08, CHR 0x0C, CHR 0x0A, CHR 0x0D, CHR 0x09} then 1
     else if (of_char c :: nat) < 32 then 5 else 0)"
  by (cases "31 < (of_char c :: nat)") (auto simp: escape_def)

lemma escape_characters_length: "length (concat (map escape s)) = length s + escape_characters s"
  by (induction s) (simp_all add: escape_characters_def escape_length)

text \<open>The texts of an item are C strings.\<close>

fun c_texts :: "cJSON \<Rightarrow> bool" where
  "c_texts (Item t v i x nm cs) \<longleftrightarrow>
     (case v of None \<Rightarrow> True | Some s \<Rightarrow> CHR 0x00 \<notin> set s) \<and>
     (case nm of None \<Rightarrow> True | Some s \<Rightarrow> CHR 0x00 \<notin> set s) \<and> (\<forall>c\<in>set cs. c_texts c)"

text \<open>What the allocators promise: arrays of the size asked for, with the old contents.\<close>

locale memory_hooks =
  fixes hooks :: internal_hooks
  assumes allocates: "allocate hooks n = Some b \<Longrightarrow> length b = n"
    and reallocates: "reallocate hooks = Some r \<Longrightarrow> r b n = Some b' \<Longrightarrow> length b' = n \<and> take (length b) b' = take n b"
begin

definition has_memory :: bool where
  "has_memory \<longleftrightarrow> (\<forall>n \<le> max_size. allocate hooks n \<noteq> None \<and> (\<forall>r b. reallocate hooks = Some r \<longrightarrow> r b n \<noteq> None))"

lemma allocation_succeeds: "has_memory \<Longrightarrow> n \<le> max_size \<Longrightarrow> \<exists>b. allocate hooks n = Some b"
  by (auto simp: has_memory_def)

lemma grow_cases:
  assumes "length T < length b" "take (length T) b = T" "length b \<le> n" "n \<le> max_size"
  obtains "grow hooks b (length T) n = Inr None" "\<not> has_memory"
  | b' where "grow hooks b (length T) n = Inr (Some b')" "length b' = n" "take (length T) b' = T"
proof (cases "reallocate hooks")
  case None
  show thesis
  proof (cases "allocate hooks n")
    case None': None
    then show thesis using that(1) None assms(4) by (auto simp: grow_def has_memory_def)
  next
    case (Some new)
    then show thesis
      using that(2) [of "take (length T + 1) b @ drop (length T + 1) new"] None allocates [OF Some] assms
      by (simp add: grow_def min.absorb2 Suc_le_eq)
  qed
next
  case (Some r)
  show thesis
  proof (cases "r b n")
    case None
    then show thesis using that(1) Some assms(4) by (auto simp: grow_def has_memory_def)
  next
    case some: (Some b')
    have b': "length b' = n" "take (length b) b' = b" using reallocates [OF Some some] assms(3) by simp_all
    have "take (length T) b' = take (length T) (take (length b) b')" using assms(1) by (simp add: min_def)
    then have "take (length T) b' = T" using b'(2) assms(2) by simp
    then show thesis using that(2) b'(1) Some some by (simp add: grow_def)
  qed
qed

definition room :: "printbuffer \<Rightarrow> nat \<Rightarrow> bool" where
  "room p n \<longleftrightarrow> n \<le> capacity p \<and> (noalloc p \<or> has_memory)"

lemma room_mono: "room p n \<Longrightarrow> same_mode p p' \<Longrightarrow> m \<le> n \<Longrightarrow> room p' m"
  by (simp add: room_def same_mode_def)

lemma room_moved [simp]: "room (advance_offset n p) = room p" "room (change_depth f p) = room p"
  by (simp_all add: room_def fun_eq_iff)

lemma ensure_room:
  assumes "at_cursor p T"
  obtains p1 where "ensure hooks p needed = Inr (True, p1)" and "at_cursor p1 T" and "same_mode p p1"
    and "length T + needed + 1 \<le> length (the (out_array p1))"
  | p1 where "ensure hooks p needed = Inr (False, p1)" and "\<not> room p (length T + needed + 1)"
proof -
  obtain b where p: "out_array p = Some b" "length b \<le> max_size" "take (length T) b = T" "poffset p = length T"
    "length T < length b \<or> b = [] \<and> noalloc p" "CHR 0x00 \<notin> set T" using assms by (auto simp: at_cursor_def)
  let ?n = "needed + length T + 1"
  have cap: "capacity p \<le> max_size" using p(1,2) by (simp add: capacity_def)
  have valid: "\<not> (0 < length b \<and> length b \<le> length T)" using p(5) by auto
  consider "max_size < needed" | "needed \<le> max_size" "?n \<le> length b"
    | "needed \<le> max_size" "length b < ?n" "noalloc p" | "needed \<le> max_size" "length b < ?n" "\<not> noalloc p" "max_size < ?n"
    | "needed \<le> max_size" "length b < ?n" "\<not> noalloc p" "?n \<le> max_size" by linarith
  then show thesis
  proof cases
    case 1
    then have "ensure hooks p needed = Inr (False, p)" using p(1,4) valid by (simp add: ensure_def Let_def)
    moreover have "\<not> room p (length T + needed + 1)" using 1 cap by (simp add: room_def)
    ultimately show thesis by (rule that(2))
  next
    case 2
    then show thesis using that(1) [of p] assms p valid by (simp add: ensure_def Let_def same_mode_def)
  next
    case 3
    then have "ensure hooks p needed = Inr (False, p)" using p(1,4) valid by (simp add: ensure_def Let_def)
    moreover have "\<not> room p (length T + needed + 1)" using 3 p(1) by (simp add: room_def capacity_def)
    ultimately show thesis by (rule that(2))
  next
    case 4
    then have "ensure hooks p needed = Inr (False, p)" using p(1,4) valid by (simp add: ensure_def Let_def)
    moreover have "\<not> room p (length T + needed + 1)" using 4 p(1) by (simp add: room_def capacity_def)
    ultimately show thesis by (rule that(2))
  next
    case 5
    let ?size = "if max_size div 2 < ?n then max_size else ?n * 2"
    have size: "length b \<le> ?size" "?n \<le> ?size" "?size \<le> max_size" using 5 by auto
    have step: "ensure hooks p needed = and_then (grow hooks b (length T) ?size) (\<lambda>new. Inr (case new of
        None \<Rightarrow> (False, p\<lparr>out_array := None\<rparr>) | Some b' \<Rightarrow> (True, p\<lparr>out_array := Some b'\<rparr>)))"
      using 5 p(1,4) valid by (auto simp: ensure_def Let_def)
    have "length T < length b" using p(5) 5(3) by simp
    from this p(3) size(1,3) show thesis
    proof (cases rule: grow_cases)
      case 1
      then show thesis using that(2) [of "p\<lparr>out_array := None\<rparr>"] 5(3) step by (simp add: room_def)
    next
      case (2 b')
      then have "at_cursor (p\<lparr>out_array := Some b'\<rparr>) T"
        using size(2,3) p(4,6) by (simp add: at_cursor_def)
      moreover have "same_mode p (p\<lparr>out_array := Some b'\<rparr>)" using 5(3) by (simp add: same_mode_def capacity_def)
      ultimately show thesis using that(1) step 2 size(2) by simp
    qed
  qed
qed

lemma delivers_emit:
  assumes p: "at_cursor p T" and s: "length s \<le> needed + 1"
    and must: "must \<Longrightarrow> room p (length T + needed + 1)"
    and k: "\<And>p2. wrote p2 T s needed \<Longrightarrow> same_mode p p2 \<Longrightarrow> delivers (k p2) Q must"
  shows "delivers (emit hooks p needed s k) Q must"
  using p
proof (cases rule: ensure_room [of p T needed, case_names yes no])
  case (yes p1)
  then obtain b where b: "out_array p1 = Some b" "length b \<le> max_size" "take (length T) b = T" "poffset p1 = length T"
    "CHR 0x00 \<notin> set T" "length T + needed + 1 \<le> length b" by (auto simp: at_cursor_def)
  let ?b = "T @ s @ drop (length T + length s) b"
  have "write_at p1 (poffset p1) s = Inr (p1\<lparr>out_array := Some ?b\<rparr>)" using b s by (simp add: write_at_def)
  moreover have "wrote (p1\<lparr>out_array := Some ?b\<rparr>) T s needed" using b s by (simp add: wrote_def)
  moreover have "same_mode p (p1\<lparr>out_array := Some ?b\<rparr>)"
    using yes(3) b s by (auto simp: same_mode_def capacity_def split: if_splits)
  ultimately show ?thesis using yes(1) k by (simp add: emit_def)
next
  case (no p1)
  then show ?thesis using must by (auto simp: emit_def delivers_def)
qed

text \<open>A piece of text with its zero.\<close>

lemma delivers_emit_zero:
  assumes "at_cursor p T" and "needed = length s + 1" and "CHR 0x00 \<notin> set s"
    and "must \<Longrightarrow> room p (length T + length s + 2)"
    and "\<And>p2. complete p2 (T @ s) \<Longrightarrow> complete (advance_offset (length s) p2) (T @ s) \<Longrightarrow> same_mode p p2 \<Longrightarrow>
      delivers (k p2) Q must"
  shows "delivers (emit hooks p needed (s @ [CHR 0x00]) k) Q must"
  using assms by (intro delivers_emit [of p T]) (auto dest: wrote_complete)

section \<open>Values\<close>

text \<open>Printing a value behind \<open>T\<close> gives the text \<open>so\<close>, which needs room for two characters more.\<close>

definition prints :: "printbuffer \<Rightarrow> string \<Rightarrow> (bool \<times> printbuffer) result \<Rightarrow> string option \<Rightarrow> bool" where
  "prints p T r so \<longleftrightarrow>
     delivers r (\<lambda>p'. \<exists>s. so = Some s \<and> complete p' (T @ s) \<and> length (T @ s) + 2 \<le> capacity p \<and> same_mode p p')
       (\<exists>s. so = Some s \<and> room p (length (T @ s) + 2))"

lemma complete_fits: "complete p T \<Longrightarrow> length T + 2 \<le> capacity p"
  by (auto simp: complete_def capacity_def neq_Nil_conv)

lemma prints_intro:
  assumes "delivers r (\<lambda>p'. \<exists>s. so = Some s \<and> complete p' (T @ s) \<and> same_mode p p')
       (\<exists>s. so = Some s \<and> room p (length (T @ s) + 2))"
  shows "prints p T r so"
  unfolding prints_def using assms
proof (rule delivers_weaken)
  fix p' assume "\<exists>s. so = Some s \<and> complete p' (T @ s) \<and> same_mode p p'"
  then show "\<exists>s. so = Some s \<and> complete p' (T @ s) \<and> length (T @ s) + 2 \<le> capacity p \<and> same_mode p p'"
    using complete_fits by (fastforce simp: same_mode_def)
qed

lemma prints_literal:
  assumes "at_cursor p T" "CHR 0x00 \<notin> set s" "needed = length s + 1"
  shows "prints p T (emit hooks p needed (s @ [CHR 0x00]) finish) (Some s)"
  using assms by (intro prints_intro delivers_emit_zero [of p T]) (auto intro!: delivers_finish)

lemma prints_number:
  assumes "at_cursor p T"
  shows "prints p T (buffer_number hooks it p) (print_number it)"
proof (cases "print_number it")
  case None
  then show ?thesis by (auto simp: buffer_number_def prints_def delivers_def)
next
  case (Some s)
  then have "CHR 0x00 \<notin> set s" using print_number_tokens [OF Some] by (auto simp: token_char_def)
  then show ?thesis unfolding buffer_number_def using Some assms
    by (auto intro!: prints_intro delivers_emit_zero [of p T] delivers_finish simp: same_mode_def)
qed

lemma prints_string:
  assumes p: "at_cursor p T"
  shows "prints p T (buffer_string hooks v p) (Some (print_string_ptr v))"
proof (cases v)
  case None
  then show ?thesis
    using prints_literal [OF p, of "[CHR 0x22, CHR 0x22]" 3] by (simp add: buffer_string_def print_string_ptr_def)
next
  case (Some s)
  let ?e = "concat (map escape s)"
  have len: "length ?e = length s + escape_characters s" by (rule escape_characters_length)
  have "delivers (buffer_string hooks v p) (\<lambda>p'. complete p' (T @ print_string_ptr v) \<and> same_mode p p')
      (room p (length (T @ print_string_ptr v) + 2))"
    unfolding Some buffer_string_def option.case Let_def len [symmetric]
  proof (rule delivers_emit [OF p])
    fix p2 assume w: "wrote p2 T (CHR 0x22 # ?e) (length ?e + 3)" and m: "same_mode p p2"
    obtain rest where b: "out_array p2 = Some (T @ CHR 0x22 # ?e @ rest)"
      "length (T @ CHR 0x22 # ?e @ rest) \<le> max_size" "poffset p2 = length T" "CHR 0x00 \<notin> set T" "3 \<le> length rest"
      using w by (auto simp: wrote_def)
    let ?p = "p2\<lparr>out_array := Some (T @ CHR 0x22 # ?e @ [CHR 0x22, CHR 0x00] @ drop (Suc (Suc 0)) rest)\<rparr>"
    have "write_at p2 (poffset p2 + length ?e + 1) [CHR 0x22, CHR 0x00] = Inr ?p"
      using write_behind [of p2 "T @ CHR 0x22 # ?e" rest "[CHR 0x22, CHR 0x00]"] b by simp
    moreover have "complete ?p (T @ print_string_ptr v)" "same_mode p2 ?p"
      using b printed_string_no_zero [of s] by (auto simp: complete_def print_string_ptr_def Some same_mode_def capacity_def)
    ultimately show "delivers (and_then (write_at p2 (poffset p2 + length ?e + 1) [CHR 0x22, CHR 0x00]) finish)
        (\<lambda>p'. complete p' (T @ print_string_ptr (Some s)) \<and> same_mode p p') (room p (length (T @ print_string_ptr (Some s)) + 2))"
      using m by (auto intro!: delivers_finish simp: Some same_mode_def)
  qed (auto simp: print_string_ptr_def room_def)
  then show ?thesis by (intro prints_intro) auto
qed

text \<open>
  The elements of an array and the members of an object: behind them one character and two more
  have room.
\<close>

definition prints_list :: "printbuffer \<Rightarrow> string \<Rightarrow> (bool \<times> printbuffer) result \<Rightarrow> string option \<Rightarrow> bool" where
  "prints_list p T r so \<longleftrightarrow>
     delivers r (\<lambda>p'. \<exists>s. so = Some s \<and> at_cursor p' (T @ s) \<and> same_mode p p')
       (\<exists>s. so = Some s \<and> room p (length (T @ s) + 3))"

definition value_prints :: "cJSON \<Rightarrow> bool" where
  "value_prints it \<longleftrightarrow>
     (\<forall>p T. at_cursor p T \<longrightarrow> prints p T (buffer_value hooks it p) (print_value (pformat p) (pdepth p) it))"

lemma value_printsD:
  "value_prints it \<Longrightarrow> at_cursor p T \<Longrightarrow>
     prints p T (buffer_value hooks it p) (print_value (pformat p) (pdepth p) it)"
  by (simp add: value_prints_def)

lemma element_end_prints:
  assumes "complete p T" and "must \<Longrightarrow> room p (length (T @ sep) + 3)"
    and "sep = (if l then [] else if pformat p then '', '' else '','')"
  shows "delivers (buffer_element_end hooks l p) (\<lambda>p'. at_cursor p' (T @ sep) \<and> same_mode p p') must"
  unfolding buffer_element_end_def
proof (rule delivers_update [OF assms(1)])
  fix p1 assume p1: "at_cursor p1 T" "same_mode p p1"
  let ?Q = "\<lambda>p'. at_cursor p' (T @ sep) \<and> same_mode p p'"
  have "delivers (emit hooks p1 (length sep + 1) (sep @ [CHR 0x00]) (\<lambda>p2. finish (advance_offset (length sep) p2))) ?Q must"
    if "\<not> l"
  proof (rule delivers_emit [OF p1(1)])
    fix p2 assume w: "wrote p2 T (sep @ [CHR 0x00]) (length sep + 1)" and m: "same_mode p1 p2"
    have "at_cursor (advance_offset (length sep) p2) (T @ sep)"
      by (rule wrote_advance [OF w]) (use assms(3) in auto)
    then show "delivers (finish (advance_offset (length sep) p2)) ?Q must"
      using p1(2) m by (auto intro!: delivers_finish simp: same_mode_def)
  qed (use assms(2) p1(2) in \<open>auto simp: room_def same_mode_def\<close>)
  then show "delivers (if l then finish p1 else let len = (if pformat p1 then 2 else 1) in
      emit hooks p1 (len + 1) ('','' @ (if pformat p1 then '' '' else []) @ [CHR 0x00])
        (\<lambda>p2. finish (advance_offset len p2))) ?Q must"
    using assms(3) p1 by (auto simp: same_mode_def numeral_2_eq_2 intro!: delivers_finish)
qed

lemma tabs_print:
  assumes "at_cursor p T" and "must \<Longrightarrow> room p (length (T @ tabs) + 1)"
    and "tabs = (if pformat p then replicate (pdepth p) (CHR 0x09) else [])"
  shows "delivers (buffer_tabs hooks p) (\<lambda>p'. at_cursor p' (T @ tabs) \<and> same_mode p p') must"
proof (cases "pformat p")
  case True
  have "delivers (emit hooks p (pdepth p) tabs (\<lambda>p1. finish (advance_offset (pdepth p1) p1)))
      (\<lambda>p'. at_cursor p' (T @ tabs) \<and> same_mode p p') must"
  proof (rule delivers_emit [OF assms(1)])
    fix p2 assume w: "wrote p2 T tabs (pdepth p)" and m: "same_mode p p2"
    have "at_cursor (advance_offset (pdepth p) p2) (T @ tabs)"
      by (rule wrote_advance [of _ _ _ "[]"]) (use w True assms(3) in auto)
    then show "delivers (finish (advance_offset (pdepth p2) p2)) (\<lambda>p'. at_cursor p' (T @ tabs) \<and> same_mode p p') must"
      using m by (auto intro!: delivers_finish simp: same_mode_def)
  qed (use True assms(2,3) in auto)
  then show ?thesis using True assms(3) by (simp add: buffer_tabs_def)
next
  case False
  then show ?thesis using assms(1,3) by (auto simp: buffer_tabs_def same_mode_def intro!: delivers_finish)
qed

lemma name_prints:
  assumes p: "at_cursor p T" and must: "must \<Longrightarrow> room p (length (T @ s) + 1)"
    and s: "s = print_string_ptr nm @ '':'' @ (if pformat p then [CHR 0x09] else [])"
  shows "delivers (buffer_name hooks nm p) (\<lambda>p'. at_cursor p' (T @ s) \<and> same_mode p p') must"
  unfolding buffer_name_def
proof (rule delivers_andalso [OF prints_string [OF p, unfolded prints_def]])
  let ?Q = "\<lambda>p'. at_cursor p' (T @ s) \<and> same_mode p p'"
  let ?colon = "'':'' @ (if pformat p then [CHR 0x09] else [])"
  fix p1 assume "\<exists>s. Some (print_string_ptr nm) = Some s \<and> complete p1 (T @ s) \<and> length (T @ s) + 2 \<le> capacity p \<and> same_mode p p1"
  then have p1: "complete p1 (T @ print_string_ptr nm)" "same_mode p p1" by auto
  show "delivers (and_then (update_offset p1) (\<lambda>p2. let len = (if pformat p2 then 2 else 1) in
      emit hooks p2 len ('':'' @ (if pformat p2 then [CHR 0x09] else [])) (\<lambda>p3. finish (advance_offset len p3)))) ?Q must"
  proof (rule delivers_update [OF p1(1)])
    fix p2 assume p2: "at_cursor p2 (T @ print_string_ptr nm)" "same_mode p1 p2"
    have "delivers (emit hooks p2 (length ?colon) ?colon (\<lambda>p3. finish (advance_offset (length ?colon) p3))) ?Q must"
    proof (rule delivers_emit [OF p2(1)])
      fix p3 assume w: "wrote p3 (T @ print_string_ptr nm) ?colon (length ?colon)" and m: "same_mode p2 p3"
      have "at_cursor (advance_offset (length ?colon) p3) ((T @ print_string_ptr nm) @ ?colon)"
        by (rule wrote_advance [of _ _ _ "[]"]) (use w in auto)
      then show "delivers (finish (advance_offset (length ?colon) p3)) ?Q must"
        using m p1(2) p2(2) s by (auto intro!: delivers_finish simp: same_mode_def)
    qed (use must p1(2) p2(2) s in \<open>auto simp: room_def same_mode_def\<close>)
    moreover have "pformat p2 = pformat p" using p1(2) p2(2) by (simp add: same_mode_def)
    ultimately show "delivers (let len = (if pformat p2 then 2 else 1) in
        emit hooks p2 len ('':'' @ (if pformat p2 then [CHR 0x09] else [])) (\<lambda>p3. finish (advance_offset len p3))) ?Q must"
      by (cases "pformat p") (simp_all add: numeral_2_eq_2)
  qed
qed (use must s in \<open>auto simp: room_def\<close>)

lemma member_end_prints:
  assumes "complete p T" and "must \<Longrightarrow> room p (length (T @ sep) + 2)"
    and "sep = (if l then [] else '','') @ (if pformat p then [CHR 0x0A] else [])"
  shows "delivers (buffer_member_end hooks l p) (\<lambda>p'. at_cursor p' (T @ sep) \<and> same_mode p p') must"
  unfolding buffer_member_end_def
proof (rule delivers_update [OF assms(1)])
  fix p1 assume p1: "at_cursor p1 T" "same_mode p p1"
  let ?Q = "\<lambda>p'. at_cursor p' (T @ sep) \<and> same_mode p p'"
  have "delivers (emit hooks p1 (length sep + 1) (sep @ [CHR 0x00]) (\<lambda>p2. finish (advance_offset (length sep) p2))) ?Q must"
  proof (rule delivers_emit [OF p1(1)])
    fix p2 assume w: "wrote p2 T (sep @ [CHR 0x00]) (length sep + 1)" and m: "same_mode p1 p2"
    have "at_cursor (advance_offset (length sep) p2) (T @ sep)"
      by (rule wrote_advance [OF w]) (use assms(3) in auto)
    then show "delivers (finish (advance_offset (length sep) p2)) ?Q must"
      using p1(2) m by (auto intro!: delivers_finish simp: same_mode_def)
  qed (use assms(2) p1(2) in \<open>auto simp: room_def same_mode_def\<close>)
  moreover have "(if l then [] else '','') @ (if pformat p1 then [CHR 0x0A] else []) @ [CHR 0x00] = sep @ [CHR 0x00]"
    "(if pformat p1 then 1 else 0) + (if l then 0 else 1) = length sep"
    using assms(3) p1(2) by (auto simp: same_mode_def)
  ultimately show "delivers (let len = (if pformat p1 then 1 else 0) + (if l then 0 else 1) in
      emit hooks p1 (len + 1) ((if l then [] else '','') @ (if pformat p1 then [CHR 0x0A] else []) @ [CHR 0x00])
        (\<lambda>p2. finish (advance_offset len p2))) ?Q must"
    by (simp only: Let_def)
qed

lemma prints_elements:
  assumes "\<And>x. x \<in> set xs \<Longrightarrow> value_prints x" and "at_cursor p T"
  shows "prints_list p T (buffer_elements hooks xs p) (print_array (pformat p) (pdepth p) xs)"
  using assms
proof (induction xs arbitrary: p T)
  case Nil
  then show ?case by (auto simp: prints_list_def same_mode_def intro!: delivers_finish)
next
  case (Cons x xs)
  let ?f = "pformat p" and ?d = "pdepth p"
  let ?sep = "if xs = [] then [] else if ?f then '', '' else '',''"
  let ?so = "print_array ?f ?d (x # xs)"
  let ?Q = "\<lambda>p'. \<exists>s. ?so = Some s \<and> at_cursor p' (T @ s) \<and> same_mode p p'"
  let ?must = "\<exists>s. ?so = Some s \<and> room p (length (T @ s) + 3)"
  have x: "prints p T (buffer_value hooks x p) (print_value ?f ?d x)" by (rule value_printsD) (use Cons.prems in auto)
  show ?case unfolding prints_list_def buffer_elements.simps
  proof (rule delivers_andalso [OF x [unfolded prints_def]])
    fix p1 assume "\<exists>s. print_value ?f ?d x = Some s \<and> complete p1 (T @ s) \<and> length (T @ s) + 2 \<le> capacity p \<and> same_mode p p1"
    then obtain s1 where s1: "print_value ?f ?d x = Some s1" "complete p1 (T @ s1)" "same_mode p p1" by blast
    have sep: "?sep = (if xs = [] then [] else if pformat p1 then '', '' else '','')" using s1(3) by (simp add: same_mode_def)
    show "delivers (andalso (buffer_element_end hooks (xs = []) p1) (\<lambda>p2. buffer_elements hooks xs p2)) ?Q ?must"
    proof (rule delivers_andalso [OF element_end_prints [OF s1(2) _ sep, of ?must]])
      fix p2 assume "at_cursor p2 ((T @ s1) @ ?sep) \<and> same_mode p1 p2"
      then have p2: "at_cursor p2 ((T @ s1) @ ?sep)" "same_mode p p2" using s1(3) by (simp_all add: same_mode_def)
      from Cons.IH [OF Cons.prems(1) p2(1)] have
        "prints_list p2 ((T @ s1) @ ?sep) (buffer_elements hooks xs p2) (print_array ?f ?d xs)"
        using p2(2) by (simp add: same_mode_def)
      then show "delivers (buffer_elements hooks xs p2) ?Q ?must" unfolding prints_list_def
        by (rule delivers_weaken) (use s1(1) p2(2) in \<open>auto simp: room_def same_mode_def\<close>)
    qed (use s1 in \<open>auto simp: bind_eq_Some_conv room_def same_mode_def\<close>)
  qed (auto simp: bind_eq_Some_conv room_def)
qed

lemma prints_members:
  assumes "\<And>x. x \<in> set xs \<Longrightarrow> value_prints x" and "at_cursor p T"
  shows "prints_list p T (buffer_members hooks xs p) (print_object (pformat p) (pdepth p) xs)"
  using assms
proof (induction xs arbitrary: p T)
  case Nil
  then show ?case by (auto simp: prints_list_def same_mode_def intro!: delivers_finish)
next
  case (Cons x xs)
  let ?f = "pformat p" and ?d = "pdepth p"
  let ?tabs = "if ?f then replicate ?d (CHR 0x09) else []"
  let ?nm = "print_string_ptr (item_string x) @ '':'' @ (if ?f then [CHR 0x09] else [])"
  let ?fin = "(if xs = [] then [] else '','') @ (if ?f then [CHR 0x0A] else [])"
  let ?so = "print_object ?f ?d (x # xs)"
  let ?Q = "\<lambda>p'. \<exists>s. ?so = Some s \<and> at_cursor p' (T @ s) \<and> same_mode p p'"
  let ?must = "\<exists>s. ?so = Some s \<and> room p (length (T @ s) + 3)"
  have room: "room p' n" if "?must" "same_mode p p'" "\<And>s1 r. print_value ?f ?d x = Some s1 \<Longrightarrow>
      print_object ?f ?d xs = Some r \<Longrightarrow> n \<le> length (T @ ?tabs @ ?nm @ s1 @ ?fin @ r) + 3" for p' n
    using that by (fastforce simp: bind_eq_Some_conv room_def same_mode_def)
  show ?case unfolding prints_list_def buffer_members.simps
  proof (rule delivers_andalso [OF tabs_print [OF Cons.prems(2) _ refl, of ?must]])
    fix p1 assume "at_cursor p1 (T @ ?tabs) \<and> same_mode p p1"
    then have p1: "at_cursor p1 (T @ ?tabs)" "same_mode p p1" by simp_all
    then have nm: "?nm = print_string_ptr (item_string x) @ '':'' @ (if pformat p1 then [CHR 0x09] else [])"
      by (simp add: same_mode_def)
    show "delivers (andalso (buffer_name hooks (item_string x) p1) (\<lambda>p2. andalso (buffer_value hooks x p2)
        (\<lambda>p3. andalso (buffer_member_end hooks (xs = []) p3) (\<lambda>p4. buffer_members hooks xs p4)))) ?Q ?must"
    proof (rule delivers_andalso [OF name_prints [OF p1(1) _ nm, of ?must]])
      fix p2 assume "at_cursor p2 ((T @ ?tabs) @ ?nm) \<and> same_mode p1 p2"
      then have p2: "at_cursor p2 ((T @ ?tabs) @ ?nm)" "same_mode p p2" using p1(2) by (simp_all add: same_mode_def)
      have x: "prints p2 ((T @ ?tabs) @ ?nm) (buffer_value hooks x p2) (print_value ?f ?d x)"
        using value_printsD [OF Cons.prems(1) p2(1), of x] p2(2) by (simp add: same_mode_def)
      show "delivers (andalso (buffer_value hooks x p2)
          (\<lambda>p3. andalso (buffer_member_end hooks (xs = []) p3) (\<lambda>p4. buffer_members hooks xs p4))) ?Q ?must"
      proof (rule delivers_andalso [OF x [unfolded prints_def]])
        fix p3 assume "\<exists>s. print_value ?f ?d x = Some s \<and> complete p3 (((T @ ?tabs) @ ?nm) @ s) \<and>
          length (((T @ ?tabs) @ ?nm) @ s) + 2 \<le> capacity p2 \<and> same_mode p2 p3"
        then obtain s1 where s1: "print_value ?f ?d x = Some s1" "complete p3 (((T @ ?tabs) @ ?nm) @ s1)" "same_mode p p3"
          using p2(2) by (auto simp: same_mode_def)
        show "delivers (andalso (buffer_member_end hooks (xs = []) p3) (\<lambda>p4. buffer_members hooks xs p4)) ?Q ?must"
        proof (rule delivers_andalso [OF member_end_prints [OF s1(2), of ?must ?fin]])
          fix p4 assume "at_cursor p4 ((((T @ ?tabs) @ ?nm) @ s1) @ ?fin) \<and> same_mode p3 p4"
          then have p4: "at_cursor p4 ((((T @ ?tabs) @ ?nm) @ s1) @ ?fin)" "same_mode p p4"
            using s1(3) by (simp_all add: same_mode_def)
          from Cons.IH [OF Cons.prems(1) p4(1)] have "prints_list p4 ((((T @ ?tabs) @ ?nm) @ s1) @ ?fin)
              (buffer_members hooks xs p4) (print_object ?f ?d xs)" using p4(2) by (simp add: same_mode_def)
          then show "delivers (buffer_members hooks xs p4) ?Q ?must" unfolding prints_list_def
            by (rule delivers_weaken) (use s1(1) p4(2) in \<open>auto simp: room_def same_mode_def\<close>)
        next
          assume m: ?must
          show "room p3 (length ((((T @ ?tabs) @ ?nm) @ s1) @ ?fin) + 2)" by (rule room [OF m s1(3)]) (simp add: s1(1))
        next
          show "?fin = (if xs = [] then [] else '','') @ (if pformat p3 then [CHR 0x0A] else [])"
            using s1(3) by (simp add: same_mode_def)
        qed
      next
        assume m: ?must
        then obtain s1 where v: "print_value ?f ?d x = Some s1" by (auto simp: bind_eq_Some_conv)
        have "room p2 (length (((T @ ?tabs) @ ?nm) @ s1) + 2)" by (rule room [OF m p2(2)]) (simp add: v)
        with v show "\<exists>s. print_value ?f ?d x = Some s \<and> room p2 (length (((T @ ?tabs) @ ?nm) @ s) + 2)" by blast
      qed
    next
      assume m: ?must
      show "room p1 (length ((T @ ?tabs) @ ?nm) + 1)" by (rule room [OF m p1(2)]) simp
    qed
  next
    assume m: ?must
    show "room p (length (T @ ?tabs) + 1)" by (rule room [OF m]) (simp_all add: same_mode_def)
  qed
qed

lemma prints_array:
  assumes cs: "\<And>x. x \<in> set cs \<Longrightarrow> value_prints x" and p: "at_cursor p T"
  shows "prints p T (buffer_value hooks (Item cJSON_Array v i x nm cs) p)
    (print_value (pformat p) (pdepth p) (Item cJSON_Array v i x nm cs))"
proof (rule prints_intro)
  let ?so = "print_value (pformat p) (pdepth p) (Item cJSON_Array v i x nm cs)"
  let ?Q = "\<lambda>p'. \<exists>s. ?so = Some s \<and> complete p' (T @ s) \<and> same_mode p p'"
  let ?must = "\<exists>s. ?so = Some s \<and> room p (length (T @ s) + 2)"
  show "delivers (buffer_value hooks (Item cJSON_Array v i x nm cs) p) ?Q ?must"
    unfolding buffer_value.simps cJSON_Type.case
  proof (rule delivers_emit [OF p])
    fix p1 assume w: "wrote p1 T ''['' 1" and m: "same_mode p p1"
    let ?p1 = "change_depth Suc (advance_offset 1 p1)"
    have "at_cursor (advance_offset 1 p1) (T @ ''['')" by (rule wrote_advance [of _ _ _ "[]"]) (use w in auto)
    then have "prints_list ?p1 (T @ ''['') (buffer_elements hooks cs ?p1) (print_array (pformat p) (pdepth p + 1) cs)"
      using prints_elements [OF cs, of cs ?p1] m by (simp add: same_mode_def)
    then show "delivers (andalso (buffer_elements hooks cs ?p1) (\<lambda>p2.
        emit hooks p2 2 ('']'' @ [CHR 0x00]) (\<lambda>p3. finish (change_depth (\<lambda>d. d - 1) p3)))) ?Q ?must"
      unfolding prints_list_def
    proof (rule delivers_andalso)
      fix p2 assume "\<exists>s. print_array (pformat p) (pdepth p + 1) cs = Some s \<and> at_cursor p2 ((T @ ''['') @ s) \<and> same_mode ?p1 p2"
      then obtain s where s: "print_array (pformat p) (pdepth p + 1) cs = Some s" "at_cursor p2 ((T @ ''['') @ s)"
        "same_mode ?p1 p2" by blast
      show "delivers (emit hooks p2 2 ('']'' @ [CHR 0x00]) (\<lambda>p3. finish (change_depth (\<lambda>d. d - 1) p3))) ?Q ?must"
        by (rule delivers_emit_zero [OF s(2)])
          (use s(1,3) m in \<open>auto intro!: delivers_finish simp: same_mode_def room_def\<close>)
    qed (use m in \<open>auto simp: room_def same_mode_def\<close>)
  qed (auto simp: room_def)
qed

lemma prints_object:
  assumes cs: "\<And>x. x \<in> set cs \<Longrightarrow> value_prints x" and p: "at_cursor p T"
  shows "prints p T (buffer_value hooks (Item cJSON_Object v i x nm cs) p)
    (print_value (pformat p) (pdepth p) (Item cJSON_Object v i x nm cs))"
proof (rule prints_intro)
  let ?so = "print_value (pformat p) (pdepth p) (Item cJSON_Object v i x nm cs)"
  let ?Q = "\<lambda>p'. \<exists>s. ?so = Some s \<and> complete p' (T @ s) \<and> same_mode p p'"
  let ?must = "\<exists>s. ?so = Some s \<and> room p (length (T @ s) + 2)"
  let ?open = "''{'' @ (if pformat p then [CHR 0x0A] else [])"
  let ?close = "(if pformat p then replicate (pdepth p) (CHR 0x09) else []) @ ''}''"
  have len: "(if pformat p then 2 else 1) = length ?open" by simp
  show "delivers (buffer_value hooks (Item cJSON_Object v i x nm cs) p) ?Q ?must"
    unfolding buffer_value.simps cJSON_Type.case Let_def len
  proof (rule delivers_emit [OF p])
    fix p1 assume w: "wrote p1 T ?open (length ?open + 1)" and m: "same_mode p p1"
    let ?p1 = "advance_offset (length ?open) (change_depth Suc p1)"
    have "at_cursor (advance_offset (length ?open) p1) (T @ ?open)"
      by (rule wrote_advance [of _ _ _ "[]" "length ?open + 1"]) (use w in auto)
    then have "at_cursor ?p1 (T @ ?open)" by (simp add: advance_offset_def change_depth_def at_cursor_def)
    from prints_members [OF cs this]
    have "prints_list ?p1 (T @ ?open) (buffer_members hooks cs ?p1) (print_object (pformat p) (pdepth p + 1) cs)"
      using m by (simp add: same_mode_def)
    then show "delivers (andalso (buffer_members hooks cs ?p1) (\<lambda>p2.
        emit hooks p2 (if pformat p2 then pdepth p2 + 1 else 2)
          ((if pformat p2 then replicate (pdepth p2 - 1) (CHR 0x09) else []) @ ''}'' @ [CHR 0x00])
          (\<lambda>p3. finish (change_depth (\<lambda>d. d - 1) p3)))) ?Q ?must"
      unfolding prints_list_def
    proof (rule delivers_andalso)
      fix p2 assume "\<exists>s. print_object (pformat p) (pdepth p + 1) cs = Some s \<and> at_cursor p2 ((T @ ?open) @ s) \<and> same_mode ?p1 p2"
      then obtain s where s: "print_object (pformat p) (pdepth p + 1) cs = Some s" "at_cursor p2 ((T @ ?open) @ s)"
        "same_mode ?p1 p2" by blast
      have d: "pformat p2 = pformat p" "pdepth p2 = Suc (pdepth p)" using s(3) m by (simp_all add: same_mode_def)
      have "delivers (emit hooks p2 (length ?close + 1) (?close @ [CHR 0x00]) (\<lambda>p3. finish (change_depth (\<lambda>d. d - 1) p3))) ?Q ?must"
        by (rule delivers_emit_zero [OF s(2)])
          (use s(1,3) m in \<open>auto intro!: delivers_finish simp: same_mode_def room_def\<close>)
      then show "delivers (emit hooks p2 (if pformat p2 then pdepth p2 + 1 else 2)
          ((if pformat p2 then replicate (pdepth p2 - 1) (CHR 0x09) else []) @ ''}'' @ [CHR 0x00])
          (\<lambda>p3. finish (change_depth (\<lambda>d. d - 1) p3))) ?Q ?must"
        unfolding d by (cases "pformat p") (simp_all add: numeral_2_eq_2)
    qed (use m in \<open>auto simp: room_def same_mode_def\<close>)
  qed (auto simp: room_def)
qed

lemma value_printed: "c_texts it \<Longrightarrow> value_prints it"
proof (induction it)
  case (Item t v i x nm cs)
  then have cs: "value_prints c" if "c \<in> set cs" for c using that by auto
  show ?case unfolding value_prints_def
  proof (intro allI impI)
    fix p T assume p: "at_cursor p T"
    show "prints p T (buffer_value hooks (Item t v i x nm cs) p)
        (print_value (pformat p) (pdepth p) (Item t v i x nm cs))"
    proof (cases t)
      case cJSON_Array
      then show ?thesis using prints_array [OF cs p] by simp
    next
      case cJSON_Object
      then show ?thesis using prints_object [OF cs p] by simp
    next
      case cJSON_Raw
      then show ?thesis using Item.prems prints_literal [OF p]
        by (cases v) (auto simp: prints_def intro!: delivers_fails)
    next
      case cJSON_NULL
      then show ?thesis using prints_literal [OF p, of "''null''" 5] by simp
    next
      case cJSON_False
      then show ?thesis using prints_literal [OF p, of "''false''" 6] by simp
    next
      case cJSON_True
      then show ?thesis using prints_literal [OF p, of "''true''" 5] by simp
    next
      case cJSON_Invalid
      then show ?thesis by (auto simp: prints_def intro!: delivers_fails)
    qed (simp_all add: prints_number [OF p] prints_string [OF p])
  qed
qed


text \<open>The calls start with an empty text.\<close>

lemma value_from_start:
  fixes b :: string and fixed format :: bool
  assumes "c_texts it" "length b \<le> max_size" "b \<noteq> [] \<or> fixed"
  defines "p \<equiv> \<lparr>out_array = Some b, poffset = 0, pdepth = 0, noalloc = fixed, pformat = format\<rparr>"
  obtains ok p' where "buffer_value hooks it p = Inr (ok, p')"
    and "ok \<Longrightarrow> \<exists>s. print_value format 0 it = Some s \<and> complete p' s \<and> length s + 2 \<le> capacity p \<and> capacity p' = capacity p \<and>
           noalloc p' = fixed"
    and "\<And>s. print_value format 0 it = Some s \<Longrightarrow> room p (length s + 2) \<Longrightarrow> ok"
proof -
  have "at_cursor p []" using assms(2,3) by (auto simp: p_def at_cursor_def)
  from value_printsD [OF value_printed [OF assms(1)] this] show thesis
    using that by (auto simp: prints_def delivers_def p_def same_mode_def)
qed

lemma fitted_text:
  assumes "complete p T"
  obtains "fitted hooks (p\<lparr>poffset := length T\<rparr>) = Inr None" "\<not> has_memory"
  | "fitted hooks (p\<lparr>poffset := length T\<rparr>) = Inr (Some (T @ [CHR 0x00]))"
proof -
  obtain rest where p: "out_array p = Some (T @ CHR 0x00 # rest)" "length T + 1 \<le> max_size"
    using assms by (auto simp: complete_def)
  show thesis
  proof (cases "reallocate hooks")
    case None
    then show thesis using that p allocates [of "length T + 1"]
      by (cases "allocate hooks (length T + 1)") (auto simp: fitted_def has_memory_def Let_def list_update_append)
  next
    case (Some r)
    then show thesis using that p reallocates [OF Some, of "T @ CHR 0x00 # rest" "length T + 1"]
      by (cases "r (T @ CHR 0x00 # rest) (length T + 1)") (auto simp: fitted_def has_memory_def)
  qed
qed

lemma print_result:
  assumes "c_texts it"
  shows "\<exists>r. print_to_buffer hooks it format = Inr r \<and>
           (r = None \<or> r = map_option (\<lambda>s. s @ [CHR 0x00]) (print_value format 0 it)) \<and>
           (\<forall>s. print_value format 0 it = Some s \<and> has_memory \<and> length s + 2 \<le> max_size \<longrightarrow> r \<noteq> None)"
proof (cases "allocate hooks 256")
  case None
  then show ?thesis using allocation_succeeds [of 256] by (auto simp: print_to_buffer_def max_size_def)
next
  case (Some b)
  let ?p = "\<lparr>out_array = Some b, poffset = 0, pdepth = 0, noalloc = False, pformat = format\<rparr>"
  have b: "length b \<le> max_size" "b \<noteq> [] \<or> False" using allocates [OF Some] by (auto simp: max_size_def)
  obtain ok p' where v: "buffer_value hooks it ?p = Inr (ok, p')"
    "ok \<Longrightarrow> \<exists>s. print_value format 0 it = Some s \<and> complete p' s"
    "\<And>s. print_value format 0 it = Some s \<Longrightarrow> room ?p (length s + 2) \<Longrightarrow> ok"
    by (rule value_from_start [OF assms b, of format]) blast
  show ?thesis
  proof (cases ok)
    case False
    then show ?thesis using v(1,3) Some by (auto simp: print_to_buffer_def room_def capacity_def)
  next
    case True
    then obtain s where s: "print_value format 0 it = Some s" "complete p' s" using v(2) by blast
    from fitted_text [OF s(2)] show ?thesis using v(1) True Some s(1)
      by cases (auto simp: print_to_buffer_def update_complete [OF s(2)])
  qed
qed

lemma preallocated_result:
  assumes "c_texts it" "0 \<le> len" "len \<le> int max_size" "len \<le> int (length b)"
  shows "\<exists>ok r. cJSON_PrintPreallocated hooks it (Some b) len format = Inr (ok, r) \<and>
           (ok \<longleftrightarrow> (\<exists>s. print_value format 0 it = Some s \<and> int (length s) + 2 \<le> len)) \<and>
           (ok \<longrightarrow> (\<exists>b'. r = Some b' \<and> length b' = length b \<and> drop (nat len) b' = drop (nat len) b \<and>
              print_value format 0 it = Some (c_string b')))"
proof -
  let ?b = "take (nat len) b"
  let ?p = "\<lparr>out_array = Some ?b, poffset = 0, pdepth = 0, noalloc = True, pformat = format\<rparr>"
  have len: "length ?b = nat len" "length ?b \<le> max_size" using assms(2-4) by (simp_all add: min.absorb2 nat_le_iff)
  obtain ok p' where v: "buffer_value hooks it ?p = Inr (ok, p')"
    "ok \<Longrightarrow> \<exists>s. print_value format 0 it = Some s \<and> complete p' s \<and> length s + 2 \<le> nat len \<and> capacity p' = nat len \<and> noalloc p'"
    "\<And>s. print_value format 0 it = Some s \<Longrightarrow> length s + 2 \<le> nat len \<Longrightarrow> ok"
    by (rule value_from_start [OF assms(1) len(2), of True format]) (use len(1) in \<open>auto simp: room_def capacity_def\<close>)
  have "\<exists>b'. map_option (\<lambda>b'. b' @ drop (nat len) b) (out_array p') = Some b' \<and> length b' = length b \<and>
      drop (nat len) b' = drop (nat len) b \<and> print_value format 0 it = Some (c_string b')" if ok
  proof -
    from v(2) [OF that] obtain s where s: "print_value format 0 it = Some s" "complete p' s" "capacity p' = nat len" "noalloc p'"
      by blast
    then obtain rest where r: "out_array p' = Some (s @ CHR 0x00 # rest)" "CHR 0x00 \<notin> set s"
      "length (s @ CHR 0x00 # rest) = nat len" by (auto simp: complete_def capacity_def)
    moreover have "c_string ((s @ CHR 0x00 # rest) @ drop (nat len) b) = s" using r(2) by (simp add: c_string_front)
    moreover have "drop (nat len) ((s @ CHR 0x00 # rest) @ drop (nat len) b) = drop (nat len) b"
      using r(3) by (metis append_eq_conv_conj)
    moreover have "length ((s @ CHR 0x00 # rest) @ drop (nat len) b) = length b"
      using r(3) assms(2,4) unfolding length_append [of "s @ CHR 0x00 # rest"] by simp
    ultimately show ?thesis using s(1) by simp
  qed
  moreover have "ok \<longleftrightarrow> (\<exists>s. print_value format 0 it = Some s \<and> int (length s) + 2 \<le> len)"
    using v(2,3) assms(2) by (auto simp: le_nat_iff)
  moreover have "cJSON_PrintPreallocated hooks it (Some b) len format =
      Inr (ok, map_option (\<lambda>b'. b' @ drop (nat len) b) (out_array p'))"
    using v(1) assms(2) by (simp add: cJSON_PrintPreallocated_def)
  ultimately show ?thesis by blast
qed

lemma buffered_result:
  assumes "c_texts it" "0 < prebuffer" "prebuffer \<le> int max_size"
  shows "\<exists>r. cJSON_PrintBuffered hooks it prebuffer format = Inr r \<and>
           (r = None \<or> map_option c_string r = print_value format 0 it) \<and>
           (\<forall>s. print_value format 0 it = Some s \<and> has_memory \<and> length s + 2 \<le> max_size \<longrightarrow> r \<noteq> None)"
proof (cases "allocate hooks (nat prebuffer)")
  case None
  then show ?thesis using allocation_succeeds [of "nat prebuffer"] assms(2,3)
    by (auto simp: cJSON_PrintBuffered_def nat_le_iff)
next
  case (Some b)
  let ?p = "\<lparr>out_array = Some b, poffset = 0, pdepth = 0, noalloc = False, pformat = format\<rparr>"
  have b: "length b \<le> max_size" "b \<noteq> [] \<or> False" using allocates [OF Some] assms(2,3) by (auto simp: nat_le_iff)
  obtain ok p' where v: "buffer_value hooks it ?p = Inr (ok, p')"
    "ok \<Longrightarrow> \<exists>s. print_value format 0 it = Some s \<and> complete p' s"
    "\<And>s. print_value format 0 it = Some s \<Longrightarrow> room ?p (length s + 2) \<Longrightarrow> ok"
    by (rule value_from_start [OF assms(1) b, of format]) blast
  show ?thesis
  proof (cases ok)
    case False
    then show ?thesis using v(1,3) Some assms(2) by (auto simp: cJSON_PrintBuffered_def room_def capacity_def)
  next
    case True
    then obtain s where s: "print_value format 0 it = Some s" "complete p' s" using v(2) by blast
    then obtain b' where "out_array p' = Some b'" "c_string b' = s"
      using complete_c_string [OF s(2)] by (auto simp: complete_def)
    then show ?thesis using v(1) True Some s(1) assms(2) by (simp add: cJSON_PrintBuffered_def)
  qed
qed

end

section \<open>The allocators of the standard library\<close>

text \<open>
  \<open>malloc\<close> and \<open>realloc\<close> with a bound on the size of a block; fresh memory holds \<open>fill\<close>.
\<close>

definition bounded_malloc :: "char \<Rightarrow> nat \<Rightarrow> allocator" where
  "bounded_malloc fill limit n = (if n \<le> limit then Some (replicate n fill) else None)"

definition bounded_realloc :: "char \<Rightarrow> nat \<Rightarrow> grower" where
  "bounded_realloc fill limit b n = (if n \<le> limit then Some (take n b @ replicate (n - length b) fill) else None)"

definition standard_hooks :: "char \<Rightarrow> nat \<Rightarrow> internal_hooks" where
  "standard_hooks fill limit = cJSON_InitHooks (bounded_malloc fill limit) (bounded_realloc fill limit) None"

text \<open>With an allocator of the caller there is no \<open>realloc\<close>.\<close>

definition own_hooks :: "char \<Rightarrow> nat \<Rightarrow> internal_hooks" where
  "own_hooks fill limit =
     cJSON_InitHooks (bounded_malloc fill limit) (bounded_realloc fill limit)
       (Some \<lparr>malloc_fn = Some (Custom (bounded_malloc fill limit)), free_fn = None\<rparr>)"

lemmas hooks_defs = standard_hooks_def own_hooks_def cJSON_InitHooks_def bounded_malloc_def bounded_realloc_def

interpretation standard: memory_hooks "standard_hooks fill limit"
  by unfold_locales (auto simp: hooks_defs min_def split: if_splits)

interpretation own: memory_hooks "own_hooks fill limit"
  by unfold_locales (auto simp: hooks_defs split: if_splits)

lemma standard_memory: "max_size \<le> limit \<Longrightarrow> standard.has_memory fill limit"
  unfolding standard.has_memory_def by (auto simp: hooks_defs)

section \<open>What the calls return\<close>

text \<open>
  C37. \<open>print\<close>, with allocators of any kind: it ends without an access outside of the array and
  returns the null pointer or the text of \<open>print_value\<close> with its zero; when the text fits into
  \<open>INT_MAX\<close> with two characters more and no allocation fails, it returns the text.
\<close>

theorem print_in_growing_buffer:
  assumes "memory_hooks hooks" and "c_texts it"
  shows "\<exists>r. print_to_buffer hooks it format = Inr r \<and>
           (r = None \<or> r = map_option (\<lambda>s. s @ [CHR 0x00]) (print_value format 0 it)) \<and>
           (\<forall>s. print_value format 0 it = Some s \<and> memory_hooks.has_memory hooks \<and> length s + 2 \<le> max_size \<longrightarrow> r \<noteq> None)"
  by (rule memory_hooks.print_result [OF assms])

definition sample_list :: cJSON where
  "sample_list = Item cJSON_Array None 0 (Finite 0) None
     [Item cJSON_String (Some [CHR 0x22, CHR 0x0A]) 0 (Finite 0) None [],
      Item cJSON_Object None 0 (Finite 0) None [Item cJSON_True None 0 (Finite 0) (Some ''on'') []]]"

theorem print_in_growing_buffer_witness:
  "\<exists>r. print_to_buffer (standard_hooks (CHR ''?'') max_size) sample_list True = Inr r \<and> r \<noteq> None"
proof -
  have s: "\<exists>s. print_value True 0 sample_list = Some s \<and> length s + 2 \<le> max_size"
    by (simp add: sample_list_def print_string_ptr_def escape_def max_size_def)
  have "c_texts sample_list" by (simp add: sample_list_def)
  from print_in_growing_buffer [OF standard.memory_hooks_axioms this, of "CHR ''?''" max_size True]
  show ?thesis using s standard_memory [of max_size] by blast
qed

text \<open>
  C38. Printing into a buffer of \<open>len\<close> characters ends without an access outside of it, and
  succeeds exactly when the text fits with two characters more, one more than the text and its
  zero. Then the buffer holds the text, and what lies behind the \<open>len\<close> characters is as it was.
\<close>

theorem preallocated_needs_two_more:
  assumes "memory_hooks hooks" and "c_texts it" and "0 \<le> len" "len \<le> int max_size" "len \<le> int (length b)"
  shows "\<exists>ok r. cJSON_PrintPreallocated hooks it (Some b) len format = Inr (ok, r) \<and>
           (ok \<longleftrightarrow> (\<exists>s. print_value format 0 it = Some s \<and> int (length s) + 2 \<le> len)) \<and>
           (ok \<longrightarrow> (\<exists>b'. r = Some b' \<and> length b' = length b \<and> drop (nat len) b' = drop (nat len) b \<and>
              print_value format 0 it = Some (c_string b')))"
  by (rule memory_hooks.preallocated_result [OF assms])

theorem preallocated_needs_two_more_witness:
  "\<exists>r. cJSON_PrintPreallocated (standard_hooks (CHR ''?'') 0) sample_list (Some (replicate 23 (CHR ''?''))) 23 False = Inr (True, r)"
proof -
  have "\<exists>s. print_value False 0 sample_list = Some s \<and> int (length s) + 2 \<le> 23"
    by (simp add: sample_list_def print_string_ptr_def escape_def)
  moreover have "c_texts sample_list" by (simp add: sample_list_def)
  moreover note preallocated_needs_two_more [OF standard.memory_hooks_axioms, of sample_list 23
      "replicate 23 (CHR ''?'')" "CHR ''?''" 0 False]
  ultimately show ?thesis by (auto simp: max_size_def)
qed

text \<open>Without \<open>realloc\<close>, a first buffer of no characters is read when it is to grow.\<close>

lemma buffered_zero_faults:
  "cJSON_PrintBuffered (own_hooks fill 1000) (Item cJSON_NULL None 0 (Finite 0) None []) 0 True = Inl MemoryFault"
  by (simp add: cJSON_PrintBuffered_def hooks_defs emit_def ensure_def grow_def max_size_def)

text \<open>The returned array of the buffered call holds the text, too.\<close>

theorem print_buffered_text:
  assumes "memory_hooks hooks" "c_texts it" "0 < prebuffer" "prebuffer \<le> int max_size"
  shows "\<exists>r. cJSON_PrintBuffered hooks it prebuffer format = Inr r \<and>
           (r = None \<or> map_option c_string r = print_value format 0 it) \<and>
           (\<forall>s. print_value format 0 it = Some s \<and> memory_hooks.has_memory hooks \<and> length s + 2 \<le> max_size \<longrightarrow> r \<noteq> None)"
  by (rule memory_hooks.buffered_result [OF assms])

end
