(* ===== verification/Json_Heap.thy ===== *)
theory Json_Heap
  imports Json_Api
begin

text \<open>
  The links between the items of \<open>utils/cJSON.c\<close>: the children of an array or an object are a
  chain through \<open>next\<close> and \<open>prev\<close> in which the \<open>prev\<close> of the first child is the last one. The
  operations that change the links act on a heap of items; an access to a null pointer or to an
  address that is not in use is a \<open>MemoryFault\<close>. Every item owns its texts, except for the
  name of an item with the flag \<open>cJSON_StringIsConst\<close>.
\<close>

section \<open>Items in the heap\<close>

type_synonym addr = nat

record node =
  next_p :: "addr option"
  prev_p :: "addr option"
  child_p :: "addr option"
  node_type :: cJSON_Type
  is_reference :: bool
  string_is_const :: bool
  node_text :: "string option"
  node_int :: int
  node_double :: double
  node_name :: "string option"

type_synonym items = "addr \<rightharpoonup> node"

definition node_at :: "items \<Rightarrow> addr option \<Rightarrow> node result" where
  "node_at h p =
     (case p of None \<Rightarrow> Inl MemoryFault
      | Some a \<Rightarrow> (case h a of None \<Rightarrow> Inl MemoryFault | Some n \<Rightarrow> Inr n))"

definition change :: "items \<Rightarrow> addr option \<Rightarrow> (node \<Rightarrow> node) \<Rightarrow> items result" where
  "change h p f =
     (case p of None \<Rightarrow> Inl MemoryFault
      | Some a \<Rightarrow> (case h a of None \<Rightarrow> Inl MemoryFault | Some n \<Rightarrow> Inr (h(a \<mapsto> f n))))"

lemma node_at_Some [simp]: "node_at h (Some a) = (case h a of None \<Rightarrow> Inl MemoryFault | Some n \<Rightarrow> Inr n)"
  by (simp add: node_at_def)

lemma change_Some [simp]:
  "change h (Some a) f = (case h a of None \<Rightarrow> Inl MemoryFault | Some n \<Rightarrow> Inr (h(a \<mapsto> f n)))"
  by (simp add: change_def)

section \<open>Walking along a chain\<close>

fun walk :: "items \<Rightarrow> addr option \<Rightarrow> nat \<Rightarrow> addr option result" where
  "walk h p 0 = Inr p"
| "walk h None (Suc i) = Inr None"
| "walk h (Some a) (Suc i) = and_then (node_at h (Some a)) (\<lambda>n. walk h (next_p n) i)"

definition get_array_item :: "items \<Rightarrow> addr option \<Rightarrow> nat \<Rightarrow> addr option result" where
  "get_array_item h array index =
     (if array = None then Inr None
      else and_then (node_at h array) (\<lambda>a. walk h (child_p a) index))"

text \<open>The loop that counts does not end on a chain that is a cycle.\<close>

partial_function (option) chain_size :: "items \<Rightarrow> addr option \<Rightarrow> nat \<Rightarrow> nat result option" where
  "chain_size h p k =
     (case p of None \<Rightarrow> Some (Inr k)
      | Some a \<Rightarrow> (case h a of None \<Rightarrow> Some (Inl MemoryFault) | Some n \<Rightarrow> chain_size h (next_p n) (k + 1)))"

section \<open>Changing a chain\<close>

definition suffix_object :: "items \<Rightarrow> addr option \<Rightarrow> addr option \<Rightarrow> items result" where
  "suffix_object h prev item =
     and_then (change h prev (\<lambda>n. n\<lparr>next_p := item\<rparr>)) (\<lambda>h1. change h1 item (\<lambda>n. n\<lparr>prev_p := prev\<rparr>))"

definition add_item_to_array :: "items \<Rightarrow> addr option \<Rightarrow> addr option \<Rightarrow> (bool \<times> items) result" where
  "add_item_to_array h array item =
     (if item = None \<or> array = None \<or> array = item then Inr (False, h)
      else and_then (node_at h array) (\<lambda>a.
        if child_p a = None then
          and_then (change h array (\<lambda>n. n\<lparr>child_p := item\<rparr>)) (\<lambda>h1.
            and_then (change h1 item (\<lambda>n. n\<lparr>prev_p := item, next_p := None\<rparr>)) (\<lambda>h2. Inr (True, h2)))
        else and_then (node_at h (child_p a)) (\<lambda>c.
          if prev_p c = None then Inr (True, h)
          else and_then (suffix_object h (prev_p c) item) (\<lambda>h1.
            and_then (change h1 (child_p a) (\<lambda>n. n\<lparr>prev_p := item\<rparr>)) (\<lambda>h2. Inr (True, h2))))))"

text \<open>A detached item is out of the chain, with null links.\<close>

definition cJSON_DetachItemViaPointer :: "items \<Rightarrow> addr option \<Rightarrow> addr option \<Rightarrow> (addr option \<times> items) result" where
  "cJSON_DetachItemViaPointer h parent item =
     (if parent = None \<or> item = None then Inr (None, h)
      else and_then (node_at h parent) (\<lambda>p. and_then (node_at h item) (\<lambda>x.
        and_then (if item \<noteq> child_p p then change h (prev_p x) (\<lambda>n. n\<lparr>next_p := next_p x\<rparr>) else Inr h) (\<lambda>h1.
        and_then (if next_p x \<noteq> None then change h1 (next_p x) (\<lambda>n. n\<lparr>prev_p := prev_p x\<rparr>) else Inr h1) (\<lambda>h2.
        and_then (if item = child_p p then change h2 parent (\<lambda>n. n\<lparr>child_p := next_p x\<rparr>)
                  else if next_p x = None then change h2 (child_p p) (\<lambda>n. n\<lparr>prev_p := prev_p x\<rparr>)
                  else Inr h2) (\<lambda>h3.
        and_then (change h3 item (\<lambda>n. n\<lparr>prev_p := None, next_p := None\<rparr>)) (\<lambda>h4. Inr (item, h4))))))))"

definition cJSON_DetachItemFromArray :: "items \<Rightarrow> addr option \<Rightarrow> int \<Rightarrow> (addr option \<times> items) result" where
  "cJSON_DetachItemFromArray h array which =
     (if which < 0 then Inr (None, h)
      else and_then (get_array_item h array (nat which)) (\<lambda>item. cJSON_DetachItemViaPointer h array item))"

text \<open>The new item goes before the one at the index; it is not tested for the null pointer there.\<close>

definition insert_links :: "items \<Rightarrow> addr option \<Rightarrow> addr option \<Rightarrow> addr option \<Rightarrow> items result" where
  "insert_links h array after_inserted newitem =
     and_then (node_at h after_inserted) (\<lambda>x.
     and_then (change h newitem (\<lambda>n. n\<lparr>next_p := after_inserted, prev_p := prev_p x\<rparr>)) (\<lambda>h1.
     and_then (change h1 after_inserted (\<lambda>n. n\<lparr>prev_p := newitem\<rparr>)) (\<lambda>h2.
     and_then (node_at h2 array) (\<lambda>a.
       if after_inserted = child_p a then change h2 array (\<lambda>n. n\<lparr>child_p := newitem\<rparr>)
       else and_then (node_at h2 newitem) (\<lambda>n. change h2 (prev_p n) (\<lambda>m. m\<lparr>next_p := newitem\<rparr>))))))"

definition cJSON_InsertItemInArray :: "items \<Rightarrow> addr option \<Rightarrow> int \<Rightarrow> addr option \<Rightarrow> (bool \<times> items) result" where
  "cJSON_InsertItemInArray h array which newitem =
     (if which < 0 then Inr (False, h)
      else and_then (get_array_item h array (nat which)) (\<lambda>after_inserted.
        if after_inserted = None then add_item_to_array h array newitem
        else and_then (insert_links h array after_inserted newitem) (\<lambda>h1. Inr (True, h1))))"

section \<open>Freeing items\<close>

partial_function (option) cJSON_Delete :: "items \<Rightarrow> addr option \<Rightarrow> items result option" where
  "cJSON_Delete h item =
     (case item of
        None \<Rightarrow> Some (Inr h)
      | Some a \<Rightarrow>
          (case h a of
             None \<Rightarrow> Some (Inl MemoryFault)
           | Some n \<Rightarrow>
               Option.bind (if \<not> is_reference n \<and> child_p n \<noteq> None then cJSON_Delete h (child_p n) else Some (Inr h))
                 (\<lambda>r. case r of
                    Inl e \<Rightarrow> Some (Inl e)
                  | Inr h1 \<Rightarrow>
                      if h1 a = None then Some (Inl MemoryFault)
                      else cJSON_Delete (h1(a := None)) (next_p n))))"

text \<open>The replacement takes the links of the item, which is freed.\<close>

definition replace_links :: "items \<Rightarrow> addr option \<Rightarrow> addr option \<Rightarrow> addr option \<Rightarrow> items result" where
  "replace_links h parent item replacement =
     and_then (node_at h item) (\<lambda>x.
     and_then (change h replacement (\<lambda>n. n\<lparr>next_p := next_p x, prev_p := prev_p x\<rparr>)) (\<lambda>h1.
     and_then (if next_p x \<noteq> None then change h1 (next_p x) (\<lambda>n. n\<lparr>prev_p := replacement\<rparr>) else Inr h1) (\<lambda>h2.
     and_then (node_at h2 parent) (\<lambda>p.
     and_then
       (if child_p p = item then
          and_then (node_at h2 (child_p p)) (\<lambda>c.
          and_then (if prev_p c = child_p p then change h2 replacement (\<lambda>n. n\<lparr>prev_p := replacement\<rparr>) else Inr h2)
            (\<lambda>h3. change h3 parent (\<lambda>n. n\<lparr>child_p := replacement\<rparr>)))
        else
          and_then (if prev_p x \<noteq> None then change h2 (prev_p x) (\<lambda>n. n\<lparr>next_p := replacement\<rparr>) else Inr h2) (\<lambda>h3.
            if next_p x = None then change h3 (child_p p) (\<lambda>n. n\<lparr>prev_p := replacement\<rparr>) else Inr h3))
       (\<lambda>h4. change h4 item (\<lambda>n. n\<lparr>next_p := None, prev_p := None\<rparr>))))))"

definition cJSON_ReplaceItemViaPointer ::
    "items \<Rightarrow> addr option \<Rightarrow> addr option \<Rightarrow> addr option \<Rightarrow> (bool \<times> items) result option" where
  "cJSON_ReplaceItemViaPointer h parent item replacement =
     (if parent = None \<or> replacement = None \<or> item = None then Some (Inr (False, h))
      else if replacement = item then Some (Inr (True, h))
      else (case replace_links h parent item replacement of
              Inl e \<Rightarrow> Some (Inl e)
            | Inr h1 \<Rightarrow> map_option (map_sum id (\<lambda>h2. (True, h2))) (cJSON_Delete h1 item)))"

definition cJSON_ReplaceItemInArray ::
    "items \<Rightarrow> addr option \<Rightarrow> int \<Rightarrow> addr option \<Rightarrow> (bool \<times> items) result option" where
  "cJSON_ReplaceItemInArray h array which newitem =
     (if which < 0 then Some (Inr (False, h))
      else (case get_array_item h array (nat which) of
              Inl e \<Rightarrow> Some (Inl e)
            | Inr item \<Rightarrow> cJSON_ReplaceItemViaPointer h array item newitem))"

definition cJSON_DeleteItemFromArray :: "items \<Rightarrow> addr option \<Rightarrow> int \<Rightarrow> items result option" where
  "cJSON_DeleteItemFromArray h array which =
     (case cJSON_DetachItemFromArray h array which of
        Inl e \<Rightarrow> Some (Inl e)
      | Inr r \<Rightarrow> cJSON_Delete (snd r) (fst r))"

section \<open>The children as a list of addresses\<close>

text \<open>
  The addresses from \<open>p\<close> to before \<open>q\<close>: \<open>next\<close> leads from one to the next, \<open>prev\<close> back, and
  the \<open>prev\<close> of the first is \<open>pv\<close>.
\<close>

fun seg :: "items \<Rightarrow> addr option \<Rightarrow> addr option \<Rightarrow> addr list \<Rightarrow> addr option \<Rightarrow> bool" where
  "seg h pv p [] q \<longleftrightarrow> p = q"
| "seg h pv p (a # as) q \<longleftrightarrow> p = Some a \<and> (\<exists>n. h a = Some n \<and> prev_p n = pv \<and> seg h (Some a) (next_p n) as q)"

definition end_of :: "addr option \<Rightarrow> addr list \<Rightarrow> addr option" where
  "end_of pv as = (if as = [] then pv else Some (last as))"

lemma end_of_simps [simp]: "end_of pv [] = pv" "end_of pv (a # as) = end_of (Some a) as" "end_of pv (as @ b # bs) = end_of (Some b) bs"
  by (simp_all add: end_of_def)

lemma end_of_in: "end_of (Some a) as = Some b \<Longrightarrow> b = a \<or> b \<in> set as"
  by (auto simp: end_of_def split: if_splits)

definition children :: "items \<Rightarrow> addr \<Rightarrow> addr list \<Rightarrow> bool" where
  "children h a as \<longleftrightarrow> distinct (a # as) \<and> (\<exists>n. h a = Some n \<and> seg h (end_of None as) (child_p n) as None)"

lemma seg_append: "seg h pv p (xs @ ys) q \<longleftrightarrow> (\<exists>m. seg h pv p xs m \<and> seg h (end_of pv xs) m ys q)"
  by (induction xs arbitrary: pv p) auto

lemma seg_other [simp]: "b \<notin> set as \<Longrightarrow> seg (h(b := v)) pv p as q = seg h pv p as q"
  by (induction as arbitrary: pv p) auto

lemma seg_set_prev:
  "seg h pv p (a # as) q \<Longrightarrow> a \<notin> set as \<Longrightarrow> h a = Some n \<Longrightarrow> seg (h(a \<mapsto> n\<lparr>prev_p := pv'\<rparr>)) pv' p (a # as) q"
  by auto

lemma seg_set_next:
  "seg h pv p (xs @ [l]) q \<Longrightarrow> l \<notin> set xs \<Longrightarrow> h l = Some n \<Longrightarrow> seg (h(l \<mapsto> n\<lparr>next_p := q'\<rparr>)) pv p (xs @ [l]) q'"
  by (auto simp: seg_append)

lemma seg_in: "seg h pv p as q \<Longrightarrow> b \<in> set as \<Longrightarrow> \<exists>n. h b = Some n"
  by (induction as arbitrary: pv p) auto

text \<open>
  What an operation on the children of \<open>a\<close> may change: the links of the items of \<open>S\<close> and the
  pointer of \<open>a\<close> to its first child. Types, values and names stay.
\<close>

definition payload :: "node \<Rightarrow> node" where
  "payload n = n\<lparr>next_p := None, prev_p := None, child_p := None\<rparr>"

definition links_only :: "items \<Rightarrow> items \<Rightarrow> addr \<Rightarrow> addr set \<Rightarrow> bool" where
  "links_only h h' a S \<longleftrightarrow>
     (\<forall>b. map_option payload (h' b) = map_option payload (h b)) \<and>
     (\<forall>b. b \<noteq> a \<longrightarrow> map_option child_p (h' b) = map_option child_p (h b)) \<and>
     (\<forall>b. b \<notin> S \<longrightarrow> map_option next_p (h' b) = map_option next_p (h b) \<and>
        map_option prev_p (h' b) = map_option prev_p (h b))"

lemma links_only_refl [simp]: "links_only h h a S"
  by (simp add: links_only_def)

lemma links_only_trans [trans]: "links_only h h1 a S \<Longrightarrow> links_only h1 h2 a S \<Longrightarrow> links_only h h2 a S"
  by (simp add: links_only_def)

lemma links_only_link:
  assumes "h b = Some n" and "b \<in> S" and "payload (f n) = payload n" and "child_p (f n) = child_p n"
  shows "links_only h (h(b \<mapsto> f n)) a S"
  using assms by (auto simp: links_only_def)

lemma links_only_child: "h a = Some n \<Longrightarrow> links_only h (h(a \<mapsto> n\<lparr>child_p := p\<rparr>)) a S"
  by (auto simp: links_only_def payload_def)

text \<open>Linking a new item behind the last one of a chain.\<close>

lemma suffix_object_seg:
  assumes "seg h pv q as None" and "distinct as" and "as \<noteq> []" and x: "h x = Some nx" "next_p nx = None" "x \<notin> set as"
  shows "\<exists>h'. suffix_object h (end_of None as) (Some x) = Inr h' \<and> seg h' pv q (as @ [x]) None \<and>
    links_only h h' a (set (as @ [x])) \<and> (\<forall>b. b \<notin> set (as @ [x]) \<longrightarrow> h' b = h b) \<and>
    (\<exists>m. h' x = Some m \<and> next_p m = None)"
proof -
  define l where "l = last as"
  have as: "as = butlast as @ [l]" using assms(3) by (simp add: l_def)
  then have l: "l \<in> set as" by (metis in_set_conv_decomp)
  have "distinct (butlast as @ [l])" using assms(2) as by simp
  then have neq: "l \<noteq> x" "l \<notin> set (butlast as)" using l x(3) by auto
  obtain nl where nl: "h l = Some nl" using seg_in [OF assms(1) l] by blast
  define h1 where "h1 = h(l \<mapsto> nl\<lparr>next_p := Some x\<rparr>)"
  define h2 where "h2 = h1(x \<mapsto> nx\<lparr>prev_p := Some l\<rparr>)"
  have ends: "end_of None as = Some l" "end_of pv as = Some l" using assms(3) by (simp_all add: end_of_def l_def)
  have "suffix_object h (end_of None as) (Some x) = Inr h2"
    using nl x(1) neq by (simp add: suffix_object_def ends h2_def h1_def)
  moreover have "seg h1 pv q as (Some x)"
    using seg_set_next [of h pv q "butlast as" l None nl "Some x"] assms(1) as neq nl unfolding h1_def by metis
  then have "seg h2 pv q (as @ [x]) None" using x(2,3) ends by (simp add: seg_append h2_def)
  moreover have "links_only h h1 a (set (as @ [x]))"
    unfolding h1_def by (rule links_only_link) (use nl l in \<open>simp_all add: payload_def\<close>)
  moreover have "links_only h1 h2 a (set (as @ [x]))"
    unfolding h2_def by (rule links_only_link) (use x neq in \<open>simp_all add: payload_def h1_def\<close>)
  moreover have "\<forall>b. b \<notin> set (as @ [x]) \<longrightarrow> h2 b = h b" using l by (auto simp: h2_def h1_def)
  moreover have "\<exists>m. h2 x = Some m \<and> next_p m = None" using x(2) by (simp add: h2_def)
  ultimately show ?thesis using links_only_trans by blast
qed

lemma add_item_to_array_children:
  assumes "children h a as" and x: "h x = Some nx" "next_p nx = None" and new: "x \<notin> set (a # as)"
  shows "\<exists>h'. add_item_to_array h (Some a) (Some x) = Inr (True, h') \<and> children h' a (as @ [x]) \<and>
    links_only h h' a (set (as @ [x]))"
proof -
  obtain na where a: "h a = Some na" "seg h (end_of None as) (child_p na) as None" "distinct (a # as)"
    using assms(1) by (auto simp: children_def)
  show ?thesis
  proof (cases as)
    case Nil
    then show ?thesis
      using a x new by (auto simp: add_item_to_array_def children_def links_only_def payload_def)
  next
    case (Cons c cs)
    obtain nc where c: "child_p na = Some c" "h c = Some nc" "prev_p nc = end_of None as" using a(2) by (auto simp: Cons)
    have "x \<notin> set as" "distinct as" "as \<noteq> []" using a(3) new Cons by auto
    from suffix_object_seg [OF a(2) this(2,3) x this(1), of a] obtain h2 where
      h2: "suffix_object h (end_of None as) (Some x) = Inr h2" "seg h2 (end_of None as) (child_p na) (as @ [x]) None"
      "links_only h h2 a (set (as @ [x]))" "\<forall>b. b \<notin> set (as @ [x]) \<longrightarrow> h2 b = h b" by blast
    obtain nc2 where nc2: "h2 c = Some nc2" using h2(2) by (auto simp: Cons)
    define h3 where "h3 = h2(c \<mapsto> nc2\<lparr>prev_p := Some x\<rparr>)"
    have "end_of (Some c) cs \<noteq> None" by (simp add: end_of_def)
    then have "add_item_to_array h (Some a) (Some x) = Inr (True, h3)"
      using a(1) c nc2 new h2(1) by (auto simp: add_item_to_array_def h3_def Cons)
    moreover have "seg h3 (Some x) (child_p na) (as @ [x]) None"
      using seg_set_prev [of h2 "end_of None as" "child_p na" c "cs @ [x]" None nc2 "Some x"] h2(2) nc2 new a(3)
      by (simp add: Cons h3_def)
    moreover have "h3 a = Some na" using a(1,3) new h2(4) by (auto simp: h3_def Cons)
    ultimately have "children h3 a (as @ [x])" "add_item_to_array h (Some a) (Some x) = Inr (True, h3)"
      using new a(3) by (auto simp: children_def)
    moreover have "links_only h2 h3 a (set (as @ [x]))"
      unfolding h3_def by (rule links_only_link) (use nc2 Cons in \<open>simp_all add: payload_def\<close>)
    ultimately show ?thesis using links_only_trans [OF h2(3)] by blast
  qed
qed

lemma walk_seg: "seg h pv p as None \<Longrightarrow> walk h p i = Inr (if i < length as then Some (as ! i) else None)"
proof (induction as arbitrary: pv p i)
  case Nil
  then show ?case by (cases i) simp_all
next
  case (Cons a as)
  then show ?case by (cases i) auto
qed

lemma get_array_item_children:
  "children h a as \<Longrightarrow> get_array_item h (Some a) i = Inr (if i < length as then Some (as ! i) else None)"
  using walk_seg by (fastforce simp: children_def get_array_item_def)

lemma chain_size_seg: "seg h pv p as None \<Longrightarrow> chain_size h p k = Some (Inr (k + length as))"
proof (induction as arbitrary: pv p k)
  case Nil
  then show ?case by (subst chain_size.simps) simp
next
  case (Cons a as)
  then show ?case by (subst chain_size.simps) auto
qed

text \<open>The chain of the children around one of them.\<close>

lemma childrenE:
  assumes "children h a (xs @ b # ys)"
  obtains na nb where "h a = Some na" and "h b = Some nb" and "a \<noteq> b" and "distinct xs" and "distinct ys"
    and "a \<notin> set xs" and "a \<notin> set ys" and "b \<notin> set xs" and "b \<notin> set ys" and "set xs \<inter> set ys = {}"
    and "seg h (end_of (Some b) ys) (child_p na) xs (Some b)" and "prev_p nb = end_of (end_of (Some b) ys) xs"
    and "seg h (Some b) (next_p nb) ys None" and "child_p na = Some b \<longleftrightarrow> xs = []" and "next_p nb = None \<longleftrightarrow> ys = []"
proof -
  from assms obtain na where a: "h a = Some na" "seg h (end_of None (xs @ b # ys)) (child_p na) (xs @ b # ys) None"
    "distinct (a # xs @ b # ys)" by (auto simp: children_def)
  from a(2) obtain nb where b: "seg h (end_of (Some b) ys) (child_p na) xs (Some b)" "h b = Some nb"
    "prev_p nb = end_of (end_of (Some b) ys) xs" "seg h (Some b) (next_p nb) ys None"
    by (auto simp: seg_append)
  moreover have "child_p na = Some b \<longleftrightarrow> xs = []" using b(1) a(3) by (cases xs) auto
  moreover have "next_p nb = None \<longleftrightarrow> ys = []" using b(4) by (cases ys) auto
  ultimately show thesis using that a by auto
qed

definition detached :: "items \<Rightarrow> addr \<Rightarrow> bool" where
  "detached h x \<longleftrightarrow> (\<exists>n. h x = Some n \<and> next_p n = None \<and> prev_p n = None)"

text \<open>Taking the middle out of two segments.\<close>

lemma detach_children:
  assumes "children h a (xs @ b # ys)"
  shows "\<exists>h'. cJSON_DetachItemViaPointer h (Some a) (Some b) = Inr (Some b, h') \<and> children h' a (xs @ ys) \<and>
    detached h' b \<and> links_only h h' a (set (xs @ b # ys))"
  using assms
proof (rule childrenE)
  fix na nb
  assume a: "h a = Some na" and b: "h b = Some nb" and ne: "a \<noteq> b" "distinct xs" "distinct ys" "a \<notin> set xs" "a \<notin> set ys"
    "b \<notin> set xs" "b \<notin> set ys" "set xs \<inter> set ys = {}"
    and xs: "seg h (end_of (Some b) ys) (child_p na) xs (Some b)" and pb: "prev_p nb = end_of (end_of (Some b) ys) xs"
    and ys: "seg h (Some b) (next_p nb) ys None" and first: "child_p na = Some b \<longleftrightarrow> xs = []"
    and last: "next_p nb = None \<longleftrightarrow> ys = []"
  show ?thesis
  proof (cases xs rule: rev_cases)
    case Nil
    then show ?thesis
      using a b ne pb ys first last
      by (cases ys) (auto simp: cJSON_DetachItemViaPointer_def children_def detached_def links_only_def payload_def)
  next
    case (snoc us u)
    then show ?thesis
      using a b ne xs pb ys first last
      by (cases ys; cases us)
        (auto simp: cJSON_DetachItemViaPointer_def children_def detached_def links_only_def payload_def seg_append)
  qed
qed

lemma insert_children:
  assumes "children h a (xs @ b # ys)" and x: "h x = Some nx" and new: "x \<notin> set (a # xs @ b # ys)"
  shows "\<exists>h'. insert_links h (Some a) (Some b) (Some x) = Inr h' \<and>
    children h' a (xs @ x # b # ys) \<and> links_only h h' a (set (xs @ x # b # ys))"
  using assms(1)
proof (rule childrenE)
  fix na nb
  assume a: "h a = Some na" and b: "h b = Some nb" and ne: "a \<noteq> b" "distinct xs" "distinct ys" "a \<notin> set xs" "a \<notin> set ys"
    "b \<notin> set xs" "b \<notin> set ys" "set xs \<inter> set ys = {}"
    and xs: "seg h (end_of (Some b) ys) (child_p na) xs (Some b)" and pb: "prev_p nb = end_of (end_of (Some b) ys) xs"
    and ys: "seg h (Some b) (next_p nb) ys None" and first: "child_p na = Some b \<longleftrightarrow> xs = []"
    and last: "next_p nb = None \<longleftrightarrow> ys = []"
  show ?thesis
  proof (cases xs rule: rev_cases)
    case Nil
    then show ?thesis
      using a b ne pb ys first last x new
      by (cases ys) (auto simp: insert_links_def children_def links_only_def payload_def)
  next
    case (snoc us u)
    then show ?thesis
      using a b ne xs pb ys first last x new
      by (cases ys; cases us)
        (auto simp: insert_links_def children_def links_only_def payload_def seg_append)
  qed
qed

lemma insert_behind:
  assumes "children h a as" and "h x = Some nx" "next_p nx = None" and "x \<notin> set (a # as)" and "int (length as) \<le> which"
  shows "\<exists>h'. cJSON_InsertItemInArray h (Some a) which (Some x) = Inr (True, h') \<and> children h' a (as @ [x]) \<and>
    links_only h h' a (set (as @ [x]))"
proof -
  have "get_array_item h (Some a) (nat which) = Inr None"
    using get_array_item_children [OF assms(1), of "nat which"] assms(5) by auto
  then show ?thesis using add_item_to_array_children [OF assms(1-4)] assms(5) by (simp add: cJSON_InsertItemInArray_def)
qed

lemma replace_children:
  assumes "children h a (xs @ b # ys)" and x: "h x = Some nx" and new: "x \<notin> set (a # xs @ b # ys)"
  shows "\<exists>h'. replace_links h (Some a) (Some b) (Some x) = Inr h' \<and>
    children h' a (xs @ x # ys) \<and> detached h' b \<and> links_only h h' a (set (xs @ x # b # ys))"
  using assms(1)
proof (rule childrenE)
  fix na nb
  assume a: "h a = Some na" and b: "h b = Some nb" and ne: "a \<noteq> b" "distinct xs" "distinct ys" "a \<notin> set xs" "a \<notin> set ys"
    "b \<notin> set xs" "b \<notin> set ys" "set xs \<inter> set ys = {}"
    and xs: "seg h (end_of (Some b) ys) (child_p na) xs (Some b)" and pb: "prev_p nb = end_of (end_of (Some b) ys) xs"
    and ys: "seg h (Some b) (next_p nb) ys None" and first: "child_p na = Some b \<longleftrightarrow> xs = []"
    and last: "next_p nb = None \<longleftrightarrow> ys = []"
  show ?thesis
  proof (cases xs rule: rev_cases)
    case Nil
    then show ?thesis
      using a b ne pb ys first last x new
      by (cases ys) (auto simp: replace_links_def children_def detached_def links_only_def payload_def dest: end_of_in)
  next
    case (snoc us u)
    then show ?thesis
      using a b ne xs pb ys first last x new
      by (cases ys; cases us)
        (auto simp: replace_links_def children_def detached_def links_only_def payload_def seg_append)
  qed
qed

section \<open>Trees of items\<close>

text \<open>
  The chain from \<open>p\<close> holds the items \<open>its\<close> with all that is below them, at the addresses \<open>A\<close>,
  in the order in which they are reached. No item in it is a reference.
\<close>

definition fields :: "node \<Rightarrow> cJSON_Type \<times> string option \<times> int \<times> double \<times> string option" where
  "fields n = (node_type n, node_text n, node_int n, node_double n, node_name n)"

fun forest :: "items \<Rightarrow> addr option \<Rightarrow> cJSON list \<Rightarrow> addr list \<Rightarrow> bool" where
  "forest h p [] A \<longleftrightarrow> p = None \<and> A = []"
| "forest h p (Item t v i x nm cs # its) A \<longleftrightarrow>
     (\<exists>a n B C. p = Some a \<and> h a = Some n \<and> fields n = (t, v, i, x, nm) \<and> \<not> is_reference n \<and>
        forest h (child_p n) cs B \<and> forest h (next_p n) its C \<and> A = a # B @ C)"

lemma forest_dom: "forest h p its A \<Longrightarrow> a \<in> set A \<Longrightarrow> h a \<noteq> None"
  by (induction h p its A rule: forest.induct) auto

lemma forest_cong:
  "forest h p its A \<Longrightarrow> (\<And>a. a \<in> set A \<Longrightarrow> h' a = h a) \<Longrightarrow> forest h' p its A"
proof (induction h p its A rule: forest.induct)
  case (2 h p t v i x nm cs its A)
  then obtain a n B C where a: "p = Some a" "h a = Some n" "fields n = (t, v, i, x, nm)" "\<not> is_reference n"
    "forest h (child_p n) cs B" "forest h (next_p n) its C" "A = a # B @ C" by auto
  moreover have "forest h' (child_p n) cs B" "forest h' (next_p n) its C"
    using 2(1) [OF a(5)] 2(2) [OF a(6)] 2(4) a(7) by auto
  ultimately show ?case using 2(4) by auto
qed simp

lemma forest_None: "forest h None its A \<Longrightarrow> its = [] \<and> A = []"
  by (cases its; cases "hd its") auto

text \<open>\<open>cJSON_Delete\<close> frees every item of the chain and below it, each once, and nothing else.\<close>

lemma delete_forest_in:
  "forest h p its A \<Longrightarrow> distinct A \<Longrightarrow> \<forall>a\<in>set A. h' a = h a \<Longrightarrow> cJSON_Delete h' p = Some (Inr (h' |` (- set A)))"
proof (induction h p its A arbitrary: h' rule: forest.induct)
  case (1 h p A)
  then show ?case by (subst cJSON_Delete.simps) (simp add: restrict_map_def)
next
  case (2 h p t v i x nm cs its A)
  then obtain a n B C where a: "p = Some a" "h a = Some n" "\<not> is_reference n"
    "forest h (child_p n) cs B" "forest h (next_p n) its C" "A = a # B @ C" by auto
  have dist: "distinct B" "distinct C" "a \<notin> set B" "a \<notin> set C" "set B \<inter> set C = {}" using 2(4) a(6) by auto
  have h': "h' a = Some n" "\<forall>b\<in>set B. h' b = h b" using 2(5) a(2,6) by auto
  have below: "(if \<not> is_reference n \<and> child_p n \<noteq> None then cJSON_Delete h' (child_p n) else Some (Inr h')) =
      Some (Inr (h' |` (- set B)))"
  proof (cases "child_p n")
    case None
    then have "B = []" using a(4) forest_None [of h cs B] by simp
    then show ?thesis using None by (simp add: restrict_map_def)
  next
    case (Some c)
    then show ?thesis using 2(1) [OF a(4) dist(1) h'(2)] a(3) by simp
  qed
  let ?h = "(h' |` (- set B))(a := None)"
  have "\<forall>c\<in>set C. ?h c = h c" using 2(5) a(6) dist by (auto simp: restrict_map_def disjoint_iff)
  from 2(2) [OF a(5) dist(2) this] have "cJSON_Delete ?h (next_p n) = Some (Inr (?h |` (- set C)))" .
  moreover have "?h |` (- set C) = h' |` (- set A)" by (auto simp: restrict_map_def a(6))
  ultimately show ?case
    using a(1) h'(1) below dist(3) by (subst cJSON_Delete.simps) (simp add: restrict_map_def)
qed

lemma delete_forest: "forest h p its A \<Longrightarrow> distinct A \<Longrightarrow> cJSON_Delete h p = Some (Inr (h |` (- set A)))"
  using delete_forest_in [of h p its A h] by simp

section \<open>The operations on lists\<close>

text \<open>
  C34. The children of an array are a list, and the operations on their links are the operations
  on lists: adding appends, inserting puts the new item before the one at the index, detaching
  takes one out, replacing puts one in the place of another, and the item at an index is that of
  the list. The chain stays well formed (the \<open>prev\<close> of the first child is the last one), what is
  taken out has null links, and only the links of the children change.
\<close>

theorem chain_operations_refine_lists:
  assumes "children h a as" and "detached h x" and "x \<notin> set (a # as)"
  shows "(\<exists>h'. add_item_to_array h (Some a) (Some x) = Inr (True, h') \<and> children h' a (as @ [x]) \<and>
      links_only h h' a (set (x # as))) \<and>
    (\<forall>i. \<exists>h'. cJSON_InsertItemInArray h (Some a) (int i) (Some x) = Inr (True, h') \<and>
      children h' a (take i as @ x # drop i as) \<and> links_only h h' a (set (x # as))) \<and>
    (\<forall>i. get_array_item h (Some a) i = Inr (if i < length as then Some (as ! i) else None)) \<and>
    (\<forall>i<length as.
      (\<exists>h'. cJSON_DetachItemFromArray h (Some a) (int i) = Inr (Some (as ! i), h') \<and>
        children h' a (take i as @ drop (Suc i) as) \<and> detached h' (as ! i) \<and> links_only h h' a (set as)) \<and>
      (\<exists>h'. replace_links h (Some a) (Some (as ! i)) (Some x) = Inr h' \<and>
        children h' a (as[i := x]) \<and> detached h' (as ! i) \<and> links_only h h' a (set (x # as))))"
proof (intro conjI allI impI)
  obtain nx where x: "h x = Some nx" "next_p nx = None" using assms(2) by (auto simp: detached_def)
  note get = get_array_item_children [OF assms(1)]
  have set_x: "set (as @ [x]) = set (x # as)" by auto
  show "\<exists>h'. add_item_to_array h (Some a) (Some x) = Inr (True, h') \<and> children h' a (as @ [x]) \<and>
      links_only h h' a (set (x # as))"
    using add_item_to_array_children [OF assms(1) x assms(3)] unfolding set_x .
  show "get_array_item h (Some a) i = Inr (if i < length as then Some (as ! i) else None)" for i by (rule get)
  fix i
  show "\<exists>h'. cJSON_InsertItemInArray h (Some a) (int i) (Some x) = Inr (True, h') \<and>
      children h' a (take i as @ x # drop i as) \<and> links_only h h' a (set (x # as))"
  proof (cases "i < length as")
    case True
    have split: "take i as @ as ! i # drop (Suc i) as = as" by (rule id_take_nth_drop [symmetric, OF True])
    have "drop i as = as ! i # drop (Suc i) as" by (rule Cons_nth_drop_Suc [symmetric, OF True])
    moreover have "set (take i as @ x # as ! i # drop (Suc i) as) = set (x # as)" by (subst (2) split [symmetric]) auto
    ultimately show ?thesis
      using insert_children [of h a "take i as" "as ! i" "drop (Suc i) as" x nx] assms x split get [of i] True
      by (auto simp: cJSON_InsertItemInArray_def)
  next
    case False
    then show ?thesis using insert_behind [OF assms(1) x assms(3), of "int i"] unfolding set_x by simp
  qed
  assume i: "i < length as"
  have split: "take i as @ as ! i # drop (Suc i) as = as" by (rule id_take_nth_drop [symmetric, OF i])
  show "\<exists>h'. cJSON_DetachItemFromArray h (Some a) (int i) = Inr (Some (as ! i), h') \<and>
      children h' a (take i as @ drop (Suc i) as) \<and> detached h' (as ! i) \<and> links_only h h' a (set as)"
    using detach_children [of h a "take i as" "as ! i" "drop (Suc i) as"] assms(1) split get [of i] i
    by (simp add: cJSON_DetachItemFromArray_def)
  have "set (take i as @ x # as ! i # drop (Suc i) as) = set (x # as)" by (subst (2) split [symmetric]) auto
  then show "\<exists>h'. replace_links h (Some a) (Some (as ! i)) (Some x) = Inr h' \<and>
      children h' a (as[i := x]) \<and> detached h' (as ! i) \<and> links_only h h' a (set (x # as))"
    using replace_children [of h a "take i as" "as ! i" "drop (Suc i) as" x nx] assms(1,3) x(1) split
    by (simp add: upd_conv_take_nth_drop [OF i])
qed

text \<open>An array at 0 with two children, and an item at 3.\<close>

definition sample_node :: "addr option \<Rightarrow> addr option \<Rightarrow> addr option \<Rightarrow> cJSON_Type \<Rightarrow> string option \<Rightarrow> node" where
  "sample_node nx pv ch t nm =
     \<lparr>next_p = nx, prev_p = pv, child_p = ch, node_type = t, is_reference = False, string_is_const = False,
      node_text = None, node_int = 0, node_double = Finite 0, node_name = nm\<rparr>"

definition sample_items :: items where
  "sample_items =
     [0 \<mapsto> sample_node None None (Some 1) cJSON_Object None,
      1 \<mapsto> sample_node (Some 2) (Some 2) None cJSON_True (Some ''a''),
      2 \<mapsto> sample_node None (Some 1) None cJSON_False (Some ''b''),
      3 \<mapsto> sample_node None None None cJSON_NULL None]"

lemma sample_children: "children sample_items 0 [1, 2]" "detached sample_items 3"
  by (simp_all add: children_def detached_def sample_items_def sample_node_def end_of_def)

theorem chain_operations_refine_lists_witness:
  "\<exists>h'. cJSON_DetachItemFromArray sample_items (Some 0) 0 = Inr (Some 1, h') \<and> children h' 0 [2]"
  using chain_operations_refine_lists [OF sample_children] by (auto dest: spec [of _ 0])

end
