(* ===== verification/Json_Tree.thy ===== *)
theory Json_Tree
  imports Json_Heap
begin

text \<open>
  Objects and whole trees of \<open>utils/cJSON.c\<close> in the heap: looking up, adding, detaching,
  replacing and deleting members by their name, references, and the relation between the heap
  and the items of \<open>Json\<close>, which the operations keep.
\<close>

section \<open>Members by name\<close>

text \<open>The address of the member; the loop does not end on a chain that is a cycle.\<close>

partial_function (option) find_member :: "items \<Rightarrow> addr option \<Rightarrow> string \<Rightarrow> bool \<Rightarrow> addr option result option" where
  "find_member h p name case_sensitive =
     (case p of
        None \<Rightarrow> Some (Inr None)
      | Some a \<Rightarrow>
          (case h a of
             None \<Rightarrow> Some (Inl MemoryFault)
           | Some n \<Rightarrow>
               (case node_name n of
                  None \<Rightarrow>
                    (if case_sensitive then Some (Inr None) else find_member h (next_p n) name case_sensitive)
                | Some s \<Rightarrow>
                    if (if case_sensitive then name = s else case_insensitive_eq name s) then Some (Inr (Some a))
                    else find_member h (next_p n) name case_sensitive)))"

definition heap_object_item :: "items \<Rightarrow> addr option \<Rightarrow> string option \<Rightarrow> bool \<Rightarrow> addr option result option" where
  "heap_object_item h object name case_sensitive =
     (if object = None \<or> name = None then Some (Inr None)
      else (case node_at h object of
              Inl e \<Rightarrow> Some (Inl e)
            | Inr n \<Rightarrow> find_member h (child_p n) (the name) case_sensitive))"

definition add_item_to_object ::
    "items \<Rightarrow> addr option \<Rightarrow> string option \<Rightarrow> addr option \<Rightarrow> bool \<Rightarrow> (bool \<times> items) result" where
  "add_item_to_object h object name item constant_key =
     (if object = None \<or> name = None \<or> item = None \<or> object = item then Inr (False, h)
      else and_then (change h item (\<lambda>n. n\<lparr>node_name := name, string_is_const := constant_key\<rparr>)) (\<lambda>h1.
             add_item_to_array h1 object item))"

definition cJSON_AddItemToArray :: "items \<Rightarrow> addr option \<Rightarrow> addr option \<Rightarrow> (bool \<times> items) result" where
  "cJSON_AddItemToArray h array item = add_item_to_array h array item"

definition cJSON_AddItemToObject :: "items \<Rightarrow> addr option \<Rightarrow> string option \<Rightarrow> addr option \<Rightarrow> (bool \<times> items) result" where
  "cJSON_AddItemToObject h object name item = add_item_to_object h object name item False"

definition cJSON_AddItemToObjectCS :: "items \<Rightarrow> addr option \<Rightarrow> string option \<Rightarrow> addr option \<Rightarrow> (bool \<times> items) result" where
  "cJSON_AddItemToObjectCS h object name item = add_item_to_object h object name item True"

text \<open>A reference shares the value and the children of the item; \<open>malloc\<close> may have no memory.\<close>

definition create_reference :: "(items \<Rightarrow> addr option) \<Rightarrow> items \<Rightarrow> addr option \<Rightarrow> (addr option \<times> items) result" where
  "create_reference malloc h item =
     (if item = None then Inr (None, h)
      else (case malloc h of
              None \<Rightarrow> Inr (None, h)
            | Some r \<Rightarrow>
                and_then (node_at h item) (\<lambda>n.
                  Inr (Some r, h(r \<mapsto> n\<lparr>node_name := None, is_reference := True, next_p := None, prev_p := None\<rparr>)))))"

definition cJSON_AddItemReferenceToArray ::
    "(items \<Rightarrow> addr option) \<Rightarrow> items \<Rightarrow> addr option \<Rightarrow> addr option \<Rightarrow> (bool \<times> items) result" where
  "cJSON_AddItemReferenceToArray malloc h array item =
     (if array = None then Inr (False, h)
      else and_then (create_reference malloc h item) (\<lambda>(r, h1). add_item_to_array h1 array r))"

definition cJSON_AddItemReferenceToObject ::
    "(items \<Rightarrow> addr option) \<Rightarrow> items \<Rightarrow> addr option \<Rightarrow> string option \<Rightarrow> addr option \<Rightarrow> (bool \<times> items) result" where
  "cJSON_AddItemReferenceToObject malloc h object name item =
     (if object = None \<or> name = None then Inr (False, h)
      else and_then (create_reference malloc h item) (\<lambda>(r, h1). add_item_to_object h1 object name r False))"

text \<open>
  References to a chain of items of somebody else, as the children of a new array or object. The
  text of \<open>cJSON_CreateStringReference\<close> is a value here.
\<close>

definition reference_node :: "cJSON_Type \<Rightarrow> string option \<Rightarrow> addr option \<Rightarrow> node" where
  "reference_node t v c =
     \<lparr>next_p = None, prev_p = None, child_p = c, node_type = t, is_reference = True, string_is_const = False,
      node_text = v, node_int = 0, node_double = Finite 0, node_name = None\<rparr>"

definition allocate_reference :: "(items \<Rightarrow> addr option) \<Rightarrow> items \<Rightarrow> node \<Rightarrow> addr option \<times> items" where
  "allocate_reference malloc h n = (case malloc h of None \<Rightarrow> (None, h) | Some r \<Rightarrow> (Some r, h(r \<mapsto> n)))"

definition cJSON_CreateStringReference where
  "cJSON_CreateStringReference malloc h s = allocate_reference malloc h (reference_node cJSON_String s None)"
definition cJSON_CreateObjectReference where
  "cJSON_CreateObjectReference malloc h c = allocate_reference malloc h (reference_node cJSON_Object None c)"
definition cJSON_CreateArrayReference where
  "cJSON_CreateArrayReference malloc h c = allocate_reference malloc h (reference_node cJSON_Array None c)"

text \<open>Deleting a reference frees the reference only.\<close>

lemma delete_reference:
  assumes "h r = Some n" and "is_reference n" and "next_p n = None"
  shows "cJSON_Delete h (Some r) = Some (Inr (h(r := None)))"
  using assms by (subst cJSON_Delete.simps) (simp, subst cJSON_Delete.simps, simp)

text \<open>
  A new item in the heap, with the fields of an item without children: what the functions
  \<open>cJSON_Create...\<close> of \<open>Json_Api\<close> allocate.
\<close>

definition node_of :: "cJSON \<Rightarrow> node" where
  "node_of it =
     \<lparr>next_p = None, prev_p = None, child_p = None, node_type = item_type it, is_reference = False,
      string_is_const = False, node_text = valuestring it, node_int = valueint it,
      node_double = valuedouble it, node_name = item_string it\<rparr>"

definition allocate :: "(items \<Rightarrow> addr option) \<Rightarrow> items \<Rightarrow> cJSON option \<Rightarrow> addr option \<times> items" where
  "allocate malloc h created =
     (case created of
        None \<Rightarrow> (None, h)
      | Some it \<Rightarrow> (case malloc h of None \<Rightarrow> (None, h) | Some a \<Rightarrow> (Some a, h(a \<mapsto> node_of it))))"

text \<open>The helpers that create an item and add it: without success the new item is freed.\<close>

definition add_created_to_object ::
    "(items \<Rightarrow> addr option) \<Rightarrow> items \<Rightarrow> addr option \<Rightarrow> string option \<Rightarrow> cJSON option \<Rightarrow> (addr option \<times> items) result option" where
  "add_created_to_object malloc h object name created =
     (case allocate malloc h created of
        (item, h1) \<Rightarrow>
          (case add_item_to_object h1 object name item False of
             Inl e \<Rightarrow> Some (Inl e)
           | Inr r \<Rightarrow>
               if fst r then Some (Inr (item, snd r))
               else map_option (map_sum id (\<lambda>h2. (None, h2))) (cJSON_Delete (snd r) item)))"

definition cJSON_AddNullToObject where
  "cJSON_AddNullToObject malloc h object name = add_created_to_object malloc h object name (Some cJSON_CreateNull)"
definition cJSON_AddTrueToObject where
  "cJSON_AddTrueToObject malloc h object name = add_created_to_object malloc h object name (Some cJSON_CreateTrue)"
definition cJSON_AddFalseToObject where
  "cJSON_AddFalseToObject malloc h object name = add_created_to_object malloc h object name (Some cJSON_CreateFalse)"
definition cJSON_AddBoolToObject where
  "cJSON_AddBoolToObject malloc h object name boolean =
     add_created_to_object malloc h object name (Some (cJSON_CreateBool boolean))"
definition cJSON_AddNumberToObject where
  "cJSON_AddNumberToObject malloc h object name number =
     add_created_to_object malloc h object name (Some (cJSON_CreateNumber number))"
definition cJSON_AddStringToObject where
  "cJSON_AddStringToObject malloc h object name s =
     add_created_to_object malloc h object name (cJSON_CreateString s)"
definition cJSON_AddRawToObject where
  "cJSON_AddRawToObject malloc h object name raw = add_created_to_object malloc h object name (cJSON_CreateRaw raw)"
definition cJSON_AddObjectToObject where
  "cJSON_AddObjectToObject malloc h object name = add_created_to_object malloc h object name (Some cJSON_CreateObject)"
definition cJSON_AddArrayToObject where
  "cJSON_AddArrayToObject malloc h object name = add_created_to_object malloc h object name (Some cJSON_CreateArray)"

text \<open>Detaching, deleting and replacing a member by its name.\<close>

definition detach_from_object :: "bool \<Rightarrow> items \<Rightarrow> addr option \<Rightarrow> string option \<Rightarrow> (addr option \<times> items) result option" where
  "detach_from_object case_sensitive h object name =
     map_option (\<lambda>r. and_then r (\<lambda>to_detach. cJSON_DetachItemViaPointer h object to_detach))
       (heap_object_item h object name case_sensitive)"

definition cJSON_DetachItemFromObject where
  "cJSON_DetachItemFromObject h object name = detach_from_object False h object name"
definition cJSON_DetachItemFromObjectCaseSensitive where
  "cJSON_DetachItemFromObjectCaseSensitive h object name = detach_from_object True h object name"

definition delete_from_object :: "bool \<Rightarrow> items \<Rightarrow> addr option \<Rightarrow> string option \<Rightarrow> items result option" where
  "delete_from_object case_sensitive h object name =
     Option.bind (detach_from_object case_sensitive h object name) (\<lambda>r.
       case r of Inl e \<Rightarrow> Some (Inl e) | Inr x \<Rightarrow> cJSON_Delete (snd x) (fst x))"

definition cJSON_DeleteItemFromObject where
  "cJSON_DeleteItemFromObject h object name = delete_from_object False h object name"
definition cJSON_DeleteItemFromObjectCaseSensitive where
  "cJSON_DeleteItemFromObjectCaseSensitive h object name = delete_from_object True h object name"

definition heap_replace_in_object ::
    "items \<Rightarrow> addr option \<Rightarrow> string option \<Rightarrow> addr option \<Rightarrow> bool \<Rightarrow> (bool \<times> items) result option" where
  "heap_replace_in_object h object name replacement case_sensitive =
     (if replacement = None \<or> name = None then Some (Inr (False, h))
      else (case change h replacement (\<lambda>n. n\<lparr>node_name := name, string_is_const := False\<rparr>) of
              Inl e \<Rightarrow> Some (Inl e)
            | Inr h1 \<Rightarrow>
                Option.bind (heap_object_item h1 object name case_sensitive) (\<lambda>r.
                  case r of
                    Inl e \<Rightarrow> Some (Inl e)
                  | Inr item \<Rightarrow> cJSON_ReplaceItemViaPointer h1 object item replacement)))"

definition cJSON_ReplaceItemInObjectCaseSensitive where
  "cJSON_ReplaceItemInObjectCaseSensitive h object name newitem = heap_replace_in_object h object name newitem True"

section \<open>The tree in the heap\<close>

text \<open>The item \<open>it\<close> stands at the first address of \<open>B\<close>, what is below it at the others.\<close>

definition item_node :: "cJSON \<Rightarrow> node \<Rightarrow> bool" where
  "item_node it n \<longleftrightarrow>
     fields n = (item_type it, valuestring it, valueint it, valuedouble it, item_string it) \<and> \<not> is_reference n"

definition subtree :: "items \<Rightarrow> cJSON \<Rightarrow> addr list \<Rightarrow> bool" where
  "subtree h it B \<longleftrightarrow>
     (\<exists>b n B'. B = b # B' \<and> h b = Some n \<and> item_node it n \<and> forest h (child_p n) (child it) B')"

text \<open>The children of \<open>a\<close> are the items \<open>its\<close>, at the addresses of \<open>rows\<close>, all of them different.\<close>

definition heads :: "addr list list \<Rightarrow> addr list" where
  "heads rows = map hd rows"

definition holds :: "items \<Rightarrow> addr \<Rightarrow> cJSON list \<Rightarrow> addr list list \<Rightarrow> bool" where
  "holds h a its rows \<longleftrightarrow> children h a (heads rows) \<and> list_all2 (subtree h) its rows \<and> distinct (a # concat rows)"

lemma links_only_same:
  assumes "links_only h h' a S" and "b \<notin> S" and "b \<noteq> a"
  shows "h' b = h b"
proof -
  have eq: "map_option payload (h' b) = map_option payload (h b)" "map_option child_p (h' b) = map_option child_p (h b)"
    "map_option next_p (h' b) = map_option next_p (h b)" "map_option prev_p (h' b) = map_option prev_p (h b)"
    using assms by (auto simp: links_only_def)
  show ?thesis
  proof (cases "h b")
    case (Some n)
    then obtain m where "h' b = Some m" using eq(1) by auto
    with eq Some show ?thesis by (cases n; cases m) (simp add: payload_def)
  qed (use eq in simp)
qed

text \<open>Changes of links around an item leave what is below it alone.\<close>

lemma links_only_head:
  assumes "links_only h h' a S" and "h b = Some n" and "b \<noteq> a"
  obtains m where "h' b = Some m" and "payload m = payload n" and "child_p m = child_p n"
proof -
  have "map_option payload (h' b) = map_option payload (h b)" "map_option child_p (h' b) = map_option child_p (h b)"
    using assms by (auto simp: links_only_def)
  then show thesis using assms(2) that by (cases "h' b") auto
qed

lemma item_node_payload: "payload m = payload n \<Longrightarrow> item_node it m = item_node it n"
  by (cases n; cases m) (simp add: payload_def item_node_def fields_def)

lemma subtree_links:
  assumes "subtree h it B" and "links_only h h' a S" and "a \<notin> set B" and "S \<inter> set (tl B) = {}" and "distinct B"
  shows "subtree h' it B"
proof -
  obtain b n B' where B: "B = b # B'" "h b = Some n" "item_node it n" "forest h (child_p n) (child it) B'"
    using assms(1) by (auto simp: subtree_def)
  obtain m where m: "h' b = Some m" "payload m = payload n" "child_p m = child_p n"
    using links_only_head [OF assms(2) B(2)] assms(3) B(1) by auto
  have "forest h' (child_p m) (child it) B'"
    unfolding m(3) by (rule forest_cong [OF B(4)]) (use assms B(1) in \<open>auto intro: links_only_same\<close>)
  moreover have "item_node it m" using B(3) item_node_payload [OF m(2)] by simp
  ultimately show ?thesis using B(1) m(1) unfolding subtree_def by blast
qed

lemma rows_links:
  assumes "list_all2 (subtree h) its rows" and "links_only h h' a S" and "distinct (a # concat rows)"
    and "\<forall>B\<in>set rows. S \<inter> set (tl B) = {}"
  shows "list_all2 (subtree h') its rows"
  using assms(1)
proof (rule list.rel_mono_strong)
  fix it B
  assume "B \<in> set rows" "subtree h it B"
  then show "subtree h' it B"
    using assms(2-4) by (intro subtree_links [of h it B h' a S]) (auto dest: distinct_concat_iff [THEN iffD1])
qed

text \<open>The heads of the rows are apart from what is below the heads.\<close>

lemma heads_below:
  assumes "distinct (concat rows)" and "[] \<notin> set rows" and "B \<in> set rows"
  shows "set (heads rows) \<inter> set (tl B) = {}"
proof (rule ccontr)
  assume "set (heads rows) \<inter> set (tl B) \<noteq> {}"
  then obtain C where C: "C \<in> set rows" "hd C \<in> set (tl B)" by (auto simp: heads_def)
  have ne: "C \<noteq> []" "B \<noteq> []" using assms C(1) by auto
  show False
  proof (cases "C = B")
    case True
    have "distinct B" using assms(1,3) by (auto simp: distinct_concat_iff)
    then show False using C(2) True ne by (cases B) auto
  next
    case False
    then have "set C \<inter> set B = {}" using assms(1,3) C(1) by (auto simp: distinct_concat_iff)
    then show False using C(2) ne by (cases B; cases C) auto
  qed
qed

lemma rows_ne: "list_all2 (subtree h) its rows \<Longrightarrow> [] \<notin> set rows"
  by (induction rule: list_all2_induct) (auto simp: subtree_def)

text \<open>Only the nodes of a tree and of a chain matter for it.\<close>

lemma subtree_cong: "subtree h it B \<Longrightarrow> (\<And>b. b \<in> set B \<Longrightarrow> h' b = h b) \<Longrightarrow> subtree h' it B"
  unfolding subtree_def by (elim exE conjE) (auto intro: forest_cong)

lemma seg_cong: "(\<And>b. b \<in> set as \<Longrightarrow> h' b = h b) \<Longrightarrow> seg h' pv p as q = seg h pv p as q"
  by (induction as arbitrary: pv p) auto

lemma holds_cong:
  assumes "holds h a its rows" and "\<And>b. b \<in> set (a # concat rows) \<Longrightarrow> h' b = h b"
  shows "holds h' a its rows"
proof -
  note ne = rows_ne [of h its rows]
  have heads: "set (heads rows) \<subseteq> set (concat rows)"
    using assms(1) ne unfolding holds_def heads_def by (auto intro!: bexI hd_in_set)
  have "children h' a (heads rows)"
    using assms heads seg_cong [of "heads rows" h' h] unfolding holds_def children_def by (metis list.set_intros subset_iff)
  moreover have "h' b = h b" if "B \<in> set rows" "b \<in> set B" for B b using assms(2) [of b] that by auto
  then have "list_all2 (subtree h') its rows"
    using assms(1) unfolding holds_def by (auto elim!: list.rel_mono_strong subtree_cong)
  ultimately show ?thesis using assms(1) by (simp add: holds_def)
qed

lemma subtree_forest:
  assumes "subtree h it B" and "h (hd B) = Some n" and "next_p n = None"
  shows "forest h (Some (hd B)) [it] B"
  using assms by (cases it) (auto simp: subtree_def item_node_def)

lemma heads_in: "[] \<notin> set rows \<Longrightarrow> B \<in> set rows \<Longrightarrow> hd B \<in> set (concat rows)"
  by (cases B) force+

text \<open>Replacing one of the children frees it with everything below it.\<close>

lemma tl_subset: "set (tl B) \<subseteq> set B"
  by (cases B) auto

lemma heads_split:
  assumes "i < length rows"
  shows "heads rows = heads (take i rows) @ hd (rows ! i) # heads (drop (Suc i) rows)"
  by (metis assms heads_def id_take_nth_drop list.simps(9) map_append)

lemma replace_holds:
  assumes "holds h a its rows" and i: "i < length its" and x: "subtree h x X"
    and new: "distinct X" "set X \<inter> set (a # concat rows) = {}"
  shows "\<exists>h'. cJSON_ReplaceItemViaPointer h (Some a) (Some (hd (rows ! i))) (Some (hd X)) = Some (Inr (True, h')) \<and>
    holds h' a (its[i := x]) (rows[i := X]) \<and> h' = h' |` (- set (rows ! i))"
proof -
  have c: "children h a (heads rows)" and rows: "list_all2 (subtree h) its rows" and dist: "distinct (a # concat rows)"
    using assms(1) by (auto simp: holds_def)
  have ne: "[] \<notin> set rows" using rows_ne [OF rows] .
  have i': "i < length rows" using i rows by (simp add: list_all2_lengthD)
  let ?b = "hd (rows ! i)" and ?S = "set (heads (take i rows) @ hd X # hd (rows ! i) # heads (drop (Suc i) rows))"
  obtain c where X: "X = hd X # c" using x by (auto simp: subtree_def)
  have hdX: "hd X \<in> set X" by (subst X) simp
  obtain nx where nx: "h (hd X) = Some nx" using x by (auto simp: subtree_def)
  have head_set: "set (heads rows) \<subseteq> set (concat rows)" using ne heads_in by (force simp: heads_def)
  have "hd X \<notin> set (a # heads rows)" using new(2) hdX head_set by auto
  then obtain h1 where h1: "replace_links h (Some a) (Some ?b) (Some (hd X)) = Inr h1"
    "children h1 a (heads (take i rows) @ hd X # heads (drop (Suc i) rows))" "detached h1 ?b" "links_only h h1 a ?S"
    using replace_children [OF c [unfolded heads_split [OF i']] nx] heads_split [OF i'] by auto
  have S: "?S = insert (hd X) (set (heads rows))" unfolding heads_split [OF i'] by auto
  have tail: "?S \<inter> set (tl B) = {}" if "B \<in> set rows" for B
  proof -
    have "set (tl B) \<subseteq> set (concat rows)" using that tl_subset [of B] by auto
    then show ?thesis using heads_below [OF _ ne that] dist new(2) hdX unfolding S by auto
  qed
  have rows1: "list_all2 (subtree h1) its rows"
    by (rule rows_links [OF rows h1(4) dist]) (use tail in blast)
  have "set (tl X) \<inter> ?S = {}"
    unfolding S using new X head_set by (cases X) auto
  then have x1: "subtree h1 x X" using new by (intro subtree_links [OF x h1(4)]) auto
  have sub: "subtree h1 (its ! i) (rows ! i)" using rows1 i by (simp add: list_all2_conv_all_nth)
  obtain nb where nb: "h1 ?b = Some nb" "next_p nb = None" using h1(3) by (auto simp: detached_def)
  have bi: "rows ! i \<in> set rows" using i' by simp
  then have "distinct (rows ! i)" using dist by (auto simp: distinct_concat_iff)
  with delete_forest [OF subtree_forest [OF sub nb]]
  have del: "cJSON_Delete h1 (Some ?b) = Some (Inr (h1 |` (- set (rows ! i))))" by simp
  have "hd X \<noteq> ?b" using new(2) hdX heads_in [OF ne bi] by auto
  then have run: "cJSON_ReplaceItemViaPointer h (Some a) (Some ?b) (Some (hd X)) =
      Some (Inr (True, h1 |` (- set (rows ! i))))"
    by (simp add: cJSON_ReplaceItemViaPointer_def h1(1) del)
  let ?rows = "rows[i := X]"
  have upd: "?rows = take i rows @ X # drop (Suc i) rows" by (rule upd_conv_take_nth_drop [OF i'])
  have split: "concat rows = concat (take i rows) @ rows ! i @ concat (drop (Suc i) rows)"
    by (metis id_take_nth_drop [OF i'] concat.simps(2) concat_append)
  have "heads ?rows = heads (take i rows) @ hd X # heads (drop (Suc i) rows)" unfolding upd by (simp add: heads_def)
  moreover have "list_all2 (subtree h1) (its[i := x]) ?rows" using rows1 x1 by (rule list_all2_update_cong)
  moreover have "distinct (a # concat ?rows)"
    using dist new unfolding upd split by auto
  ultimately have "holds h1 a (its[i := x]) ?rows" using h1(2) by (simp add: holds_def)
  then have "holds (h1 |` (- set (rows ! i))) a (its[i := x]) ?rows"
  proof (rule holds_cong)
    fix b
    assume "b \<in> set (a # concat ?rows)"
    moreover have "set (a # concat ?rows) \<inter> set (rows ! i) = {}"
      using dist new unfolding upd split by auto
    ultimately have "b \<notin> set (rows ! i)" by blast
    then show "(h1 |` (- set (rows ! i))) b = h1 b" by (simp add: restrict_map_def)
  qed
  then show ?thesis using run by (intro exI [of _ "h1 |` (- set (rows ! i))"]) simp
qed

text \<open>Looking a member up by its name finds the address of the one that the list of items gives.\<close>

lemma find_member_holds:
  assumes "list_all2 (subtree h) its rows" and "seg h pv p (heads rows) None"
  shows "find_member h p name case_sensitive =
    Some (Inr (map_option (\<lambda>i. heads rows ! i) (get_object_item its name case_sensitive)))"
  using assms
proof (induction its rows arbitrary: pv p rule: list_all2_induct)
  case Nil
  then show ?case by (subst find_member.simps) (simp add: heads_def)
next
  case (Cons it its B rows)
  then obtain n where n: "p = Some (hd B)" "h (hd B) = Some n" "seg h (Some (hd B)) (next_p n) (heads rows) None"
    by (auto simp: heads_def)
  have nm: "node_name n = item_string it" using Cons(1) n(2) by (auto simp: subtree_def item_node_def fields_def)
  note IH = Cons(3) [OF n(3)]
  have "heads (B # rows) ! Suc i = heads rows ! i" "heads (B # rows) ! 0 = hd B" for i by (simp_all add: heads_def)
  then show ?case
    using n(1,2) IH nm
    by (subst find_member.simps) (auto simp: option.map_comp comp_def split: option.split)
qed

lemma heap_object_item_holds:
  assumes "holds h a its rows"
  shows "heap_object_item h (Some a) (Some name) case_sensitive =
    Some (Inr (map_option (\<lambda>i. hd (rows ! i)) (get_object_item its name case_sensitive)))"
proof -
  obtain n where n: "h a = Some n" "seg h (end_of None (heads rows)) (child_p n) (heads rows) None"
    using assms by (auto simp: holds_def children_def)
  have rows: "list_all2 (subtree h) its rows" using assms by (simp add: holds_def)
  have "heads rows ! i = hd (rows ! i)" if "get_object_item its name case_sensitive = Some i" for i
    using get_object_item_length [OF that] list_all2_lengthD [OF rows] by (simp add: heads_def)
  then show ?thesis
    using find_member_holds [OF rows n(2)] n(1)
    by (simp add: heap_object_item_def) (cases "get_object_item its name case_sensitive"; simp)
qed

lemma append_holds:
  assumes "holds h a its rows" and x: "subtree h x X" "detached h (hd X)"
    and new: "distinct X" "set X \<inter> set (a # concat rows) = {}"
  shows "\<exists>h'. add_item_to_array h (Some a) (Some (hd X)) = Inr (True, h') \<and> holds h' a (its @ [x]) (rows @ [X])"
proof -
  have c: "children h a (heads rows)" and rows: "list_all2 (subtree h) its rows" and dist: "distinct (a # concat rows)"
    using assms(1) by (auto simp: holds_def)
  have ne: "[] \<notin> set rows" using rows_ne [OF rows] .
  obtain c' where X: "X = hd X # c'" using x by (auto simp: subtree_def)
  have hdX: "hd X \<in> set X" by (subst X) simp
  have head_set: "set (heads rows) \<subseteq> set (concat rows)" using ne heads_in by (force simp: heads_def)
  obtain nx where nx: "h (hd X) = Some nx" "next_p nx = None" using x(2) by (auto simp: detached_def)
  have "hd X \<notin> set (a # heads rows)" using new(2) hdX head_set by auto
  then obtain h1 where h1: "add_item_to_array h (Some a) (Some (hd X)) = Inr (True, h1)"
    "children h1 a (heads rows @ [hd X])" "links_only h h1 a (set (heads rows @ [hd X]))"
    using add_item_to_array_children [OF c nx] by blast
  have "set (heads rows @ [hd X]) \<inter> set (tl B) = {}" if "B \<in> set rows" for B
  proof -
    have "set X \<inter> set B = {}" using new(2) that by auto
    then show ?thesis using heads_below [OF _ ne that] dist hdX tl_subset [of B] by auto
  qed
  then have "list_all2 (subtree h1) its rows" using rows_links [OF rows h1(3) dist] by blast
  moreover have "subtree h1 x X"
    using subtree_links [OF x(1) h1(3)] new X head_set by (cases X) auto
  moreover have "distinct (a # concat (rows @ [X]))" using dist new by auto
  ultimately have "holds h1 a (its @ [x]) (rows @ [X])"
    using h1(2) by (simp add: holds_def heads_def list_all2_appendI)
  with h1(1) show ?thesis by blast
qed

lemma detach_holds:
  assumes "holds h a its rows" and i: "i < length its"
  shows "\<exists>h'. cJSON_DetachItemViaPointer h (Some a) (Some (hd (rows ! i))) = Inr (Some (hd (rows ! i)), h') \<and>
    holds h' a (take i its @ drop (Suc i) its) (take i rows @ drop (Suc i) rows) \<and>
    subtree h' (its ! i) (rows ! i) \<and> detached h' (hd (rows ! i))"
proof -
  have c: "children h a (heads rows)" and rows: "list_all2 (subtree h) its rows" and dist: "distinct (a # concat rows)"
    using assms(1) by (auto simp: holds_def)
  have i': "i < length rows" using i rows by (simp add: list_all2_lengthD)
  let ?b = "hd (rows ! i)"
  obtain h1 where h1: "cJSON_DetachItemViaPointer h (Some a) (Some ?b) = Inr (Some ?b, h1)"
    "children h1 a (heads (take i rows) @ heads (drop (Suc i) rows))" "detached h1 ?b"
    "links_only h h1 a (set (heads rows))"
    using detach_children [OF c [unfolded heads_split [OF i']]] heads_split [OF i'] by auto
  have all: "list_all2 (subtree h1) its rows"
    by (rule rows_links [OF rows h1(4) dist]) (use heads_below [OF _ rows_ne [OF rows]] dist in auto)
  then have rows1: "list_all2 (subtree h1) (take i its @ drop (Suc i) its) (take i rows @ drop (Suc i) rows)"
    by (intro list_all2_appendI list_all2_takeI list_all2_dropI)
  have this_row: "subtree h1 (its ! i) (rows ! i)" using all i by (simp add: list_all2_conv_all_nth)
  have "concat rows = concat (take i rows) @ rows ! i @ concat (drop (Suc i) rows)"
    by (metis id_take_nth_drop [OF i'] concat.simps(2) concat_append)
  then have "distinct (a # concat (take i rows @ drop (Suc i) rows))" using dist by auto
  then have "holds h1 a (take i its @ drop (Suc i) its) (take i rows @ drop (Suc i) rows)"
    using h1(2) rows1 by (simp add: holds_def heads_def)
  then show ?thesis using h1(1,3) this_row by blast
qed

text \<open>A name that is set on a detached item.\<close>

lemma rename_subtree:
  assumes "subtree h x X" and "distinct X" and "h (hd X) = Some n"
  shows "subtree (h(hd X \<mapsto> n\<lparr>node_name := nm, string_is_const := b\<rparr>)) (rename nm x) X"
proof -
  obtain c B where X: "X = c # B" "h c = Some n" "item_node x n" "forest h (child_p n) (child x) B"
    using assms(1,3) by (auto simp: subtree_def)
  have "forest (h(c \<mapsto> n\<lparr>node_name := nm, string_is_const := b\<rparr>)) (child_p n) (child x) B"
    by (rule forest_cong [OF X(4)]) (use assms(2) X(1) in auto)
  then show ?thesis using X(1,3) by (auto simp: subtree_def item_node_def fields_def rename_def)
qed

lemma replace_in_object_holds:
  assumes h: "holds h a its rows" and x: "subtree h x X"
    and new: "distinct X" "set X \<inter> set (a # concat rows) = {}" and object: "child object = its"
  shows "\<exists>h' rows'. heap_replace_in_object h (Some a) (Some name) (Some (hd X)) case_sensitive =
      Some (Inr (fst (replace_item_in_object object name x case_sensitive), h')) \<and>
    holds h' a (child (snd (replace_item_in_object object name x case_sensitive))) rows'"
proof -
  obtain n where n: "h (hd X) = Some n" using x by (auto simp: subtree_def)
  let ?h = "h(hd X \<mapsto> n\<lparr>node_name := Some name, string_is_const := False\<rparr>)"
  have hdX: "hd X \<in> set X" using x by (auto simp: subtree_def)
  have h1: "holds ?h a its rows" by (rule holds_cong [OF h]) (use new hdX in auto)
  have x1: "subtree ?h (rename (Some name) x) X" by (rule rename_subtree [OF x new(1) n])
  note item = heap_object_item_holds [OF h1, of name case_sensitive]
  show ?thesis
  proof (cases "get_object_item its name case_sensitive")
    case None
    then show ?thesis
      using item n h1
      by (intro exI [of _ ?h] exI [of _ rows])
        (simp add: heap_replace_in_object_def replace_item_in_object_def object cJSON_ReplaceItemViaPointer_def)
  next
    case (Some i)
    have i: "i < length its" by (rule get_object_item_length [OF Some])
    obtain h2 where "cJSON_ReplaceItemViaPointer ?h (Some a) (Some (hd (rows ! i))) (Some (hd X)) = Some (Inr (True, h2))"
      "holds h2 a (its[i := rename (Some name) x]) (rows[i := X])"
      using replace_holds [OF h1 i x1 new] by blast
    then show ?thesis
      using item n Some
      by (intro exI [of _ h2] exI [of _ "rows[i := X]"])
        (simp add: heap_replace_in_object_def replace_item_in_object_def object rename_def)
  qed
qed

lemma delete_from_object_holds:
  assumes h: "holds h a its rows"
  shows "case get_object_item its name case_sensitive of
      None \<Rightarrow> delete_from_object case_sensitive h (Some a) (Some name) = Some (Inr h)
    | Some i \<Rightarrow> \<exists>h'. delete_from_object case_sensitive h (Some a) (Some name) = Some (Inr h') \<and>
        holds h' a (take i its @ drop (Suc i) its) (take i rows @ drop (Suc i) rows) \<and>
        (\<forall>b\<in>set (rows ! i). h' b = None)"
proof (cases "get_object_item its name case_sensitive")
  case None
  then show ?thesis
    using heap_object_item_holds [OF h, of name case_sensitive]
    by (simp add: delete_from_object_def detach_from_object_def cJSON_DetachItemViaPointer_def)
      (subst cJSON_Delete.simps, simp)
next
  case (Some i)
  let ?its = "take i its @ drop (Suc i) its" and ?rows = "take i rows @ drop (Suc i) rows"
  have i: "i < length its" by (rule get_object_item_length [OF Some])
  obtain h1 where h1: "cJSON_DetachItemViaPointer h (Some a) (Some (hd (rows ! i))) = Inr (Some (hd (rows ! i)), h1)"
    "holds h1 a ?its ?rows" "subtree h1 (its ! i) (rows ! i)" "detached h1 (hd (rows ! i))"
    using detach_holds [OF h i] by blast
  have i': "i < length rows" using i h by (auto simp: holds_def dest: list_all2_lengthD)
  have split: "concat rows = concat (take i rows) @ rows ! i @ concat (drop (Suc i) rows)"
    by (metis id_take_nth_drop [OF i'] concat.simps(2) concat_append)
  have dist: "distinct (a # concat rows)" using h by (simp add: holds_def)
  then have "distinct (rows ! i)" unfolding split by simp
  moreover obtain nb where "h1 (hd (rows ! i)) = Some nb" "next_p nb = None" using h1(4) by (auto simp: detached_def)
  ultimately have del: "cJSON_Delete h1 (Some (hd (rows ! i))) = Some (Inr (h1 |` (- set (rows ! i))))"
    using delete_forest [OF subtree_forest [OF h1(3)]] by simp
  have "holds (h1 |` (- set (rows ! i))) a ?its ?rows"
  proof (rule holds_cong [OF h1(2)])
    fix b
    assume "b \<in> set (a # concat ?rows)"
    moreover have "set (a # concat ?rows) \<inter> set (rows ! i) = {}" using dist unfolding split by auto
    ultimately have "b \<notin> set (rows ! i)" by blast
    then show "(h1 |` (- set (rows ! i))) b = h1 b" by (simp add: restrict_map_def)
  qed
  then show ?thesis
    using Some heap_object_item_holds [OF h, of name case_sensitive] h1(1) del
    by (simp add: delete_from_object_def detach_from_object_def)
qed

section \<open>Creating members\<close>

text \<open>What \<open>malloc\<close> promises for items.\<close>

locale item_allocator =
  fixes malloc :: "items \<Rightarrow> addr option"
  assumes fresh: "malloc h = Some b \<Longrightarrow> h b = None"
begin

lemma not_held: "holds h a its rows \<Longrightarrow> malloc h = Some b \<Longrightarrow> b \<notin> set (a # concat rows)"
proof
  assume h: "holds h a its rows" and b: "malloc h = Some b" and "b \<in> set (a # concat rows)"
  then consider "b = a" | B where "B \<in> set rows" "b \<in> set B" by auto
  then have "h b \<noteq> None"
  proof cases
    case 1
    then show ?thesis using h by (auto simp: holds_def children_def)
  next
    case 2
    then obtain it where "subtree h it B"
      using h by (auto simp: holds_def list_all2_conv_all_nth in_set_conv_nth)
    then show ?thesis using 2(2) forest_dom by (fastforce simp: subtree_def)
  qed
  then show False using fresh [OF b] by simp
qed

text \<open>The new item becomes the last member; without memory nothing changes.\<close>

lemma add_created_holds:
  assumes h: "holds h a its rows" and it: "child it = []"
  shows "\<exists>h'. add_created_to_object malloc h (Some a) (Some name) (Some it) = Some (Inr (malloc h, h')) \<and>
    (case malloc h of None \<Rightarrow> h' = h | Some b \<Rightarrow> holds h' a (its @ [rename (Some name) it]) (rows @ [[b]]))"
proof (cases "malloc h")
  case None
  then show ?thesis
    by (simp add: add_created_to_object_def allocate_def add_item_to_object_def) (subst cJSON_Delete.simps, simp)
next
  case (Some b)
  let ?n = "(node_of it)\<lparr>node_name := Some name, string_is_const := False\<rparr>" and ?h = "h(b \<mapsto> node_of it)"
  let ?h1 = "?h(b \<mapsto> ?n)"
  have b: "b \<notin> set (a # concat rows)" by (rule not_held [OF h Some])
  have "holds ?h1 a its rows" by (rule holds_cong [OF h]) (use b in auto)
  moreover have "subtree ?h1 (rename (Some name) it) [b]"
    using it by (simp add: subtree_def item_node_def fields_def rename_def node_of_def)
  moreover have "detached ?h1 b" by (simp add: detached_def node_of_def)
  ultimately obtain h2 where h2: "add_item_to_array ?h1 (Some a) (Some b) = Inr (True, h2)"
    "holds h2 a (its @ [rename (Some name) it]) (rows @ [[b]])"
    using append_holds [of ?h1 a its rows "rename (Some name) it" "[b]"] b by auto
  have "add_item_to_object ?h (Some a) (Some name) (Some b) False = Inr (True, h2)"
    using h2(1) b by (simp add: add_item_to_object_def)
  then show ?thesis using h2(2) Some by (simp add: add_created_to_object_def allocate_def)
qed

end

text \<open>An allocator over \<open>n\<close> addresses.\<close>

definition pool_items :: "nat \<Rightarrow> items \<Rightarrow> addr option" where
  "pool_items n h = find (\<lambda>b. h b = None) [0..<n]"

interpretation item_pool: item_allocator "pool_items n" for n
  by unfold_locales (auto simp: pool_items_def find_Some_iff)

section \<open>The operations on objects\<close>

text \<open>
  C35. In the heap, an object with well-formed children, all at different addresses, behaves like
  the list of its members. Adding a detached item appends it under its name; replacing a member
  does what the model of the items in \<open>Json\<close> does, on which the statistics rest, and reports the
  same; deleting a member takes out the one that the search by name finds, frees exactly its
  addresses, and changes nothing when there is none.
\<close>

theorem object_operations_refine_items:
  assumes "holds h a its rows" and "child object = its"
    and "subtree h x X" and "detached h (hd X)" and "distinct X" and "set X \<inter> set (a # concat rows) = {}"
  shows "(\<exists>h'. cJSON_AddItemToObject h (Some a) (Some name) (Some (hd X)) = Inr (True, h') \<and>
      holds h' a (its @ [rename (Some name) x]) (rows @ [X])) \<and>
    (\<exists>h' rows'. heap_replace_in_object h (Some a) (Some name) (Some (hd X)) case_sensitive =
        Some (Inr (fst (replace_item_in_object object name x case_sensitive), h')) \<and>
      holds h' a (child (snd (replace_item_in_object object name x case_sensitive))) rows') \<and>
    (case get_object_item its name case_sensitive of
       None \<Rightarrow> delete_from_object case_sensitive h (Some a) (Some name) = Some (Inr h)
     | Some i \<Rightarrow> \<exists>h'. delete_from_object case_sensitive h (Some a) (Some name) = Some (Inr h') \<and>
         holds h' a (take i its @ drop (Suc i) its) (take i rows @ drop (Suc i) rows) \<and>
         (\<forall>b\<in>set (rows ! i). h' b = None))"
proof (intro conjI)
  obtain n where n: "h (hd X) = Some n" "next_p n = None" "prev_p n = None" using assms(4) by (auto simp: detached_def)
  let ?h = "h(hd X \<mapsto> n\<lparr>node_name := Some name, string_is_const := False\<rparr>)"
  have hdX: "hd X \<in> set X" using assms(3) by (auto simp: subtree_def)
  have "holds ?h a its rows" by (rule holds_cong [OF assms(1)]) (use assms(6) hdX in auto)
  moreover have "subtree ?h (rename (Some name) x) X" by (rule rename_subtree [OF assms(3,5) n(1)])
  moreover have "detached ?h (hd X)" using n by (simp add: detached_def)
  moreover have "hd X \<noteq> a" using assms(6) hdX by auto
  ultimately show "\<exists>h'. cJSON_AddItemToObject h (Some a) (Some name) (Some (hd X)) = Inr (True, h') \<and>
      holds h' a (its @ [rename (Some name) x]) (rows @ [X])"
    using append_holds [of ?h a its rows _ X] assms(5,6) n(1)
    by (simp add: cJSON_AddItemToObject_def add_item_to_object_def)
qed (use replace_in_object_holds [OF assms(1,3,5,6,2)] delete_from_object_holds [OF assms(1)] in blast)+

lemma sample_holds:
  "holds sample_items 0 [Item cJSON_True None 0 (Finite 0) (Some ''a'') [], Item cJSON_False None 0 (Finite 0) (Some ''b'') []]
     [[1], [2]]"
  "subtree sample_items (Item cJSON_NULL None 0 (Finite 0) None []) [3]"
  using sample_children
  by (simp_all add: holds_def heads_def subtree_def item_node_def fields_def sample_items_def sample_node_def)

theorem object_operations_refine_items_witness:
  "\<exists>h'. delete_from_object False sample_items (Some 0) (Some ''B'') = Some (Inr h') \<and> h' 2 = None \<and>
     holds h' 0 [Item cJSON_True None 0 (Finite 0) (Some ''a'') []] [[1]]"
proof -
  have "get_object_item [Item cJSON_True None 0 (Finite 0) (Some ''a'') [], Item cJSON_False None 0 (Finite 0) (Some ''b'') []]
      ''B'' False = Some 1" by code_simp
  then show ?thesis
    using object_operations_refine_items [OF sample_holds(1) _ sample_holds(2), where name = "''B''"
        and case_sensitive = False and object = "Item cJSON_Object None 0 (Finite 0) None
          [Item cJSON_True None 0 (Finite 0) (Some ''a'') [], Item cJSON_False None 0 (Finite 0) (Some ''b'') []]"]
      sample_children(2)
    by auto
qed

end
