(* ===== verification/Json_Duplicate.thy ===== *)
theory Json_Duplicate
  imports Json_Tree
begin

text \<open>
  \<open>cJSON_Duplicate\<close> of \<open>utils/cJSON.c\<close> in the heap: a copy in new items, or nothing at all when
  \<open>malloc\<close> has no memory for an item. Texts are values here; copying them does not fail.
\<close>

section \<open>The copy\<close>

definition copy_node :: "node \<Rightarrow> node" where
  "copy_node n = n\<lparr>next_p := None, prev_p := None, child_p := None, is_reference := False\<rparr>"

text \<open>The new child goes behind the last one, or it is the first.\<close>

definition link_copy :: "items \<Rightarrow> addr \<Rightarrow> addr option \<Rightarrow> addr \<Rightarrow> items result" where
  "link_copy h newitem last_copy newchild =
     (case last_copy of
        None \<Rightarrow> change h (Some newitem) (\<lambda>n. n\<lparr>child_p := Some newchild\<rparr>)
      | Some l \<Rightarrow> suffix_object h (Some l) (Some newchild))"

text \<open>
  The loop over the children, with the copy of each child in it. The result tells whether all
  of them were copied.
\<close>

partial_function (option) duplicate_children ::
    "(items \<Rightarrow> addr option) \<Rightarrow> items \<Rightarrow> addr option \<Rightarrow> addr \<Rightarrow> addr option \<Rightarrow> (bool \<times> items) result option" where
  "duplicate_children malloc h child_item newitem last_copy =
     (case child_item of
        None \<Rightarrow>
          Some (and_then (node_at h (Some newitem)) (\<lambda>p.
            if child_p p = None then Inr (True, h)
            else and_then (change h (child_p p) (\<lambda>n. n\<lparr>prev_p := last_copy\<rparr>)) (\<lambda>h'. Inr (True, h'))))
      | Some c \<Rightarrow>
          (case h c of
             None \<Rightarrow> Some (Inl MemoryFault)
           | Some n \<Rightarrow>
               (case malloc h of
                  None \<Rightarrow> Some (Inr (False, h))
                | Some b \<Rightarrow>
                    Option.bind (duplicate_children malloc (h(b \<mapsto> copy_node n)) (child_p n) b None) (\<lambda>r.
                      case r of
                        Inl e \<Rightarrow> Some (Inl e)
                      | Inr x \<Rightarrow>
                          if \<not> fst x then map_option (map_sum id (\<lambda>h'. (False, h'))) (cJSON_Delete (snd x) (Some b))
                          else (case link_copy (snd x) newitem last_copy b of
                                  Inl e \<Rightarrow> Some (Inl e)
                                | Inr h1 \<Rightarrow>
                                    (case h1 c of
                                       None \<Rightarrow> Some (Inl MemoryFault)
                                     | Some n1 \<Rightarrow> duplicate_children malloc h1 (next_p n1) newitem (Some b)))))))"

definition cJSON_Duplicate ::
    "(items \<Rightarrow> addr option) \<Rightarrow> items \<Rightarrow> addr option \<Rightarrow> bool \<Rightarrow> (addr option \<times> items) result option" where
  "cJSON_Duplicate malloc h item recurse =
     (case item of
        None \<Rightarrow> Some (Inr (None, h))
      | Some a \<Rightarrow>
          (case h a of
             None \<Rightarrow> Some (Inl MemoryFault)
           | Some n \<Rightarrow>
               (case malloc h of
                  None \<Rightarrow> Some (Inr (None, h))
                | Some b \<Rightarrow>
                    let h1 = h(b \<mapsto> copy_node n) in
                    if \<not> recurse then Some (Inr (Some b, h1))
                    else Option.bind (duplicate_children malloc h1 (child_p n) b None) (\<lambda>r.
                      case r of
                        Inl e \<Rightarrow> Some (Inl e)
                      | Inr x \<Rightarrow>
                          if fst x then Some (Inr (Some b, snd x))
                          else map_option (map_sum id (\<lambda>h'. (None, h'))) (cJSON_Delete (snd x) (Some b))))))"

section \<open>The state of a copy\<close>

text \<open>
  Over the heap \<open>g\<close>, the item \<open>p\<close> is new and so are its children: \<open>ds\<close>, at \<open>rows\<close>. The \<open>prev\<close> of
  the first of them is \<open>pv\<close>.
\<close>

definition copied :: "items \<Rightarrow> items \<Rightarrow> addr \<Rightarrow> node \<Rightarrow> cJSON list \<Rightarrow> addr list list \<Rightarrow> addr option \<Rightarrow> bool" where
  "copied g h p n ds rows pv \<longleftrightarrow>
     (\<forall>b\<in>dom g. h b = g b) \<and> dom h = insert p (dom g \<union> set (concat rows)) \<and>
     p \<notin> dom g \<and> set (concat rows) \<inter> dom g = {} \<and> distinct (p # concat rows) \<and>
     (\<exists>m. h p = Some m \<and> payload m = payload n \<and> next_p m = None \<and> prev_p m = None \<and> seg h pv (child_p m) (heads rows) None) \<and>
     list_all2 (subtree h) ds rows"

lemma rows_forest:
  "seg h pv q (heads rows) None \<Longrightarrow> list_all2 (subtree h) ds rows \<Longrightarrow> forest h q ds (concat rows)"
proof (induction rows arbitrary: pv q ds)
  case (Cons B rows)
  then obtain d ds' where ds: "ds = d # ds'" "subtree h d B" "list_all2 (subtree h) ds' rows"
    by (auto simp: list_all2_Cons2)
  obtain n where n: "q = Some (hd B)" "h (hd B) = Some n" "seg h (Some (hd B)) (next_p n) (heads rows) None"
    using Cons.prems(1) by (auto simp: heads_def)
  obtain B' where B: "B = hd B # B'" "item_node d n" "forest h (child_p n) (child d) B'"
    using ds(2) n(2) by (auto simp: subtree_def)
  have "forest h (next_p n) ds' (concat rows)" by (rule Cons.IH [OF n(3) ds(3)])
  moreover have "concat (B # rows) = hd B # B' @ concat rows" by (metis B(1) append_Cons concat.simps(2))
  ultimately show ?case using n(1,2) B(2,3) ds(1) by (cases d) (auto simp: item_node_def simp del: concat.simps)
qed (simp_all add: heads_def)

lemma copied_subtree:
  assumes "copied g h p n ds rows pv" and "item_node it n" and "child it = ds"
  shows "subtree h it (p # concat rows)"
proof -
  obtain m where m: "h p = Some m" "payload m = payload n" "seg h pv (child_p m) (heads rows) None"
    "list_all2 (subtree h) ds rows" using assms(1) by (auto simp: copied_def)
  have "item_node it m" using assms(2) item_node_payload [OF m(2)] by simp
  then show ?thesis using m(1) rows_forest [OF m(3,4)] assms(3) by (simp add: subtree_def)
qed

text \<open>Freeing a copy that is not complete gives the heap from before.\<close>

lemma delete_copied:
  assumes "copied g h p n ds rows pv" and "\<not> is_reference n"
  shows "cJSON_Delete h (Some p) = Some (Inr g)"
proof -
  obtain m where m: "h p = Some m" "payload m = payload n" "next_p m = None" using assms(1) by (auto simp: copied_def)
  let ?it = "Item (node_type n) (node_text n) (node_int n) (node_double n) (node_name n) ds"
  have "subtree h ?it (p # concat rows)"
    by (rule copied_subtree [OF assms(1)]) (simp_all add: item_node_def fields_def assms(2))
  then have "forest h (Some p) [?it] (p # concat rows)" using subtree_forest m(1,3) by fastforce
  moreover have "distinct (p # concat rows)" using assms(1) by (simp add: copied_def)
  ultimately have "cJSON_Delete h (Some p) = Some (Inr (h |` (- set (p # concat rows))))" by (rule delete_forest)
  moreover have "h |` (- set (p # concat rows)) = g"
  proof
    fix b
    show "(h |` (- set (p # concat rows))) b = g b"
    proof (cases "b \<in> dom g")
      case True
      then have "b \<notin> set (p # concat rows)" "h b = g b" using assms(1) by (auto simp: copied_def)
      then show ?thesis by (simp add: restrict_map_def)
    next
      case False
      then have "g b = None" "b \<in> set (p # concat rows) \<or> h b = None"
        using assms(1) by (auto simp: copied_def dom_def)
      then show ?thesis by (auto simp: restrict_map_def)
    qed
  qed
  ultimately show ?thesis by simp
qed

section \<open>Its steps\<close>

lemma copied_start:
  assumes "h b = None"
  shows "copied h (h(b \<mapsto> copy_node n)) b (copy_node n) [] [] None"
  using assms by (auto simp: copied_def heads_def copy_node_def)

lemma heads_Nil: "heads [] = []"
  by (simp add: heads_def)

lemma distinct_heads: "[] \<notin> set rows \<Longrightarrow> distinct (concat rows) \<Longrightarrow> distinct (heads rows)"
proof (induction rows)
  case (Cons B rows)
  have "set (heads rows) \<subseteq> set (concat rows)" using Cons.prems(1) heads_in [of rows] by (force simp: heads_def)
  moreover have "hd B \<in> set B" using Cons.prems(1) by (cases B) auto
  ultimately show ?case using Cons by (auto simp: heads_def)
qed (simp add: heads_def)

lemma links_only_dom: "links_only h h' a S \<Longrightarrow> dom h' = dom h"
  unfolding links_only_def dom_def by (metis option.map_disc_iff)

text \<open>A child \<open>b\<close> that is complete is linked to the new item.\<close>

lemma link_copied:
  assumes p: "copied g h p n ds rows None" and b: "copied h h2 b nb (child d) rows2 pv" and d: "item_node d nb"
  shows "\<exists>h3. link_copy h2 p (end_of None (heads rows)) b = Inr h3 \<and>
    copied g h3 p n (ds @ [d]) (rows @ [b # concat rows2]) None"
proof -
  let ?X = "b # concat rows2"
  obtain m where m: "h p = Some m" "payload m = payload n" "next_p m = None" "prev_p m = None"
    "seg h None (child_p m) (heads rows) None" using p by (auto simp: copied_def)
  have g: "\<forall>x\<in>dom g. h x = g x" "dom h = insert p (dom g \<union> set (concat rows))" "p \<notin> dom g"
    "set (concat rows) \<inter> dom g = {}" "distinct (p # concat rows)" "list_all2 (subtree h) ds rows"
    using p by (auto simp: copied_def)
  have h: "\<forall>x\<in>dom h. h2 x = h x" "dom h2 = insert b (dom h \<union> set (concat rows2))" "b \<notin> dom h"
    "set (concat rows2) \<inter> dom h = {}" "distinct ?X" using b by (auto simp: copied_def)
  obtain mb where mb: "h2 b = Some mb" "next_p mb = None" "prev_p mb = None" using b by (auto simp: copied_def)
  have sub: "subtree h2 d ?X" by (rule copied_subtree [OF b d refl])
  have ne: "[] \<notin> set rows" by (rule rows_ne [OF g(6)])
  have heads: "set (heads rows) \<subseteq> set (concat rows)" using ne heads_in by (force simp: heads_def)
  have X: "set ?X \<inter> dom h = {}" using h(3,4) by auto
  have dist: "distinct (p # concat (rows @ [?X]))" using g(2,5) h(5) X by auto
  have same: "h2 x = h x" if "x \<in> set (concat rows)" for x using h(1) g(2) that by auto
  have "h2 x = h x" if "x \<in> set (heads rows)" for x using same heads that by blast
  from seg_cong [OF this] m(5) have seg2: "seg h2 None (child_p m) (heads rows) None" by simp
  have "h2 x = h x" if "B \<in> set rows" "x \<in> set B" for B x using same that by auto
  then have rows: "list_all2 (subtree h2) ds rows" using g(6) by (auto elim!: list.rel_mono_strong subtree_cong)
  have hp: "h2 p = Some m" using m(1) h(1) by (metis domI)
  have p_out: "p \<notin> set ?X" "p \<notin> set (concat rows)" using X m(1) g(5) by auto
  have heads': "heads (rows @ [?X]) = heads rows @ [b]" by (simp add: heads_def)
  show ?thesis
  proof (cases "rows = []")
    case True
    let ?h3 = "h2(p \<mapsto> m\<lparr>child_p := Some b\<rparr>)"
    have ds: "ds = []" using g(6) True by simp
    have "subtree ?h3 d ?X" by (rule subtree_cong [OF sub]) (use p_out in auto)
    moreover have "?h3 b = Some mb" using mb(1) p_out by auto
    moreover have "dom ?h3 = insert p (dom g \<union> set (concat [?X]))" using h(2) g(2) True by auto
    moreover have "\<forall>x\<in>dom g. ?h3 x = g x" using g(1-3) h(1) by auto
    moreover have "set ?X \<inter> dom g = {}" using X g(2) by auto
    ultimately show ?thesis
      using True ds hp g(3) m(2-4) mb dist
      by (intro exI [of _ ?h3]) (simp add: link_copy_def copied_def heads_def payload_def)
  next
    case False
    have as: "distinct (heads rows)" "heads rows \<noteq> []"
    proof -
      show "heads rows \<noteq> []" using False by (simp add: heads_def)
      show "distinct (heads rows)" using distinct_heads ne g(5) by simp
    qed
    have "b \<notin> set (heads rows)" using heads X g(2) by auto
    from suffix_object_seg [OF seg2 as mb(1,2) this, of p] obtain h3 where
      h3: "suffix_object h2 (end_of None (heads rows)) (Some b) = Inr h3"
      "seg h3 None (child_p m) (heads rows @ [b]) None" "links_only h2 h3 p (set (heads rows @ [b]))"
      "\<forall>c. c \<notin> set (heads rows @ [b]) \<longrightarrow> h3 c = h2 c" by blast
    have "link_copy h2 p (end_of None (heads rows)) b = Inr h3"
      using h3(1) as(2) by (simp add: link_copy_def end_of_def)
    moreover have "list_all2 (subtree h3) (ds @ [d]) (rows @ [?X])"
    proof (rule rows_links [OF _ h3(3) dist])
      show "list_all2 (subtree h2) (ds @ [d]) (rows @ [?X])" using rows sub by (simp add: list_all2_appendI)
      have "set (heads (rows @ [?X])) \<inter> set (tl B) = {}" if "B \<in> set (rows @ [?X])" for B
        using heads_below [OF _ _ that] dist ne by simp
      then show "\<forall>B\<in>set (rows @ [?X]). set (heads rows @ [b]) \<inter> set (tl B) = {}" unfolding heads' by blast
    qed
    moreover have out: "h3 c = h2 c" if "c \<notin> set (concat (rows @ [?X]))" for c
      using h3(4) heads that by auto
    moreover have "\<forall>x\<in>dom g. h3 x = g x"
    proof
      fix x
      assume x: "x \<in> dom g"
      then have "x \<notin> set (concat (rows @ [?X]))" using X g(2,4) by auto
      then show "h3 x = g x" using out h(1) g(1,2) x by auto
    qed
    moreover have "dom h3 = insert p (dom g \<union> set (concat (rows @ [?X])))"
      using links_only_dom [OF h3(3)] h(2) g(2) by auto
    moreover have "set (concat (rows @ [?X])) \<inter> dom g = {}" using X g(2,4) by auto
    moreover have "h3 p = Some m" using out [of p] hp p_out by auto
    ultimately show ?thesis
      using g(3) dist m(2-4) h3(2) heads' by (intro exI [of _ h3]) (simp add: copied_def)
  qed
qed

text \<open>At the end of the loop the first child gets its \<open>prev\<close>.\<close>

lemma finish_copied:
  assumes p: "copied g h p n ds rows None"
  shows "\<exists>h'. duplicate_children malloc h None p (end_of None (heads rows)) = Some (Inr (True, h')) \<and>
    copied g h' p n ds rows (end_of None (heads rows))"
proof -
  obtain m where m: "h p = Some m" "payload m = payload n" "next_p m = None" "prev_p m = None"
    "seg h None (child_p m) (heads rows) None" using p by (auto simp: copied_def)
  have g: "\<forall>x\<in>dom g. h x = g x" "dom h = insert p (dom g \<union> set (concat rows))" "p \<notin> dom g"
    "set (concat rows) \<inter> dom g = {}" "distinct (p # concat rows)" "list_all2 (subtree h) ds rows"
    using p by (auto simp: copied_def)
  have ne: "[] \<notin> set rows" by (rule rows_ne [OF g(6)])
  show ?thesis
  proof (cases "heads rows")
    case Nil
    then have "child_p m = None" using m(5) by simp
    then show ?thesis using p m(1) Nil by (subst duplicate_children.simps) simp
  next
    case (Cons c cs)
    let ?last = "end_of None (heads rows)"
    obtain nc where c: "child_p m = Some c" "h c = Some nc" using m(5) Cons by auto
    let ?h = "h(c \<mapsto> nc\<lparr>prev_p := ?last\<rparr>)"
    have run: "duplicate_children malloc h None p ?last = Some (Inr (True, ?h))"
      using m(1) c by (subst duplicate_children.simps) simp
    have "c \<in> set (heads rows)" using Cons by simp
    then have c_in: "c \<in> set (concat rows)" using heads_in [OF ne] by (auto simp: heads_def)
    have "c \<notin> set cs" using distinct_heads [OF ne] g(5) Cons by simp
    then have "seg ?h ?last (child_p m) (heads rows) None"
      using seg_set_prev [of h None "child_p m" c cs None nc ?last] m(5) c(2) Cons by simp
    moreover have lo: "links_only h ?h p (set (heads rows))"
      by (rule links_only_link) (use c Cons in \<open>simp_all add: payload_def\<close>)
    moreover have "list_all2 (subtree ?h) ds rows"
      by (rule rows_links [OF g(6) lo g(5)]) (use heads_below [OF _ ne] g(5) in auto)
    moreover have "\<forall>x\<in>dom g. ?h x = g x" using g(1,4) c_in by auto
    moreover have "?h p = Some m" using m(1) c_in g(5) by auto
    ultimately have "copied g ?h p n ds rows ?last"
      using g(2-5) links_only_dom [OF lo] m(2-4) by (simp add: copied_def)
    then show ?thesis using run by blast
  qed
qed

context item_allocator
begin

text \<open>The loop copies all children, or it stops without memory and leaves only what \<open>p\<close> leads to.\<close>

lemma duplicate_children_copies:
  assumes "forest s c cs B" and "\<forall>b\<in>set B. g b = s b" and "copied g h p n ds rows None"
  shows "\<exists>r h' ds' rows' pv. duplicate_children malloc h c p (end_of None (heads rows)) = Some (Inr (r, h')) \<and>
    copied g h' p n ds' rows' pv \<and> (r \<longrightarrow> ds' = ds @ cs \<and> pv = end_of None (heads rows'))"
  using assms
proof (induction s c cs B arbitrary: g h p n ds rows rule: forest.induct)
  case (1 s c B)
  then have "c = None" by simp
  moreover obtain h' where "duplicate_children malloc h None p (end_of None (heads rows)) = Some (Inr (True, h'))"
    "copied g h' p n ds rows (end_of None (heads rows))" using finish_copied [OF 1(3)] by blast
  ultimately show ?case using 1(1) by (intro exI [of _ True] exI [of _ h'] exI [of _ ds] exI [of _ rows]) auto
next
  case (2 s c t v i x nm ccs its A)
  obtain a na B C where a: "c = Some a" "s a = Some na" "fields na = (t, v, i, x, nm)" "\<not> is_reference na"
    "forest s (child_p na) ccs B" "forest s (next_p na) its C" "A = a # B @ C" using 2(3) by auto
  let ?d = "Item t v i x nm ccs"
  have h_g: "h b = g b" if "b \<in> dom g" for b using 2(5) that by (auto simp: copied_def)
  have src: "g b = s b" "b \<in> dom g" if "b \<in> set A" for b
    using 2(4) forest_dom [OF 2(3) that] that by auto
  have ha: "h a = Some na" using h_g src(1) [of a] src(2) [of a] a(2,7) by auto
  show ?case
  proof (cases "malloc h")
    case None
    then have "duplicate_children malloc h c p (end_of None (heads rows)) = Some (Inr (False, h))"
      using ha a(1) by (subst duplicate_children.simps) simp
    then show ?thesis using 2(5) by blast
  next
    case (Some b)
    let ?h = "h(b \<mapsto> copy_node na)"
    have start: "copied h ?h b (copy_node na) [] [] None" by (intro copied_start fresh [OF Some])
    have "\<forall>y\<in>set B. h y = s y" using h_g src a(7) by auto
    from 2(1) [OF a(5) this start] obtain r h2 ds2 rows2 pv2 where
      below: "duplicate_children malloc ?h (child_p na) b None = Some (Inr (r, h2))"
        "copied h h2 b (copy_node na) ds2 rows2 pv2" "r \<longrightarrow> ds2 = ccs"
      unfolding heads_Nil end_of_simps append_Nil by blast
    show ?thesis
    proof (cases r)
      case False
      have "cJSON_Delete h2 (Some b) = Some (Inr h)"
        by (rule delete_copied [OF below(2)]) (simp add: copy_node_def)
      then have "duplicate_children malloc h c p (end_of None (heads rows)) = Some (Inr (False, h))"
        using ha a(1) Some below(1) False by (subst duplicate_children.simps) simp
      then show ?thesis using 2(5) by blast
    next
      case True
      have b: "copied h h2 b (copy_node na) (child ?d) rows2 pv2" using below(2,3) True by simp
      have "item_node ?d (copy_node na)" using a(3) by (simp add: item_node_def copy_node_def fields_def)
      from link_copied [OF 2(5) b this] obtain h3 where
        h3: "link_copy h2 p (end_of None (heads rows)) b = Inr h3"
          "copied g h3 p n (ds @ [?d]) (rows @ [b # concat rows2]) None"
        by blast
      have "h3 a = Some na" using h3(2) src [of a] a(2,7) by (auto simp: copied_def)
      then have run: "duplicate_children malloc h c p (end_of None (heads rows)) =
          duplicate_children malloc h3 (next_p na) p (end_of None (heads (rows @ [b # concat rows2])))"
        using ha a(1) Some below(1) True h3(1) by (subst duplicate_children.simps) (simp add: heads_def)
      have "\<forall>y\<in>set C. g y = s y" using src a(7) by auto
      from 2(2) [OF a(6) this h3(2)] show ?thesis unfolding run by auto
    qed
  qed
qed

text \<open>The copy of an item with all that is below it.\<close>

lemma duplicate_subtree:
  assumes "subtree h it B"
  shows "\<exists>p h'. cJSON_Duplicate malloc h (Some (hd B)) True = Some (Inr (p, h')) \<and>
    (case p of
       None \<Rightarrow> h' = h
     | Some b \<Rightarrow> \<exists>rows. copied h h' b (copy_node (the (h (hd B)))) (child it) rows (end_of None (heads rows)) \<and>
         subtree h' it (b # concat rows))"
proof -
  obtain a na B' where B: "B = a # B'" "h a = Some na" "item_node it na" "forest h (child_p na) (child it) B'"
    using assms by (auto simp: subtree_def)
  show ?thesis
  proof (cases "malloc h")
    case None
    then show ?thesis using B(1,2) by (simp add: cJSON_Duplicate_def)
  next
    case (Some b)
    let ?h = "h(b \<mapsto> copy_node na)"
    have start: "copied h ?h b (copy_node na) [] [] None" by (intro copied_start fresh [OF Some])
    have "\<forall>y\<in>set B'. h y = h y" by simp
    from duplicate_children_copies [OF B(4) this start] obtain r h' ds rows pv where
      run: "duplicate_children malloc ?h (child_p na) b None = Some (Inr (r, h'))"
        "copied h h' b (copy_node na) ds rows pv" "r \<longrightarrow> ds = child it \<and> pv = end_of None (heads rows)"
      unfolding heads_Nil end_of_simps append_Nil by blast
    show ?thesis
    proof (cases r)
      case True
      have "item_node it (copy_node na)" using B(3) by (simp add: item_node_def copy_node_def fields_def)
      then have "subtree h' it (b # concat rows)" using copied_subtree [OF run(2)] run(3) True by simp
      then show ?thesis
        using B(1,2) Some run True by (intro exI [of _ "Some b"] exI [of _ h']) (auto simp: cJSON_Duplicate_def Let_def)
    next
      case False
      have "cJSON_Delete h' (Some b) = Some (Inr h)"
        by (rule delete_copied [OF run(2)]) (simp add: copy_node_def)
      then show ?thesis
        using B(1,2) Some run(1) False by (intro exI [of _ None] exI [of _ h]) (simp add: cJSON_Duplicate_def Let_def)
    qed
  qed
qed

end

text \<open>
  C36. \<open>cJSON_Duplicate\<close> of an item returns. With memory for every item, it gives an item that holds
  the same tree in new items, with a well-formed chain of children, and no old item changes.
  Without, whenever the memory runs out, it gives the null pointer, has freed what it had copied,
  and the heap is what it was.
\<close>

theorem duplicate_is_a_copy:
  assumes "\<forall>h b. malloc h = Some b \<longrightarrow> h b = None" and "subtree h it B"
  shows "\<exists>p h'. cJSON_Duplicate malloc h (Some (hd B)) True = Some (Inr (p, h')) \<and>
    (case p of
       None \<Rightarrow> h' = h
     | Some b \<Rightarrow> \<exists>rows. subtree h' it (b # concat rows) \<and> children h' b (heads rows) \<and>
         distinct (b # concat rows) \<and> set (b # concat rows) \<inter> dom h = {} \<and>
         dom h' = dom h \<union> set (b # concat rows) \<and> (\<forall>c\<in>dom h. h' c = h c))"
proof -
  have "item_allocator malloc" using assms(1) by (simp add: item_allocator_def)
  from item_allocator.duplicate_subtree [OF this assms(2)] obtain p h' where
    run: "cJSON_Duplicate malloc h (Some (hd B)) True = Some (Inr (p, h'))"
    "case p of None \<Rightarrow> h' = h
     | Some b \<Rightarrow> \<exists>rows. copied h h' b (copy_node (the (h (hd B)))) (child it) rows (end_of None (heads rows)) \<and>
         subtree h' it (b # concat rows)" by blast
  show ?thesis
  proof (cases p)
    case (Some b)
    then obtain rows where rows: "copied h h' b (copy_node (the (h (hd B)))) (child it) rows (end_of None (heads rows))"
      "subtree h' it (b # concat rows)" using run(2) by auto
    have ne: "[] \<notin> set rows" using rows(1) rows_ne [of h' "child it" rows] by (simp add: copied_def)
    have sub: "set (heads rows) \<subseteq> set (concat rows)" using ne heads_in [of rows] by (force simp: heads_def)
    have dist: "distinct (b # concat rows)" using rows(1) by (simp add: copied_def)
    then have "distinct (b # heads rows)" using distinct_heads [OF ne] sub by auto
    then have "children h' b (heads rows)" using rows(1) by (auto simp: children_def copied_def)
    moreover have "set (b # concat rows) \<inter> dom h = {}" "dom h' = dom h \<union> set (b # concat rows)" "\<forall>c\<in>dom h. h' c = h c"
      using rows(1) by (auto simp: copied_def)
    ultimately show ?thesis using run(1) rows(2) dist Some by (intro exI [of _ p] exI [of _ h']) auto
  qed (use run in auto)
qed

definition sample_tree :: cJSON where
  "sample_tree = Item cJSON_Object None 0 (Finite 0) None
     [Item cJSON_True None 0 (Finite 0) (Some ''a'') [], Item cJSON_False None 0 (Finite 0) (Some ''b'') []]"

theorem duplicate_is_a_copy_witness:
  "\<exists>p h'. cJSON_Duplicate (pool_items 9) sample_items (Some 0) True = Some (Inr (p, h')) \<and>
     (case p of None \<Rightarrow> h' = sample_items | Some b \<Rightarrow> \<exists>A. subtree h' sample_tree (b # A))"
proof -
  have fresh: "\<forall>h b. pool_items 9 h = Some b \<longrightarrow> h b = None" using item_pool.fresh by blast
  have tree: "subtree sample_items sample_tree [0, 1, 2]"
    by (simp add: subtree_def sample_tree_def item_node_def fields_def sample_items_def sample_node_def)
  have weaken: "case p of None \<Rightarrow> h' = sample_items | Some b \<Rightarrow> \<exists>A. subtree h' sample_tree (b # A)"
    if "case p of None \<Rightarrow> h' = sample_items | Some b \<Rightarrow> \<exists>rows. subtree h' sample_tree (b # concat rows) \<and> Q b rows"
    for p h' and Q :: "addr \<Rightarrow> addr list list \<Rightarrow> bool"
    using that by (cases p) auto
  from duplicate_is_a_copy [OF fresh tree] obtain p h' where
    "cJSON_Duplicate (pool_items 9) sample_items (Some 0) True = Some (Inr (p, h'))"
    "case p of None \<Rightarrow> h' = sample_items | Some b \<Rightarrow> \<exists>A. subtree h' sample_tree (b # A)"
    unfolding list.sel by (elim exE conjE) (drule weaken, blast)
  then show ?thesis by blast
qed

end
