(* ===== verification/Json_Typed.thy ===== *)
theory Json_Typed
  imports Json_Numbers
begin

text \<open>
  What the parser returns is well-typed: every item has a type of JSON and only the fields
  of that type, names stand on the members of objects and nowhere else, and the nesting is
  bounded. The readers of the configuration and the statistics rely on it.
\<close>

section \<open>Well-typed items\<close>

fun well_typed :: "nat \<Rightarrow> cJSON \<Rightarrow> bool" where
  "well_typed n (Item t v i x nm cs) \<longleftrightarrow>
     (case t of
        cJSON_NULL \<Rightarrow> v = None \<and> i = 0 \<and> x = Finite 0 \<and> cs = []
      | cJSON_False \<Rightarrow> v = None \<and> i = 0 \<and> x = Finite 0 \<and> cs = []
      | cJSON_True \<Rightarrow> v = None \<and> i = 1 \<and> x = Finite 0 \<and> cs = []
      | cJSON_Number \<Rightarrow> v = None \<and> i = saturate x \<and> x \<noteq> NaN \<and> cs = []
      | cJSON_String \<Rightarrow> is_text v \<and> i = 0 \<and> x = Finite 0 \<and> cs = []
      | cJSON_Array \<Rightarrow>
          v = None \<and> i = 0 \<and> x = Finite 0 \<and> 0 < n \<and> (\<forall>c\<in>set cs. item_string c = None \<and> well_typed (n - 1) c)
      | cJSON_Object \<Rightarrow>
          v = None \<and> i = 0 \<and> x = Finite 0 \<and> 0 < n \<and> (\<forall>c\<in>set cs. is_text (item_string c) \<and> well_typed (n - 1) c)
      | _ \<Rightarrow> False)"

text \<open>An item as \<open>cJSON_New_Item\<close> makes it, up to its type and its name.\<close>

definition blank :: "cJSON \<Rightarrow> bool" where
  "blank it \<longleftrightarrow> (\<exists>t nm. it = Item t None 0 (Finite 0) nm [])"

lemma blank_simps [simp]:
  "blank cJSON_New_Item" "item_string cJSON_New_Item = None" "blank (Item t None 0 (Finite 0) nm [])"
  by (simp_all add: blank_def cJSON_New_Item_def)

lemma blankE [elim]:
  assumes "blank it" obtains t nm where "it = Item t None 0 (Finite 0) nm []"
  using assms by (auto simp: blank_def)

lemma accept_eq [simp]: "accept x b = accept y c \<longleftrightarrow> x = y \<and> b = c" "accept x b = Some (Inr (r, c)) \<longleftrightarrow> r = Some x \<and> c = b"
  "reject b \<noteq> accept x c" "Some (Inl e) \<noteq> accept x c"
  by (auto simp: accept_def reject_def)

lemma parse_then_accepts:
  "parse_then p f = accept y c \<longleftrightarrow> (\<exists>x b. p = accept x b \<and> f x b = accept y c)"
proof (cases p)
  case None
  then show ?thesis by (simp add: parse_then_def accept_def)
next
  case (Some r)
  show ?thesis
  proof (cases r)
    case (Inl e)
    then show ?thesis using Some by (simp add: parse_then_def accept_def)
  next
    case (Inr s)
    then show ?thesis using Some by (cases s; cases "fst s") (simp_all add: parse_then_def accept_def)
  qed
qed

section \<open>Scalars\<close>

lemma round_double_not_NaN: "round_double x \<noteq> NaN"
  by (simp add: round_double_def Let_def)

lemma strtod_not_NaN: "fst (strtod s) \<noteq> NaN"
  by (simp add: strtod_def Let_def split_beta round_double_not_NaN)

lemma parse_number_typed:
  assumes "parse_number it b = accept x c" and "blank it"
  shows "well_typed n x \<and> item_string x = item_string it \<and> depth c = depth b"
  using assms strtod_not_NaN [of "takeWhile is_number_char (take 63 (drop (boffset b) (content b)))"]
  by (auto simp: parse_number_def Let_def split: prod.splits if_splits)

lemma is_text_c_string: "is_text (Some (c_string s))"
  by (simp add: is_text_def c_string_no_zero)

lemma parse_string_typed:
  assumes "parse_string it b = accept x c" and "blank it"
  shows "well_typed n x \<and> item_string x = item_string it \<and> depth c = depth b \<and>
    blank (set_name x) \<and> is_text (item_string (set_name x))"
  using assms is_text_c_string
  by (auto simp: parse_string_def set_name_def Let_def split: if_splits option.splits prod.splits)

section \<open>Arrays and objects\<close>

locale typed_parser =
  fixes pv :: value_parser
  assumes value_typed:
    "pv it b = accept x c \<Longrightarrow> blank it \<Longrightarrow>
       well_typed (CJSON_NESTING_LIMIT - depth b) x \<and> item_string x = item_string it \<and> depth c = depth b"
begin

lemma array_loop_typed:
  assumes "array_loop pv items b = accept xs c"
    and "\<forall>x\<in>set items. item_string x = None \<and> well_typed (CJSON_NESTING_LIMIT - depth b) x"
  shows "(\<forall>x\<in>set xs. item_string x = None \<and> well_typed (CJSON_NESTING_LIMIT - depth b) x) \<and> depth c = depth b"
proof -
  have "\<forall>xs c. r = Inr (Some xs, c) \<longrightarrow> pv' = pv \<longrightarrow>
      (\<forall>x\<in>set items. item_string x = None \<and> well_typed (CJSON_NESTING_LIMIT - depth b) x) \<longrightarrow>
      (\<forall>x\<in>set xs. item_string x = None \<and> well_typed (CJSON_NESTING_LIMIT - depth b) x) \<and> depth c = depth b"
    if "array_loop pv' items b = Some r" for pv' items b r
    using that
  proof (induction rule: array_loop.raw_induct [rotated, consumes 1, case_names step])
    case (step loop pv' items b r)
    show ?case
    proof (intro allI impI)
      fix xs c
      assume r: "r = Inr (Some xs, c)" and pv': "pv' = pv"
        and items: "\<forall>x\<in>set items. item_string x = None \<and> well_typed (CJSON_NESTING_LIMIT - depth b) x"
      from step(2) have "parse_then (pv cJSON_New_Item (buffer_skip_whitespace (move b 1))) (\<lambda>x b1.
          let b2 = buffer_skip_whitespace b1
          in if at_char b2 (CHR '','') then loop pv (items @ [x]) b2 else accept (items @ [x]) b2) = accept xs c"
        unfolding r pv' by (simp add: accept_def)
      then obtain x b1 where x: "pv cJSON_New_Item (buffer_skip_whitespace (move b 1)) = accept x b1"
        and rest: "(let b2 = buffer_skip_whitespace b1
          in if at_char b2 (CHR '','') then loop pv (items @ [x]) b2 else accept (items @ [x]) b2) = accept xs c"
        unfolding parse_then_accepts by blast
      from value_typed [OF x] have x': "well_typed (CJSON_NESTING_LIMIT - depth b) x" "item_string x = None"
        "depth b1 = depth b" by simp_all
      show "(\<forall>x\<in>set xs. item_string x = None \<and> well_typed (CJSON_NESTING_LIMIT - depth b) x) \<and> depth c = depth b"
      proof (cases "at_char (buffer_skip_whitespace b1) (CHR '','')")
        case True
        then have "loop pv (items @ [x]) (buffer_skip_whitespace b1) = Some (Inr (Some xs, c))"
          using rest by (simp add: accept_def)
        from step(1) [OF this] x' items show ?thesis by auto
      next
        case False
        then show ?thesis using rest x' items by (auto simp: Let_def)
      qed
    qed
  qed
  from this [of pv items b "Inr (Some xs, c)"] assms show ?thesis by (simp add: accept_def)
qed

lemma object_loop_typed:
  assumes "object_loop pv items b = accept xs c"
    and "\<forall>x\<in>set items. is_text (item_string x) \<and> well_typed (CJSON_NESTING_LIMIT - depth b) x"
  shows "(\<forall>x\<in>set xs. is_text (item_string x) \<and> well_typed (CJSON_NESTING_LIMIT - depth b) x) \<and> depth c = depth b"
proof -
  have "\<forall>xs c. r = Inr (Some xs, c) \<longrightarrow> pv' = pv \<longrightarrow>
      (\<forall>x\<in>set items. is_text (item_string x) \<and> well_typed (CJSON_NESTING_LIMIT - depth b) x) \<longrightarrow>
      (\<forall>x\<in>set xs. is_text (item_string x) \<and> well_typed (CJSON_NESTING_LIMIT - depth b) x) \<and> depth c = depth b"
    if "object_loop pv' items b = Some r" for pv' items b r
    using that
  proof (induction rule: object_loop.raw_induct [rotated, consumes 1, case_names step])
    case (step loop pv' items b r)
    show ?case
    proof (intro allI impI)
      fix xs c
      assume r: "r = Inr (Some xs, c)" and pv': "pv' = pv"
        and items: "\<forall>x\<in>set items. is_text (item_string x) \<and> well_typed (CJSON_NESTING_LIMIT - depth b) x"
      let ?next = "\<lambda>y b3. let b4 = buffer_skip_whitespace b3
        in if at_char b4 (CHR '','') then loop pv (items @ [y]) b4 else accept (items @ [y]) b4"
      from step(2) have "parse_then (parse_string cJSON_New_Item (buffer_skip_whitespace (move b 1))) (\<lambda>x b1.
          let b2 = buffer_skip_whitespace b1
          in if \<not> at_char b2 (CHR '':'') then reject b2
             else parse_then (pv (set_name x) (buffer_skip_whitespace (move b2 1))) ?next) = accept xs c"
        unfolding r pv' by (simp add: accept_def)
      then obtain x b1 where x: "parse_string cJSON_New_Item (buffer_skip_whitespace (move b 1)) = accept x b1"
        and "(let b2 = buffer_skip_whitespace b1
          in if \<not> at_char b2 (CHR '':'') then reject b2
             else parse_then (pv (set_name x) (buffer_skip_whitespace (move b2 1))) ?next) = accept xs c"
        unfolding parse_then_accepts by blast
      then have "parse_then (pv (set_name x) (buffer_skip_whitespace (move (buffer_skip_whitespace b1) 1))) ?next = accept xs c"
        by (simp add: Let_def split: if_splits)
      then obtain y b3 where y: "pv (set_name x) (buffer_skip_whitespace (move (buffer_skip_whitespace b1) 1)) = accept y b3"
        and rest: "?next y b3 = accept xs c"
        unfolding parse_then_accepts by blast
      from parse_string_typed [OF x] have x': "blank (set_name x)" "is_text (item_string (set_name x))"
        "depth b1 = depth b" by simp_all
      from value_typed [OF y x'(1)] x' have y': "well_typed (CJSON_NESTING_LIMIT - depth b) y" "is_text (item_string y)"
        "depth b3 = depth b" by simp_all
      show "(\<forall>x\<in>set xs. is_text (item_string x) \<and> well_typed (CJSON_NESTING_LIMIT - depth b) x) \<and> depth c = depth b"
      proof (cases "at_char (buffer_skip_whitespace b3) (CHR '','')")
        case True
        then have "loop pv (items @ [y]) (buffer_skip_whitespace b3) = Some (Inr (Some xs, c))"
          using rest by (simp add: accept_def)
        from step(1) [OF this] y' items show ?thesis by auto
      next
        case False
        then show ?thesis using rest y' items by (auto simp: Let_def)
      qed
    qed
  qed
  from this [of pv items b "Inr (Some xs, c)"] assms show ?thesis by (simp add: accept_def)
qed

lemma close_list_accepts:
  "close_list t it items b = accept x c \<longleftrightarrow>
     x = Item t (valuestring it) (valueint it) (valuedouble it) (item_string it) items \<and>
     c = b\<lparr>boffset := boffset b + 1, depth := depth b - 1\<rparr>"
  by (auto simp: close_list_def)

lemma parse_array_typed:
  assumes "parse_array pv it b = accept x c" and "blank it"
  shows "well_typed (CJSON_NESTING_LIMIT - depth b) x \<and> item_string x = item_string it \<and> depth c = depth b"
proof -
  have limit: "depth b < CJSON_NESTING_LIMIT" using assms(1) by (auto simp: parse_array_def not_le split: if_splits)
  let ?b1 = "buffer_skip_whitespace (move (b\<lparr>depth := depth b + 1\<rparr>) 1)"
  from assms(1) limit consider "close_list cJSON_Array it [] ?b1 = accept x c"
    | "parse_then (array_loop pv [] (step_back ?b1)) (\<lambda>items b2.
        if \<not> at_char b2 (CHR '']'') then reject b2 else close_list cJSON_Array it items b2) = accept x c"
    by (auto simp: parse_array_def Let_def split: if_splits)
  then show ?thesis
  proof cases
    case 1
    then show ?thesis using assms(2) limit by (auto simp: close_list_accepts)
  next
    case 2
    then obtain items b2 where l: "array_loop pv [] (step_back ?b1) = accept items b2"
      and e: "close_list cJSON_Array it items b2 = accept x c"
      unfolding parse_then_accepts by (auto split: if_splits)
    from array_loop_typed [OF l] e assms(2) limit show ?thesis by (auto simp: close_list_accepts)
  qed
qed

lemma parse_object_typed:
  assumes "parse_object pv it b = accept x c" and "blank it"
  shows "well_typed (CJSON_NESTING_LIMIT - depth b) x \<and> item_string x = item_string it \<and> depth c = depth b"
proof -
  have limit: "depth b < CJSON_NESTING_LIMIT" using assms(1) by (auto simp: parse_object_def not_le split: if_splits)
  let ?b1 = "buffer_skip_whitespace (move (b\<lparr>depth := depth b + 1\<rparr>) 1)"
  from assms(1) limit consider "close_list cJSON_Object it [] ?b1 = accept x c"
    | "parse_then (object_loop pv [] (step_back ?b1)) (\<lambda>items b2.
        if \<not> at_char b2 (CHR ''}'') then reject b2 else close_list cJSON_Object it items b2) = accept x c"
    by (auto simp: parse_object_def Let_def split: if_splits)
  then show ?thesis
  proof cases
    case 1
    then show ?thesis using assms(2) limit by (auto simp: close_list_accepts)
  next
    case 2
    then obtain items b2 where l: "object_loop pv [] (step_back ?b1) = accept items b2"
      and e: "close_list cJSON_Object it items b2 = accept x c"
      unfolding parse_then_accepts by (auto split: if_splits)
    from object_loop_typed [OF l] e assms(2) limit show ?thesis by (auto simp: close_list_accepts)
  qed
qed

lemma value_step_typed:
  assumes "value_step pv it b = accept x c" and "blank it"
  shows "well_typed (CJSON_NESTING_LIMIT - depth b) x \<and> item_string x = item_string it \<and> depth c = depth b"
  using assms parse_string_typed [of it b x c] parse_number_typed [of it b x c] parse_array_typed [of it b x c]
    parse_object_typed [of it b x c]
  unfolding value_step_def by (auto split: if_splits)

end

lemma parse_value_typed: "typed_parser (parse_value n)"
proof (induction n)
  case 0
  then show ?case by unfold_locales (simp add: accept_def)
next
  case (Suc n)
  show ?case
    by unfold_locales (use typed_parser.value_step_typed [OF Suc] in auto)
qed

interpretation typed_json: typed_parser "parse_value n" for n
  by (rule parse_value_typed)

lemma parsed_typed:
  assumes "cJSON_Parse s = Some (Inr (Some it))"
  shows "well_typed CJSON_NESTING_LIMIT it \<and> item_string it = None"
proof -
  let ?b = "buffer_skip_whitespace (skip_utf8_bom \<lparr>content = c_string s @ [CHR 0x00], boffset = 0, depth = 0\<rparr>)"
  define p where "p = parse_value (CJSON_NESTING_LIMIT + 1) cJSON_New_Item ?b"
  obtain r c where r: "p = Some (Inr (r, c))"
    using parse_start [of "c_string s @ [CHR 0x00]" s] unfolding p_def by blast
  have "r = Some it"
    using assms r unfolding cJSON_Parse_def cJSON_ParseWithOpts_def cJSON_ParseWithLengthOpts_def Let_def p_def
    by (cases r) simp_all
  then have "parse_value (CJSON_NESTING_LIMIT + 1) cJSON_New_Item ?b = accept it c"
    using r by (simp only: p_def accept_def)
  moreover have "depth ?b = 0" by (simp add: skip_utf8_bom_def)
  ultimately show ?thesis using typed_json.value_typed [of "CJSON_NESTING_LIMIT + 1" cJSON_New_Item ?b it c] by simp
qed

text \<open>
  C33. The result of a successful parse is well-typed: \<open>true\<close> and numbers carry their integer
  value (saturated) and strings their text, a value has no fields of another type, members of
  objects have names and elements of arrays have none, arrays and objects are nested at most
  1000 deep, and no number is a NaN.
\<close>

theorem json_parse_well_typed:
  assumes "cJSON_Parse s = Some (Inr (Some it))"
  shows "well_typed CJSON_NESTING_LIMIT it \<and> item_string it = None"
  by (rule parsed_typed [OF assms])

theorem json_parse_well_typed_witness:
  "cJSON_Parse (to_string 7) = Some (Inr (Some (Item cJSON_Number None 7 (Finite 7) None []))) \<and>
   well_typed CJSON_NESTING_LIMIT (Item cJSON_Number None 7 (Finite 7) None [])"
proof -
  have p: "cJSON_Parse (to_string 7) = Some (Inr (Some (Item cJSON_Number None 7 (Finite 7) None [])))"
    using parse_integer [of 7] by (simp add: INT_MAX_def INT_MIN_def)
  then show ?thesis using json_parse_well_typed [OF p] by simp
qed

end
