(* ===== verification/Settings.thy ===== *)
theory Settings
  imports Config Json_Typed
begin

text \<open>
  \<open>parse_argument\<close> of \<open>include/config.h\<close> on the text of the configuration file: the members
  that \<open>cJSON_Parse\<close> finds are given to the setters one after the other. A file that cannot be
  opened leaves the buffer without contents, and a text that is no JSON gives a null pointer;
  using either is \<open>MemoryFault\<close>. The member of an array has no name to compare.
\<close>

definition param_of :: "cJSON \<Rightarrow> param result" where
  "param_of m =
     (case item_string m of
        None \<Rightarrow> Inl MemoryFault
      | Some n \<Rightarrow> Inr \<lparr>name = n, valuestring = Json.valuestring m, valueint = Json.valueint m\<rparr>)"

definition set_members :: "Config \<Rightarrow> cJSON list \<Rightarrow> Config result" where
  "set_members c ms = foldE (\<lambda>c m. and_then (param_of m) (set_param c)) c ms"

definition parse_argument :: "string option \<Rightarrow> Config result option" where
  "parse_argument file =
     (case file of
        None \<Rightarrow> Some (Inl MemoryFault)
      | Some source \<Rightarrow>
          map_option (\<lambda>r. and_then r (\<lambda>config.
              case config of
                None \<Rightarrow> Inl MemoryFault
              | Some j \<Rightarrow> set_members config_init (child j)))
            (cJSON_Parse (take 1001 source)))"

section \<open>The settings of a file\<close>

lemma cJSON_Parse_returns: "\<exists>r. cJSON_Parse s = Some (Inr r)"
  using json_parser_total [of s False] by (auto simp: cJSON_Parse_def)

lemma parse_argument_returns: "\<exists>r. parse_argument f = Some r"
  using cJSON_Parse_returns by (cases f) (auto simp: parse_argument_def)

text \<open>What one member, and a list of members, set.\<close>

definition entry_of :: "cJSON \<Rightarrow> param" where
  "entry_of m = \<lparr>name = the (item_string m), valuestring = Json.valuestring m, valueint = Json.valueint m\<rparr>"

lemma set_members_params:
  assumes "\<forall>m\<in>set ms. item_string m \<noteq> None"
  shows "set_members c ms = parse_params c (map entry_of ms)"
  using assms unfolding set_members_def parse_params_def
proof (induction ms arbitrary: c)
  case Nil
  then show ?case by simp
next
  case (Cons m ms)
  then have "param_of m = Inr (entry_of m)" by (auto simp: param_of_def entry_of_def)
  moreover have "foldE (\<lambda>c m. and_then (param_of m) (set_param c)) c' ms = foldE set_param c' (map entry_of ms)" for c'
    using Cons by simp
  ultimately show ?case by simp
qed

text \<open>The members of a parsed object have names, and their integer values are of type \<open>int\<close>.\<close>

lemma well_typed_valueint: "well_typed n m \<Longrightarrow> is_int (Json.valueint m)"
proof (cases m)
  case (Item t v i x nm cs)
  have "is_int (saturate x)" if "x \<noteq> NaN" for x
  proof -
    have "of_int_double INT_MAX = Finite (of_int INT_MAX)" "of_int_double INT_MIN = Finite (of_int INT_MIN)"
      by (rule of_int_double_int, simp add: INT_MAX_def INT_MIN_def)+
    then show ?thesis using that
      by (cases x) (auto simp: saturate_def is_int_def INT_MAX_def INT_MIN_def floor_le_iff le_floor_iff ceiling_le_iff
        le_ceiling_iff)
  qed
  moreover have "is_int 0" "is_int 1" by (simp_all add: is_int_def INT_MIN_def INT_MAX_def)
  moreover assume "well_typed n m"
  ultimately show ?thesis using Item by (cases t) auto
qed

lemma parsed_members:
  assumes "cJSON_Parse s = Some (Inr (Some j))" and "item_type j = cJSON_Object" and "m \<in> set (child j)"
  shows "item_string m \<noteq> None \<and> well_typed 999 m \<and> is_int (Json.valueint m)"
proof -
  obtain t v i x nm ms where j: "j = Item t v i x nm ms" by (cases j)
  with assms(2) have t: "t = cJSON_Object" by simp
  have "is_text (item_string m) \<and> well_typed 999 m"
    using parsed_typed [OF assms(1)] assms(3) unfolding j t by (simp add: CJSON_NESTING_LIMIT_def)
  then show ?thesis using well_typed_valueint [of 999 m] by (auto simp: is_text_def split: option.splits)
qed

lemma parse_argument_members:
  assumes "cJSON_Parse (take 1001 s) = Some (Inr (Some j))" and "item_type j = cJSON_Object"
  shows "parse_argument (Some s) = Some (parse_params config_init (map entry_of (child j)))"
  using assms(1) set_members_params [of "child j" config_init] parsed_members [OF assms] by (simp add: parse_argument_def)

text \<open>The value of the last member of a key, or the default.\<close>

definition last_member :: "string \<Rightarrow> int \<Rightarrow> cJSON list \<Rightarrow> int" where
  "last_member key d ms =
     (case filter (\<lambda>m. item_string m = Some key) (rev ms) of [] \<Rightarrow> d | m # _ \<Rightarrow> Json.valueint m)"

lemma last_int_members:
  assumes "\<forall>m\<in>set ms. item_string m \<noteq> None"
  shows "last_int key d (map entry_of ms) = last_member key d ms"
proof -
  have "filter (\<lambda>p. name p = key) (rev (map entry_of ms)) = map entry_of (filter (\<lambda>m. item_string m = Some key) (rev ms))"
    using assms by (induction ms) (auto simp: entry_of_def)
  then show ?thesis
    by (simp add: last_int_def last_member_def entry_of_def split: list.splits)
qed

text \<open>
  C39. The configuration is what its file says: when the first 1001 bytes of the file are a JSON
  object, its members are given to the setters in order; where the setters succeed, the chunk
  size, the version to restore and the normalization level are those of the last member with
  the name, saturated to the range of \<open>int\<close>, or the default where no member has it.
\<close>

theorem config_file_read:
  assumes "cJSON_Parse (take 1001 s) = Some (Inr (Some j))" and "item_type j = cJSON_Object"
  shows "parse_argument (Some s) = Some (parse_params config_init (map entry_of (child j))) \<and>
    (\<forall>c. parse_argument (Some s) = Some (Inr c) \<longrightarrow>
       avg_chunk_size c = last_member ''Size'' 4096 (child j) \<and>
       restore_version c = last_member ''RestoreVersion'' 0 (child j) \<and>
       normal_level c = last_member ''Normal'' 2 (child j) \<and> is_int (avg_chunk_size c))"
proof -
  have names: "\<forall>m\<in>set (child j). item_string m \<noteq> None" using parsed_members [OF assms] by blast
  have "is_int (last_member ''Size'' 4096 (child j))"
  proof (cases "filter (\<lambda>m. item_string m = Some ''Size'') (rev (child j))")
    case Nil
    then show ?thesis by (simp add: last_member_def is_int_def INT_MIN_def INT_MAX_def)
  next
    case (Cons m ms)
    then have "m \<in> set (child j)" by (metis filter_is_subset list.set_intros(1) set_rev subsetD)
    with Cons show ?thesis using parsed_members [OF assms] by (simp add: last_member_def)
  qed
  then show ?thesis
    using parse_argument_members [OF assms] parse_params_ints [of config_init "map entry_of (child j)"]
      last_int_members [OF names]
    by (simp add: config_init_def)
qed

definition sample_config_object :: cJSON where
  "sample_config_object = json_object [string_member ''Task'' ''restore'', int_member ''Size'' 8192, int_member ''Size'' 1024]"

definition quoted :: "string \<Rightarrow> string" where
  "quoted s = [CHR 0x22] @ s @ [CHR 0x22]"

definition sample_config_file :: string where
  "sample_config_file =
     ''{'' @ [CHR 0x0A, CHR 0x09] @ quoted ''Task'' @ '':'' @ [CHR 0x09] @ quoted ''restore'' @ '','' @ [CHR 0x0A, CHR 0x09] @
     quoted ''Size'' @ '':'' @ [CHR 0x09] @ ''8192'' @ '','' @ [CHR 0x0A, CHR 0x09] @
     quoted ''Size'' @ '':'' @ [CHR 0x09] @ ''1024'' @ [CHR 0x0A] @ ''}''"

lemma sample_ints: "is_int 8192" "is_int 1024"
  by (simp_all add: is_int_def INT_MIN_def INT_MAX_def)

lemma sample_digits: "to_string 8192 = ''8192''" "to_string 1024 = ''1024''"
proof -
  have "digit 0 = CHR ''0''" "digit 1 = CHR ''1''" "digit 2 = CHR ''2''" "digit 4 = CHR ''4''" "digit 8 = CHR ''8''"
    "digit 9 = CHR ''9''"
    by code_simp+
  then show "to_string 8192 = ''8192''" "to_string 1024 = ''1024''" by (simp_all add: to_string_def nat_digits.simps)
qed

lemma sample_config_parsed: "cJSON_Parse (take 1001 sample_config_file) = Some (Inr (Some sample_config_object))"
proof (rule parsed_of_printed)
  show "cJSON_Print sample_config_object = Some sample_config_file"
    by (simp add: cJSON_Print_def sample_config_object_def json_object_def print_int_member sample_ints sample_digits
      string_member_def print_string_ptr_def sample_config_file_def quoted_def escape_def)
  show "survives CJSON_NESTING_LIMIT sample_config_object"
    by (simp add: sample_config_object_def survives_json_object survives_string_member survives_int_member
      sample_ints is_text_def)
  show "length sample_config_file \<le> 1001" by (simp add: sample_config_file_def quoted_def)
qed (simp add: sample_config_object_def json_object_def)

theorem config_file_read_witness:
  "parse_argument (Some sample_config_file) = Some (Inr (config_init\<lparr>tt := TASK_RESTORE, avg_chunk_size := 1024\<rparr>))"
proof -
  have "parse_argument (Some sample_config_file) = Some (parse_params config_init (map entry_of (child sample_config_object)))"
    using config_file_read [OF sample_config_parsed] by (simp add: sample_config_object_def json_object_def)
  then show ?thesis
    by (simp add: sample_config_object_def json_object_def entry_of_def sample_ints parse_params_def set_param_def str_def
      taskTypeTrans_def config_init_def)
qed

text \<open>The names whose setters take a text.\<close>

definition text_keys :: "string list" where
  "text_keys = [''Task'', ''InputFile'', ''RestorePath'', ''ChunkingMethod'', ''MerkleTree'', ''RestoreMethod'',
     ''fingerprintsFilePath'', ''fileRecipesPath'', ''containersPath'', ''fullFileFingerprintsPath'',
     ''fullFileStoragePath'', ''MTL1'', ''MTL2'', ''MTL3'', ''MTL4'', ''MTL5'', ''MTL6'']"

text \<open>
  A member of the wrong type is not noticed as such: the setters of names and paths take
  the text of a member, and for a member that is no string that is a null pointer; so when
  any member before which the setters succeed has such a name and is no string, reading the
  configuration ends in \<open>MemoryFault\<close>.
\<close>

theorem config_wrong_type_faults:
  assumes "cJSON_Parse (take 1001 s) = Some (Inr (Some j))" and "item_type j = cJSON_Object"
    and "child j = ms @ m # ms'" and "parse_params config_init (map entry_of ms) = Inr c"
    and "item_string m = Some key" and "key \<in> set text_keys" and "item_type m \<noteq> cJSON_String"
  shows "parse_argument (Some s) = Some (Inl MemoryFault)"
proof -
  have "well_typed 999 m" using parsed_members [OF assms(1,2)] assms(3) by simp
  then have "Json.valuestring m = None" using assms(7) by (cases m) (auto split: cJSON_Type.splits)
  then have "str (entry_of m) = Inl MemoryFault" "name (entry_of m) = key"
    using assms(5) by (simp_all add: str_def entry_of_def)
  then have "set_param c (entry_of m) = Inl MemoryFault"
    using assms(6) by (auto simp: set_param_def text_keys_def)
  then show ?thesis
    using parse_argument_members [OF assms(1,2)] assms(3,4) by (simp add: parse_params_def foldE_append)
qed

definition sample_wrong_object :: cJSON where
  "sample_wrong_object = json_object [int_member ''Size'' 1024, int_member ''InputFile'' 8192]"

definition sample_wrong_file :: string where
  "sample_wrong_file =
     ''{'' @ [CHR 0x0A, CHR 0x09] @ quoted ''Size'' @ '':'' @ [CHR 0x09] @ ''1024'' @ '','' @ [CHR 0x0A, CHR 0x09] @
     quoted ''InputFile'' @ '':'' @ [CHR 0x09] @ ''8192'' @ [CHR 0x0A] @ ''}''"

lemma sample_wrong_parsed: "cJSON_Parse (take 1001 sample_wrong_file) = Some (Inr (Some sample_wrong_object))"
proof (rule parsed_of_printed)
  show "cJSON_Print sample_wrong_object = Some sample_wrong_file"
    by (simp add: cJSON_Print_def sample_wrong_object_def json_object_def print_int_member sample_ints sample_digits
      print_string_ptr_def sample_wrong_file_def quoted_def escape_def)
  show "survives CJSON_NESTING_LIMIT sample_wrong_object"
    by (simp add: sample_wrong_object_def survives_json_object survives_int_member sample_ints is_text_def)
  show "length sample_wrong_file \<le> 1001" by (simp add: sample_wrong_file_def quoted_def)
qed (simp add: sample_wrong_object_def json_object_def)

theorem config_wrong_type_faults_witness:
  "parse_argument (Some sample_wrong_file) = Some (Inl MemoryFault)"
proof (rule config_wrong_type_faults [where key = "''InputFile''", OF sample_wrong_parsed])
  show "child sample_wrong_object = [int_member ''Size'' 1024] @ int_member ''InputFile'' 8192 # []"
    by (simp add: sample_wrong_object_def json_object_def)
  show "parse_params config_init (map entry_of [int_member ''Size'' 1024]) = Inr (config_init\<lparr>avg_chunk_size := 1024\<rparr>)"
    by (simp add: entry_of_def sample_ints parse_params_def set_param_def)
  show "item_type (int_member ''InputFile'' 8192) \<noteq> cJSON_String"
    by (simp add: int_member_def rename_def cJSON_CreateNumber_def)
qed (simp_all add: sample_wrong_object_def json_object_def text_keys_def)

end
