(* ===== verification/Json_Doubles.thy ===== *)
theory Json_Doubles
  imports Json_Numbers
begin

text \<open>
  Every double is printed, and its text is read in full: what \<open>%1.<p>g\<close> writes has the form of a
  number, and at most 25 characters for the doubles that exist. So printing and reading never
  fail on a number; at most the double that is read is another one.
\<close>

section \<open>The form of a number\<close>

definition all_digits :: "string \<Rightarrow> bool" where
  "all_digits s \<longleftrightarrow> (\<forall>c\<in>set s. is_digit c)"

definition number_form :: "string \<Rightarrow> bool" where
  "number_form s \<longleftrightarrow> (\<exists>sg ip fr ex. s = sg @ ip @ fr @ ex \<and> (sg = [] \<or> sg = ''-'') \<and> ip \<noteq> [] \<and> all_digits ip \<and>
     (fr = [] \<or> (\<exists>fp. fr = CHR ''.'' # fp \<and> all_digits fp)) \<and>
     (ex = [] \<or> (\<exists>b ds. ex = CHR ''e'' # b # ds \<and> (b = CHR ''-'' \<or> b = CHR ''+'') \<and> ds \<noteq> [] \<and> all_digits ds)))"

lemma no_digit [simp]: "\<not> is_digit (CHR ''.'')" "\<not> is_digit (CHR ''e'')" "\<not> is_digit (CHR ''-'')" "\<not> is_digit (CHR ''+'')"
  by (simp_all add: is_digit_def)

lemma takeWhile_all_digits:
  "all_digits ip \<Longrightarrow> rest = [] \<or> \<not> is_digit (hd rest) \<Longrightarrow> takeWhile is_digit (ip @ rest) = ip"
  by (cases rest) (auto simp: all_digits_def takeWhile_append2)

lemma read_sign_digits: "ip \<noteq> [] \<Longrightarrow> all_digits ip \<Longrightarrow> read_sign (ip @ rest) = (False, 0)"
  by (cases ip) (auto simp: read_sign_def all_digits_def is_digit_def)

lemma strtod_number_form:
  assumes "number_form s"
  shows "snd (strtod s) = length s"
proof -
  from assms obtain sg ip fr ex where s: "s = sg @ ip @ fr @ ex" "sg = [] \<or> sg = ''-''" "ip \<noteq> []" "all_digits ip"
    and fr: "fr = [] \<or> (\<exists>fp. fr = CHR ''.'' # fp \<and> all_digits fp)"
    and ex: "ex = [] \<or> (\<exists>b ds. ex = CHR ''e'' # b # ds \<and> (b = CHR ''-'' \<or> b = CHR ''+'') \<and> ds \<noteq> [] \<and> all_digits ds)"
    unfolding number_form_def by blast
  have neg: "read_sign s = (sg \<noteq> [], length sg)"
    using s(2) read_sign_digits [OF s(3,4), of "fr @ ex"] by (elim disjE) (simp_all add: s(1), simp add: read_sign_def)
  have ip: "takeWhile is_digit (ip @ fr @ ex) = ip"
    by (rule takeWhile_all_digits [OF s(4)]) (use fr ex in auto)
  have e: "snd (read_exponent ex) = length ex"
  proof (cases "ex = []")
    case False
    then obtain b ds where b: "ex = CHR ''e'' # b # ds" "b = CHR ''-'' \<or> b = CHR ''+''" "ds \<noteq> []" "all_digits ds"
      using ex by blast
    then have "takeWhile is_digit ds = ds" using takeWhile_all_digits [of ds "[]"] by simp
    then show ?thesis using b by (auto simp: read_exponent_def read_sign_def Let_def simp del: takeWhile_eq_all_conv)
  qed (simp add: read_exponent_def)
  have parts: "drop (length sg) s = ip @ fr @ ex" "drop (length sg + length ip) s = fr @ ex"
    "drop (length sg + length ip + length fr) s = ex" by (simp_all add: s(1))
  have len: "length s = length sg + length ip + length fr + length ex" by (simp add: s(1))
  show ?thesis
  proof (cases "fr = []")
    case True
    have "\<not> (case ex of [] \<Rightarrow> False | c # _ \<Rightarrow> c = CHR ''.'')" using ex by auto
    then show ?thesis
      using s(3) e ip parts by (simp add: strtod_def neg Let_def split_beta len True)
  next
    case False
    then obtain fp where fp: "fr = CHR ''.'' # fp" "all_digits fp" using fr by blast
    have "takeWhile is_digit (fp @ ex) = fp" by (rule takeWhile_all_digits [OF fp(2)]) (use ex in auto)
    then show ?thesis
      using s(3) e ip parts by (simp add: strtod_def neg Let_def split_beta len fp(1))
  qed
qed

section \<open>What \<open>%1.<p>g\<close> writes\<close>

lemma all_digits_simps [simp]:
  "all_digits []" "all_digits (c # s) \<longleftrightarrow> is_digit c \<and> all_digits s"
  "all_digits (s @ t) \<longleftrightarrow> all_digits s \<and> all_digits t" "all_digits (nat_digits n)" "is_digit (CHR ''0'')"
  "all_digits (replicate k (CHR ''0''))"
  using nat_digits_digit by (auto simp: all_digits_def is_digit_def)

lemma all_digits_sub: "all_digits s \<Longrightarrow> set t \<subseteq> set s \<Longrightarrow> all_digits t"
  by (auto simp: all_digits_def)

lemma fraction_text_form:
  assumes "all_digits ds"
  shows "fraction_text ds = [] \<or> (\<exists>fp. fraction_text ds = CHR ''.'' # fp \<and> all_digits fp)"
proof -
  have "set (rev (dropWhile (\<lambda>c. c = CHR ''0'') (rev ds))) \<subseteq> set ds"
    using set_dropWhileD by fastforce
  then have "all_digits (rev (dropWhile (\<lambda>c. c = CHR ''0'') (rev ds)))" by (rule all_digits_sub [OF assms])
  then show ?thesis by (simp add: fraction_text_def Let_def)
qed

lemma fraction_text_length: "length (fraction_text ds) \<le> Suc (length ds)"
proof -
  have "length (dropWhile (\<lambda>c. c = CHR ''0'') (rev ds)) \<le> length ds"
    using length_dropWhile_le [of _ "rev ds"] by simp
  then show ?thesis by (simp add: fraction_text_def Let_def)
qed

lemma exponent_text_form:
  "\<exists>b ds. exponent_text e = CHR ''e'' # b # ds \<and> (b = CHR ''-'' \<or> b = CHR ''+'') \<and> ds \<noteq> [] \<and> all_digits ds"
  by (simp add: exponent_text_def)

lemma number_formI:
  assumes "sg = [] \<or> sg = ''-''" and "ip \<noteq> []" "all_digits ip" and "all_digits ds" and "ex = [] \<or> (\<exists>e. ex = exponent_text e)"
  shows "number_form (sg @ ip @ fraction_text ds @ ex)"
  unfolding number_form_def
  using assms fraction_text_form [OF assms(4)] exponent_text_form
  by (intro exI [of _ sg] exI [of _ ip] exI [of _ "fraction_text ds"] exI [of _ ex]) blast

lemma format_g_form: "number_form (format_g p x)"
proof (cases "x = 0")
  case True
  show ?thesis
    using number_formI [of "[]" "''0''" "[]" "[]"] True by (simp add: format_g_def fraction_text_def)
next
  case False
  obtain m e where m: "significant p \<bar>x\<bar> = (m, e)" by fastforce
  define ds where "ds = nat_digits (nat m)"
  define sg where "sg = (if x < 0 then ''-'' else [])"
  have sg: "sg = [] \<or> sg = ''-''" by (simp add: sg_def)
  have ds: "ds \<noteq> []" "all_digits ds" by (simp_all add: ds_def)
  have sub: "all_digits (take k ds)" "all_digits (drop k ds)" for k
    using all_digits_sub [OF ds(2)] set_take_subset set_drop_subset by metis+
  have "number_form (sg @ take 1 ds @ fraction_text (drop 1 ds) @ exponent_text e)"
    by (rule number_formI [OF sg _ sub]) (use ds in simp_all, blast)
  moreover have "number_form (sg @ take (nat e + 1) ds @ fraction_text (drop (nat e + 1) ds))"
    using number_formI [OF sg _ sub(1) [of "nat e + 1"] sub(2) [of "nat e + 1"], of "[]"] ds by simp
  moreover have "number_form (sg @ ''0'' @ fraction_text (replicate (nat (- e) - 1) (CHR ''0'') @ ds))"
    using number_formI [OF sg, of "''0''" "replicate (nat (- e) - 1) (CHR ''0'') @ ds" "[]"] ds by simp
  ultimately show ?thesis
    using False by (simp add: format_g_def m Let_def flip: ds_def sg_def)
qed

section \<open>The length of a number\<close>

text \<open>The values that an IEEE double can have.\<close>

definition is_double :: "double \<Rightarrow> bool" where
  "is_double d \<longleftrightarrow> (case d of Finite x \<Rightarrow> x = 0 \<or> 1 / 2 ^ 1074 \<le> \<bar>x\<bar> \<and> \<bar>x\<bar> < 2 ^ 1024 | _ \<Rightarrow> True)"

lemma is_double_round: "is_double (round_double x)"
proof -
  define e where "e = max (- 1074) (exponent_in 2 \<bar>x\<bar> - 52)"
  define m where "m = round_even (x / scaled 2 e)"
  have "1 / 2 ^ 1074 \<le> scaled 2 e"
    using power_int_increasing [of "- 1074" e "2 :: rat"]
    by (simp add: scaled_powi e_def power_int_minus inverse_eq_divide)
  moreover have "scaled 2 e \<le> \<bar>of_int m * scaled 2 e\<bar>" if "m \<noteq> 0"
  proof -
    have "1 \<le> \<bar>of_int m :: rat\<bar>" using that by (metis abs_1 of_int_1 of_int_abs of_int_le_iff int_one_le_iff_zero_less zero_less_abs_iff)
    moreover have "0 < scaled 2 e" by (simp add: scaled_def)
    ultimately show ?thesis by (simp add: abs_mult)
  qed
  ultimately have "of_int m * scaled 2 e = 0 \<or> 1 / 2 ^ 1074 \<le> \<bar>of_int m * scaled 2 e\<bar>"
    by (cases "m = 0") auto
  then show ?thesis
    by (simp add: round_double_def is_double_def Let_def flip: e_def m_def)
qed

lemma is_double_strtod: "is_double (fst (strtod s))"
proof -
  have "is_double (Finite 0)" by (simp add: is_double_def)
  then show ?thesis using is_double_round by (auto simp: strtod_def Let_def split: prod.split)
qed

text \<open>The significant digits are \<open>p\<close> at most, the decimal exponent has three digits at most.\<close>

lemma round_even_bounds:
  assumes "0 \<le> y" and "y < of_int b"
  shows "0 \<le> round_even y" and "round_even y \<le> b"
  using assms by (auto simp: round_even_def Let_def floor_less_iff) linarith+

lemma significant_bounds:
  assumes "0 < a" and "0 < p" and "significant p a = (m, e)"
  shows "0 \<le> m" and "m < 10 ^ p" and "exponent_in 10 a \<le> e" and "e \<le> exponent_in 10 a + 1"
proof -
  let ?e = "exponent_in 10 a"
  let ?y = "a / scaled 10 (?e - int p + 1)"
  have pos: "0 < scaled 10 k" for k by (simp add: scaled_def)
  have "a < scaled 10 (?e + 1)" by (rule exponent_in_range(2)) (use assms(1) in simp_all)
  also have "scaled 10 (?e + 1) = 10 ^ p * scaled 10 (?e - int p + 1)"
  proof -
    have "(10 :: rat) powi (?e + 1) = 10 powi int p * 10 powi (?e - int p + 1)"
      by (subst power_int_add [symmetric]) simp_all
    then show ?thesis by (simp add: scaled_powi)
  qed
  finally have "?y < of_int (10 ^ p)" using pos by (simp add: pos_divide_less_eq)
  moreover have "0 \<le> ?y" using assms(1) pos [of "?e - int p + 1"] by simp
  ultimately have m: "0 \<le> round_even ?y" "round_even ?y \<le> 10 ^ p" using round_even_bounds by blast+
  have "(10 :: int) ^ p div 10 < 10 ^ p" by (rule int_div_less_self) simp_all
  then show "0 \<le> m" and "m < 10 ^ p" and "?e \<le> e" and "e \<le> ?e + 1"
    using assms(3) m by (auto simp: significant_def Let_def split: if_splits)
qed

lemma power_two_ten: "(2 :: rat) ^ (2 * n) \<le> 10 ^ n"
  unfolding power_mult by (rule power_mono) simp_all

lemma exponent_bounds:
  assumes "1 / 2 ^ (2 * k) \<le> a" and "a < 2 ^ (2 * n)"
  shows "- int k \<le> exponent_in 10 a" and "exponent_in 10 a < int n"
proof -
  have "0 < (1 / 2 ^ (2 * k) :: rat)" by simp
  then have "0 < a" using assms(1) by (rule less_le_trans)
  note range = exponent_in_range [OF _ this, of 10, unfolded scaled_powi]
  have "a < 10 powi int n"
    unfolding power_int_of_nat using assms(2) power_two_ten [of n] by (rule less_le_trans)
  with range(1) have "(10 :: rat) powi exponent_in 10 a < 10 powi int n" by simp
  then show "exponent_in 10 a < int n" by (rule powi_less [rotated]) simp
  have "(10 :: rat) powi (- int k) \<le> 1 / 2 ^ (2 * k)"
    unfolding power_int_minus power_int_of_nat using power_two_ten [of k]
    by (simp add: inverse_eq_divide frac_le)
  then have "(10 :: rat) powi (- int k) \<le> a" using assms(1) by (rule order_trans)
  also have "a < 10 powi (exponent_in 10 a + 1)" using range(2) by simp
  finally have "- int k < exponent_in 10 a + 1" by (rule powi_less [rotated]) simp
  then show "- int k \<le> exponent_in 10 a" by simp
qed

lemma format_g_length:
  assumes "is_double (Finite x)" and "0 < p" "p \<le> 17"
  shows "length (format_g p x) \<le> 25"
proof (cases "x = 0")
  case True
  then show ?thesis by (simp add: format_g_def)
next
  case False
  obtain m e where m: "significant p \<bar>x\<bar> = (m, e)" by fastforce
  have pos: "0 < \<bar>x\<bar>" using False by simp
  have "1 / 2 ^ (2 * 537) \<le> \<bar>x\<bar>" "\<bar>x\<bar> < 2 ^ (2 * 512)"
    using assms(1) False by (simp_all add: is_double_def)
  note e = exponent_bounds [OF this] significant_bounds(3,4) [OF pos assms(2) m]
  have "nat m < 10 ^ p" using significant_bounds(1,2) [OF pos assms(2) m] by (simp add: nat_less_iff)
  then have ds: "length (nat_digits (nat m)) \<le> p" using assms(2) by (rule length_nat_digits)
  have "nat \<bar>e\<bar> < 10 ^ 3" using e by simp
  then have "length (nat_digits (nat \<bar>e\<bar>)) \<le> 3" by (rule length_nat_digits) simp
  moreover have "length (nat_digits (nat \<bar>e\<bar>)) \<le> 1" if "\<bar>e\<bar> < 10"
    using that length_nat_digits [of "nat \<bar>e\<bar>" 1] by simp
  ultimately have et: "length (exponent_text e) \<le> 5"
    by (cases "\<bar>e\<bar> < 10") (simp_all add: exponent_text_def)
  have fr: "length (fraction_text s) \<le> Suc k" if "length s \<le> k" for s k
    using fraction_text_length [of s] that by simp
  have exp_form: "length (take 1 (nat_digits (nat m)) @ fraction_text (drop 1 (nat_digits (nat m))) @ exponent_text e) \<le> 24"
  proof -
    have "length (fraction_text (drop 1 (nat_digits (nat m)))) \<le> 17"
      using fr [of "drop 1 (nat_digits (nat m))" 16] ds assms(3) by simp
    then show ?thesis using et by simp
  qed
  have dec_form: "length (take k (nat_digits (nat m)) @ fraction_text (drop k (nat_digits (nat m)))) \<le> 24" for k
  proof -
    have "length (take k (nat_digits (nat m))) + length (drop k (nat_digits (nat m))) \<le> 17"
      using ds assms(3) by (metis append_take_drop_id le_trans length_append)
    then show ?thesis using fr [of "drop k (nat_digits (nat m))" "length (drop k (nat_digits (nat m)))"] by simp
  qed
  have small_form: "length (''0'' @ fraction_text (replicate (nat (- e) - 1) (CHR ''0'') @ nat_digits (nat m))) \<le> 24"
    if "- 4 \<le> e"
  proof -
    have "length (replicate (nat (- e) - 1) (CHR ''0'') @ nat_digits (nat m)) \<le> 20"
      using that ds assms(3) by simp
    from fr [OF this] show ?thesis by simp
  qed
  show ?thesis
    using exp_form dec_form [of "nat e + 1"] small_form False by (auto simp: format_g_def m Let_def)
qed

section \<open>Every double is printed and read\<close>

lemma saturate_is_int: "is_int (saturate d)"
proof -
  have c: "of_int_double INT_MAX = Finite (of_int INT_MAX)" "of_int_double INT_MIN = Finite (of_int INT_MIN)"
    by (rule of_int_double_int, simp add: INT_MAX_def INT_MIN_def)+
  show ?thesis
  proof (cases d)
    case (Finite x)
    have "INT_MIN \<le> to_int (Finite x) \<and> to_int (Finite x) \<le> INT_MAX"
      if "of_int INT_MIN < x" "x < of_int INT_MAX"
      using that by (auto simp: le_floor_iff floor_le_iff ceiling_le_iff le_ceiling_iff)
    then show ?thesis
      unfolding Finite by (auto simp: saturate_def c is_int_def) (simp_all add: INT_MIN_def INT_MAX_def)
  qed (auto simp: saturate_def c is_int_def INT_MIN_def INT_MAX_def)
qed

lemma number_text:
  assumes "is_double d"
  shows "\<exists>s. print_number (cJSON_CreateNumber d) = Some s \<and> length s \<le> 25 \<and>
    (\<forall>x. d = Finite x \<longrightarrow> snd (strtod s) = length s)"
proof (cases d)
  case (Finite x)
  let ?i = "saturate d"
  show ?thesis
  proof (cases "d = of_int_double ?i")
    case True
    have int: "is_int ?i" by (rule saturate_is_int)
    have "print_number (cJSON_CreateNumber d) = Some (to_string ?i)"
      using print_int [OF int] True by simp
    moreover from this have "length (to_string ?i) \<le> 25"
      by (auto simp: print_number_def Let_def split: if_splits)
    ultimately show ?thesis using strtod_to_string [OF int_small [OF int]] by simp
  next
    case False
    have form: "number_form s \<and> length s \<le> 25" if "s = format_g 15 x \<or> s = format_g 17 x" for s
      using that format_g_form format_g_length [of x 15] format_g_length [of x 17] assms Finite by auto
    define s where "s = (case strtod (format_g 15 x) of (test, n) \<Rightarrow>
        if n = 0 \<or> \<not> compare_double test (Finite x) then format_g 17 x else format_g 15 x)"
    have "print_number (cJSON_CreateNumber d) = (if 25 < length s then None else Some s)"
      using False Finite unfolding print_number_def cJSON_CreateNumber_def Let_def s_def by simp
    moreover have "number_form s \<and> length s \<le> 25" by (rule form) (simp add: s_def split: prod.split)
    ultimately show ?thesis using strtod_number_form by (intro exI [of _ s]) simp
  qed
qed (simp_all add: print_number_def cJSON_CreateNumber_def Let_def)

lemma legible_double:
  assumes "is_double d"
  shows "legible (rename nm (cJSON_CreateNumber d))"
proof -
  have "valuedouble (rename nm (cJSON_CreateNumber d)) = d" by (simp add: rename_def cJSON_CreateNumber_def)
  then show ?thesis using number_text [OF assms] by (cases d) (auto simp: legible_def)
qed

end
