(* ===== verification/Stat.thy ===== *)
theory Stat
  imports Json_Typed Json_Doubles
begin

text \<open>
  \<open>include/global_stat.h\<close>: the statistics over all backups, kept in a JSON file, and
  \<open>src/compressor.cpp\<close>, which measures what LZ4 would save. The sizes are of type \<open>int\<close>, in
  KiB; they are kept at their width, with the wrap-around of the machine where C leaves an
  overflow open.
\<close>

section \<open>The statistics\<close>

record GlobalStat =
  total_size_kb :: "32 word"
  size_before_compression_kb :: "32 word"
  size_after_compression_kb :: "32 word"
  DR :: double
  CR :: double
  DRR :: double

text \<open>The singleton has static storage.\<close>

definition stat_init :: GlobalStat where
  "stat_init = \<lparr>total_size_kb = 0, size_before_compression_kb = 0, size_after_compression_kb = 0,
     DR = Finite 0, CR = Finite 0, DRR = Finite 0\<rparr>"

definition int_double :: "32 word \<Rightarrow> double" where
  "int_double n = of_int_double (sint n)"

definition update_kb :: "GlobalStat \<Rightarrow> 32 word \<Rightarrow> 32 word \<Rightarrow> 32 word \<Rightarrow> GlobalStat" where
  "update_kb st backup_size_kb before_kb after_kb =
     (let t = total_size_kb st + backup_size_kb;
          b = size_before_compression_kb st + before_kb;
          a = size_after_compression_kb st + after_kb;
          saved = (\<lambda>x y. minus_double (Finite 1) (divide_double (int_double x) (int_double y)))
      in \<lparr>total_size_kb = t, size_before_compression_kb = b, size_after_compression_kb = a,
           DR = saved b t, CR = saved a b, DRR = saved a t\<rparr>)"

section \<open>The file\<close>

definition set_stat :: "GlobalStat \<Rightarrow> cJSON \<Rightarrow> GlobalStat result" where
  "set_stat st m =
     (case item_string m of
        None \<Rightarrow> Inl MemoryFault
      | Some item_name \<Rightarrow> Inr
         (if item_name = ''Size'' then st\<lparr>total_size_kb := of_int (valueint m)\<rparr>
          else if item_name = ''SizeBeforeCompression'' then st\<lparr>size_before_compression_kb := of_int (valueint m)\<rparr>
          else if item_name = ''SizeAfterCompression'' then st\<lparr>size_after_compression_kb := of_int (valueint m)\<rparr>
          else if item_name = ''DeduplicationRatio'' then st\<lparr>DR := valuedouble m\<rparr>
          else if item_name = ''CompressionRatio'' then st\<lparr>CR := valuedouble m\<rparr>
          else if item_name = ''DataReductionRatio'' then st\<lparr>DRR := valuedouble m\<rparr>
          else st))"

text \<open>
  A file that cannot be opened leaves the buffer without contents; a text that is no JSON
  gives a null pointer.
\<close>

definition stat_parse_arguments :: "GlobalStat \<Rightarrow> string option \<Rightarrow> GlobalStat result option" where
  "stat_parse_arguments st json_file =
     (case json_file of
        None \<Rightarrow> Some (Inl MemoryFault)
      | Some source \<Rightarrow>
          map_option (\<lambda>r. and_then r (\<lambda>config.
              case config of
                None \<Rightarrow> Inl MemoryFault
              | Some j \<Rightarrow> foldE set_stat st (child j)))
            (cJSON_Parse (take 1001 source)))"

definition stat_items :: "GlobalStat \<Rightarrow> (string \<times> double) list" where
  "stat_items st =
     [(''Size'', int_double (total_size_kb st)),
      (''SizeBeforeCompression'', int_double (size_before_compression_kb st)),
      (''SizeAfterCompression'', int_double (size_after_compression_kb st)),
      (''DeduplicationRatio'', DR st), (''CompressionRatio'', CR st), (''DataReductionRatio'', DRR st)]"

definition replace_stats :: "GlobalStat \<Rightarrow> cJSON \<Rightarrow> cJSON" where
  "replace_stats st config =
     fold (\<lambda>(name, d) j. snd (cJSON_ReplaceItemInObject j name (cJSON_CreateNumber d))) (stat_items st) config"

text \<open>
  The new contents of the file. The file that is missing is written through a null pointer;
  of a text that is no JSON, or of an item that cannot be printed, the length of a null
  pointer is taken.
\<close>

definition stat_save_arguments :: "GlobalStat \<Rightarrow> string option \<Rightarrow> string result option" where
  "stat_save_arguments st json_file =
     (case json_file of
        None \<Rightarrow> Some (Inl MemoryFault)
      | Some source \<Rightarrow>
          map_option (\<lambda>r. and_then r (\<lambda>config.
              case config of
                None \<Rightarrow> Inl MemoryFault
              | Some j \<Rightarrow>
                  (case cJSON_Print (replace_stats st j) of
                     None \<Rightarrow> Inl MemoryFault
                   | Some cjValue \<Rightarrow> Inr cjValue)))
            (cJSON_Parse (take 1001 source)))"

section \<open>The compressor\<close>

record Compressor =
  chunk_num :: int
  size_before_compression :: int
  size_after_compression :: int

definition compressor_new :: Compressor where
  "compressor_new = \<lparr>chunk_num = 0, size_before_compression = 0, size_after_compression = 0\<rparr>"

text \<open>
  \<open>LZ4_compress_default\<close> is the parameter: it gives the length of the compressed text for a
  destination of the given size, 0 when the text does not fit.
\<close>

definition compress :: "(bytes \<Rightarrow> nat \<Rightarrow> int) \<Rightarrow> Compressor \<Rightarrow> bytes \<Rightarrow> Compressor" where
  "compress LZ4_compress_default c buff =
     c\<lparr>chunk_num := chunk_num c + 1,
       size_before_compression := size_before_compression c + int (length buff),
       size_after_compression := size_after_compression c + LZ4_compress_default buff (length buff)\<rparr>"

section \<open>Members and their replacement\<close>

definition number_member :: "string \<Rightarrow> double \<Rightarrow> cJSON" where
  "number_member key d = rename (Some key) (cJSON_CreateNumber d)"

lemma number_member_fields [simp]:
  "item_string (number_member key d) = Some key" "valueint (number_member key d) = saturate d"
  "valuedouble (number_member key d) = d"
  by (simp_all add: number_member_def rename_def cJSON_CreateNumber_def)

definition lower_name :: "cJSON \<Rightarrow> string option" where
  "lower_name m = map_option (map tolower) (item_string m)"

lemma lower_name_number [simp]: "lower_name (number_member key d) = Some (map tolower key)"
  by (simp add: lower_name_def)

lemma find_member:
  "Some (map tolower key) \<in> lower_name ` set ms \<Longrightarrow>
     \<exists>i. get_object_item ms key False = Some i \<and> i < length ms \<and> lower_name (ms ! i) = Some (map tolower key)"
proof (induction ms)
  case Nil
  then show ?case by simp
next
  case (Cons m ms)
  show ?case
  proof (cases "lower_name m = Some (map tolower key)")
    case True
    then show ?thesis by (auto simp: lower_name_def case_insensitive_eq_def)
  next
    case False
    then obtain i where "get_object_item ms key False = Some i" "i < length ms"
      "lower_name (ms ! i) = Some (map tolower key)" using Cons by auto
    with False show ?thesis
      by (intro exI [of _ "Suc i"]) (auto simp: lower_name_def case_insensitive_eq_def split: option.splits)
  qed
qed

text \<open>The members of a key are all one item.\<close>

definition single_member :: "cJSON list \<Rightarrow> string \<Rightarrow> cJSON \<Rightarrow> bool" where
  "single_member ms key x \<longleftrightarrow> x \<in> set ms \<and> (\<forall>m\<in>set ms. item_string m = Some key \<longrightarrow> m = x)"

definition named_apart :: "cJSON list \<Rightarrow> bool" where
  "named_apart ms \<longleftrightarrow> distinct (map lower_name ms)"

definition put_member :: "string \<Rightarrow> double \<Rightarrow> cJSON list \<Rightarrow> cJSON list" where
  "put_member key d ms =
     map (\<lambda>m. if lower_name m = Some (map tolower key) then number_member key d else m) ms"

lemma lower_names_put [simp]: "map lower_name (put_member key d ms) = map lower_name ms"
  by (simp add: put_member_def)

lemma named_apart_put [simp]: "named_apart (put_member key d ms) = named_apart ms"
  by (simp add: named_apart_def)

lemma replace_member:
  assumes "named_apart ms" and "Some (map tolower key) \<in> lower_name ` set ms"
  shows "snd (cJSON_ReplaceItemInObject (Item t v i x nm ms) key (cJSON_CreateNumber d)) =
    Item t v i x nm (put_member key d ms)"
proof -
  obtain k where k: "get_object_item ms key False = Some k" "k < length ms"
    "lower_name (ms ! k) = Some (map tolower key)"
    using find_member [OF assms(2)] by blast
  have "ms[k := number_member key d] = put_member key d ms"
  proof (rule nth_equalityI)
    fix i assume i: "i < length (ms[k := number_member key d])"
    have "lower_name (ms ! i) = Some (map tolower key) \<longleftrightarrow> i = k"
      using assms(1) i k(2,3) nth_eq_iff_index_eq [of "map lower_name ms" i k] by (auto simp: named_apart_def)
    then show "ms[k := number_member key d] ! i = put_member key d ms ! i"
      using i k(2) by (auto simp: put_member_def)
  qed (simp add: put_member_def)
  then show ?thesis
    using k by (simp add: cJSON_ReplaceItemInObject_def replace_item_in_object_def number_member_def rename_def)
qed

lemma put_member_cases:
  assumes "m' \<in> set (put_member key d ms)"
  obtains "m' = number_member key d" | "m' \<in> set ms" "lower_name m' \<noteq> Some (map tolower key)"
  using assms by (auto simp: put_member_def split: if_splits)

lemma in_put_member:
  "m \<in> set ms \<Longrightarrow> lower_name m = Some (map tolower key) \<Longrightarrow> number_member key d \<in> set (put_member key d ms)"
  "m \<in> set ms \<Longrightarrow> lower_name m \<noteq> Some (map tolower key) \<Longrightarrow> m \<in> set (put_member key d ms)"
  unfolding put_member_def set_map by (rule image_eqI [of _ _ m]; simp)+

lemma single_member_put:
  assumes "Some (map tolower key) \<in> lower_name ` set ms"
  shows "single_member (put_member key d ms) key (number_member key d)"
proof -
  from assms obtain m where "m \<in> set ms" "lower_name m = Some (map tolower key)" by (metis imageE)
  then have "number_member key d \<in> set (put_member key d ms)" by (rule in_put_member)
  moreover have "m' = number_member key d" if "m' \<in> set (put_member key d ms)" "item_string m' = Some key" for m'
    using that(1)
  proof (cases rule: put_member_cases)
    case 2
    with that(2) show ?thesis by (simp add: lower_name_def)
  qed
  ultimately show ?thesis unfolding single_member_def by blast
qed

lemma single_member_put_other:
  assumes "single_member ms k x" and "item_string x = Some k" and "map tolower k \<noteq> map tolower key"
  shows "single_member (put_member key d ms) k x"
proof -
  have "x \<in> set (put_member key d ms)"
    by (rule in_put_member(2)) (use assms in \<open>simp_all add: single_member_def lower_name_def\<close>)
  moreover have "m = x" if "m \<in> set (put_member key d ms)" "item_string m = Some k" for m
    using that(1)
  proof (cases rule: put_member_cases)
    case 1
    with that(2) assms(3) show ?thesis by simp
  next
    case 2
    with that(2) assms(1) show ?thesis by (simp add: single_member_def)
  qed
  ultimately show ?thesis unfolding single_member_def by blast
qed

section \<open>What is written is read back\<close>

definition stat_keys :: "string list" where
  "stat_keys = [''Size'', ''SizeBeforeCompression'', ''SizeAfterCompression'', ''DeduplicationRatio'',
     ''CompressionRatio'', ''DataReductionRatio'']"

lemma stat_keys_items: "map fst (stat_items st) = stat_keys"
  by (simp add: stat_items_def stat_keys_def)

lemma stat_keys_apart: "distinct (map (map tolower) stat_keys)"
  by (simp add: stat_keys_def tolower_def)

lemma fold_puts:
  assumes "named_apart ms" and "\<forall>key\<in>fst ` set items. Some (map tolower key) \<in> lower_name ` set ms"
    and "distinct (map (map tolower) (map fst items))"
  shows "\<exists>ms'. fold (\<lambda>(name, d) j. snd (cJSON_ReplaceItemInObject j name (cJSON_CreateNumber d))) items
      (Item t v i x nm ms) = Item t v i x nm ms' \<and>
    map lower_name ms' = map lower_name ms \<and> (\<forall>(key, d)\<in>set items. single_member ms' key (number_member key d)) \<and>
    (\<forall>key x. single_member ms key x \<longrightarrow> item_string x = Some key \<longrightarrow> map tolower key \<notin> map tolower ` fst ` set items \<longrightarrow>
       single_member ms' key x) \<and>
    set ms' \<subseteq> set ms \<union> (\<lambda>(key, d). number_member key d) ` set items"
  using assms
proof (induction items arbitrary: ms)
  case Nil
  then show ?case by (intro exI [of _ ms]) simp
next
  case (Cons item items)
  obtain key d where item: "item = (key, d)" by fastforce
  let ?ms = "put_member key d ms"
  have key: "Some (map tolower key) \<in> lower_name ` set ms" using Cons.prems(2) item by simp
  have "lower_name ` set ?ms = lower_name ` set ms" using lower_names_put [of key d ms] by (metis set_map)
  then obtain ms' where ms': "fold (\<lambda>(name, d) j. snd (cJSON_ReplaceItemInObject j name (cJSON_CreateNumber d))) items
      (Item t v i x nm ?ms) = Item t v i x nm ms'" "map lower_name ms' = map lower_name ?ms"
    "\<forall>(key, d)\<in>set items. single_member ms' key (number_member key d)"
    "\<forall>key x. single_member ?ms key x \<longrightarrow> item_string x = Some key \<longrightarrow> map tolower key \<notin> map tolower ` fst ` set items \<longrightarrow>
       single_member ms' key x"
    "set ms' \<subseteq> set ?ms \<union> (\<lambda>(key, d). number_member key d) ` set items"
    using Cons.IH [of ?ms] Cons.prems by auto
  have fresh: "map tolower key \<notin> map tolower ` fst ` set items" using Cons.prems(3) item by (auto simp: image_image)
  have "single_member ms' key (number_member key d)" using ms'(4) single_member_put [OF key] fresh by simp
  moreover have "single_member ms' k x" if "single_member ms k x" "item_string x = Some k"
      "map tolower k \<notin> map tolower ` fst ` set (item # items)" for k x
    using ms'(4) single_member_put_other [OF that(1,2), of key d] that(2,3) item by auto
  moreover have "set ?ms \<subseteq> insert (number_member key d) (set ms)" by (auto simp: put_member_def)
  ultimately show ?case
    using ms' replace_member [OF Cons.prems(1) key, of t v i x nm d] item
    by (intro exI [of _ ms']) auto
qed

text \<open>A field is set by the members of its key.\<close>

lemma field_read:
  assumes "foldE set_stat st ms = Inr st'"
    and "\<And>st m st'. set_stat st m = Inr st' \<Longrightarrow> g st' = (if item_string m = Some key then h m else g st)"
    and "single_member ms key x" and "item_string x = Some key"
  shows "g st' = h x"
proof -
  have "g st' = (if \<exists>m\<in>set ms. item_string m = Some key then h x else g st)"
    if "foldE set_stat st ms = Inr st'" "\<forall>m\<in>set ms. item_string m = Some key \<longrightarrow> m = x" for st st' ms
    using that
  proof (induction ms arbitrary: st)
    case Nil
    then show ?case by simp
  next
    case (Cons m ms)
    from Cons.prems(1) obtain st1 where "set_stat st m = Inr st1" "foldE set_stat st1 ms = Inr st'" by auto
    with Cons.IH [of st1] Cons.prems(2) assms(2) [of st m st1] show ?case by auto
  qed
  moreover have "x \<in> set ms" "\<forall>m\<in>set ms. item_string m = Some key \<longrightarrow> m = x" using assms(3) by (simp_all add: single_member_def)
  ultimately show ?thesis using assms(1,4) by metis
qed

lemma set_stat_fields:
  assumes "set_stat st m = Inr st'"
  shows "total_size_kb st' = (if item_string m = Some ''Size'' then of_int (valueint m) else total_size_kb st)"
    and "size_before_compression_kb st' =
      (if item_string m = Some ''SizeBeforeCompression'' then of_int (valueint m) else size_before_compression_kb st)"
    and "size_after_compression_kb st' =
      (if item_string m = Some ''SizeAfterCompression'' then of_int (valueint m) else size_after_compression_kb st)"
    and "DR st' = (if item_string m = Some ''DeduplicationRatio'' then valuedouble m else DR st)"
    and "CR st' = (if item_string m = Some ''CompressionRatio'' then valuedouble m else CR st)"
    and "DRR st' = (if item_string m = Some ''DataReductionRatio'' then valuedouble m else DRR st)"
  using assms by (auto simp: set_stat_def split: option.splits)

text \<open>
  What is read back: a number as the number that its text denotes, \<open>null\<close>, which stands for a
  number that is not finite, as 0.
\<close>

definition printed_value :: "double \<Rightarrow> double" where
  "printed_value d =
     (case d of Finite _ \<Rightarrow> fst (strtod (the (print_number (cJSON_CreateNumber d)))) | _ \<Rightarrow> Finite 0)"

definition printed_stats :: "GlobalStat \<Rightarrow> GlobalStat" where
  "printed_stats st = st\<lparr>DR := printed_value (DR st), CR := printed_value (CR st), DRR := printed_value (DRR st)\<rparr>"

lemma saturate_zero: "saturate (Finite 0) = 0"
  using saturate_int [of 0] of_int_double_int [of 0] by (simp add: is_int_def INT_MIN_def INT_MAX_def)

lemma read_back_number [simp]:
  "valuedouble (read_back (number_member key d)) = printed_value d"
  "valueint (read_back (number_member key d)) = saturate (printed_value d)"
proof -
  have item: "number_member key d = Item cJSON_Number None (saturate d) d (Some key) []"
    by (simp add: number_member_def rename_def cJSON_CreateNumber_def)
  have "denoted (number_member key d) = fst (strtod (the (print_number (cJSON_CreateNumber d))))"
    by (simp add: denoted_def number_member_def)
  moreover have "read_back (number_member key d) =
      (case d of
         Finite _ \<Rightarrow> (let y = denoted (number_member key d) in Item cJSON_Number None (saturate y) y (Some key) [])
       | _ \<Rightarrow> Item cJSON_NULL None 0 (Finite 0) (Some key) [])"
    unfolding item by (simp only: read_back.simps if_True simp_thms)
  ultimately show "valuedouble (read_back (number_member key d)) = printed_value d"
    "valueint (read_back (number_member key d)) = saturate (printed_value d)"
    by (simp_all only: printed_value_def Let_def split: double.split) (simp_all add: saturate_zero)
qed

lemma single_member_read_back: "single_member ms key x \<Longrightarrow> single_member (map read_back ms) key (read_back x)"
  by (auto simp: single_member_def)

lemma int_double_exact: "printed_value (int_double n) = int_double n" "of_int (saturate (int_double n)) = n"
proof -
  have n: "is_int (sint n)"
    using sint_range_size [of n] by (simp add: is_int_def INT_MIN_def INT_MAX_def word_size)
  show "of_int (saturate (int_double n)) = n" using n by (simp add: int_double_def saturate_int)
  show "printed_value (int_double n) = int_double n"
    using print_int [OF n] strtod_to_string [OF int_small [OF n]] of_int_double_int [OF int_small [OF n]]
    by (simp add: printed_value_def int_double_def)
qed

lemma stats_read:
  assumes "foldE set_stat st0 (map read_back ms) = Inr st'"
    and "\<forall>(key, d)\<in>set (stat_items st). single_member ms key (number_member key d)"
  shows "st' = printed_stats st"
proof -
  have "single_member (map read_back ms) key (read_back (number_member key d))" if "(key, d) \<in> set (stat_items st)" for key d
    using assms(2) that single_member_read_back by auto
  then have single: "single_member (map read_back ms) ''Size'' (read_back (number_member ''Size'' (int_double (total_size_kb st))))"
    "single_member (map read_back ms) ''SizeBeforeCompression''
      (read_back (number_member ''SizeBeforeCompression'' (int_double (size_before_compression_kb st))))"
    "single_member (map read_back ms) ''SizeAfterCompression''
      (read_back (number_member ''SizeAfterCompression'' (int_double (size_after_compression_kb st))))"
    "single_member (map read_back ms) ''DeduplicationRatio'' (read_back (number_member ''DeduplicationRatio'' (DR st)))"
    "single_member (map read_back ms) ''CompressionRatio'' (read_back (number_member ''CompressionRatio'' (CR st)))"
    "single_member (map read_back ms) ''DataReductionRatio'' (read_back (number_member ''DataReductionRatio'' (DRR st)))"
    by (simp_all add: stat_items_def)
  note fields = field_read [where g = total_size_kb, OF assms(1) set_stat_fields(1) single(1)]
    field_read [where g = size_before_compression_kb, OF assms(1) set_stat_fields(2) single(2)]
    field_read [where g = size_after_compression_kb, OF assms(1) set_stat_fields(3) single(3)]
    field_read [where g = DR, OF assms(1) set_stat_fields(4) single(4)]
    field_read [where g = CR, OF assms(1) set_stat_fields(5) single(5)]
    field_read [where g = DRR, OF assms(1) set_stat_fields(6) single(6)]
  show ?thesis
    using fields by (intro GlobalStat.equality) (simp_all add: int_double_exact printed_stats_def)
qed

text \<open>
  The file of the statistics: an object that can be printed, with names that differ in more
  than their case and with a member for each of the six statistics.
\<close>

definition stat_file :: "cJSON \<Rightarrow> bool" where
  "stat_file j \<longleftrightarrow> item_type j = cJSON_Object \<and> printable CJSON_NESTING_LIMIT j \<and> named_apart (child j) \<and>
     (\<forall>key\<in>set stat_keys. Some (map tolower key) \<in> lower_name ` set (child j))"

text \<open>The ratios are doubles, as every result of an operation on doubles and of \<open>strtod\<close> is.\<close>

definition double_stats :: "GlobalStat \<Rightarrow> bool" where
  "double_stats st \<longleftrightarrow> is_double (DR st) \<and> is_double (CR st) \<and> is_double (DRR st)"

lemma is_double_minus: "is_double (minus_double a b)"
  by (cases a; cases b) (simp_all add: is_double_round, simp_all add: is_double_def)

lemma update_kb_doubles: "double_stats (update_kb st s b a)"
  by (simp add: double_stats_def update_kb_def Let_def is_double_minus)

lemma is_double_int: "is_double (int_double n)"
  by (simp add: int_double_def of_int_double_def is_double_round)

text \<open>Ratios whose printed text denotes them.\<close>

definition exact_stats :: "GlobalStat \<Rightarrow> bool" where
  "exact_stats st \<longleftrightarrow> list_all (\<lambda>d. exact_number (cJSON_CreateNumber d)) [DR st, CR st, DRR st]"

lemma exact_printed: "exact_number (cJSON_CreateNumber d) \<Longrightarrow> printed_value d = d"
  by (auto simp: exact_number_def printed_value_def split: double.splits option.splits)
    (simp_all add: cJSON_CreateNumber_def)

lemma exact_stats_printed: "exact_stats st \<Longrightarrow> printed_stats st = st"
  by (simp add: exact_stats_def printed_stats_def exact_printed)

lemma printable_number:
  assumes "is_double d"
  shows "printable n (number_member key d)"
proof -
  have "number_member key d = Item cJSON_Number None (saturate d) d (Some key) []"
    by (simp add: number_member_def rename_def cJSON_CreateNumber_def)
  then show ?thesis using legible_double [OF assms, of "Some key"] by (simp flip: number_member_def)
qed

lemma printable_items:
  assumes "double_stats st" and "(key, d) \<in> set (stat_items st)"
  shows "printable n (number_member key d) \<and> is_text (Some key)"
  using assms printable_number is_double_int by (auto simp: stat_items_def double_stats_def is_text_def)

lemma replace_stats_file:
  assumes "stat_file j" and "double_stats st"
  shows "stat_file (replace_stats st j) \<and> item_string (replace_stats st j) = item_string j \<and>
    (\<forall>(key, d)\<in>set (stat_items st). single_member (child (replace_stats st j)) key (number_member key d))"
proof -
  obtain t v i x nm ms where j: "j = Item t v i x nm ms" by (cases j)
  have t: "t = cJSON_Object" using assms(1) by (simp add: j stat_file_def)
  have keys: "fst ` set (stat_items st) = set stat_keys" using stat_keys_items [of st] by (metis set_map)
  obtain ms' where ms': "replace_stats st j = Item t v i x nm ms'" "map lower_name ms' = map lower_name ms"
    "\<forall>(key, d)\<in>set (stat_items st). single_member ms' key (number_member key d)"
    "set ms' \<subseteq> set ms \<union> (\<lambda>(key, d). number_member key d) ` set (stat_items st)"
    using fold_puts [of ms "stat_items st" t v i x nm] assms(1) stat_keys_apart stat_keys_items [of st] keys
    unfolding replace_stats_def j stat_file_def by auto
  have "is_text (item_string m) \<and> printable 999 m" if "m \<in> set ms'" for m
  proof (cases "m \<in> set ms")
    case True
    then show ?thesis using assms(1) unfolding stat_file_def j t by (simp add: CJSON_NESTING_LIMIT_def)
  next
    case False
    then have "m \<in> (\<lambda>(key, d). number_member key d) ` set (stat_items st)" using that ms'(4) by blast
    then obtain key d where "(key, d) \<in> set (stat_items st)" "m = number_member key d" by auto
    then show ?thesis using printable_items [OF assms(2)] by simp
  qed
  moreover have "lower_name ` set ms' = lower_name ` set ms" using ms'(2) by (metis set_map)
  ultimately show ?thesis
    using ms'(1-3) assms(1) unfolding stat_file_def j t by (simp add: named_apart_def CJSON_NESTING_LIMIT_def)
qed

text \<open>What is read back can be printed again.\<close>

lemma printable_read_back: "printable n it \<Longrightarrow> printable n (read_back it)"
proof (induction n it rule: printable.induct)
  case (1 n t v i x nm cs)
  show ?case
  proof (cases t)
    case cJSON_Number
    have "legible (Item cJSON_Number None (saturate y) y nm [])" if "is_double y" for y
      using legible_double [OF that, of nm] by (simp add: rename_def cJSON_CreateNumber_def)
    moreover have "is_double (denoted it)" for it by (simp add: denoted_def is_double_strtod)
    ultimately show ?thesis using cJSON_Number by (simp add: Let_def split: double.split)
  qed (use 1 in auto)
qed

lemma read_back_stat_file:
  assumes "stat_file j"
  shows "stat_file (read_back j)" and "child (read_back j) = map read_back (child j)"
proof -
  obtain v i x nm ms where j: "j = Item cJSON_Object v i x nm ms"
    using assms by (cases j) (simp add: stat_file_def)
  have "lower_name (read_back m) = lower_name m" for m by (simp add: lower_name_def)
  then show "stat_file (read_back j)"
    using assms printable_read_back [of CJSON_NESTING_LIMIT j]
    by (simp add: stat_file_def j named_apart_def image_image comp_def)
  show "child (read_back j) = map read_back (child j)" by (simp add: j)
qed

lemma read_all:
  assumes "\<forall>m\<in>set ms. item_string m \<noteq> None"
  shows "\<exists>st'. foldE set_stat st ms = Inr st'"
proof -
  have "\<exists>st'. set_stat st m = Inr st'" if "m \<in> set ms" for st m
    using assms that by (auto simp: set_stat_def)
  then show ?thesis using foldE_total [of "\<lambda>_. True" st ms set_stat] by simp
qed

text \<open>
  C40. The statistics and their file. If the file holds an object with a member for each of the
  six statistics and with names that differ in more than their case, then saving succeeds and
  keeps the file of that form. Reading the new file, as long as it has at most 1001 bytes, gives
  the three sizes exactly as they were saved, whatever the singleton held before, and for each
  ratio the double that its printed text denotes (0 for a ratio that is not finite, which is
  printed as \<open>null\<close>). The ratios are those that were saved when their text denotes them
  (\<open>exact_stats\<close>); the printer's test whether 15 digits are enough lets others change in their
  last places.
\<close>

theorem stat_save_read:
  assumes "cJSON_Parse (take 1001 f) = Some (Inr (Some j))" and "stat_file j" and "double_stats st"
  shows "\<exists>f' j'. stat_save_arguments st (Some f) = Some (Inr f') \<and> cJSON_Parse f' = Some (Inr (Some j')) \<and>
    stat_file j' \<and>
    (length f' \<le> 1001 \<longrightarrow> stat_parse_arguments st0 (Some f') = Some (Inr
      (st\<lparr>DR := printed_value (DR st), CR := printed_value (CR st), DRR := printed_value (DRR st)\<rparr>))) \<and>
    (length f' \<le> 1001 \<and> exact_stats st \<longrightarrow> stat_parse_arguments st0 (Some f') = Some (Inr st))"
proof -
  let ?j = "replace_stats st j"
  note r = replace_stats_file [OF assms(2,3)]
  note b = read_back_stat_file [OF r [THEN conjunct1]]
  have "item_string ?j = None" using r parsed_typed [OF assms(1)] by simp
  then obtain f' where f': "cJSON_Print ?j = Some f'" "cJSON_Parse f' = Some (Inr (Some (read_back ?j)))"
    using printed_read_back [of ?j] r by (auto simp: stat_file_def)
  have "\<forall>m\<in>set (child ?j). item_string m \<noteq> None"
    using r by (cases ?j) (auto simp: stat_file_def is_text_def split: option.splits)
  then obtain st' where st': "foldE set_stat st0 (child (read_back ?j)) = Inr st'"
    using read_all [of "child (read_back ?j)" st0] unfolding b(2) by auto
  then have "st' = printed_stats st" using stats_read r unfolding b(2) by blast
  then have "length f' \<le> 1001 \<longrightarrow> stat_parse_arguments st0 (Some f') = Some (Inr (printed_stats st))"
    using st' f'(2) by (simp add: stat_parse_arguments_def)
  then show ?thesis
    using f' b(1) assms(1) exact_stats_printed [of st]
    by (intro exI [of _ f'] exI [of _ "read_back ?j"]) (auto simp: stat_save_arguments_def printed_stats_def)
qed

text \<open>The file \<open>global_stat.json\<close> of the repository.\<close>

definition sample_line :: "string \<Rightarrow> string" where
  "sample_line key = [CHR 0x09, CHR 0x22] @ key @ [CHR 0x22] @ '':'' @ [CHR 0x09] @ ''0''"

definition sample_stat_file :: string where
  "sample_stat_file =
     ''{'' @ [CHR 0x0A] @ sample_line ''Size'' @ '','' @ [CHR 0x0A] @ sample_line ''SizeBeforeCompression'' @ '','' @
     [CHR 0x0A] @ sample_line ''SizeAfterCompression'' @ '','' @ [CHR 0x0A] @ sample_line ''DeduplicationRatio'' @ '','' @
     [CHR 0x0A] @ sample_line ''CompressionRatio'' @ '','' @ [CHR 0x0A] @ sample_line ''DataReductionRatio'' @
     [CHR 0x0A] @ ''}''"

definition sample_stat_object :: cJSON where
  "sample_stat_object = json_object (map (\<lambda>key. int_member key 0) stat_keys)"

lemma zero_int [simp]: "is_int 0"
  by (simp add: is_int_def INT_MIN_def INT_MAX_def)

lemma sample_stat_survives: "survives CJSON_NESTING_LIMIT sample_stat_object"
  by (simp add: sample_stat_object_def json_object_def stat_keys_def CJSON_NESTING_LIMIT_def survives_int_member is_text_def)

lemma sample_stat_file_ok:
  "stat_file sample_stat_object" "item_string sample_stat_object = None"
  using survives_printable [OF sample_stat_survives]
  by (simp_all add: stat_file_def) (simp_all add: sample_stat_object_def json_object_def stat_keys_def named_apart_def
    lower_name_def tolower_def)

lemma sample_stat_file_printed: "cJSON_Print sample_stat_object = Some sample_stat_file"
proof -
  have "to_string 0 = ''0''" by code_simp
  then show ?thesis
    by (simp add: cJSON_Print_def sample_stat_object_def json_object_def stat_keys_def print_int_member
      print_string_ptr_def sample_stat_file_def sample_line_def escape_def)
qed

lemma sample_stat_file_parsed: "cJSON_Parse (take 1001 sample_stat_file) = Some (Inr (Some sample_stat_object))"
  by (rule parsed_of_printed [OF sample_stat_file_printed sample_stat_survives sample_stat_file_ok(2)])
    (simp add: sample_stat_file_def sample_line_def)

text \<open>4 KiB of which 2 were not stored before, which compress to 1: ratios of 0.5, 0.5 and 0.75.\<close>

definition sample_stats :: GlobalStat where
  "sample_stats = update_kb stat_init 4 2 1"

lemma sample_rounds:
  "round_double (1 / 4) = Finite (1 / 4)" "round_double (1 / 2) = Finite (1 / 2)" "round_double (3 / 4) = Finite (3 / 4)"
proof -
  have "round_double (1 / 4) = Finite (of_int 4503599627370496 * scaled 2 (- 54))"
    "round_double (1 / 2) = Finite (of_int 4503599627370496 * scaled 2 (- 53))"
    "round_double (3 / 4) = Finite (of_int 6755399441055744 * scaled 2 (- 53))"
    by (rule round_doubleI; simp add: scaled_def)+
  then show "round_double (1 / 4) = Finite (1 / 4)" "round_double (1 / 2) = Finite (1 / 2)"
    "round_double (3 / 4) = Finite (3 / 4)"
    by (simp_all add: scaled_def)
qed

lemma sample_stats_values:
  "sample_stats = \<lparr>total_size_kb = 4, size_before_compression_kb = 2, size_after_compression_kb = 1,
     DR = Finite (1 / 2), CR = Finite (1 / 2), DRR = Finite (3 / 4)\<rparr>"
proof -
  have "int_double 4 = Finite 4" "int_double 2 = Finite 2" "int_double 1 = Finite 1"
    using of_int_double_int [of 4] of_int_double_int [of 2] of_int_double_int [of 1] by (simp_all add: int_double_def)
  then show ?thesis using sample_rounds by (simp add: sample_stats_def update_kb_def stat_init_def Let_def)
qed

lemma sample_ratio_texts:
  "print_number (cJSON_CreateNumber (Finite (1 / 2))) = Some ''0.5''"
  "print_number (cJSON_CreateNumber (Finite (3 / 4))) = Some ''0.75''"
  "strtod ''0.5'' = (Finite (1 / 2), 3)" "strtod ''0.75'' = (Finite (3 / 4), 4)"
proof -
  show st: "strtod ''0.5'' = (Finite (1 / 2), 3)" "strtod ''0.75'' = (Finite (3 / 4), 4)"
    using sample_rounds
    by (simp_all add: strtod_def read_sign_def read_exponent_def is_digit_def digits_value_def scaled_def)
  have "exponent_in 10 (1 / 2) = - 1" "exponent_in 10 (3 / 4) = - 1"
    by (rule exponent_inI; simp add: scaled_def)+
  then have "significant 15 (1 / 2) = (500000000000000, - 1)" "significant 15 (3 / 4) = (750000000000000, - 1)"
    using round_even_int [of 500000000000000] round_even_int [of 750000000000000]
    by (simp_all add: significant_def scaled_def)
  moreover have "digit 0 = CHR ''0''" "digit 5 = CHR ''5''" "digit 7 = CHR ''7''" by code_simp+
  ultimately have texts: "format_g 15 (1 / 2) = ''0.5''" "format_g 15 (3 / 4) = ''0.75''"
    by (simp_all add: format_g_def fraction_text_def nat_digits.simps)
  have "of_int_double INT_MAX = Finite (of_int INT_MAX)" "of_int_double INT_MIN = Finite (of_int INT_MIN)"
    by (rule of_int_double_int, simp add: INT_MAX_def INT_MIN_def)+
  then have zero: "saturate (Finite (1 / 2)) = 0" "saturate (Finite (3 / 4)) = 0"
    by (simp_all add: saturate_def INT_MAX_def INT_MIN_def floor_eq_iff)
  show "print_number (cJSON_CreateNumber (Finite (1 / 2))) = Some ''0.5''"
    "print_number (cJSON_CreateNumber (Finite (3 / 4))) = Some ''0.75''"
    using of_int_double_int [of 0] st compare_double_refl texts zero by (simp_all add: print_number_def cJSON_CreateNumber_def)
qed

lemma sample_stats_exact: "double_stats sample_stats" "exact_stats sample_stats"
proof -
  show "double_stats sample_stats" unfolding sample_stats_def by (rule update_kb_doubles)
  show "exact_stats sample_stats"
    using sample_ratio_texts
    by (simp add: exact_stats_def sample_stats_values exact_number_def) (simp add: cJSON_CreateNumber_def)
qed

lemma sample_stats_object:
  "replace_stats sample_stats sample_stat_object =
     json_object [int_member ''Size'' 4, int_member ''SizeBeforeCompression'' 2, int_member ''SizeAfterCompression'' 1,
       number_member ''DeduplicationRatio'' (Finite (1 / 2)), number_member ''CompressionRatio'' (Finite (1 / 2)),
       number_member ''DataReductionRatio'' (Finite (3 / 4))]"
proof -
  have ints: "int_double 4 = of_int_double 4" "int_double 2 = of_int_double 2" "int_double 1 = of_int_double 1"
    by (simp_all add: int_double_def)
  have member: "int_member key i = number_member key (of_int_double i)" for key i
    by (simp add: int_member_def number_member_def)
  show ?thesis
    by (simp add: replace_stats_def stat_items_def sample_stats_values sample_stat_object_def json_object_def
      stat_keys_def replace_member named_apart_def put_member_def member tolower_def ints)
qed

lemma sample_stats_printed:
  "\<exists>f'. stat_save_arguments sample_stats (Some sample_stat_file) = Some (Inr f') \<and> length f' \<le> 1001"
proof -
  have ints: "to_string 4 = ''4''" "to_string 2 = ''2''" "to_string 1 = ''1''" "is_int 4" "is_int 2" "is_int 1"
    by code_simp+
  have ratio: "print_value True k (number_member key d) = print_number (cJSON_CreateNumber d)" for k key d
  proof -
    have "item_type (number_member key d) = cJSON_Number"
      by (simp add: number_member_def rename_def cJSON_CreateNumber_def)
    then have "print_value True k (number_member key d) = print_number (number_member key d)" by (rule print_value_number)
    also have "\<dots> = print_number (cJSON_CreateNumber d)"
      unfolding number_member_def rename_def print_number_def cJSON.sel by (rule refl)
    finally show ?thesis .
  qed
  have "\<exists>f'. cJSON_Print (replace_stats sample_stats sample_stat_object) = Some f' \<and> length f' \<le> 1001"
    unfolding sample_stats_object
    by (simp add: cJSON_Print_def json_object_def print_int_member ints ratio sample_ratio_texts
      print_string_ptr_def escape_def)
  then show ?thesis using sample_stat_file_parsed by (auto simp: stat_save_arguments_def)
qed

theorem stat_save_read_witness:
  "\<exists>f'. stat_save_arguments sample_stats (Some sample_stat_file) = Some (Inr f') \<and> length f' \<le> 1001 \<and>
     stat_parse_arguments stat_init (Some f') = Some (Inr sample_stats) \<and> total_size_kb sample_stats = 4 \<and>
     DRR sample_stats = Finite (3 / 4)"
proof -
  from sample_stats_printed obtain f' where
    f': "stat_save_arguments sample_stats (Some sample_stat_file) = Some (Inr f')" "length f' \<le> 1001" by blast
  with stat_save_read [OF sample_stat_file_parsed sample_stat_file_ok(1) sample_stats_exact(1), of stat_init]
    sample_stats_exact(2)
  show ?thesis by (intro exI [of _ f']) (auto simp: sample_stats_values)
qed

section \<open>Totals\<close>

lemma signed_take_bit_add_left:
  "signed_take_bit n (signed_take_bit n k + l) = signed_take_bit n (k + l)" for k l :: int
  using signed_take_bit_add [of n "signed_take_bit n k" l] by (simp add: signed_take_bit_add)

lemma signed_take_bit_add_right:
  "signed_take_bit n (k + signed_take_bit n l) = signed_take_bit n (k + l)" for k l :: int
  using signed_take_bit_add_left [of n l k] by (simp add: add.commute)

text \<open>
  The total is a sum modulo 2^32 read with a sign: after any list of backups the total
  size in KiB is the sum of their sizes only while that is below 2^31 (2 TiB); from there on
  it is negative, and with it the ratios that are computed from it are wrong.
\<close>

theorem stat_total_wraps:
  "sint (total_size_kb (fold (\<lambda>(s, b, a) st. update_kb st (of_int s) (of_int b) (of_int a)) backups stat_init)) =
    signed_take_bit 31 (sum_list (map fst backups))"
proof -
  have "sint (total_size_kb (fold (\<lambda>(s, b, a) st. update_kb st (of_int s) (of_int b) (of_int a)) backups st)) =
      signed_take_bit 31 (sint (total_size_kb st) + sum_list (map fst backups))" for st
  proof (induction backups arbitrary: st)
    case Nil
    then show ?case using sint_range_size [of "total_size_kb st"]
      by (simp add: signed_take_bit_int_eq_self word_size)
  next
    case (Cons backup backups)
    obtain s b a where backup: "backup = (s, b, a)" by (cases backup)
    have "sint (total_size_kb (update_kb st (of_int s) (of_int b) (of_int a))) =
        signed_take_bit 31 (sint (total_size_kb st) + s)"
      by (simp add: update_kb_def Let_def sint_word_add sint_sbintrunc' signed_take_bit_add_right)
    then show ?case
      using Cons.IH [of "update_kb st (of_int s) (of_int b) (of_int a)"]
      by (simp add: backup signed_take_bit_add_left add.assoc)
  qed
  from this [of stat_init] show ?thesis by (simp add: stat_init_def)
qed

end
