(* ===== verification/Program.thy ===== *)
theory Program
  imports Repository Merkle Pipeline Settings Stat
begin

text \<open>
  \<open>main\<close> of \<open>main.cpp\<close>: the configuration and the statistics are read, the chunking function
  is selected, and the task of the configuration runs on the files the configuration names.
  The files of a machine are a table from paths to contents, next to the directories the
  program lists and the statistics file, whose path is a constant. The two directories of a
  repository have different paths, and no file that is named on its own lies in one of them.
  SHA-1, MD5, the value of a finalised SHA-1 context, the destroyed paths of the Merkle tables
  and the initial contents of a buffer are parameters.
\<close>

section \<open>The machine\<close>

record world =
  files :: fs
  dirs :: "string \<Rightarrow> dir option"
  stat_text :: "string option"

definition repo_at :: "Config \<Rightarrow> world \<Rightarrow> repo" where
  "repo_at conf w =
     \<lparr>containers_dir = dirs w (container_path conf), recipes_dir = dirs w (file_recipe_path conf),
      fingerprints_file = files w (fingerprints_file_path conf)\<rparr>"

definition put_repo :: "Config \<Rightarrow> repo \<Rightarrow> world \<Rightarrow> world" where
  "put_repo conf r w =
     w\<lparr>files := (files w)(fingerprints_file_path conf := fingerprints_file r),
       dirs := (dirs w)(container_path conf := containers_dir r, file_recipe_path conf := recipes_dir r)\<rparr>"

text \<open>
  A run returns from \<open>main\<close>, or it has started the threads of the pipeline, whose schedule is
  not the program's.
\<close>

datatype outcome = Finished world | Threads "cdc job" "cdc pipeline"

section \<open>The tasks\<close>

definition run_write ::
    "(bytes \<Rightarrow> bytes) \<Rightarrow> (bytes \<Rightarrow> bytes) \<Rightarrow> string list \<Rightarrow> Config \<Rightarrow> chunking_fn \<Rightarrow> cdc \<Rightarrow> world \<Rightarrow>
     world result option" where
  "run_write sha1 again paths conf fn c w =
     (if merkle_tree conf
      then map_option (\<lambda>res. and_then res (\<lambda>(r, fs). Inr (put_repo conf r (w\<lparr>files := fs\<rparr>))))
        (task_write_merkle sha1 again (chunking fn) c paths (files w) (repo_at conf w) (files w (input_path conf)))
      else map_option (\<lambda>res. and_then res (\<lambda>r. Inr (put_repo conf r w)))
        (task_write sha1 (chunking fn) c (repo_at conf w) (files w (input_path conf))))"

text \<open>The statistics are saved at the end of a write.\<close>

definition save_stats :: "GlobalStat \<Rightarrow> world \<Rightarrow> outcome result option" where
  "save_stats st w =
     map_option (\<lambda>res. and_then res (\<lambda>s. Inr (Finished (w\<lparr>stat_text := Some s\<rparr>))))
       (stat_save_arguments st (stat_text w))"

definition run_restore :: "bytes \<Rightarrow> Config \<Rightarrow> world \<Rightarrow> world result" where
  "run_restore buf conf w =
     and_then (task_restore (rm conf) buf (repo_at conf w) (restore_version conf) (files w (restore_path conf)))
       (\<lambda>output. Inr (w\<lparr>files := (files w)(restore_path conf := output)\<rparr>))"

definition run_delete :: "Config \<Rightarrow> world \<Rightarrow> world result" where
  "run_delete conf w =
     and_then (task_delete (repo_at conf w) (restore_version conf)) (\<lambda>r. Inr (put_repo conf r w))"

definition main_task ::
    "(bytes \<Rightarrow> bytes) \<Rightarrow> (bytes \<Rightarrow> bytes) \<Rightarrow> (bytes \<Rightarrow> bytes) \<Rightarrow> string list \<Rightarrow> bytes \<Rightarrow>
     GlobalStat \<Rightarrow> Config \<Rightarrow> world \<Rightarrow> outcome result option" where
  "main_task sha1 md5 again paths buf st conf w =
     (if cm conf = FULL_FILE
      then Some (and_then (main_full_file sha1 conf (files w)) (\<lambda>(i, fs). Inr (Finished (w\<lparr>files := fs\<rparr>))))
      else case select_chunking md5 conf cdc_zero of
        None \<Rightarrow> Some (Inr (Finished w))
      | Some (fn, c) \<Rightarrow>
          (case tt conf of
             TASK_WRITE_PIPELINE \<Rightarrow>
               Some (and_then (start_phases md5 sha1 conf c (repo_at conf w) (files w (input_path conf)))
                 (\<lambda>(j, p). Inr (Threads j p)))
           | TASK_WRITE \<Rightarrow>
               (case run_write sha1 again paths conf fn c w of
                  None \<Rightarrow> None
                | Some (Inl e) \<Rightarrow> Some (Inl e)
                | Some (Inr w') \<Rightarrow> save_stats st w')
           | TASK_RESTORE \<Rightarrow> Some (and_then (run_restore buf conf w) (\<lambda>w'. Inr (Finished w')))
           | TASK_DELETE \<Rightarrow> Some (and_then (run_delete conf w) (\<lambda>w'. Inr (Finished w')))))"

definition main ::
    "(bytes \<Rightarrow> bytes) \<Rightarrow> (bytes \<Rightarrow> bytes) \<Rightarrow> (bytes \<Rightarrow> bytes) \<Rightarrow> string list \<Rightarrow> bytes \<Rightarrow>
     string option \<Rightarrow> world \<Rightarrow> outcome result option" where
  "main sha1 md5 again paths buf config_file w =
     (case parse_argument config_file of
        None \<Rightarrow> None
      | Some (Inl e) \<Rightarrow> Some (Inl e)
      | Some (Inr conf) \<Rightarrow>
          (case stat_parse_arguments stat_init (stat_text w) of
             None \<Rightarrow> None
           | Some (Inl e) \<Rightarrow> Some (Inl e)
           | Some (Inr st) \<Rightarrow> main_task sha1 md5 again paths buf st conf w))"

end
