(* ===== verification/Program_Correct.thy ===== *)
theory Program_Correct
  imports Program Compaction
begin

text \<open>
  Runs of the whole program on one repository: every version that a run of \<open>main\<close> has written
  and none has deleted is restored by a run of \<open>main\<close>; the length of a version number; the
  numbering of versions after a deletion.
\<close>

section \<open>Runs on one repository\<close>

definition same_repo :: "Config \<Rightarrow> Config \<Rightarrow> bool" where
  "same_repo conf P \<longleftrightarrow>
     container_path conf = container_path P \<and> file_recipe_path conf = file_recipe_path P \<and>
     fingerprints_file_path conf = fingerprints_file_path P"

definition version_count :: "repo \<Rightarrow> int" where
  "version_count r = int (length (entries (recipes_dir r)))"

lemma repo_at_same: "same_repo conf P \<Longrightarrow> repo_at conf w = repo_at P w"
  by (simp add: same_repo_def repo_at_def)

lemma repo_at_put:
  "container_path P \<noteq> file_recipe_path P \<Longrightarrow> same_repo conf P \<Longrightarrow> repo_at P (put_repo conf r w) = r"
  by (simp add: same_repo_def repo_at_def put_repo_def)

lemma repo_at_files:
  "fingerprints_file_path P \<noteq> p \<Longrightarrow> repo_at P (w\<lparr>files := (files w)(p := x)\<rparr>) = repo_at P w"
  by (simp add: repo_at_def)

lemma repo_at_stat [simp]: "repo_at P (w\<lparr>stat_text := x\<rparr>) = repo_at P w"
  by (simp add: repo_at_def)

text \<open>A run with the settings \<open>conf\<close> that returns.\<close>

definition run_of ::
    "(bytes \<Rightarrow> bytes) \<Rightarrow> (bytes \<Rightarrow> bytes) \<Rightarrow> (bytes \<Rightarrow> bytes) \<Rightarrow> string list \<Rightarrow> bytes \<Rightarrow>
     Config \<Rightarrow> world \<Rightarrow> world \<Rightarrow> bool" where
  "run_of sha1 md5 again paths buf conf w w' \<longleftrightarrow>
     (\<exists>file. parse_argument file = Some (Inr conf) \<and>
        main sha1 md5 again paths buf file w = Some (Inr (Finished w')))"

lemma main_returns:
  assumes "parse_argument file = Some (Inr conf)"
  shows "main sha1 md5 again paths buf file w = Some (Inr out) \<longleftrightarrow>
    (\<exists>st. stat_parse_arguments stat_init (stat_text w) = Some (Inr st) \<and>
       main_task sha1 md5 again paths buf st conf w = Some (Inr out))"
  by (simp add: main_def assms split: option.splits sum.splits)

lemma run_ofE:
  assumes "run_of sha1 md5 again paths buf conf w w'"
  obtains st where "main_task sha1 md5 again paths buf st conf w = Some (Inr (Finished w'))"
  using assms unfolding run_of_def by (auto simp: main_returns)

text \<open>What the tasks leave behind.\<close>

lemma write_task_returns:
  assumes "cm conf \<noteq> FULL_FILE" "tt conf = TASK_WRITE" "\<not> merkle_tree conf"
    and "select_chunking md5 conf cdc_zero = Some (fn, c)" "files w (input_path conf) = Some f"
    and "task_write sha1 (chunking fn) c (repo_at conf w) (Some f) = Some (Inr r')"
  shows "main_task sha1 md5 again paths buf st conf w = save_stats st (put_repo conf r' w)"
  using assms by (simp add: main_task_def run_write_def)

lemma save_stats_repo: "save_stats st w = Some (Inr (Finished w')) \<Longrightarrow> \<exists>s. w' = w\<lparr>stat_text := Some s\<rparr>"
  by (auto simp: save_stats_def and_then_eq_Inr)

lemma restore_task_returns:
  assumes "cm conf \<noteq> FULL_FILE" "tt conf = TASK_RESTORE"
  shows "main_task sha1 md5 again paths buf st conf w = Some (Inr (Finished w')) \<longleftrightarrow>
    (if select_chunking md5 conf cdc_zero = None then w' = w else run_restore buf conf w = Inr w')"
  using assms by (auto simp: main_task_def and_then_eq_Inr)

lemma delete_task_returns:
  assumes "cm conf \<noteq> FULL_FILE" "tt conf = TASK_DELETE"
  shows "main_task sha1 md5 again paths buf st conf w = Some (Inr (Finished w')) \<longleftrightarrow>
    (if select_chunking md5 conf cdc_zero = None then w' = w else run_delete conf w = Inr w')"
  using assms by (auto simp: main_task_def and_then_eq_Inr)

text \<open>
  The runs on the repository at the paths of \<open>P\<close>, and the files they have backed up: a write
  adds a version, a deletion takes one away, a restore changes neither.
\<close>

inductive history ::
    "(bytes \<Rightarrow> bytes) \<Rightarrow> (bytes \<Rightarrow> bytes) \<Rightarrow> (bytes \<Rightarrow> bytes) \<Rightarrow> string list \<Rightarrow> bytes \<Rightarrow>
     Config \<Rightarrow> world \<Rightarrow> (int \<rightharpoonup> bytes) \<Rightarrow> bool"
  for sha1 md5 again paths buf P where
  start: "repo_at P w = empty_repo \<Longrightarrow> history sha1 md5 again paths buf P w Map.empty"
| write_run: "history sha1 md5 again paths buf P w B \<Longrightarrow>
    run_of sha1 md5 again paths buf conf w w' \<Longrightarrow> same_repo conf P \<Longrightarrow> cm conf \<noteq> FULL_FILE \<Longrightarrow>
    tt conf = TASK_WRITE \<Longrightarrow> \<not> merkle_tree conf \<Longrightarrow> files w (input_path conf) = Some f \<Longrightarrow>
    select_chunking md5 conf cdc_zero = Some (fn, c) \<Longrightarrow> can_write sha1 fn c (repo_at P w) f ds \<Longrightarrow>
    collision_free sha1 (repo_contents (repo_at P w)) ds \<Longrightarrow>
    history sha1 md5 again paths buf P w' (B(version_count (repo_at P w) \<mapsto> f))"
| restore_run: "history sha1 md5 again paths buf P w B \<Longrightarrow>
    run_of sha1 md5 again paths buf conf w w' \<Longrightarrow> same_repo conf P \<Longrightarrow> cm conf \<noteq> FULL_FILE \<Longrightarrow>
    tt conf = TASK_RESTORE \<Longrightarrow> fingerprints_file_path P \<noteq> restore_path conf \<Longrightarrow>
    history sha1 md5 again paths buf P w' B"
| delete_run: "history sha1 md5 again paths buf P w B \<Longrightarrow>
    run_of sha1 md5 again paths buf conf w w' \<Longrightarrow> same_repo conf P \<Longrightarrow> cm conf \<noteq> FULL_FILE \<Longrightarrow>
    tt conf = TASK_DELETE \<Longrightarrow> 0 \<le> restore_version conf \<Longrightarrow> restore_version conf < 256 \<Longrightarrow>
    history sha1 md5 again paths buf P w' (B(restore_version conf := None))"

definition keeps :: "repo \<Rightarrow> (int \<rightharpoonup> bytes) \<Rightarrow> bool" where
  "keeps r B \<longleftrightarrow> (\<forall>v f. B v = Some f \<longrightarrow> version_data r v = Some f)"

lemma keepsD: "keeps r B \<Longrightarrow> B v = Some f \<Longrightarrow> version_data r v = Some f"
  by (simp add: keeps_def)

section \<open>Every operation keeps what is backed up\<close>

lemma write_keeps:
  assumes "can_write sha1 fn c r f ds" and "collision_free sha1 (repo_contents r) ds" and "keeps r B"
  shows "\<exists>r'. task_write sha1 (chunking fn) c r (Some f) = Some (Inr r') \<and> repo_ok sha1 r' \<and>
    keeps r' (B(version_count r \<mapsto> f))"
proof -
  from assms(1) obtain r' where w: "task_write sha1 (chunking fn) c r (Some f) = Some (Inr r')"
    "repo_ok sha1 r'" "repo_contents r' = fold (put_chunk sha1) ds (repo_contents r)"
    "version_fps r' = (version_fps r)(int (length (entries (recipes_dir r))) \<mapsto> map (fp_of sha1) ds)"
    by (rule can_write_task)
  have ok: "repo_ok sha1 r" using assms(1) by (simp add: can_write_def)
  have "version_data r' (version_count r) = Some f"
    using version_written [OF assms(2) w(3)] w(4) can_write_chunks(1) [OF assms(1)] by (simp add: version_count_def)
  moreover have "version_data r' v = version_data r v" if "v \<noteq> version_count r" for v
    using version_kept_write [OF ok w(3), of v] w(4) that by (simp add: version_count_def)
  ultimately show ?thesis using w(1,2) assms(3) by (auto simp: keeps_def)
qed

lemma delete_keeps:
  assumes "repo_ok sha1 r" and "keeps r B" and "0 \<le> v" "v < 256" and "task_delete r v = Inr r'"
  shows "repo_ok sha1 r' \<and> keeps r' (B(v := None))"
proof (cases "version_fps r v")
  case None
  then have "r' = r" using delete_missing assms(3,4,5) by blast
  then show ?thesis using assms(1,2) by (simp add: keeps_def)
next
  case (Some fps)
  from delete_version_spec [OF assms(1) this assms(3,4)] assms(5) have r': "repo_ok sha1 r'"
    "repo_contents r' = fold drop_chunk fps (repo_contents r)" "version_fps r' = (version_fps r)(v := None)" by auto
  then have "version_data r' u = version_data r u" if "u \<noteq> v" for u
    using version_kept_delete [OF r'(1,2), of u] that by simp
  then show ?thesis using r'(1) assms(2) by (auto simp: keeps_def)
qed

lemma history_keeps:
  assumes "history sha1 md5 again paths buf P w B" and "container_path P \<noteq> file_recipe_path P"
  shows "repo_ok sha1 (repo_at P w) \<and> keeps (repo_at P w) B"
  using assms(1)
proof (induction rule: history.induct)
  case (start w)
  then show ?case by (simp add: empty_repo_ok keeps_def)
next
  case (write_run w B conf w' f fn c ds)
  from write_keeps [OF write_run.hyps(9,10)] write_run.IH obtain r' where
    r': "task_write sha1 (chunking fn) c (repo_at P w) (Some f) = Some (Inr r')" "repo_ok sha1 r'"
    "keeps r' (B(version_count (repo_at P w) \<mapsto> f))" by blast
  from write_run.hyps(2) obtain st where "main_task sha1 md5 again paths buf st conf w = Some (Inr (Finished w'))"
    by (rule run_ofE)
  then have "save_stats st (put_repo conf r' w) = Some (Inr (Finished w'))"
    using write_task_returns [OF write_run.hyps(4-6,8,7)] r'(1) by (simp add: repo_at_same [OF write_run.hyps(3)])
  then have "repo_at P w' = r'"
    using repo_at_put [OF assms(2) write_run.hyps(3)] save_stats_repo by fastforce
  then show ?case using r'(2,3) by blast
next
  case (restore_run w B conf w')
  from restore_run.hyps(2) obtain st where "main_task sha1 md5 again paths buf st conf w = Some (Inr (Finished w'))"
    by (rule run_ofE)
  then have "repo_at P w' = repo_at P w"
    using restore_task_returns [OF restore_run.hyps(4,5)] repo_at_files [OF restore_run.hyps(6)]
    by (auto simp: run_restore_def and_then_eq_Inr split: if_splits)
  then show ?case using restore_run.IH by simp
next
  case (delete_run w B conf w')
  from delete_run.hyps(2) obtain st where "main_task sha1 md5 again paths buf st conf w = Some (Inr (Finished w'))"
    by (rule run_ofE)
  then consider "w' = w" | r' where "task_delete (repo_at P w) (restore_version conf) = Inr r'" "w' = put_repo conf r' w"
    using delete_task_returns [OF delete_run.hyps(4,5)] repo_at_same [OF delete_run.hyps(3)]
    by (auto simp: run_delete_def and_then_eq_Inr split: if_splits)
  then show ?case
  proof cases
    case 1
    then show ?thesis using delete_run.IH by (simp add: keeps_def)
  next
    case 2
    then have "repo_at P w' = r'" using repo_at_put [OF assms(2) delete_run.hyps(3)] by simp
    then show ?thesis
      using delete_keeps [OF _ _ delete_run.hyps(6,7) 2(1)] delete_run.IH by blast
  qed
qed

section \<open>Restoring what was written\<close>

text \<open>
  C2. What the program has backed up, the program gives back. Take a sequence of runs of
  \<open>main\<close> on one repository that starts empty, each with a configuration file of its own: writes
  by chunks, restores and deletions, where every write finds the repository as \<open>can_write\<close>
  demands at its time. That is: the version number and the container numbers it will use are
  free, the file is not empty, its chunks are shorter than 64 KiB, the counters and the index
  have room, and no two different chunks have the same SHA-1. (After the deletion of a version
  that is not the last one the next number is not free, and C7 shows the loss.) A version that
  was written and not deleted since, with a number below 256, is restored by a run of \<open>main\<close>
  with any of the three implemented algorithms: the output file, if it did not exist, holds
  exactly the bytes of the file that was written, and nothing else has changed. The containers
  and the recipes have different directories, and no restore writes to the file of the index.
\<close>

theorem history_restores:
  assumes "history sha1 md5 again paths buf P w B" and "container_path P \<noteq> file_recipe_path P"
    and "B (restore_version conf) = Some f" and "0 \<le> restore_version conf" "restore_version conf < 256"
    and "parse_argument file = Some (Inr conf)" and "same_repo conf P" and "tt conf = TASK_RESTORE"
    and "cm conf \<noteq> FULL_FILE" and "select_chunking md5 conf cdc_zero \<noteq> None" and "supported (rm conf)"
    and "files w (restore_path conf) = None" and "stat_parse_arguments stat_init (stat_text w) = Some (Inr st)"
  shows "main sha1 md5 again paths buf file w =
    Some (Inr (Finished (w\<lparr>files := (files w)(restore_path conf \<mapsto> f)\<rparr>)))"
proof -
  from history_keeps [OF assms(1,2)] have r: "repo_ok sha1 (repo_at P w)" "keeps (repo_at P w) B" by auto
  from restore_version_spec [OF r(1) keepsD [OF r(2) assms(3)] assms(4,5,11), of buf None]
  have "run_restore buf conf w = Inr (w\<lparr>files := (files w)(restore_path conf \<mapsto> f)\<rparr>)"
    by (simp add: run_restore_def repo_at_same [OF assms(7)] assms(12) buf_simps)
  then show ?thesis
    using assms(10,13) by (auto simp: main_returns [OF assms(6)] restore_task_returns [OF assms(9,8)])
qed

text \<open>A machine with an empty repository and a file of three bytes, and two configurations.\<close>

definition sample_paths_settings :: "cJSON list" where
  "sample_paths_settings =
     [string_member ''ChunkingMethod'' ''fsc'', int_member ''Size'' 512, string_member ''containersPath'' ''c'',
      string_member ''fileRecipesPath'' ''r'', string_member ''fingerprintsFilePath'' ''f'']"

definition sample_write_settings :: "cJSON list" where
  "sample_write_settings = [string_member ''Task'' ''write'', string_member ''InputFile'' ''in''] @ sample_paths_settings"

definition sample_restore_settings :: "cJSON list" where
  "sample_restore_settings =
     [string_member ''Task'' ''restore'', string_member ''RestorePath'' ''out'', string_member ''RestoreMethod'' ''chunk''] @
     sample_paths_settings"

definition sample_repo_paths :: Config where
  "sample_repo_paths =
     config_init\<lparr>cm := FSC, avg_chunk_size := 512, container_path := ''c'', file_recipe_path := ''r'',
       fingerprints_file_path := ''f''\<rparr>"

definition sample_world :: world where
  "sample_world =
     \<lparr>files = [''in'' \<mapsto> sample_file], dirs = [''c'' \<mapsto> [], ''r'' \<mapsto> []], stat_text = Some sample_stat_file\<rparr>"

lemma sample_512: "is_int 512" "to_string 512 = ''512''"
proof -
  have "digit 1 = CHR ''1''" "digit 2 = CHR ''2''" "digit 5 = CHR ''5''" by code_simp+
  then show "is_int 512" "to_string 512 = ''512''"
    by (simp_all add: to_string_def nat_digits.simps is_int_def INT_MIN_def INT_MAX_def)
qed

lemma settings_file:
  assumes "\<exists>t. cJSON_Print (json_object ms) = Some t \<and> length t \<le> 1001"
    and "survives CJSON_NESTING_LIMIT (json_object ms)" and "parse_params config_init (map entry_of ms) = Inr conf"
  shows "\<exists>file. parse_argument file = Some (Inr conf)"
proof -
  from assms(1) obtain t where t: "cJSON_Print (json_object ms) = Some t" "length t \<le> 1001" by blast
  have "cJSON_Parse (take 1001 t) = Some (Inr (Some (json_object ms)))"
    by (rule parsed_of_printed [OF t(1) assms(2) _ t(2)]) (simp add: json_object_def)
  from parse_argument_members [OF this] assms(3) show ?thesis by (auto simp: json_object_def)
qed

lemmas settings_print_simps =
  cJSON_Print_def json_object_def print_int_member sample_512 string_member_def print_string_ptr_def escape_def

lemma sample_write_config:
  "\<exists>file. parse_argument file = Some (Inr (sample_repo_paths\<lparr>tt := TASK_WRITE, input_path := ''in''\<rparr>))"
proof (rule settings_file)
  show "\<exists>t. cJSON_Print (json_object sample_write_settings) = Some t \<and> length t \<le> 1001"
    by (simp add: settings_print_simps sample_write_settings_def sample_paths_settings_def)
  show "survives CJSON_NESTING_LIMIT (json_object sample_write_settings)"
    by (simp add: sample_write_settings_def sample_paths_settings_def survives_json_object survives_string_member
      survives_int_member sample_512 is_text_def)
  show "parse_params config_init (map entry_of sample_write_settings) =
      Inr (sample_repo_paths\<lparr>tt := TASK_WRITE, input_path := ''in''\<rparr>)"
    by (simp add: sample_write_settings_def sample_paths_settings_def entry_of_def sample_512 parse_params_def
      set_param_def str_def taskTypeTrans_def cmTypeTrans_def config_init_def sample_repo_paths_def)
qed

lemma sample_restore_config:
  "\<exists>file. parse_argument file = Some (Inr (sample_repo_paths\<lparr>tt := TASK_RESTORE, restore_path := ''out'', rm := CHUNK_CACHE\<rparr>))"
proof (rule settings_file)
  show "\<exists>t. cJSON_Print (json_object sample_restore_settings) = Some t \<and> length t \<le> 1001"
    by (simp add: settings_print_simps sample_restore_settings_def sample_paths_settings_def)
  show "survives CJSON_NESTING_LIMIT (json_object sample_restore_settings)"
    by (simp add: sample_restore_settings_def sample_paths_settings_def survives_json_object survives_string_member
      survives_int_member sample_512 is_text_def)
  show "parse_params config_init (map entry_of sample_restore_settings) =
      Inr (sample_repo_paths\<lparr>tt := TASK_RESTORE, restore_path := ''out'', rm := CHUNK_CACHE\<rparr>)"
    by (simp add: sample_restore_settings_def sample_paths_settings_def entry_of_def sample_512 parse_params_def
      set_param_def str_def taskTypeTrans_def cmTypeTrans_def restoreMethodTrans_def config_init_def sample_repo_paths_def)
qed

lemma sample_stats_kept:
  "stat_parse_arguments stat_init (Some sample_stat_file) = Some (Inr stat_init)"
  "stat_save_arguments stat_init (Some sample_stat_file) = Some (Inr sample_stat_file)"
proof -
  let ?ms = "map (\<lambda>key. int_member key 0) stat_keys"
  have zero: "of_int_double 0 = Finite 0" "saturate (Finite 0) = 0"
    using of_int_double_int [of 0] saturate_int [of 0] by simp_all
  show "stat_parse_arguments stat_init (Some sample_stat_file) = Some (Inr stat_init)"
    by (simp add: stat_parse_arguments_def sample_stat_file_parsed sample_stat_object_def json_object_def stat_keys_def
      set_stat_def stat_init_def int_member_def rename_def cJSON_CreateNumber_def zero)
  have member: "int_member key 0 = number_member key (Finite 0)" for key
    by (simp add: int_member_def number_member_def zero)
  have same: "put_member key (Finite 0) ?ms = ?ms" if "key \<in> set stat_keys" for key
    using stat_keys_apart that by (auto simp: put_member_def member distinct_map dest: inj_onD)
  have "snd (cJSON_ReplaceItemInObject sample_stat_object key (cJSON_CreateNumber (Finite 0))) = sample_stat_object"
    if "key \<in> set stat_keys" for key
    using replace_member [of ?ms key] that sample_stat_file_ok(1) same [OF that]
    by (auto simp: sample_stat_object_def json_object_def stat_file_def)
  then have "replace_stats stat_init sample_stat_object = sample_stat_object"
    by (simp add: replace_stats_def stat_items_def stat_init_def int_double_def zero stat_keys_def)
  then show "stat_save_arguments stat_init (Some sample_stat_file) = Some (Inr sample_stat_file)"
    by (simp add: stat_save_arguments_def sample_stat_file_parsed sample_stat_file_printed)
qed

theorem history_restores_witness:
  "\<exists>wfile rfile w' w''.
     main sample_sha1 (\<lambda>x. x) (\<lambda>x. x) [] [] wfile sample_world = Some (Inr (Finished w')) \<and>
     main sample_sha1 (\<lambda>x. x) (\<lambda>x. x) [] [] rfile w' = Some (Inr (Finished w'')) \<and>
     files w'' ''out'' = Some sample_file"
proof -
  let ?main = "main sample_sha1 (\<lambda>x. x) (\<lambda>x. x) [] []" and ?P = sample_repo_paths
  let ?wconf = "?P\<lparr>tt := TASK_WRITE, input_path := ''in''\<rparr>"
  let ?rconf = "?P\<lparr>tt := TASK_RESTORE, restore_path := ''out'', rm := CHUNK_CACHE\<rparr>"
  obtain wfile rfile where conf: "parse_argument wfile = Some (Inr ?wconf)" "parse_argument rfile = Some (Inr ?rconf)"
    using sample_write_config sample_restore_config by blast
  have select: "select_chunking (\<lambda>x. x) c cdc_zero = Some (Fn_FSC_512, cdc_zero)" if "c = ?wconf \<or> c = ?rconf" for c
    using that by (auto simp: select_chunking_def sample_repo_paths_def)
  have r: "repo_at ?P sample_world = empty_repo"
    by (simp add: repo_at_def sample_world_def sample_repo_paths_def empty_repo_def)
  then have rw: "repo_at ?wconf sample_world = empty_repo" by (simp add: repo_at_def)
  define w' where "w' = (put_repo ?wconf sample_repo sample_world)\<lparr>stat_text := Some sample_stat_file\<rparr>"
  have "main_task sample_sha1 (\<lambda>x. x) (\<lambda>x. x) [] [] stat_init ?wconf sample_world =
      save_stats stat_init (put_repo ?wconf sample_repo sample_world)"
  proof (rule write_task_returns [OF _ _ _ select])
    show "task_write sample_sha1 (chunking Fn_FSC_512) cdc_zero (repo_at ?wconf sample_world) (Some sample_file) =
        Some (Inr sample_repo)"
      unfolding rw by (rule sample_written)
  qed (simp_all add: sample_repo_paths_def config_init_def sample_world_def)
  then have first: "?main wfile sample_world = Some (Inr (Finished w'))"
    by (simp add: main_returns [OF conf(1)] save_stats_def w'_def put_repo_def sample_world_def sample_stats_kept)
  have run: "run_of sample_sha1 (\<lambda>x. x) (\<lambda>x. x) [] [] ?wconf sample_world w'"
    using first conf(1) unfolding run_of_def by blast
  have can: "can_write sample_sha1 Fn_FSC_512 cdc_zero (repo_at ?P sample_world) sample_file [sample_file]"
    unfolding r by (rule sample_can_write) (simp_all add: sample_file_def)
  have "history sample_sha1 (\<lambda>x. x) (\<lambda>x. x) [] [] ?P w' (Map.empty(version_count (repo_at ?P sample_world) \<mapsto> sample_file))"
    by (rule history.write_run [OF history.start [OF r] run _ _ _ _ _ select can])
      (simp_all add: same_repo_def r empty_repo_parts collision_free_def,
        simp_all add: sample_repo_paths_def config_init_def sample_world_def)
  then have h: "history sample_sha1 (\<lambda>x. x) (\<lambda>x. x) [] [] ?P w' [0 \<mapsto> sample_file]"
    by (simp add: version_count_def r empty_repo_parts)
  have "?main rfile w' = Some (Inr (Finished (w'\<lparr>files := (files w')(restore_path ?rconf \<mapsto> sample_file)\<rparr>)))"
    by (rule history_restores [OF h _ _ _ _ conf(2), where st = stat_init])
      (simp_all add: select same_repo_def supported_def w'_def sample_stats_kept,
        simp_all add: sample_repo_paths_def config_init_def put_repo_def sample_world_def)
  then show ?thesis using first by fastforce
qed

section \<open>The numbers of versions\<close>

lemma write_chunk_recipe:
  "write_chunk sha1 w d = Inr w' \<Longrightarrow> file_recipe w' = file_recipe w @ [enc_fp (fp_of sha1 d)]"
  by (auto simp: write_chunk_cases saveChunkToContainer_def copy_chunk_def flush_container_def advance_def
      and_then_eq_Inr split: if_splits)

lemma write_chunks_recipe:
  "foldE (write_chunk sha1) w ds = Inr w' \<Longrightarrow>
    file_recipe w' = file_recipe w @ map enc_fp (map (fp_of sha1) ds)"
  by (induction ds arbitrary: w) (auto simp: and_then_eq_Inr dest: write_chunk_recipe)

text \<open>The recipe goes to the file whose number is the number of the recipes.\<close>

lemma task_write_recipe:
  assumes "task_write sha1 ck c r (Some f) = Some (Inr r')" and "file_chunks ck c f = Some (Inr (ds, c'))"
    and "recipes_dir r = Some rd"
  shows "recipes_dir r' =
    Some (put_file (recipe_name (int (length rd))) (concat (map enc_fp (map (fp_of sha1) ds))) rd)"
proof -
  from assms(1) obtain m d w where w: "foldE (write_chunk sha1) (writer_start m d) ds = Inr w"
    "write_end w (recipes_dir r) = Inr r'"
    by (auto simp: task_write_def write_blocks_fold [OF assms(2)] and_then_eq_Inr
        split: option.splits sum.splits)
  have "file_recipe w = map enc_fp (map (fp_of sha1) ds)"
    using write_chunks_recipe [OF w(1)] by (simp add: writer_start_def)
  moreover have "map (take SHA1_LENGTH) (map enc_fp fps) = map enc_fp fps" for fps
    by (simp add: fp_codec.width SHA1_LENGTH_def)
  ultimately show ?thesis
    using w(2) by (auto simp: write_end_cases saveFileRecipe_def getFilesNum_def and_then_eq_Inr assms(3) entries_def
        simp del: map_map split: if_splits)
qed

lemma drop_fps: "drop (k * 20) (concat (map enc_fp fps)) = concat (map enc_fp (drop k fps))"
proof (induction fps arbitrary: k)
  case (Cons fp fps)
  then show ?case by (cases k) (simp_all add: fp_codec.width)
qed simp

lemma file_fps_table: "file_fps (concat (map enc_fp fps)) = fps"
  using file_fps_concat [of "map enc_fp fps"] by (simp add: fp_codec.width fp_codec.dec_enc comp_def SHA1_LENGTH_def)

lemma length_update_old: "k \<in> fst ` set d \<Longrightarrow> length (AList.update k x d) = length d"
  by (induction d) auto

lemma length_remove_file:
  "distinct (map fst d) \<Longrightarrow> map_of d k \<noteq> None \<Longrightarrow> length (remove_file k d) = length d - 1"
proof (induction d)
  case (Cons e d)
  show ?case
  proof (cases "fst e = k")
    case True
    then have "k \<notin> fst ` set d" using Cons.prems(1) by auto
    then have "AList.delete k d = d" unfolding AList.delete_eq by (intro filter_True) (auto simp: image_iff)
    then show ?thesis using True by (cases e) (simp add: remove_file_def)
  next
    case False
    then have "map_of d k \<noteq> None" using Cons.prems(2) by (cases e) simp
    moreover from this have "length d > 0" by auto
    ultimately show ?thesis using Cons False by (cases e) (simp add: remove_file_def AList.delete_eq)
  qed
qed simp

text \<open>
  C7. Numbers are used twice after a deletion. A new version gets the number of recipes as its
  number. When a version other than the last has been deleted, that is the number of the last
  version, which still exists: the next write leaves the number of versions as it was and
  writes the new fingerprints over the first ones of the last version, so that this backup is
  lost and what its number now names is a mixture of the two.
\<close>

theorem delete_then_write_overwrites:
  assumes "repo_ok sha1 r" and "version_fps r v \<noteq> None" and "0 \<le> v" and "v < version_count r - 1"
    and "version_count r \<le> 256"
    and "map_of (entries (recipes_dir r)) (recipe_name (version_count r - 1)) = Some (concat (map enc_fp old))"
    and "task_delete r v = Inr r1" and "task_write sha1 ck c r1 (Some f) = Some (Inr r2)"
    and "file_chunks ck c f = Some (Inr (ds, c'))"
  shows "version_fps r1 (version_count r - 1) = Some old \<and> version_count r2 = version_count r1 \<and>
    version_fps r2 (version_count r - 1) = Some (map (fp_of sha1) ds @ drop (length ds) old)"
proof -
  from assms(1) obtain rd where rd: "recipes_dir r = Some rd" by (rule repo_okD)
  have dist: "distinct (map fst rd)" using repo_ok_parts(4) [OF assms(1)] by (simp add: recipes_ok_def rd entries_def)
  have v: "map_of rd (recipe_name v) \<noteq> None" using assms(2) by (auto simp: version_fps_def rd entries_def)
  let ?n = "version_count r - 1" and ?rd = "remove_file (recipe_name v) rd"
  have name: "getRecipeNameFromVersion (of_int v) = recipe_name v"
    using assms(3-5) by (simp add: getRecipeNameFromVersion_def uint_word_of_int)
  have rd1: "recipes_dir r1 = Some ?rd"
    using assms(7) v by (auto simp: task_delete_def and_then_eq_Inr fileRecipeExist_def name rd entries_def)
  have n: "int (length ?rd) = ?n"
    using length_remove_file [OF dist v] v by (cases rd) (auto simp: version_count_def rd entries_def)
  have last: "map_of ?rd (recipe_name ?n) = Some (concat (map enc_fp old))"
    using assms(4,6) by (simp add: map_of_remove_file rd entries_def)
  let ?new = "map (fp_of sha1) ds"
  have rd2: "recipes_dir r2 = Some (put_file (recipe_name ?n) (concat (map enc_fp ?new)) ?rd)"
    using task_write_recipe [OF assms(8,9) rd1] unfolding n .
  have len: "length (concat (map enc_fp ?new)) = length ds * 20"
    by (simp only: fp_codec.length_table length_map)
  have "overlay (concat (map enc_fp old)) 0 (concat (map enc_fp ?new)) =
      concat (map enc_fp ?new) @ drop (length (concat (map enc_fp ?new))) (concat (map enc_fp old))"
    by (simp add: overlay_def)
  also have "\<dots> = concat (map enc_fp (?new @ drop (length ds) old))"
    unfolding len drop_fps by simp
  finally have mixed: "map_of (put_file (recipe_name ?n) (concat (map enc_fp ?new)) ?rd) (recipe_name ?n) =
      Some (concat (map enc_fp (?new @ drop (length ds) old)))"
    by (simp only: map_of_put_file last option.case fun_upd_same)
  have "recipe_name ?n \<in> fst ` set ?rd" using last by (metis map_of_eq_None_iff option.distinct(1))
  then have "version_count r2 = version_count r1"
    by (simp add: version_count_def rd1 rd2 entries_def put_file_def length_update_old)
  moreover have "version_fps r1 ?n = Some old"
    by (simp only: version_fps_def rd1 entries_def option.case last option.map file_fps_table)
  moreover have "version_fps r2 ?n = Some (?new @ drop (length ds) old)"
    by (simp only: version_fps_def rd2 entries_def option.case mixed option.map file_fps_table)
  ultimately show ?thesis by blast
qed

text \<open>Two versions of one chunk each; version 0 is deleted and a known chunk is written.\<close>

lemma write_known_one:
  assumes "repo_ok sha1 r" and "f \<noteq> []" "length f \<le> 512" and "repo_contents r (fp_of sha1 f) \<noteq> None"
    and "recipes_dir r = Some (e # rd)"
  shows "\<exists>r'. task_write sha1 (chunking Fn_FSC_512) c r (Some f) = Some (Inr r')"
proof -
  from assms(1) obtain d rd' m where r: "containers_dir r = Some d" "recipes_dir r = Some rd'"
    "load_index r = Inr m" "mm_ok m" "fp_table_added m = []" "repo_index r = index m"
    "index m = map_of (fp_table_origin m)" by (rule repo_okD)
  have "fp_of sha1 f \<in> dom (repo_index r)"
    using assms(4) store_ok_dom [OF repo_ok_parts(1) [OF assms(1)]] by (auto simp: repo_contents_def)
  then obtain v where v: "index m (fp_of sha1 f) = Some v" by (auto simp: r(6))
  from addRefCnt_spec [OF r(4) v] obtain m' where "addRefCnt m (fp_of sha1 f) = Inr (ref_cnt v + 1, m')" by blast
  then show ?thesis
    using v by (simp add: task_write_one [OF assms(2,3) r(3,1)] write_chunk_cases writer_start_def count_chunk_def
      write_end_cases saveFileRecipe_def getFilesNum_def assms(5))
qed

theorem delete_then_write_overwrites_witness:
  "\<exists>r r1 r2. task_write sample_sha1 (chunking Fn_FSC_512) cdc_zero sample_repo (Some [9]) = Some (Inr r) \<and>
     task_delete r 0 = Inr r1 \<and> task_write sample_sha1 (chunking Fn_FSC_512) cdc_zero r1 (Some [9]) = Some (Inr r2) \<and>
     version_count r1 = 1 \<and> version_count r2 = 1"
proof -
  let ?fp = "fp_of sample_sha1 [9]"
  have n: "length (entries (recipes_dir sample_repo)) = 1" by (simp add: sample_repo_def entries_def)
  have can: "can_write sample_sha1 Fn_FSC_512 cdc_zero sample_repo [9] [[9]]" by (rule sample_can_write_again) simp_all
  obtain r where r:
      "task_write sample_sha1 (chunking Fn_FSC_512) cdc_zero sample_repo (Some [9]) = Some (Inr r)"
      "repo_ok sample_sha1 r" "repo_contents r = fold (put_chunk sample_sha1) [[9]] (repo_contents sample_repo)"
      "version_fps r = (version_fps sample_repo)(int 1 \<mapsto> map (fp_of sample_sha1) [[9]])"
      "length (entries (recipes_dir r)) = Suc 1"
    by (rule can_write_task [OF can, unfolded n])
  then have
    w: "task_write sample_sha1 (chunking Fn_FSC_512) cdc_zero sample_repo (Some [9]) = Some (Inr r)"
      "repo_ok sample_sha1 r" "repo_contents r = fold (put_chunk sample_sha1) [[9]] (repo_contents sample_repo)"
      "version_fps r = (version_fps sample_repo)(1 \<mapsto> [?fp])" "length (entries (recipes_dir r)) = 2"
    by simp_all
  have count: "version_count r = 2" by (simp add: version_count_def w(5))
  have "?fp \<noteq> sample_fp"
    by (simp add: sample_fp_def sample_sha1_inject array_prefix_def sample_file_def)
  then have known: "repo_contents r ?fp \<noteq> None" "version_fps r 0 = Some [sample_fp]" "version_fps r 1 = Some [?fp]"
    by (simp_all add: w(3,4) put_chunk_def sample_repo_spec(3,4))
  have rec: "recipes_dir r = Some (put_file (recipe_name 1) (concat (map enc_fp (map (fp_of sample_sha1) [[9]])))
      [(recipe_name 0, enc_fp sample_fp)])"
    using task_write_recipe [OF w(1) one_chunk, of "[(recipe_name 0, enc_fp sample_fp)]"] by (simp add: sample_repo_def)
  from delete_version_spec [OF w(2) known(2)] obtain r1 where
    r1: "task_delete r 0 = Inr r1" "repo_ok sample_sha1 r1"
      "repo_contents r1 = fold drop_chunk [sample_fp] (repo_contents r)" by auto
  let ?table = "concat (map enc_fp [?fp])"
  have rec': "recipes_dir r = Some [(recipe_name 0, enc_fp sample_fp), (recipe_name 1, ?table)]"
    using rec by (simp add: put_file_def buf_simps)
  have rec1: "recipes_dir r1 = Some [(recipe_name 1, ?table)]"
    using r1(1) by (auto simp: task_delete_def and_then_eq_Inr fileRecipeExist_def getRecipeNameFromVersion_def
      rec' entries_def remove_file_def)
  have "repo_contents r1 ?fp \<noteq> None"
    using known(1) \<open>?fp \<noteq> sample_fp\<close> unfolding r1(3)
    by (cases "repo_contents r sample_fp") (auto simp: drop_chunk_def)
  from write_known_one [OF r1(2) _ _ this rec1] obtain r2 where
    r2: "task_write sample_sha1 (chunking Fn_FSC_512) cdc_zero r1 (Some [9]) = Some (Inr r2)" by auto
  have "map_of (entries (recipes_dir r)) (recipe_name (version_count r - 1)) = Some ?table"
    by (simp add: rec' entries_def count)
  then have "version_count r2 = version_count r1"
    using delete_then_write_overwrites [where old = "[?fp]", OF w(2) _ _ _ _ _ r1(1) r2 one_chunk] known(2)
    by (simp add: count)
  then show ?thesis using w(1) r1(1) r2 by (auto simp: version_count_def rec1 entries_def)
qed

text \<open>
  C8. A version number has eight bits where a recipe is named: restoring or deleting version
  \<open>v + 256\<close> is restoring or deleting version \<open>v\<close>. So the 257th version is written, but asking for
  it restores the bytes of version 0, and deleting it deletes version 0.
\<close>

theorem version_number_truncated:
  assumes "can_write sha1 fn c r f ds" and "version_count r = 256" and "version_data r 0 = Some data"
    and "supported alg"
  shows "\<exists>r' r''. task_write sha1 (chunking fn) c r (Some f) = Some (Inr r') \<and>
    version_fps r' 256 = Some (map (fp_of sha1) ds) \<and>
    task_restore alg buf r' 256 None = Inr (Some data) \<and>
    task_delete r' 256 = Inr r'' \<and> version_fps r'' 0 = None \<and> version_fps r'' 256 = Some (map (fp_of sha1) ds)"
proof -
  from assms(1) obtain r' where w: "task_write sha1 (chunking fn) c r (Some f) = Some (Inr r')"
    "repo_ok sha1 r'" "repo_contents r' = fold (put_chunk sha1) ds (repo_contents r)"
    "version_fps r' = (version_fps r)(int (length (entries (recipes_dir r))) \<mapsto> map (fp_of sha1) ds)"
    by (rule can_write_task)
  have ok: "repo_ok sha1 r" using assms(1) by (simp add: can_write_def)
  have fps: "version_fps r' = (version_fps r)(256 \<mapsto> map (fp_of sha1) ds)"
    using w(4) assms(2) by (simp add: version_count_def)
  have data: "version_data r' 0 = Some data"
    using version_kept_write [OF ok w(3), of 0] fps assms(3) by simp
  then obtain old where old: "version_fps r' 0 = Some old" by (auto simp: version_data_def)
  from delete_version_spec [OF w(2) old] obtain r'' where r'': "task_delete r' 0 = Inr r''"
    "version_fps r'' = (version_fps r')(0 := None)" by auto
  have "task_restore alg buf r' 0 None = Inr (Some data)"
    using restore_version_spec [OF w(2) data _ _ assms(4), of buf None] by (simp add: buf_simps)
  moreover have "(of_int 256 :: 8 word) = of_int 0" by simp
  then have "task_restore alg buf r' 256 None = task_restore alg buf r' 0 None" "task_delete r' 256 = task_delete r' 0"
    unfolding task_restore_def task_delete_def by (simp_all only:)
  ultimately show ?thesis using w(1) fps r'' by auto
qed

text \<open>A repository with any number of copies of one file.\<close>

definition copies :: "nat \<Rightarrow> repo \<Rightarrow> bool" where
  "copies n r \<longleftrightarrow>
     repo_ok sample_sha1 r \<and> numbered r \<and> version_count r = int n \<and> version_data r 0 = Some sample_file \<and>
     repo_contents r = [sample_fp \<mapsto> (sample_file, n)] \<and> length (entries (containers_dir r)) = 2"

lemma copies_can_write:
  assumes "copies n r" and "n < 2 ^ 31"
  shows "can_write sample_sha1 Fn_FSC_512 cdc_zero r sample_file [sample_file]"
proof -
  have ok: "repo_ok sample_sha1 r" and c: "repo_contents r = [sample_fp \<mapsto> (sample_file, n)]"
    using assms(1) by (simp_all add: copies_def)
  have "dom (repo_contents r) = dom (repo_index r)"
    using store_ok_dom [OF repo_ok_parts(1) [OF ok]] by (simp flip: repo_contents_def)
  then have "dom (repo_index r) = {sample_fp}" by (simp add: c)
  moreover have "refs [sample_fp \<mapsto> (sample_file, n)] fp + 1 < 2 ^ 32" for fp
    using assms(2) by (simp add: refs_def)
  ultimately show ?thesis
    using assms(1) one_chunk [of sample_file cdc_zero] c
    by (simp add: copies_def can_write_def chunker_ok_def chunk_limit_def write_room_def short_chunks_def
        FILE_CACHE_def META_DATA_SIZE_def sample_file_def)
qed

lemma copies_Suc:
  assumes "copies n r" and "n < 2 ^ 31" and "0 < n"
  shows "\<exists>r'. copies (Suc n) r'"
proof -
  note can = copies_can_write [OF assms(1,2)]
  from can_write_task [OF can] obtain r' where r':
    "task_write sample_sha1 (chunking Fn_FSC_512) cdc_zero r (Some sample_file) = Some (Inr r')"
    "repo_ok sample_sha1 r'" "numbered r'"
    "repo_contents r' = fold (put_chunk sample_sha1) [sample_file] (repo_contents r)"
    "version_fps r' = (version_fps r)(int (length (entries (recipes_dir r))) \<mapsto> map (fp_of sample_sha1) [sample_file])"
    "length (entries (recipes_dir r')) = Suc (length (entries (recipes_dir r)))" by blast
  have n: "length (entries (recipes_dir r)) = n" using assms(1) by (simp add: copies_def version_count_def)
  have c: "repo_contents r = [sample_fp \<mapsto> (sample_file, n)]" using assms(1) by (simp add: copies_def)
  have "containers_dir r' = containers_dir r"
    using write_known_file [OF can _ r'(1)] by (simp add: c sample_fp_def)
  moreover have "repo_contents r' = [sample_fp \<mapsto> (sample_file, Suc n)]"
    by (simp add: r'(4) c put_chunk_def flip: sample_fp_def)
  moreover have "version_data r' 0 = version_data r 0"
    using version_kept_write [OF _ r'(4), of 0] assms(1,3) by (simp add: r'(5) n copies_def)
  ultimately show ?thesis
    using r'(2,3,6) assms(1) n by (intro exI [of _ r']) (simp add: copies_def version_count_def)
qed

lemma copies_exist: "n < 2 ^ 31 \<Longrightarrow> \<exists>r. copies (Suc n) r"
proof (induction n)
  case 0
  have "copies (Suc 0) sample_repo"
    using sample_repo_spec(1-3) sample_version
    by (simp add: copies_def version_count_def) (simp add: sample_repo_def entries_def)
  then show ?case by blast
next
  case (Suc n)
  then obtain r where "copies (Suc n) r" by auto
  from copies_Suc [OF this] Suc.prems show ?case by simp
qed

theorem version_number_truncated_witness:
  "\<exists>r r' r''. task_write sample_sha1 (chunking Fn_FSC_512) cdc_zero r (Some sample_file) = Some (Inr r') \<and>
     task_delete r' 256 = Inr r'' \<and> version_fps r'' 0 = None \<and> version_fps r'' 256 = Some [sample_fp]"
proof -
  obtain r where r: "copies (Suc 255) r" using copies_exist [of 255] by auto
  then have "can_write sample_sha1 Fn_FSC_512 cdc_zero r sample_file [sample_file]"
    by (rule copies_can_write) simp
  moreover have "version_count r = 256" "version_data r 0 = Some sample_file" using r by (simp_all add: copies_def)
  moreover have "supported FAA_FIXED" by (simp add: supported_def)
  ultimately show ?thesis
    using version_number_truncated [of sample_sha1 Fn_FSC_512 cdc_zero r sample_file "[sample_file]" sample_file FAA_FIXED "[]"]
    by (auto simp flip: sample_fp_def)
qed

section \<open>Empty files\<close>

text \<open>
  C9. An empty file breaks the write, and not without a trace: there is no chunk, so the process
  ends with a division by zero when it prints the average size of a chunk. By then the recipe
  and the index are saved, and what is left is a version without chunks, which the caches
  restore to nothing and which the forward assembly area, that takes the last index of the
  recipe for a number without sign, reads outside of the recipe for.
\<close>

theorem empty_file_breaks_write:
  assumes "repo_ok sha1 r" and "numbered r" and "version_count r < 256"
  shows "\<exists>m d r'. task_write sha1 ck c r (Some []) = Some (Inl DivideByZero) \<and>
    load_index r = Inr m \<and> containers_dir r = Some d \<and> write_files (writer_start m d) (recipes_dir r) = Inr r' \<and>
    containers_dir r' = containers_dir r \<and> version_fps r' (version_count r) = Some [] \<and>
    task_restore CONTAINER_CACHE buf r' (version_count r) None = Inr (Some []) \<and>
    task_restore CHUNK_CACHE buf r' (version_count r) None = Inr (Some []) \<and>
    task_restore FAA_FIXED buf r' (version_count r) None = Inl MemoryFault"
proof -
  from assms(1) obtain d rd m where r: "containers_dir r = Some d" "recipes_dir r = Some rd"
    "load_index r = Inr m" by (rule repo_okD)
  let ?n = "version_count r" and ?rd = "put_file (recipe_name (int (length rd))) [] rd"
  let ?r' = "\<lparr>containers_dir = Some d, recipes_dir = Some ?rd, fingerprints_file = Some (save m)\<rparr>"
  have n: "?n = int (length rd)" by (simp add: version_count_def r(2) entries_def)
  have free: "map_of rd (recipe_name ?n) = None"
    using assms(2) by (simp add: numbered_def version_fps_def version_count_def r(2) entries_def)
  have run: "task_write sha1 ck c r (Some []) = Some (Inl DivideByZero)"
    "write_files (writer_start m d) (recipes_dir r) = Inr ?r'"
    by (simp_all add: task_write_def r write_blocks.simps write_end_cases write_files_def writer_start_def
      saveFileRecipe_def getFilesNum_def entries_def)
  have empty: "map_of ?rd (recipe_name ?n) = Some []"
    using free by (simp add: n put_file_new)
  have name: "getRecipeNameFromVersion (of_int ?n) = recipe_name ?n"
    using assms(3) n by (simp add: getRecipeNameFromVersion_def uint_word_of_int del: of_int_of_nat_eq)
  obtain m' where m': "load_index ?r' = Inr m'" by (simp add: load_index_def getFilesNum_def)
  have restore: "task_restore alg buf ?r' ?n None =
      and_then (restore_bytes alg (map_of d) buf m' []) (\<lambda>data. Inr (Some data))" for alg
    using empty by (simp add: task_restore_def m' fileRecipeExist_def getFileRecipe_def name entries_def
      read_recipe.simps buf_simps)
  have "version_fps ?r' ?n = Some []"
    using empty by (simp add: version_fps_def entries_def file_fps_def read_recipe.simps)
  then show ?thesis
    using run r restore
    by (intro exI [of _ m] exI [of _ d] exI [of _ ?r'])
      (simp add: restore_bytes_def restore_with_cache_def restore_with_faa_def restorer_start_def
        flushAssemblingBuffer_def array_prefix_def)
qed

theorem empty_file_breaks_write_witness:
  "task_write sample_sha1 (chunking Fn_FSC_512) cdc_zero sample_repo (Some []) = Some (Inl DivideByZero)"
proof -
  have "version_count sample_repo < 256" by (simp add: version_count_def sample_repo_def entries_def)
  then show ?thesis using empty_file_breaks_write
      [OF sample_repo_spec(1,2), where ck = "chunking Fn_FSC_512" and c = cdc_zero and buf = "[]"] by blast
qed

end
