(* ===== verification/Spec2Isabelle.thy ===== *)
theory Spec2Isabelle
  imports Compaction Interrupt_Delete Sync_Queue Merkle_Correct Pipeline_Correct Json_Buffer Json_Duplicate Settings Stat Program_Correct
begin

text \<open>
  A verification library for cDedup, a deduplicating backup tool in C and C++.

  \<^bold>\<open>The program.\<close> \<open>main\<close> (\<open>src/main.cpp\<close>) reads a configuration and a file of statistics,
  both JSON, and runs one task. Writing cuts a file into chunks (\<open>src/fastcdc.cpp\<close>), looks the
  SHA-1 of each chunk up in an index (\<open>src/MetadataManager.cpp\<close>), appends unknown chunks to
  4 MiB containers and counts known ones, and leaves a recipe, the list of the fingerprints.
  Restoring follows a recipe through a cache of containers (\<open>src/ContainerCache.cpp\<close>), a cache
  of chunks (\<open>src/ChunkCache.cpp\<close>) or a forward assembly area (\<open>include/FAA.h\<close>). Deleting counts
  down and cuts chunks without a reference out of their containers. The same write exists as a
  pipeline of four threads (\<open>src/pipeline*.cpp\<close>) over shared queues (\<open>src/sync_queue.cpp\<close>,
  \<open>src/queue.cpp\<close>); a Merkle tree (\<open>src/merkle_tree.cpp\<close>) and the deduplication of whole files
  (\<open>src/full_file_deduplicater.cpp\<close>) are alternatives to looking up each chunk.

  \<^bold>\<open>Theories and code.\<close> A definition has the name of what it models; a record field that would
  clash with another name has a prefix.
  \<^item> \<open>Prelude\<close>, \<open>Codec\<close>: failures as values (\<open>failure\<close>, \<open>result\<close>), loops that fail (\<open>foldE\<close>),
    byte buffers (\<open>overlay\<close>, \<open>segment\<close>), decimal names, and the locale \<open>fixed_codec\<close> for
    structures copied as bytes, interpreted for integers, fingerprints, index entries and the
    entries of full-file mode.
  \<^item> \<open>FastCDC\<close>, \<open>Chunking\<close>: the gear tables, the CDC and FSC functions at 32 and 64 bits, their
    selection in \<open>main\<close> and in the pipeline, the chunk loop behind the locale \<open>chunker\<close>.
  \<^item> \<open>Double\<close>, \<open>Json\<close>: IEEE doubles with \<open>strtod\<close> and the \<open>%g\<close> format as \<open>cJSON\<close> uses them; the
    parser and the printer of \<open>utils/cJSON.c\<close>. \<open>Json_Correct\<close> shows that parsing returns and
    stays inside of the text, \<open>Json_Typed\<close> that its items are well typed, \<open>Json_Roundtrip\<close> that
    printing can be undone, \<open>Json_Numbers\<close> what happens to numbers, \<open>Json_Doubles\<close> that every double
    is printed as a text of at most 25 characters that is read as a number to its end.
  \<^item> \<open>Json_Api\<close>, \<open>Json_Api_Correct\<close>: the other calls of \<open>utils/cJSON.c\<close> on items as values: reading,
    creating, comparing, removing white space. \<open>Json_Buffer\<close>: the printer on its output array,
    which \<open>ensure\<close> lets grow, with the allocators behind the locale \<open>memory_hooks\<close>.
  \<^item> \<open>Json_Heap\<close>, \<open>Json_Tree\<close>, \<open>Json_Duplicate\<close>: items as nodes of a heap with the pointers \<open>next\<close>,
    \<open>prev\<close> and \<open>child\<close>; what changes the links, by position and by name, references, freeing and
    duplicating. \<open>seg\<close> and \<open>holds\<close> relate the nodes to lists and to the items of \<open>Json\<close>; the
    locale \<open>item_allocator\<close> is what \<open>malloc\<close> promises for a node.
  \<^item> \<open>Config\<close>, \<open>Settings\<close>, \<open>Stat\<close>: \<open>include/config.h\<close> on parameters and on the text of the file,
    \<open>include/global_stat.h\<close> and \<open>src/compressor.cpp\<close>.
  \<^item> \<open>Metadata\<close>: the index in memory and in its file. \<open>Store\<close>: directories, containers, recipes.
  \<^item> \<open>Write\<close>, \<open>Write_Correct\<close>, \<open>Write_Bounds\<close>: \<open>TASK_WRITE\<close>; the index agrees with the
    containers (\<open>store_ok\<close>), and writing a chunk is \<open>put_chunk\<close> on the abstract contents.
  \<^item> \<open>Ordered_Map\<close>, \<open>Caches\<close>, \<open>Restore\<close>, \<open>Restore_Correct\<close>: \<open>TASK_RESTORE\<close>; both caches
    interpret the locale \<open>chunk_source\<close>, on which the loop over the recipe rests.
  \<^item> \<open>Delete\<close>, \<open>Delete_Correct\<close>: \<open>TASK_DELETE\<close>; deleting a chunk is \<open>drop_chunk\<close>.
  \<^item> \<open>Repository\<close>: the invariant \<open>repo_ok\<close> over containers, recipes and index together, and what a
    write demands (\<open>can_write\<close>). \<open>Compaction\<close>: the containers that writes and deletions leave
    consist of referenced chunks only (\<open>compact\<close>, over the repositories that are \<open>built\<close>).
    \<open>Interrupt\<close>, \<open>Interrupt_Delete\<close>: the files after each system call of a write and of a deletion.
  \<^item> \<open>Queue\<close>, \<open>Sync_Queue\<close>: the linked queue in a heap, with \<open>malloc\<close> behind the locale
    \<open>allocator\<close>; mutex and condition variables as a step relation over any number of threads.
  \<^item> \<open>Pipeline\<close>, \<open>Pipeline_Correct\<close>: the four threads as state machines over bounded channels.
  \<^item> \<open>Full_File\<close>, \<open>Merkle\<close>, \<open>Merkle_Correct\<close>: the two alternatives.
  \<^item> \<open>Program\<close>, \<open>Program_Correct\<close>: \<open>main\<close> on the files of a machine, and sequences of runs.

  \<^bold>\<open>What is shown.\<close> The properties carry the numbers C1 to C40. The properties of a
  write are about one that finds the repository as \<open>can_write\<close> (in \<open>Repository\<close>) demands: the
  invariant holds; the next version number and the next container numbers are free
  (\<open>numbered\<close>: so it is in an empty repository and after a write, and a deletion of a version
  that is not the last one ends it); the file is not empty; the chunking ends and its chunks are
  shorter than 64 KiB; the counters and the index have room. With it, what is written is
  restored, by one task after another (C1) and by sequences of runs of the program in which
  every write meets this demand at its time (C2); writing and deleting refine counting
  references (C3, C4) and disturb no other version (C3, C5). In a repository that such writes and
  any deletions have made, no chunk and no byte is left that no version uses (C6). Known data
  is not stored again (C13). Versions fail in five ways: their numbers
  are used twice after a deletion (C7) and end at 256 (C8), an empty file breaks the write
  when its version is already there (C9), all are lost when a write is interrupted while it
  saves the index (C11), though not before (C10), and those that share a container with a chunk
  that a deletion frees are lost when the deletion is interrupted (C12). Chunking is
  characterised by its first cut point (C14 to C17). The pipeline is equivalent to the
  sequential task under every schedule (C18 to C20); the shared queue is a bounded channel and
  loses no wake-up (C21 to C23), the linked queue is a list (C24). C25 to C27 are about whole
  files, C28 to C30 about the Merkle tree. C31 to C38 are about JSON: printing and parsing (C31
  to C33), the chain of children and the members in the heap (C34, C35), duplicating (C36), the
  output array (C37, C38). C39 and C40 are about the configuration and the statistics.
  Properties that state a defect of the code say so in their text; the witnesses apply the
  others at concrete inputs.

  \<^bold>\<open>Bounds and loops.\<close> Machine integers keep their width. A loop whose end is not obvious is a
  \<open>partial_function\<close>, \<open>None\<close> where it does not return, and is shown to return: the chunk loops
  when every call cuts a nonempty piece, the loops of the parser because they move forward. The
  nesting of JSON values is a fuel of 1001 levels, which the limit of 1000 of \<open>cJSON\<close> never
  exhausts. Buffers are lists of what has been written; leaving them is \<open>MemoryFault\<close>. The
  capacities that the theorems need (16-bit chunk lengths, 32-bit counts, the 256 MiB that are
  read of an index, the 209715 fingerprints of a container) are gathered in \<open>can_write\<close>, and
  what happens behind them is a property where it can be reached with small data.

  \<^bold>\<open>Parameters.\<close> SHA-1 and MD5 of OpenSSL, LZ4, \<open>malloc\<close> for queue nodes, for items in the heap
  and, with \<open>realloc\<close>, for the array that is printed into, the digest of a
  finalised SHA-1 context, the contents of uninitialised buffers and of the destroyed strings
  that the Merkle branch uses as paths. Where different chunks must have different fingerprints,
  \<open>collision_free\<close> says so. The iteration order of \<open>unordered_map\<close> is that of the association
  lists; loading is shown for every order. \<open>load\<close> and \<open>save\<close> of the index flow off the end of a
  function that returns a value; they are treated as returning, like the compiled code without
  optimisation does.

  \<^bold>\<open>Not modelled.\<close> What the files hold when a run has failed, except C9, and when one was interrupted
  that neither writes nor deletes by the SHA-1 index or that runs the pipeline; failures of the kernel (full disks, permissions) and of allocation
  outside of the queue and of \<open>cJSON\<close>; paths through which two of the named files or directories
  are the same; printing, clocks and the counters that are only printed; \<open>setuid\<close>; the build with
  \<open>ENABLE_COMPRESSION\<close> in \<open>main\<close> (its two parts, the compressor and the update of the totals, are
  in \<open>Stat\<close>). Of \<open>cJSON\<close>: the sharing of texts between items and running out of memory for a
  text, \<open>cJSON_Version\<close>, the wrappers of \<open>malloc\<close> and \<open>free\<close>, a decimal point of the locale other than
  a dot. \<open>include/uthash.h\<close> is included and not used; the scripts and the benchmark are no part
  of the program.
\<close>

section \<open>Writing and restoring\<close>

text \<open>
  C1. What is written is what is restored. From a repository that satisfies the invariant
  and whose next numbers are free, a write of a non-empty file succeeds, and restoring the
  new version with any of the three implemented algorithms returns exactly the bytes of the
  file, provided no two different chunks (stored or new) have the same SHA-1, the chunks are
  shorter than 64 KiB and the counters have room.
\<close>

theorem restore_returns_what_was_written:
  assumes "can_write sha1 fn c r f ds" and "collision_free sha1 (repo_contents r) ds"
    and "supported alg" and "length (entries (recipes_dir r)) < 256"
  shows "\<exists>r'. task_write sha1 (chunking fn) c r (Some f) = Some (Inr r') \<and>
    task_restore alg buf r' (int (length (entries (recipes_dir r)))) None = Inr (Some f)"
proof -
  from assms(1) obtain r' where w: "task_write sha1 (chunking fn) c r (Some f) = Some (Inr r')"
    "repo_ok sha1 r'" "repo_contents r' = fold (put_chunk sha1) ds (repo_contents r)"
    "version_fps r' = (version_fps r)(int (length (entries (recipes_dir r))) \<mapsto> map (fp_of sha1) ds)"
    by (rule can_write_task)
  have "version_data r' (int (length (entries (recipes_dir r)))) = Some (concat ds)"
    using version_written [OF assms(2) w(3)] w(4) by simp
  from restore_version_spec [OF w(2) this _ _ assms(3), of buf None] assms(4) w(1)
  show ?thesis by (simp add: can_write_chunks(1) [OF assms(1)] buf_simps)
qed

theorem restore_returns_what_was_written_witness:
  "\<exists>r'. task_write sample_sha1 (chunking Fn_FSC_512) cdc_zero empty_repo (Some [1, 2, 3]) = Some (Inr r') \<and>
     task_restore FAA_FIXED [] r' 0 None = Inr (Some [1, 2, 3])"
  using restore_returns_what_was_written [of sample_sha1 Fn_FSC_512 cdc_zero empty_repo "[1, 2, 3]" "[[1, 2, 3]]"
      FAA_FIXED "[]"]
    sample_can_write [of "[1, 2, 3]" cdc_zero]
  by (simp add: empty_repo_parts collision_free_def supported_def)

text \<open>
  C4. A write that finds the repository as \<open>can_write\<close> demands (the invariant, the next version
  and container numbers free, room, a nonempty file in chunks below 64 KiB) keeps the
  invariant, leaves the next numbers free again and is, on the abstract state, one reference more for every chunk of the file: a new chunk appears with one reference, a
  known one is counted once more and keeps its bytes. The recipe of the new version lists
  the fingerprints of the chunks in order, and the other recipes are as before.
\<close>

theorem write_refines_put_chunk:
  assumes "can_write sha1 fn c r f ds"
  shows "\<exists>r'. task_write sha1 (chunking fn) c r (Some f) = Some (Inr r') \<and> repo_ok sha1 r' \<and> numbered r' \<and>
    repo_contents r' = fold (put_chunk sha1) ds (repo_contents r) \<and>
    version_fps r' = (version_fps r)(int (length (entries (recipes_dir r))) \<mapsto> map (fp_of sha1) ds)"
  using can_write_task [OF assms] by blast

theorem write_refines_put_chunk_witness:
  "\<exists>r'. task_write sample_sha1 (chunking Fn_FSC_512) cdc_zero empty_repo (Some [7]) = Some (Inr r') \<and>
     repo_contents r' (fp_of sample_sha1 [7]) = Some ([7], 1)"
  using write_refines_put_chunk [OF sample_can_write [of "[7]" cdc_zero]]
  by (auto simp: put_chunk_def empty_repo_parts)

text \<open>
  C5. A write that finds the repository as \<open>can_write\<close> demands does not disturb the versions that
  are there: each one below 256 is restored to the same bytes afterwards, with every supported
  algorithm. The demand matters: the next version number and the next container numbers must be
  free, and they are not after the deletion of a version that is not the last one, where the
  write overwrites the last version (C7); there must be room in the counters and in the index;
  the file must not be empty (C9) and its chunks must be shorter than 64 KiB. No assumption on
  SHA-1 is needed.
\<close>

theorem write_keeps_old_versions:
  assumes "can_write sha1 fn c r f ds" and "version_data r v = Some data" and "0 \<le> v" "v < 256"
    and "supported alg"
  shows "\<exists>r'. task_write sha1 (chunking fn) c r (Some f) = Some (Inr r') \<and>
    task_restore alg buf r' v None = Inr (Some data) \<and>
    task_restore alg buf r v None = Inr (Some data)"
proof -
  from assms(1) obtain r' where w: "task_write sha1 (chunking fn) c r (Some f) = Some (Inr r')"
    "repo_ok sha1 r'" "repo_contents r' = fold (put_chunk sha1) ds (repo_contents r)"
    "version_fps r' = (version_fps r)(int (length (entries (recipes_dir r))) \<mapsto> map (fp_of sha1) ds)"
    by (rule can_write_task)
  have ok: "repo_ok sha1 r" "numbered r" using assms(1) by (auto simp: can_write_def)
  have "v \<noteq> int (length (entries (recipes_dir r)))"
    using assms(2) ok(2) by (auto simp: numbered_def version_data_def)
  then have "version_data r' v = Some data"
    using version_kept_write [OF ok(1) w(3), of v] assms(2) w(4) by simp
  from restore_version_spec [OF w(2) this assms(3,4,5), of buf None]
    restore_version_spec [OF ok(1) assms(2,3,4,5), of buf None] w(1)
  show ?thesis by (simp add: buf_simps)
qed

theorem write_keeps_old_versions_witness:
  "\<exists>r'. task_write sample_sha1 (chunking Fn_FSC_512) cdc_zero sample_repo (Some [9]) = Some (Inr r') \<and>
     task_restore CHUNK_CACHE [] r' 0 None = Inr (Some sample_file)"
  using write_keeps_old_versions [OF sample_can_write_again [of "[9]" cdc_zero] sample_version, of CHUNK_CACHE "[]"]
  by (auto simp: supported_def)

text \<open>
  C13. Writing data that is already stored adds nothing to the containers: when every chunk
  of the file is known and the write finds the repository as \<open>can_write\<close> demands, it leaves the
  container directory exactly as it was.
\<close>

theorem known_chunks_are_not_stored_again:
  assumes "can_write sha1 fn c r f ds" and "fp_of sha1 ` set ds \<subseteq> dom (repo_contents r)"
  shows "\<exists>r'. task_write sha1 (chunking fn) c r (Some f) = Some (Inr r') \<and> containers_dir r' = containers_dir r"
  using can_write_task [OF assms(1)] write_known_file [OF assms] by blast

theorem known_chunks_are_not_stored_again_witness:
  "\<exists>r'. task_write sample_sha1 (chunking Fn_FSC_512) cdc_zero sample_repo (Some sample_file) = Some (Inr r') \<and>
     containers_dir r' = containers_dir sample_repo"
  using known_chunks_are_not_stored_again [OF sample_can_write_again [of sample_file cdc_zero]]
  by (simp add: sample_repo_spec(3) sample_fp_def sample_file_def)

section \<open>Deleting\<close>

text \<open>
  C3. Deleting a version keeps the invariant, removes its recipe and drops one reference of
  every chunk it lists; a chunk goes when its last reference goes. Every other version is
  restored to the same bytes as before, although the chunks behind a removed one have moved
  inside their container.
\<close>

theorem delete_keeps_other_versions:
  assumes "repo_ok sha1 r" and "version_fps r v = Some fps" and "0 \<le> v" "v < 256"
    and "version_data r v' = Some data" and "v' \<noteq> v" and "0 \<le> v'" "v' < 256" and "supported alg"
  shows "\<exists>r'. task_delete r v = Inr r' \<and> repo_ok sha1 r' \<and> version_fps r' v = None \<and>
    repo_contents r' = fold drop_chunk fps (repo_contents r) \<and>
    task_restore alg buf r v' None = Inr (Some data) \<and>
    task_restore alg buf r' v' None = Inr (Some data)"
proof -
  from delete_version_spec [OF assms(1-4)] obtain r' where r': "task_delete r v = Inr r'" "repo_ok sha1 r'"
    "repo_contents r' = fold drop_chunk fps (repo_contents r)" "version_fps r' = (version_fps r)(v := None)"
    by blast
  have "version_data r' v' = Some data"
    using version_kept_delete [OF r'(2,3), of v'] assms(5,6) r'(4) by simp
  from restore_version_spec [OF r'(2) this assms(7-9), of buf None]
    restore_version_spec [OF assms(1,5,7-9), of buf None] r'
  show ?thesis by (simp add: buf_simps)
qed

theorem delete_keeps_other_versions_witness:
  "\<exists>r2 r3. task_write sample_sha1 (chunking Fn_FSC_512) cdc_zero sample_repo (Some [9]) = Some (Inr r2) \<and>
     task_delete r2 0 = Inr r3 \<and> version_fps r3 0 = None \<and>
     task_restore CONTAINER_CACHE [] r3 1 None = Inr (Some [9])"
proof -
  have n: "length (entries (recipes_dir sample_repo)) = 1" by (simp add: sample_repo_def entries_def)
  from can_write_task [OF sample_can_write_again [of "[9]" cdc_zero]] obtain r2 where
    w: "task_write sample_sha1 (chunking Fn_FSC_512) cdc_zero sample_repo (Some [9]) = Some (Inr r2)"
      "repo_ok sample_sha1 r2" "repo_contents r2 = fold (put_chunk sample_sha1) [[9]] (repo_contents sample_repo)"
      "version_fps r2 = (version_fps sample_repo)(1 \<mapsto> [fp_of sample_sha1 [9]])"
    unfolding n by auto
  have "fp_of sample_sha1 [9] \<noteq> sample_fp"
    by (simp add: sample_fp_def sample_sha1_inject array_prefix_def sample_file_def)
  then have "collision_free sample_sha1 (repo_contents sample_repo) [[9]]"
    by (simp add: collision_free_def sample_repo_spec(3))
  from version_written [OF this w(3), of 1] have "version_data r2 1 = Some [9]" by (simp add: w(4))
  moreover have "version_fps r2 0 = Some [sample_fp]" by (simp add: w(4) sample_repo_spec(4))
  ultimately show ?thesis
    using delete_keeps_other_versions [OF w(2), of 0 "[sample_fp]" 1 "[9]" CONTAINER_CACHE "[]"] w(1)
    by (auto simp: supported_def)
qed

text \<open>
  C6. Deleting a version leaves no garbage. Take any repository that writes (each with
  \<open>can_write\<close>) and deletions have made of an empty one, in any order. After deleting one of its
  versions the index has the chunks that a remaining recipe uses and no other, each counted as
  often as it is used; every byte of every container lies in exactly one of these chunks; no
  container file is empty, and a list of fingerprints exists only for a container with a chunk.
  So no byte of the deleted version is left that no other version needs, which fails when
  \<open>del_seg\<close> does not cut the bytes of a chunk out of its container.
\<close>

theorem delete_leaves_no_garbage:
  assumes "built sha1 r" and "version_fps r v = Some fps" and "0 \<le> v" "v < 256"
  shows "\<exists>r'. task_delete r v = Inr r' \<and> built sha1 r' \<and>
    (\<forall>fp e. repo_index r' fp = Some e \<longrightarrow>
       0 < uses (entries (recipes_dir r')) fp \<and> chunk_at (stored r') e \<noteq> None) \<and>
    (\<forall>fp. refs (repo_contents r') fp = uses (entries (recipes_dir r')) fp) \<and>
    (\<forall>k f i. stored r' (container_name k) = Some f \<and> i < length f \<longrightarrow>
       (\<exists>!fp. \<exists>e. repo_index r' fp = Some e \<and> occupies e k i)) \<and>
    (\<forall>k. stored r' (container_name k) \<noteq> Some []) \<and>
    (\<forall>k. stored r' (rev_name k) \<noteq> None \<longrightarrow>
       (\<exists>fp e. repo_index r' fp = Some e \<and> uint (container_number e) = k))"
proof -
  have ok: "repo_ok sha1 r" using built_ok [OF assms(1)] by simp
  from delete_version_spec [OF this assms(2-4)] obtain r' where run: "task_delete r v = Inr r'" by blast
  have built: "built sha1 r'" by (rule built_delete [OF assms(1,3,4) run])
  then have ok': "repo_ok sha1 r'" "compact_repo r'" using built_ok by auto
  show ?thesis
    using run built index_used [OF ok'(1)] repo_ok_parts(5) [OF ok'(1)] compact_bytes [OF ok'] compact_files [OF ok'(2)]
    by (intro exI [of _ r'] conjI allI impI) auto
qed

theorem delete_leaves_no_garbage_witness:
  "\<exists>r2 r3. task_write sample_sha1 (chunking Fn_FSC_512) cdc_zero sample_repo (Some [9]) = Some (Inr r2) \<and>
     task_delete r2 0 = Inr r3 \<and>
     (\<forall>k f i. stored r3 (container_name k) = Some f \<and> i < length f \<longrightarrow>
       (\<exists>e. repo_index r3 (fp_of sample_sha1 [9]) = Some e \<and> occupies e k i))"
proof -
  let ?fp = "fp_of sample_sha1 [9]"
  have can: "can_write sample_sha1 Fn_FSC_512 cdc_zero sample_repo [9] [[9]]"
    by (rule sample_can_write_again) simp_all
  have n: "length (entries (recipes_dir sample_repo)) = 1" by (simp add: sample_repo_def entries_def)
  from can_write_task [OF can] obtain r2 where
    w: "task_write sample_sha1 (chunking Fn_FSC_512) cdc_zero sample_repo (Some [9]) = Some (Inr r2)"
      "repo_ok sample_sha1 r2" "repo_contents r2 = fold (put_chunk sample_sha1) [[9]] (repo_contents sample_repo)"
      "version_fps r2 = (version_fps sample_repo)(1 \<mapsto> [?fp])"
    unfolding n by auto
  have v0: "version_fps r2 0 = Some [sample_fp]" by (simp add: w(4) sample_repo_spec(4))
  from delete_leaves_no_garbage [OF built_write [OF sample_built can w(1)] v0] obtain r3 where
    r3: "task_delete r2 0 = Inr r3" "\<And>fp e. repo_index r3 fp = Some e \<Longrightarrow> 0 < uses (entries (recipes_dir r3)) fp"
      "\<And>fp. refs (repo_contents r3) fp = uses (entries (recipes_dir r3)) fp"
      "\<And>k f i. stored r3 (container_name k) = Some f \<Longrightarrow> i < length f \<Longrightarrow>
        \<exists>!fp. \<exists>e. repo_index r3 fp = Some e \<and> occupies e k i" by auto
  have ne: "?fp \<noteq> sample_fp"
    by (simp add: sample_fp_def sample_sha1_inject array_prefix_def sample_file_def)
  have "repo_contents r3 = [?fp \<mapsto> ([9], 1)]"
    using delete_version_spec [OF w(2) v0] r3(1) ne
    by (auto simp: w(3) sample_repo_spec(3) drop_chunk_def put_chunk_def fun_eq_iff)
  then have "fp = ?fp" if "repo_index r3 fp = Some e" for fp e
    using r3(2) [OF that] r3(3) [of fp] by (auto simp: refs_def split: if_splits)
  then have "\<exists>e. repo_index r3 ?fp = Some e \<and> occupies e k i"
    if "stored r3 (container_name k) = Some f" "i < length f" for k f i
    using r3(4) [OF that] by metis
  then show ?thesis using w(1) r3(1) by blast
qed

end
